(* ===== verification/HFT_Prelude.thy ===== *)
theory HFT_Prelude
  imports Main "HOL-Library.Word" "HOL-Library.Monad_Syntax"
begin

text \<open>
  Shared vocabulary of the development: the machine-integer types of the engine, checked
  access to a \<open>std::vector\<close> (an access out of range has no defined behaviour in C++, so it
  has no result here: \<open>None\<close>), and the generic facts on lists and words the component
  theories use.
\<close>

unbundle bit_operations_syntax

named_theorems vec_simps \<open>reading and writing vectors\<close>
named_theorems list_upd \<open>lists updated at one index\<close>

section \<open>Machine integers\<close>

type_synonym u8 = "8 word"
type_synonym u32 = "32 word"
type_synonym u64 = "64 word"

section \<open>Checked vector access\<close>

definition vec_get :: "'a list \<Rightarrow> nat \<Rightarrow> 'a option" where
  "vec_get xs i = (if i < length xs then Some (xs ! i) else None)"

definition vec_set :: "'a list \<Rightarrow> nat \<Rightarrow> 'a \<Rightarrow> 'a list option" where
  "vec_set xs i v = (if i < length xs then Some (xs[i := v]) else None)"

lemma vec_get_in [vec_simps]: "i < length xs \<Longrightarrow> vec_get xs i = Some (xs ! i)"
  by (simp add: vec_get_def)

lemma vec_set_in [vec_simps]: "i < length xs \<Longrightarrow> vec_set xs i v = Some (xs[i := v])"
  by (simp add: vec_set_def)

lemma vec_get_Some_iff: "vec_get xs i = Some v \<longleftrightarrow> i < length xs \<and> xs ! i = v"
  by (auto simp: vec_get_def)

lemma vec_set_Some_iff: "vec_set xs i v = Some ys \<longleftrightarrow> i < length xs \<and> ys = xs[i := v]"
  by (auto simp: vec_set_def)

section \<open>The first and last element, with a default\<close>

definition hd_or :: "'a \<Rightarrow> 'a list \<Rightarrow> 'a" where
  "hd_or d xs = (case xs of [] \<Rightarrow> d | x # _ \<Rightarrow> x)"

definition last_or :: "'a \<Rightarrow> 'a list \<Rightarrow> 'a" where
  "last_or d xs = (if xs = [] then d else last xs)"

lemma hd_or_simps [simp]: "hd_or d [] = d" "hd_or d (x # xs) = x"
  by (simp_all add: hd_or_def)

lemma hd_or_append [simp]: "hd_or d (xs @ ys) = hd_or (hd_or d ys) xs"
  by (cases xs) simp_all

lemma last_or_simps [simp]: "last_or d [] = d" "last_or d (xs @ [x]) = x"
  "last_or d (x # xs) = last_or x xs"
  by (simp_all add: last_or_def)

lemma last_or_append [simp]: "last_or d (xs @ ys) = last_or (last_or d xs) ys"
  by (simp add: last_or_def)

lemma hd_or_cases: "hd_or d xs = d \<or> hd_or d xs \<in> set xs"
  by (cases xs) simp_all

lemma last_or_cases: "last_or d xs = d \<or> last_or d xs \<in> set xs"
  by (simp add: last_or_def)

lemma hd_or_eq_iff: "d \<notin> set xs \<Longrightarrow> hd_or d xs = d \<longleftrightarrow> xs = []"
  by (cases xs) auto

section \<open>Lists of queues updated at one index\<close>

lemma split_nth: "i < length xs \<Longrightarrow> xs = take i xs @ xs ! i # drop (Suc i) xs"
  by (rule id_take_nth_drop)

lemma concat_split [list_upd]:
  "i < length q \<Longrightarrow> concat q = concat (take i q) @ q ! i @ concat (drop (Suc i) q)"
  by (subst (1) id_take_nth_drop [of i q]) simp_all

lemma concat_upd [list_upd]:
  "i < length q \<Longrightarrow> concat (q[i := v]) = concat (take i q) @ v @ concat (drop (Suc i) q)"
  by (simp add: upd_conv_take_nth_drop)

lemma concat_rev_split [list_upd]:
  "i < length q \<Longrightarrow>
   concat (rev q) = concat (rev (drop (Suc i) q)) @ q ! i @ concat (rev (take i q))"
  by (subst (1) id_take_nth_drop [of i q]) simp_all

lemma concat_rev_upd [list_upd]:
  "i < length q \<Longrightarrow>
   concat (rev (q[i := v])) = concat (rev (drop (Suc i) q)) @ v @ concat (rev (take i q))"
  by (simp add: upd_conv_take_nth_drop)

lemma concat_Nil_iff: "concat q = [] \<longleftrightarrow> (\<forall>i < length q. q ! i = [])"
  by (metis concat_eq_Nil_conv in_set_conv_nth)

lemma concat_take_Nil: "i \<le> length q \<Longrightarrow> (\<And>j. j < i \<Longrightarrow> q ! j = []) \<Longrightarrow> concat (take i q) = []"
  by (auto simp: concat_eq_Nil_conv in_set_conv_nth)

lemma concat_drop_Nil:
  "(\<And>j. i \<le> j \<Longrightarrow> j < length q \<Longrightarrow> q ! j = []) \<Longrightarrow> concat (drop i q) = []"
  by (auto simp: concat_eq_Nil_conv in_set_conv_nth)

lemma in_concat_nth: "x \<in> set (concat q) \<longleftrightarrow> (\<exists>i < length q. x \<in> set (q ! i))"
  by (simp add: set_concat) (metis in_set_conv_nth)

lemma nth_in_concat: "i < length q \<Longrightarrow> x \<in> set (q ! i) \<Longrightarrow> x \<in> set (concat q)"
  by (auto simp: in_concat_nth)

lemma set_concat_nth_upd:
  "i < length q \<Longrightarrow> x \<in> set (concat (q[i := v])) \<longleftrightarrow>
   x \<in> set v \<or> (\<exists>j < length q. j \<noteq> i \<and> x \<in> set (q ! j))"
  by (subst in_concat_nth) (auto simp: nth_list_update)

lemma distinct_concat_nth:
  "distinct (concat q) \<Longrightarrow> i < length q \<Longrightarrow> distinct (q ! i)"
  by (simp add: concat_split)

lemma distinct_concat_disjoint:
  assumes "distinct (concat q)" "i < length q" "j < length q" "i \<noteq> j"
  shows "set (q ! i) \<inter> set (q ! j) = {}"
proof (cases "i < j")
  case True
  have "q ! j \<in> set (drop (Suc i) q)"
    using True assms(3) by (auto simp: in_set_conv_nth intro!: exI [of _ "j - Suc i"])
  with assms(1,2) show ?thesis by (auto simp: concat_split)
next
  case False
  have "q ! j \<in> set (take i q)"
    using False assms by (auto simp: in_set_conv_nth intro!: exI [of _ j])
  with assms(1,2) show ?thesis by (auto simp: concat_split)
qed

section \<open>Words as indices and counters\<close>

lemma unat_inj_iff: "unat x = unat y \<longleftrightarrow> x = (y :: 'a::len word)"
  by (simp add: word_unat_eq_iff)

lemma nth_upd_unat [list_upd]:
  "unat (x :: 'a::len word) < length xs \<Longrightarrow>
   xs[unat x := v] ! unat y = (if x = y then v else xs ! unat y)"
  by (auto simp: nth_list_update unat_inj_iff)

lemma unat_max_less: "unat (x :: u32) < 2 ^ 32"
  using unsigned_less [of x] by simp

text \<open>A sum of 64-bit words that stays below \<open>2\<^sup>6\<^sup>4\<close> is the sum of the numbers.\<close>

lemma unat_sum_list_64:
  assumes "(\<Sum>x\<leftarrow>xs. unat (f x)) < 2 ^ 64"
  shows "unat (\<Sum>x\<leftarrow>xs. f x :: u64) = (\<Sum>x\<leftarrow>xs. unat (f x))"
  using assms
proof (induction xs)
  case (Cons x xs)
  then have IH: "unat (\<Sum>x\<leftarrow>xs. f x) = (\<Sum>x\<leftarrow>xs. unat (f x))" by simp
  have "unat (f x + (\<Sum>x\<leftarrow>xs. f x)) = unat (f x) + unat (\<Sum>x\<leftarrow>xs. f x)"
    using Cons.prems IH by (subst unat_add_lem [symmetric]) simp_all
  with IH show ?case by simp
qed simp

text \<open>At most \<open>2\<^sup>3\<^sup>2\<close> quantities of 32 bits fit a 64-bit accumulator.\<close>

lemma sum_list_u32_bound:
  assumes "length xs < 2 ^ 32"
  shows "(\<Sum>x\<leftarrow>xs. unat (f x :: u32)) < 2 ^ 64"
proof -
  have "(\<Sum>x\<leftarrow>xs. unat (f x)) \<le> (\<Sum>x\<leftarrow>xs. 2 ^ 32 - 1)"
    by (rule sum_list_mono) (use unat_max_less in \<open>simp add: less_eq_Suc_le less_Suc_eq_le\<close>)
  also have "\<dots> = length xs * (2 ^ 32 - 1)" by (simp add: sum_list_triv)
  also have "\<dots> \<le> 2 ^ 32 * (2 ^ 32 - 1)" using assms by (simp add: mult_le_mono1)
  also have "\<dots> < 2 ^ 64" by simp
  finally show ?thesis .
qed

lemma unat_ucast_32_64 [simp]: "unat (ucast (x :: u32) :: u64) = unat x"
  using unat_max_less [of x] by (simp add: unsigned_ucast_eq take_bit_nat_eq_self)

lemma unat_of_nat_64: "n < 2 ^ 64 \<Longrightarrow> unat (of_nat n :: u64) = n"
  by (simp add: unat_of_nat)

lemma unat_of_nat_32: "n < 2 ^ 32 \<Longrightarrow> unat (of_nat n :: u32) = n"
  by (simp add: unat_of_nat)

end
