(* ===== verification/Order_Types.thy ===== *)
theory Order_Types
  imports HFT_Prelude
begin

text \<open>
  The value types of \<open>src/src/Order.h\<close> and the public enumerations and structs of
  \<open>src/src/OrderBook.h\<close> and \<open>src/src/MemoryPool.h\<close>, with the environment every build
  flavor of the engine runs in.
\<close>

section \<open>Order.h\<close>

type_synonym OrderId = u32
type_synonym Price = u32
type_synonym Quantity = u32

definition UINT32_MAX :: u32 where
  "UINT32_MAX = 0xFFFFFFFF"

definition MARKET_BUY_PRICE :: Price where
  "MARKET_BUY_PRICE = UINT32_MAX"

definition MARKET_SELL_PRICE :: Price where
  "MARKET_SELL_PRICE = 0"

definition INVALID_INDEX :: u32 where
  "INVALID_INDEX = UINT32_MAX"

datatype Side = Buy | Sell

fun opposite :: "Side \<Rightarrow> Side" where
  "opposite Buy = Sell"
| "opposite Sell = Buy"

lemma opposite_simps [simp]: "opposite (opposite s) = s" "opposite s \<noteq> s" "s \<noteq> opposite s"
  by (cases s; simp)+

datatype OrderType = Limit | Market | Cancel

text \<open>The byte an enumerator is stored as (\<open>static_cast<uint8_t>(side)\<close>).\<close>

fun side_u8 :: "Side \<Rightarrow> u8" where
  "side_u8 Buy = 0"
| "side_u8 Sell = 1"

text \<open>
  An order slot. \<open>Side\<close> has the fixed underlying type \<open>uint8_t\<close>, so the slot's side is a
  byte: the poison fill of a freed slot stores a byte that is no enumerator.
\<close>

record Order =
  o_next :: u32
  o_prev :: u32
  o_id :: OrderId
  o_price :: Price
  o_quantity :: Quantity
  o_side :: u8

definition Order_default :: Order where
  "Order_default = \<lparr>o_next = INVALID_INDEX, o_prev = INVALID_INDEX, o_id = 0, o_price = 0,
     o_quantity = 0, o_side = side_u8 Buy\<rparr>"

definition Order_new :: "OrderId \<Rightarrow> Price \<Rightarrow> Quantity \<Rightarrow> Side \<Rightarrow> Order" where
  "Order_new i p q s = \<lparr>o_next = INVALID_INDEX, o_prev = INVALID_INDEX, o_id = i, o_price = p,
     o_quantity = q, o_side = side_u8 s\<rparr>"

section \<open>Result codes and trades of OrderBook.h\<close>

datatype RejectReason =
    Accepted
  | InvalidQuantity
  | DuplicateOrderId
  | OutOfBoundsOrderId
  | OutOfBoundsPrice
  | CancelFailed
  | PoolExhausted
  | MarketOnEmptyBook
  | ReentrancyBlocked

fun reason_u8 :: "RejectReason \<Rightarrow> u8" where
  "reason_u8 Accepted = 0"
| "reason_u8 InvalidQuantity = 1"
| "reason_u8 DuplicateOrderId = 2"
| "reason_u8 OutOfBoundsOrderId = 3"
| "reason_u8 OutOfBoundsPrice = 4"
| "reason_u8 CancelFailed = 5"
| "reason_u8 PoolExhausted = 6"
| "reason_u8 MarketOnEmptyBook = 7"
| "reason_u8 ReentrancyBlocked = 8"

record Trade =
  maker_id :: OrderId
  taker_id :: OrderId
  trade_price :: Price
  trade_quantity :: Quantity

text \<open>
  What a call of \<open>add_order\<close> hands back: the code, the value of \<open>*filled_out\<close>, and what the
  callback gave for each trade (the trades themselves, for a callback that only takes them).
\<close>

record 't AddResult =
  res_reason :: RejectReason
  res_filled :: Quantity
  res_trades :: "'t list"

definition mk_result :: "RejectReason \<Rightarrow> Quantity \<Rightarrow> 't list \<Rightarrow> 't AddResult" where
  "mk_result r f ts = \<lparr>res_reason = r, res_filled = f, res_trades = ts\<rparr>"

section \<open>Build flavor and process environment\<close>

datatype FaultAction = Abort | SkipOperation

text \<open>
  What a call of the engine finds around it: whether the build defines \<open>NDEBUG\<close> and
  \<open>HFT_AUDIT_MODE\<close>, the process-wide fault handlers (\<open>None\<close> is \<open>nullptr\<close>), the calling
  thread, and the cycle counter, when the target has one (\<open>HFT_HAS_RDTSC\<close>).
\<close>

record Env =
  ndebug :: bool
  hft_audit_mode :: bool
  pool_fault_handler :: "(string \<Rightarrow> nat \<Rightarrow> FaultAction) option"
  book_fault_handler :: "(string \<Rightarrow> FaultAction) option"
  this_thread :: nat
  rdtsc :: "(nat \<Rightarrow> u64) option"

text \<open>The \<open>HFT_DEBUG_TOOLS\<close> switch: on in Debug and Audit builds, off in Release.\<close>

definition hft_debug_tools :: "Env \<Rightarrow> bool" where
  "hft_debug_tools E = (\<not> ndebug E \<or> hft_audit_mode E)"

text \<open>\<open>assert(c)\<close> aborts when \<open>c\<close> fails, and is compiled out under \<open>NDEBUG\<close>.\<close>

definition cassert :: "Env \<Rightarrow> bool \<Rightarrow> unit option" where
  "cassert E c = (if \<not> ndebug E \<and> \<not> c then None else Some ())"

lemma cassert_holds [simp]: "c \<Longrightarrow> cassert E c = Some ()"
  by (simp add: cassert_def)

text \<open>
  \<open>debug_timestamp()\<close>: the cycle counter, or the process-global counter. The argument is the
  number of timestamps taken before this one.
\<close>

definition debug_timestamp :: "Env \<Rightarrow> nat \<Rightarrow> u64" where
  "debug_timestamp E n = (case rdtsc E of Some r \<Rightarrow> r n | None \<Rightarrow> of_nat n + 1)"

lemma INVALID_INDEX_unat: "unat INVALID_INDEX = 2 ^ 32 - 1"
  by (simp add: INVALID_INDEX_def UINT32_MAX_def)

lemma side_u8_inj [simp]: "side_u8 s = side_u8 t \<longleftrightarrow> s = t"
  by (cases s; cases t) simp_all

end
