(* ===== verification/Memory_Pool.thy ===== *)
theory Memory_Pool
  imports Order_Types
begin

text \<open>
  \<open>MemoryPool<Order>\<close> of \<open>src/src/MemoryPool.h\<close>: a fixed array of order slots with a LIFO
  free list overlaid on the first four bytes of the free slots. Both flavors are modelled:
  the instrumented one (state stamps, generations, counters, poison fills, faults) and the
  Release one, selected by \<^const>\<open>hft_debug_tools\<close>. A result \<open>None\<close> is a call that does
  not return: \<open>std::abort\<close> or an access outside the slab.
\<close>

section \<open>State\<close>

definition kMaxPoolCapacity :: nat where
  "kMaxPoolCapacity = 0xFFFFFFFE"

definition SLOT_FREE :: u8 where "SLOT_FREE = 0xF7"
definition SLOT_LIVE :: u8 where "SLOT_LIVE = 0xA5"
definition POISON_BYTE_FREED :: u8 where "POISON_BYTE_FREED = 0xDD"
definition POISON_BYTE_FRESH :: u8 where "POISON_BYTE_FRESH = 0xDE"
definition SIZE_MAX :: nat where "SIZE_MAX = 2 ^ 64 - 1"

record MemoryPool =
  capacity :: nat
  pool :: "Order list"
  free_head :: u32
  allocated :: "bool list"
  slot_state :: "u8 list"
  slot_generation :: "u8 list"
  total_allocs :: u64
  total_frees :: u64
  live_count :: u64
  high_water :: u64

section \<open>Overlay links, poison and faults\<close>

text \<open>The link is the first member of \<open>Order\<close>, \<open>next\<close> (the layout contract of Order.h).\<close>

definition overlay_link :: "Order \<Rightarrow> u32" where
  "overlay_link s = o_next s"

definition set_overlay_link :: "Order \<Rightarrow> u32 \<Rightarrow> Order" where
  "set_overlay_link s l = s\<lparr>o_next := l\<rparr>"

definition poison_u32 :: "u8 \<Rightarrow> u32" where
  "poison_u32 b = ucast b * 0x01010101"

text \<open>Every byte past the overlay link takes the pattern.\<close>

definition poison_payload :: "u8 \<Rightarrow> Order \<Rightarrow> Order" where
  "poison_payload b s = s\<lparr>o_prev := poison_u32 b, o_id := poison_u32 b, o_price := poison_u32 b,
     o_quantity := poison_u32 b, o_side := b\<rparr>"

definition pool_fault :: "Env \<Rightarrow> string \<Rightarrow> nat \<Rightarrow> FaultAction option" where
  "pool_fault E msg i =
     (case pool_fault_handler E of
        Some h \<Rightarrow> if h msg i = SkipOperation then Some SkipOperation else None
      | None \<Rightarrow> None)"

section \<open>Construction\<close>

fun build_free_list :: "nat \<Rightarrow> Order list \<Rightarrow> u32 \<Rightarrow> Order list \<times> u32" where
  "build_free_list 0 P fh = (P, fh)"
| "build_free_list (Suc i) P fh =
     build_free_list i (P[i := set_overlay_link (P ! i) fh]) (of_nat i)"

definition MemoryPool_new :: "Env \<Rightarrow> nat \<Rightarrow> MemoryPool" where
  "MemoryPool_new E max_capacity =
     (let cap = (if max_capacity > kMaxPoolCapacity then kMaxPoolCapacity else max_capacity);
          (P, fh) = build_free_list cap (replicate cap Order_default) INVALID_INDEX
      in \<lparr>capacity = cap, pool = P, free_head = fh,
          allocated = (if hft_debug_tools E then replicate cap False else []),
          slot_state = (if hft_debug_tools E then replicate cap SLOT_FREE else []),
          slot_generation = (if hft_debug_tools E then replicate cap 0 else []),
          total_allocs = 0, total_frees = 0, live_count = 0, high_water = 0\<rparr>)"

section \<open>Allocation\<close>

definition stamp_allocated :: "u32 \<Rightarrow> MemoryPool \<Rightarrow> MemoryPool option" where
  "stamp_allocated idx p = do {
     al \<leftarrow> vec_set (allocated p) (unat idx) True;
     st \<leftarrow> vec_set (slot_state p) (unat idx) SLOT_LIVE;
     g \<leftarrow> vec_get (slot_generation p) (unat idx);
     gs \<leftarrow> vec_set (slot_generation p) (unat idx) (g + 1);
     sl \<leftarrow> vec_set (pool p) (unat idx) (poison_payload POISON_BYTE_FRESH Order_default);
     let live = live_count p + 1;
     Some (p\<lparr>allocated := al, slot_state := st, slot_generation := gs,
             total_allocs := total_allocs p + 1, live_count := live,
             high_water := (if live > high_water p then live else high_water p),
             pool := sl\<rparr>)
   }"

definition allocate :: "Env \<Rightarrow> MemoryPool \<Rightarrow> (u32 \<times> MemoryPool) option" where
  "allocate E p =
     (if free_head p = INVALID_INDEX then Some (INVALID_INDEX, p)
      else do {
        let idx = free_head p;
        obj \<leftarrow> vec_get (pool p) (unat idx);
        let p1 = p\<lparr>free_head := overlay_link obj\<rparr>;
        if hft_debug_tools E then do {
          p2 \<leftarrow> stamp_allocated idx p1;
          Some (idx, p2)
        } else Some (idx, p1)
      })"

section \<open>Deallocation\<close>

definition stamp_released :: "u32 \<Rightarrow> MemoryPool \<Rightarrow> MemoryPool option" where
  "stamp_released idx p = do {
     al \<leftarrow> vec_set (allocated p) (unat idx) False;
     st \<leftarrow> vec_set (slot_state p) (unat idx) SLOT_FREE;
     obj \<leftarrow> vec_get (pool p) (unat idx);
     sl \<leftarrow> vec_set (pool p) (unat idx) (poison_payload POISON_BYTE_FREED obj);
     Some (p\<lparr>allocated := al, slot_state := st, total_frees := total_frees p + 1,
             live_count := live_count p - 1, pool := sl\<rparr>)
   }"

text \<open>The tail of a chain is linked to the old head, and the chain's head becomes the head.\<close>

definition splice :: "u32 \<Rightarrow> u32 \<Rightarrow> MemoryPool \<Rightarrow> MemoryPool option" where
  "splice hd_idx tl_idx p = do {
     obj \<leftarrow> vec_get (pool p) (unat tl_idx);
     sl \<leftarrow> vec_set (pool p) (unat tl_idx) (set_overlay_link obj (free_head p));
     Some (p\<lparr>pool := sl, free_head := hd_idx\<rparr>)
   }"

definition deallocate :: "Env \<Rightarrow> u32 \<Rightarrow> MemoryPool \<Rightarrow> MemoryPool option" where
  "deallocate E index p =
     (if hft_debug_tools E then
        if unat index \<ge> capacity p then do {
          _ \<leftarrow> pool_fault E ''MemoryPool::deallocate: index does not belong to this pool'' (unat index);
          Some p
        } else do {
          a \<leftarrow> vec_get (allocated p) (unat index);
          st \<leftarrow> vec_get (slot_state p) (unat index);
          if \<not> a \<or> st \<noteq> SLOT_LIVE then do {
            _ \<leftarrow> pool_fault E ''MemoryPool::deallocate: double free / freeing unallocated slot'' (unat index);
            Some p
          } else do {
            p1 \<leftarrow> stamp_released index p;
            splice index index p1
          }
        }
      else splice index index p)"

text \<open>
  The validating walk of the instrumented chain free. Each pass releases a live slot, so it
  ends within \<open>capacity + 1\<close> passes; the flag tells whether the tail was reached.
\<close>

fun chain_release :: "Env \<Rightarrow> nat \<Rightarrow> u32 \<Rightarrow> u32 \<Rightarrow> MemoryPool \<Rightarrow> (bool \<times> MemoryPool) option" where
  "chain_release E 0 cur tl_idx p = None"
| "chain_release E (Suc fuel) cur tl_idx p = do {
     a \<leftarrow> vec_get (allocated p) (unat cur);
     st \<leftarrow> vec_get (slot_state p) (unat cur);
     if \<not> a \<or> st \<noteq> SLOT_LIVE then do {
       _ \<leftarrow> pool_fault E ''MemoryPool::deallocate_chain: chain slot not live (corrupt link or double free)'' (unat cur);
       Some (False, p)
     } else do {
       p1 \<leftarrow> stamp_released cur p;
       if cur = tl_idx then Some (True, p1)
       else do {
         obj \<leftarrow> vec_get (pool p1) (unat cur);
         let nxt = overlay_link obj;
         if nxt = INVALID_INDEX \<or> unat nxt \<ge> capacity p1 then do {
           _ \<leftarrow> pool_fault E ''MemoryPool::deallocate_chain: chain broken before reaching tail'' (unat tl_idx);
           Some (False, p1)
         } else chain_release E fuel nxt tl_idx p1
       }
     }
   }"

definition deallocate_chain :: "Env \<Rightarrow> u32 \<Rightarrow> u32 \<Rightarrow> MemoryPool \<Rightarrow> MemoryPool option" where
  "deallocate_chain E hd_idx tl_idx p =
     (if hft_debug_tools E then
        if unat hd_idx \<ge> capacity p \<or> unat tl_idx \<ge> capacity p then do {
          _ \<leftarrow> pool_fault E ''MemoryPool::deallocate_chain: head/tail index out of range''
                (if unat hd_idx < capacity p then unat tl_idx else unat hd_idx);
          Some p
        } else do {
          (reached, p1) \<leftarrow> chain_release E (Suc (capacity p)) hd_idx tl_idx p;
          if reached then splice hd_idx tl_idx p1 else Some p1
        }
      else splice hd_idx tl_idx p)"

section \<open>Introspection\<close>

definition is_allocated :: "Env \<Rightarrow> u32 \<Rightarrow> MemoryPool \<Rightarrow> bool" where
  "is_allocated E index p =
     (if hft_debug_tools E then unat index < capacity p \<and> allocated p ! unat index
      else unat index < capacity p)"

function free_list_walk :: "MemoryPool \<Rightarrow> nat \<Rightarrow> u32 \<Rightarrow> nat" where
  "free_list_walk p depth cur =
     (if cur = INVALID_INDEX then depth
      else if Suc depth > capacity p then SIZE_MAX
      else if unat cur \<ge> capacity p then SIZE_MAX
      else free_list_walk p (Suc depth) (overlay_link (pool p ! unat cur)))"
  by pat_completeness auto
termination
  by (relation "measure (\<lambda>(p, depth, cur). capacity p - depth)") auto

declare free_list_walk.simps [simp del]

definition free_list_depth :: "MemoryPool \<Rightarrow> nat" where
  "free_list_depth p = free_list_walk p 0 (free_head p)"

record Stats =
  st_total_allocs :: u64
  st_total_frees :: u64
  st_live_count :: u64
  st_high_water :: u64
  st_capacity :: nat
  st_free_list_depth :: nat

definition stats :: "MemoryPool \<Rightarrow> Stats" where
  "stats p = \<lparr>st_total_allocs = total_allocs p, st_total_frees = total_frees p,
     st_live_count = live_count p, st_high_water = high_water p, st_capacity = capacity p,
     st_free_list_depth = free_list_depth p\<rparr>"

definition generation_of :: "u32 \<Rightarrow> MemoryPool \<Rightarrow> u8" where
  "generation_of index p = (if unat index < capacity p then slot_generation p ! unat index else 0)"

definition slot_payload_is_poisoned :: "u32 \<Rightarrow> MemoryPool \<Rightarrow> bool" where
  "slot_payload_is_poisoned index p =
     (if unat index \<ge> capacity p \<or> allocated p ! unat index then False
      else let s = pool p ! unat index
           in poison_payload POISON_BYTE_FREED s = s)"

text \<open>The destructor reports a leak when slots are still live and reporting was enabled.\<close>

definition leak_reported :: "Env \<Rightarrow> bool \<Rightarrow> MemoryPool \<Rightarrow> bool" where
  "leak_reported E leak_report_flag p =
     (hft_debug_tools E \<and> live_count p \<noteq> 0 \<and> leak_report_flag)"


section \<open>The representation invariant\<close>

text \<open>\<open>slot P x\<close> is the order stored at slot index \<open>x\<close>.\<close>

definition slot :: "Order list \<Rightarrow> u32 \<Rightarrow> Order" where
  "slot P x = P ! unat x"

text \<open>\<open>flist P h F\<close>: the overlay links lead from \<open>h\<close> through the slots \<open>F\<close> to the sentinel.\<close>

fun flist :: "Order list \<Rightarrow> u32 \<Rightarrow> u32 list \<Rightarrow> bool" where
  "flist P h [] \<longleftrightarrow> h = INVALID_INDEX"
| "flist P h (x # xs) \<longleftrightarrow> h = x \<and> flist P (o_next (slot P x)) xs"

definition stamps_ok :: "MemoryPool \<Rightarrow> u32 list \<Rightarrow> bool" where
  "stamps_ok p F \<longleftrightarrow>
     length (allocated p) = capacity p \<and> length (slot_state p) = capacity p \<and>
     length (slot_generation p) = capacity p \<and>
     (\<forall>x. unat x < capacity p \<longrightarrow> allocated p ! unat x = (x \<notin> set F)) \<and>
     (\<forall>x. unat x < capacity p \<longrightarrow>
        slot_state p ! unat x = (if x \<in> set F then SLOT_FREE else SLOT_LIVE)) \<and>
     live_count p = of_nat (capacity p) - of_nat (length F) \<and>
     total_allocs p - total_frees p = live_count p \<and> live_count p \<le> high_water p"

definition pool_rel :: "Env \<Rightarrow> MemoryPool \<Rightarrow> u32 list \<Rightarrow> bool" where
  "pool_rel E p F \<longleftrightarrow>
     length (pool p) = capacity p \<and> capacity p \<le> kMaxPoolCapacity \<and>
     flist (pool p) (free_head p) F \<and> distinct F \<and> (\<forall>x \<in> set F. unat x < capacity p) \<and>
     (hft_debug_tools E \<longrightarrow> stamps_ok p F)"

text \<open>The free slots, read off the links; \<open>pool_inv\<close> is the invariant of a pool by itself.\<close>

fun free_walk :: "Order list \<Rightarrow> nat \<Rightarrow> u32 \<Rightarrow> u32 list" where
  "free_walk P 0 h = []"
| "free_walk P (Suc n) h = (if h = INVALID_INDEX then [] else h # free_walk P n (o_next (slot P h)))"

definition free_slots :: "MemoryPool \<Rightarrow> u32 list" where
  "free_slots p = free_walk (pool p) (capacity p) (free_head p)"

definition pool_inv :: "Env \<Rightarrow> MemoryPool \<Rightarrow> bool" where
  "pool_inv E p \<longleftrightarrow> pool_rel E p (free_slots p)"

section \<open>Basic facts\<close>

lemma slot_upd: "unat x < length P \<Longrightarrow> slot (P[unat x := v]) y = (if x = y then v else slot P y)"
  by (simp add: slot_def nth_upd_unat)

lemma slot_upd_other: "x \<noteq> y \<Longrightarrow> slot (P[unat x := v]) y = slot P y"
  by (auto simp: slot_def nth_list_update unat_inj_iff)

lemma slot_upd_same: "unat x < length P \<Longrightarrow> slot (P[unat x := v]) x = v"
  by (simp add: slot_upd)

lemma vec_get_slot: "unat x < length P \<Longrightarrow> vec_get P (unat x) = Some (slot P x)"
  by (simp add: vec_get_def slot_def)

lemma valid_index: "unat x < n \<Longrightarrow> n \<le> kMaxPoolCapacity \<Longrightarrow> x \<noteq> INVALID_INDEX"
  by (auto simp: kMaxPoolCapacity_def INVALID_INDEX_unat)

lemma overlay_simps [simp]: "overlay_link s = o_next s" "o_next (set_overlay_link s l) = l"
  "o_next (poison_payload b s) = o_next s"
  "o_prev (set_overlay_link s l) = o_prev s" "o_id (set_overlay_link s l) = o_id s"
  "o_price (set_overlay_link s l) = o_price s" "o_quantity (set_overlay_link s l) = o_quantity s"
  "o_side (set_overlay_link s l) = o_side s"
  by (simp_all add: overlay_link_def set_overlay_link_def poison_payload_def)

lemma flist_frame:
  "flist P h xs \<Longrightarrow> (\<And>x. x \<in> set xs \<Longrightarrow> o_next (slot P' x) = o_next (slot P x)) \<Longrightarrow> flist P' h xs"
  by (induction xs arbitrary: h) auto

lemma flist_upd [simp]: "x \<notin> set xs \<Longrightarrow> flist (P[unat x := v]) h xs = flist P h xs"
  by (induction xs arbitrary: h) (auto simp: slot_upd_other)

lemma slot_upd_notin: "x \<in> A \<Longrightarrow> y \<notin> A \<Longrightarrow> slot (P[unat x := v]) y = slot P y"
  by (rule slot_upd_other) auto

lemma flist_head: "flist P h F \<Longrightarrow> h = hd_or INVALID_INDEX F"
  by (cases F) auto

lemma free_walk_flist:
  "flist P h xs \<Longrightarrow> INVALID_INDEX \<notin> set xs \<Longrightarrow> length xs \<le> n \<Longrightarrow> free_walk P n h = xs"
proof (induction xs arbitrary: h n)
  case Nil
  then show ?case by (cases n) auto
next
  case (Cons x xs)
  then show ?case by (cases n) auto
qed

lemma distinct_slots_length:
  assumes "distinct xs" "\<forall>x \<in> set xs. unat x < n"
  shows "length xs \<le> n"
proof -
  have "inj_on unat (set xs)" by (simp add: inj_on_def unat_inj_iff)
  then have "length xs = card (unat ` set xs)"
    using assms(1) by (simp add: card_image distinct_card)
  also have "\<dots> \<le> card {..<n}"
    using assms(2) by (intro card_mono) auto
  finally show ?thesis by simp
qed

lemma pool_rel_not_invalid: "pool_rel E p F \<Longrightarrow> INVALID_INDEX \<notin> set F"
  using valid_index by (auto simp: pool_rel_def)

lemma pool_rel_free_slots: "pool_rel E p F \<Longrightarrow> free_slots p = F"
  using pool_rel_not_invalid [of E p F] distinct_slots_length [of F "capacity p"]
  by (auto simp: pool_rel_def free_slots_def intro!: free_walk_flist)

lemma pool_inv_iff: "pool_inv E p \<longleftrightarrow> (\<exists>F. pool_rel E p F)"
  using pool_rel_free_slots by (auto simp: pool_inv_def)

section \<open>Allocation\<close>

lemma allocate_empty: "pool_rel E p [] \<Longrightarrow> allocate E p = Some (INVALID_INDEX, p)"
  by (simp add: allocate_def pool_rel_def)

lemma live_count_succ:
  "(of_nat c - of_nat (Suc n) :: u64) + 1 = of_nat c - of_nat n"
  by simp

lemma stamps_ok_allocate:
  assumes "stamps_ok p (x # F)" "unat x < capacity p" "x \<notin> set F" "length (pool p) = capacity p"
  obtains p' where "stamp_allocated x p = Some p'" "stamps_ok p' F"
    "pool p' = (pool p)[unat x := poison_payload POISON_BYTE_FRESH Order_default]"
    "capacity p' = capacity p" "free_head p' = free_head p"
proof -
  let ?live = "live_count p + 1"
  let ?p = "p\<lparr>allocated := (allocated p)[unat x := True],
     slot_state := (slot_state p)[unat x := SLOT_LIVE],
     slot_generation := (slot_generation p)[unat x := slot_generation p ! unat x + 1],
     total_allocs := total_allocs p + 1, live_count := ?live,
     high_water := (if ?live > high_water p then ?live else high_water p),
     pool := (pool p)[unat x := poison_payload POISON_BYTE_FRESH Order_default]\<rparr>"
  have "stamp_allocated x p = Some ?p"
    using assms by (simp add: stamp_allocated_def stamps_ok_def vec_simps Let_def)
  moreover have "stamps_ok ?p F"
    using assms by (auto simp: stamps_ok_def nth_upd_unat algebra_simps)
  ultimately show thesis by (rule that) simp_all
qed

lemma allocate_some:
  assumes "pool_rel E p (x # F)"
  obtains p' where "allocate E p = Some (x, p')" "pool_rel E p' F" "capacity p' = capacity p"
    "\<And>y. y \<noteq> x \<Longrightarrow> slot (pool p') y = slot (pool p) y"
proof -
  have x: "free_head p = x" "unat x < capacity p" "x \<noteq> INVALID_INDEX" "x \<notin> set F"
    and len: "length (pool p) = capacity p"
    and fl: "flist (pool p) (o_next (slot (pool p) x)) F"
    using assms pool_rel_not_invalid [OF assms] by (auto simp: pool_rel_def)
  let ?p1 = "p\<lparr>free_head := o_next (slot (pool p) x)\<rparr>"
  show thesis
  proof (cases "hft_debug_tools E")
    case True
    then have "stamps_ok ?p1 (x # F)"
      using assms by (auto simp: pool_rel_def stamps_ok_def)
    then obtain p2 where p2: "stamp_allocated x ?p1 = Some p2" "stamps_ok p2 F"
      "pool p2 = (pool p)[unat x := poison_payload POISON_BYTE_FRESH Order_default]"
      "capacity p2 = capacity p" "free_head p2 = o_next (slot (pool p) x)"
      using x len by (auto elim: stamps_ok_allocate)
    have "pool_rel E p2 F"
      using assms fl x p2 by (auto simp: pool_rel_def)
    moreover have "allocate E p = Some (x, p2)"
      using True x len p2(1) by (simp add: allocate_def vec_simps slot_def Let_def)
    ultimately show thesis using p2 by (intro that [of p2]) (auto simp: slot_upd_other)
  next
    case False
    have "allocate E p = Some (x, ?p1)"
      using False x len by (simp add: allocate_def vec_simps slot_def Let_def)
    moreover have "pool_rel E ?p1 F"
      using assms False fl by (auto simp: pool_rel_def)
    ultimately show thesis by (rule that) simp_all
  qed
qed

section \<open>Deallocation\<close>

lemma free_length_less:
  assumes "distinct F" "\<forall>x \<in> set F. unat x < n" "unat x < n" "x \<notin> set F"
  shows "length F < n"
  using distinct_slots_length [of "x # F" n] assms by auto

lemma live_count_pos:
  assumes "n < c" "c \<le> kMaxPoolCapacity"
  shows "(of_nat c - of_nat n :: u64) \<noteq> 0"
proof
  assume "(of_nat c - of_nat n :: u64) = 0"
  then have "unat (of_nat c :: u64) = unat (of_nat n :: u64)" by simp
  with assms show False
    by (simp add: unsigned_of_nat take_bit_nat_eq_self kMaxPoolCapacity_def)
qed

lemma word_pred_le: "w \<noteq> 0 \<Longrightarrow> w - 1 \<le> (w :: 'a::len word)"
  by (simp add: word_le_nat_alt unat_minus_one)

lemma stamps_ok_release:
  assumes "stamps_ok p F" "unat x < capacity p" "x \<notin> set F" "length (pool p) = capacity p"
    "distinct F" "\<forall>y \<in> set F. unat y < capacity p" "capacity p \<le> kMaxPoolCapacity"
  obtains p' where "stamp_released x p = Some p'" "stamps_ok p' (x # F)"
    "pool p' = (pool p)[unat x := poison_payload POISON_BYTE_FREED (slot (pool p) x)]"
    "capacity p' = capacity p" "free_head p' = free_head p"
proof -
  let ?p = "p\<lparr>allocated := (allocated p)[unat x := False],
     slot_state := (slot_state p)[unat x := SLOT_FREE], total_frees := total_frees p + 1,
     live_count := live_count p - 1,
     pool := (pool p)[unat x := poison_payload POISON_BYTE_FREED (slot (pool p) x)]\<rparr>"
  have "live_count p \<noteq> 0"
    using assms live_count_pos [OF free_length_less [of F "capacity p" x]]
    by (auto simp: stamps_ok_def)
  then have "live_count p - 1 \<le> live_count p" by (rule word_pred_le)
  also have "live_count p \<le> high_water p" using assms(1) unfolding stamps_ok_def by blast
  finally have "live_count p - 1 \<le> high_water p" .
  then have "stamps_ok ?p (x # F)"
    using assms by (auto simp: stamps_ok_def nth_upd_unat algebra_simps)
  moreover have "stamp_released x p = Some ?p"
    using assms by (simp add: stamp_released_def stamps_ok_def vec_simps slot_def Let_def)
  ultimately show thesis by (intro that [of ?p]) simp_all
qed

text \<open>
  Chains. \<open>linked P xs\<close>: the overlay links run through \<open>xs\<close>, whatever the last slot's link is.
\<close>

fun linked :: "Order list \<Rightarrow> u32 list \<Rightarrow> bool" where
  "linked P (x # y # xs) \<longleftrightarrow> o_next (slot P x) = y \<and> linked P (y # xs)"
| "linked P xs \<longleftrightarrow> True"

lemma linked_frame:
  "linked P xs \<Longrightarrow> (\<And>x. x \<in> set xs \<Longrightarrow> o_next (slot P' x) = o_next (slot P x)) \<Longrightarrow> linked P' xs"
  by (induction P xs rule: linked.induct) auto

lemma flist_splice:
  assumes "linked P xs" "xs \<noteq> []" "distinct xs" "flist P h F" "last xs \<notin> set F"
    "unat (last xs) < length P"
  shows "flist (P[unat (last xs) := set_overlay_link s h]) (hd xs) (xs @ F)"
  using assms
proof (induction P xs rule: linked.induct)
  case (1 P x y xs)
  have "last (y # xs) \<noteq> x" using "1.prems"(3) by (cases xs) auto
  with 1 show ?case by (auto simp: slot_upd_other)
qed (auto simp: slot_upd_same)

lemma splice_rel:
  assumes "linked (pool p) xs" "xs \<noteq> []" "distinct (xs @ F)" "\<forall>x \<in> set (xs @ F). unat x < capacity p"
    "length (pool p) = capacity p" "capacity p \<le> kMaxPoolCapacity"
    "flist (pool p) (free_head p) F" "hft_debug_tools E \<longrightarrow> stamps_ok p (rev xs @ F)"
  obtains p' where "splice (hd xs) (last xs) p = Some p'" "pool_rel E p' (xs @ F)"
    "capacity p' = capacity p" "\<And>y. y \<notin> set xs \<Longrightarrow> slot (pool p') y = slot (pool p) y"
proof -
  have l: "last xs \<in> set xs" using assms(2) by simp
  then have lr: "unat (last xs) < capacity p" "last xs \<notin> set F" using assms(3,4) by auto
  let ?p = "p\<lparr>pool := (pool p)[unat (last xs) := set_overlay_link (pool p ! unat (last xs)) (free_head p)],
     free_head := hd xs\<rparr>"
  have "splice (hd xs) (last xs) p = Some ?p"
    using lr assms(5) by (simp add: splice_def vec_simps)
  moreover have "flist (pool ?p) (free_head ?p) (xs @ F)"
    using assms lr by (simp add: flist_splice)
  then have "pool_rel E ?p (xs @ F)"
    using assms by (auto simp: pool_rel_def stamps_ok_def add_ac)
  ultimately show thesis by (rule that) (simp_all add: slot_upd_notin [OF l])
qed

text \<open>The instrumented walk releases exactly the chain.\<close>

lemma chain_release_rel:
  assumes "linked (pool p) (x # xs)" "distinct ((x # xs) @ F)"
    "\<forall>y \<in> set ((x # xs) @ F). unat y < capacity p" "length (pool p) = capacity p"
    "capacity p \<le> kMaxPoolCapacity" "stamps_ok p F" "length xs < fuel"
  shows "\<exists>p'. chain_release E fuel x (last (x # xs)) p = Some (True, p') \<and>
    stamps_ok p' (rev (x # xs) @ F) \<and> capacity p' = capacity p \<and> free_head p' = free_head p \<and>
    length (pool p') = length (pool p) \<and>
    (\<forall>y. o_next (slot (pool p') y) = o_next (slot (pool p) y)) \<and>
    (\<forall>y. y \<notin> set (x # xs) \<longrightarrow> slot (pool p') y = slot (pool p) y)"
  using assms
proof (induction xs arbitrary: x p F fuel)
  case Nil
  obtain f where f: "fuel = Suc f" using Nil.prems by (cases fuel) auto
  obtain p1 where p1: "stamp_released x p = Some p1" "stamps_ok p1 (x # F)"
    "pool p1 = (pool p)[unat x := poison_payload POISON_BYTE_FREED (slot (pool p) x)]"
    "capacity p1 = capacity p" "free_head p1 = free_head p"
    using Nil.prems by (auto elim: stamps_ok_release [of p F x])
  show ?case
    using Nil.prems p1 f
    by (intro exI [of _ p1]) (auto simp: stamps_ok_def vec_simps slot_upd)
next
  case (Cons y ys)
  obtain f where f: "fuel = Suc f" "length ys < f" using Cons.prems by (cases fuel) auto
  obtain p1 where p1: "stamp_released x p = Some p1" "stamps_ok p1 (x # F)"
    "pool p1 = (pool p)[unat x := poison_payload POISON_BYTE_FREED (slot (pool p) x)]"
    "capacity p1 = capacity p" "free_head p1 = free_head p"
    using Cons.prems by (auto elim: stamps_ok_release [of p F x])
  have same: "o_next (slot (pool p1) z) = o_next (slot (pool p) z)" for z
    using Cons.prems by (auto simp: p1 slot_upd)
  have lk: "linked (pool p1) (y # ys)"
    by (rule linked_frame [of "pool p"]) (use Cons.prems(1) same in auto)
  have y: "y \<noteq> INVALID_INDEX" "unat y < capacity p" "x \<noteq> last (y # ys)"
    "o_next (slot (pool p) x) = y"
    using Cons.prems valid_index [of y "capacity p"] last_in_set [of "y # ys"] by auto
  obtain p2 where p2: "chain_release E f y (last (y # ys)) p1 = Some (True, p2)"
    "stamps_ok p2 (rev (y # ys) @ x # F)" "capacity p2 = capacity p1" "free_head p2 = free_head p1"
    "length (pool p2) = length (pool p1)"
    "\<forall>z. o_next (slot (pool p2) z) = o_next (slot (pool p1) z)"
    "\<forall>z. z \<notin> set (y # ys) \<longrightarrow> slot (pool p2) z = slot (pool p1) z"
    using Cons.IH [OF lk, of "x # F" f] Cons.prems p1 f by auto
  have "chain_release E fuel x (last (x # y # ys)) p = Some (True, p2)"
    using Cons.prems p1(1,3,4) p2(1) f y
    by (auto simp: stamps_ok_def vec_simps slot_def Let_def)
  then show ?case
    using p2 p1 same by (intro exI [of _ p2]) (auto simp: slot_upd_other)
qed

lemma deallocate_chain_some:
  assumes "pool_rel E p F" "linked (pool p) xs" "xs \<noteq> []" "distinct (xs @ F)"
    "\<forall>x \<in> set xs. unat x < capacity p"
  obtains p' where "deallocate_chain E (hd xs) (last xs) p = Some p'" "pool_rel E p' (xs @ F)"
    "capacity p' = capacity p" "\<And>y. y \<notin> set xs \<Longrightarrow> slot (pool p') y = slot (pool p) y"
proof (cases "hft_debug_tools E")
  case False
  have "\<forall>x \<in> set (xs @ F). unat x < capacity p"
    using assms by (auto simp: pool_rel_def)
  then obtain p' where "splice (hd xs) (last xs) p = Some p'" "pool_rel E p' (xs @ F)"
    "capacity p' = capacity p" "\<And>y. y \<notin> set xs \<Longrightarrow> slot (pool p') y = slot (pool p) y"
    using assms False splice_rel [of p xs F E] by (auto simp: pool_rel_def)
  with False show thesis by (intro that [of p']) (simp_all add: deallocate_chain_def)
next
  case True
  obtain x ys where xs: "xs = x # ys" using assms(3) by (cases xs) auto
  have all: "\<forall>x \<in> set (xs @ F). unat x < capacity p"
    and ok: "stamps_ok p F" "length (pool p) = capacity p" "capacity p \<le> kMaxPoolCapacity"
      "flist (pool p) (free_head p) F"
    using assms True by (auto simp: pool_rel_def)
  have fuel: "length ys < Suc (capacity p)"
    using distinct_slots_length [of xs "capacity p"] assms by (auto simp: xs)
  obtain p1 where p1: "chain_release E (Suc (capacity p)) x (last xs) p = Some (True, p1)"
    "stamps_ok p1 (rev xs @ F)" "capacity p1 = capacity p" "free_head p1 = free_head p"
    "length (pool p1) = length (pool p)"
    "\<And>y. o_next (slot (pool p1) y) = o_next (slot (pool p) y)"
    "\<And>y. y \<notin> set xs \<Longrightarrow> slot (pool p1) y = slot (pool p) y"
    using chain_release_rel [of p x ys F "Suc (capacity p)" E] assms all ok fuel xs by auto
  have "linked (pool p1) xs" "flist (pool p1) (free_head p1) F"
    using assms(2) ok(4) p1(4,6) by (auto intro: linked_frame flist_frame)
  then obtain p2 where p2: "splice (hd xs) (last xs) p1 = Some p2" "pool_rel E p2 (xs @ F)"
    "capacity p2 = capacity p1" "\<And>y. y \<notin> set xs \<Longrightarrow> slot (pool p2) y = slot (pool p1) y"
    using splice_rel [of p1 xs F E] assms all ok p1 by auto
  have "unat (last xs) < capacity p" "unat x < capacity p" "hd xs = x"
    using all last_in_set [OF assms(3)] xs by auto
  then have "deallocate_chain E (hd xs) (last xs) p = Some p2"
    using True p1(1) p2(1) by (simp add: deallocate_chain_def del: chain_release.simps)
  then show thesis using p2 p1 by (intro that [of p2]) auto
qed

lemma deallocate_some:
  assumes "pool_rel E p F" "x \<notin> set F" "unat x < capacity p"
  obtains p' where "deallocate E x p = Some p'" "pool_rel E p' (x # F)" "capacity p' = capacity p"
    "\<And>y. y \<noteq> x \<Longrightarrow> slot (pool p') y = slot (pool p) y"
proof (cases "hft_debug_tools E")
  case False
  then obtain p' where "splice x x p = Some p'" "pool_rel E p' (x # F)" "capacity p' = capacity p"
    "\<And>y. y \<noteq> x \<Longrightarrow> slot (pool p') y = slot (pool p) y"
    using assms splice_rel [of p "[x]" F E] by (auto simp: pool_rel_def)
  with False show thesis by (intro that [of p']) (simp_all add: deallocate_def)
next
  case True
  then have ok: "stamps_ok p F" using assms by (simp add: pool_rel_def)
  then obtain p1 where p1: "stamp_released x p = Some p1" "stamps_ok p1 (x # F)"
    "pool p1 = (pool p)[unat x := poison_payload POISON_BYTE_FREED (slot (pool p) x)]"
    "capacity p1 = capacity p" "free_head p1 = free_head p"
    using assms by (auto simp: pool_rel_def elim: stamps_ok_release [of p F x])
  have "flist (pool p1) (free_head p1) F"
    using assms p1 by (auto simp: pool_rel_def slot_upd_other intro: flist_frame)
  then obtain p2 where p2: "splice x x p1 = Some p2" "pool_rel E p2 (x # F)"
    "capacity p2 = capacity p1" "\<And>y. y \<noteq> x \<Longrightarrow> slot (pool p2) y = slot (pool p1) y"
    using assms p1 splice_rel [of p1 "[x]" F E] by (auto simp: pool_rel_def)
  have "deallocate E x p = Some p2"
    using True ok assms p1(1) p2(1) by (simp add: deallocate_def stamps_ok_def vec_simps)
  then show thesis using p2 p1 by (intro that [of p2]) (auto simp: slot_upd_other)
qed

section \<open>A fresh pool\<close>

lemma build_free_list_flist:
  assumes "flist P fh F" "\<forall>x \<in> set F. n \<le> unat x" "n \<le> length P" "n \<le> kMaxPoolCapacity"
  shows "flist (fst (build_free_list n P fh)) (snd (build_free_list n P fh))
           (map of_nat [0..<n] @ F) \<and> length (fst (build_free_list n P fh)) = length P"
  using assms
proof (induction n arbitrary: P fh F)
  case (Suc n)
  have n: "unat (of_nat n :: u32) = n"
    using Suc.prems(4) by (simp add: unsigned_of_nat take_bit_nat_eq_self kMaxPoolCapacity_def)
  let ?P = "P[n := set_overlay_link (P ! n) fh]"
  have "of_nat n \<notin> set F" using Suc.prems(2) n by fastforce
  then have "flist (P[unat (of_nat n :: u32) := set_overlay_link (P ! n) fh]) fh F"
    using Suc.prems(1) by simp
  then have "flist ?P (of_nat n) (of_nat n # F)"
    using Suc.prems(3) n by (simp add: slot_def)
  moreover have "\<forall>x \<in> set (of_nat n # F). n \<le> unat x" using Suc.prems(2) n by auto
  ultimately show ?case
    using Suc.IH [of ?P "of_nat n" "of_nat n # F"] Suc.prems by simp
qed simp

lemma unat_of_nat_pool: "n \<le> kMaxPoolCapacity \<Longrightarrow> unat (of_nat n :: u32) = n"
  by (simp add: unsigned_of_nat take_bit_nat_eq_self kMaxPoolCapacity_def)

lemma MemoryPool_new_rel:
  "pool_rel E (MemoryPool_new E n) (map of_nat [0..<min n kMaxPoolCapacity])"
proof -
  let ?c = "min n kMaxPoolCapacity" and ?d = "replicate (min n kMaxPoolCapacity) Order_default"
  let ?r = "build_free_list ?c ?d INVALID_INDEX"
  have new: "MemoryPool_new E n = \<lparr>capacity = ?c, pool = fst ?r, free_head = snd ?r,
      allocated = (if hft_debug_tools E then replicate ?c False else []),
      slot_state = (if hft_debug_tools E then replicate ?c SLOT_FREE else []),
      slot_generation = (if hft_debug_tools E then replicate ?c 0 else []),
      total_allocs = 0, total_frees = 0, live_count = 0, high_water = 0\<rparr>"
    by (simp add: MemoryPool_new_def Let_def split_beta min_def)
  have fl: "flist (fst ?r) (snd ?r) (map of_nat [0..<?c]) \<and> length (fst ?r) = ?c"
    using build_free_list_flist [of ?d INVALID_INDEX "[]" ?c] by simp
  have inj: "distinct (map of_nat [0..<?c] :: u32 list)"
  proof (rule distinct_map [THEN iffD2], intro conjI inj_onI)
    fix x y assume xy: "x \<in> set [0..<?c]" "y \<in> set [0..<?c]" and eq: "(of_nat x :: u32) = of_nat y"
    from xy have "x \<le> kMaxPoolCapacity" "y \<le> kMaxPoolCapacity" by auto
    then show "x = y" using arg_cong [OF eq, of unat] by (simp only: unat_of_nat_pool)
  qed simp
  have mem: "x \<in> of_nat ` {0..<?c}" if "unat x < ?c" for x :: u32
    using that by (intro image_eqI [of _ _ "unat x"]) simp_all
  have "stamps_ok (MemoryPool_new E n) (map of_nat [0..<?c])" if "hft_debug_tools E"
    using that mem by (auto simp: new stamps_ok_def)
  moreover have "\<forall>x \<in> set (map of_nat [0..<?c]). unat (x :: u32) < ?c"
    using unat_of_nat_pool by simp
  ultimately show ?thesis
    using fl inj unfolding pool_rel_def new by simp
qed

lemma MemoryPool_new_capacity [simp]:
  "capacity (MemoryPool_new E n) = min n kMaxPoolCapacity"
  by (simp add: MemoryPool_new_def Let_def split_beta)

section \<open>The free-list depth\<close>

lemma free_list_walk_flist:
  assumes "flist (pool p) h F" "\<forall>x \<in> set F. unat x < capacity p" "capacity p \<le> kMaxPoolCapacity"
    "d + length F \<le> capacity p"
  shows "free_list_walk p d h = d + length F"
  using assms
proof (induction F arbitrary: d h)
  case (Cons x F)
  have "x \<noteq> INVALID_INDEX" using Cons.prems valid_index by auto
  then show ?case
    using Cons.prems Cons.IH [of "o_next (slot (pool p) x)" "Suc d"]
    by (subst free_list_walk.simps) (simp add: slot_def)
qed (simp add: free_list_walk.simps)

lemma free_list_depth_rel: "pool_rel E p F \<Longrightarrow> free_list_depth p = length F"
  using distinct_slots_length [of F "capacity p"]
  by (auto simp: pool_rel_def free_list_depth_def free_list_walk_flist)

section \<open>The allocator interface\<close>

text \<open>
  What the order book relies on: a pool whose free slots form a stack, where allocating pops,
  freeing pushes, and neither touches the contents of another slot.
\<close>

locale lifo_pool =
  fixes alloc :: "'p \<Rightarrow> (u32 \<times> 'p) option"
    and dealloc :: "u32 \<Rightarrow> 'p \<Rightarrow> 'p option"
    and dealloc_chain :: "u32 \<Rightarrow> u32 \<Rightarrow> 'p \<Rightarrow> 'p option"
    and rel :: "'p \<Rightarrow> u32 list \<Rightarrow> bool"
    and cap :: "'p \<Rightarrow> nat"
    and slots :: "'p \<Rightarrow> Order list"
  assumes rel_wf: "rel p F \<Longrightarrow> distinct F \<and> (\<forall>x \<in> set F. unat x < cap p) \<and>
      length (slots p) = cap p \<and> cap p \<le> kMaxPoolCapacity"
    and rel_unique: "rel p F \<Longrightarrow> rel p G \<Longrightarrow> F = G"
    and alloc_none: "rel p [] \<Longrightarrow> alloc p = Some (INVALID_INDEX, p)"
    and alloc_pop: "rel p (x # F) \<Longrightarrow>
      \<exists>p'. alloc p = Some (x, p') \<and> rel p' F \<and> cap p' = cap p \<and>
        (\<forall>y. y \<noteq> x \<longrightarrow> slot (slots p') y = slot (slots p) y)"
    and dealloc_push: "rel p F \<Longrightarrow> x \<notin> set F \<Longrightarrow> unat x < cap p \<Longrightarrow>
      \<exists>p'. dealloc x p = Some p' \<and> rel p' (x # F) \<and> cap p' = cap p \<and>
        (\<forall>y. y \<noteq> x \<longrightarrow> slot (slots p') y = slot (slots p) y)"
    and chain_push: "rel p F \<Longrightarrow> linked (slots p) xs \<Longrightarrow> xs \<noteq> [] \<Longrightarrow> distinct (xs @ F) \<Longrightarrow>
      \<forall>x \<in> set xs. unat x < cap p \<Longrightarrow>
      \<exists>p'. dealloc_chain (hd xs) (last xs) p = Some p' \<and> rel p' (xs @ F) \<and> cap p' = cap p \<and>
        (\<forall>y. y \<notin> set xs \<longrightarrow> slot (slots p') y = slot (slots p) y)"
begin

lemma free_not_invalid: "rel p F \<Longrightarrow> x \<in> set F \<Longrightarrow> x \<noteq> INVALID_INDEX"
  using rel_wf [of p F] valid_index by blast

lemma alloc_total:
  assumes "rel p F"
  shows "\<exists>i p'. alloc p = Some (i, p') \<and> (i = INVALID_INDEX \<longleftrightarrow> F = []) \<and> rel p' (tl F)"
proof (cases F)
  case Nil
  then show ?thesis using assms alloc_none by auto
next
  case (Cons x F')
  then have "x \<noteq> INVALID_INDEX" using assms free_not_invalid by auto
  then show ?thesis using assms Cons alloc_pop by fastforce
qed

lemma dealloc_alloc:
  assumes "rel p F" "x \<notin> set F" "unat x < cap p"
  shows "\<exists>p1 p2. dealloc x p = Some p1 \<and> alloc p1 = Some (x, p2) \<and> rel p2 F"
  using dealloc_push [OF assms] alloc_pop by blast

lemma alloc_dealloc:
  assumes "rel p (x # F)"
  shows "\<exists>p1 p2. alloc p = Some (x, p1) \<and> dealloc x p1 = Some p2 \<and> rel p2 (x # F)"
proof -
  obtain p1 where p1: "alloc p = Some (x, p1)" "rel p1 F" "cap p1 = cap p"
    using alloc_pop [OF assms] by blast
  have "x \<notin> set F" "unat x < cap p1" using rel_wf [OF assms] p1(3) by auto
  then show ?thesis using dealloc_push [OF p1(2)] p1(1) by blast
qed

lemma free_le_cap: "rel p F \<Longrightarrow> length F \<le> cap p"
  using rel_wf distinct_slots_length by blast

end

interpretation mp: lifo_pool "allocate E" "deallocate E" "deallocate_chain E" "pool_rel E" capacity pool
  for E
proof
  show "distinct F \<and> (\<forall>x \<in> set F. unat x < capacity p) \<and> length (pool p) = capacity p \<and>
      capacity p \<le> kMaxPoolCapacity" if "pool_rel E p F" for p F
    using that by (simp add: pool_rel_def)
  show "F = G" if "pool_rel E p F" "pool_rel E p G" for p F G
    using that pool_rel_free_slots by metis
  show "allocate E p = Some (INVALID_INDEX, p)" if "pool_rel E p []" for p
    using that by (rule allocate_empty)
  show "\<exists>p'. allocate E p = Some (x, p') \<and> pool_rel E p' F \<and> capacity p' = capacity p \<and>
      (\<forall>y. y \<noteq> x \<longrightarrow> slot (pool p') y = slot (pool p) y)" if "pool_rel E p (x # F)" for p x F
    using that by (rule allocate_some) blast
  show "\<exists>p'. deallocate E x p = Some p' \<and> pool_rel E p' (x # F) \<and> capacity p' = capacity p \<and>
      (\<forall>y. y \<noteq> x \<longrightarrow> slot (pool p') y = slot (pool p) y)"
    if "pool_rel E p F" "x \<notin> set F" "unat x < capacity p" for p F x
    using that by (rule deallocate_some) blast
  show "\<exists>p'. deallocate_chain E (hd xs) (last xs) p = Some p' \<and> pool_rel E p' (xs @ F) \<and>
      capacity p' = capacity p \<and> (\<forall>y. y \<notin> set xs \<longrightarrow> slot (pool p') y = slot (pool p) y)"
    if "pool_rel E p F" "linked (pool p) xs" "xs \<noteq> []" "distinct (xs @ F)"
      "\<forall>x \<in> set xs. unat x < capacity p" for p F xs
    using that by (rule deallocate_chain_some) blast
qed

section \<open>Misuse of the instrumented pool\<close>

lemma deallocate_fault:
  assumes "hft_debug_tools E" "pool_rel E p F" "unat x \<ge> capacity p \<or> x \<in> set F"
  shows "deallocate E x p = map_option (\<lambda>_. p) (pool_fault E
    (if unat x \<ge> capacity p then ''MemoryPool::deallocate: index does not belong to this pool''
     else ''MemoryPool::deallocate: double free / freeing unallocated slot'') (unat x))"
proof (cases "unat x \<ge> capacity p")
  case True
  then show ?thesis
    using assms(1) by (auto simp: deallocate_def map_option_case Option.bind_def split: option.splits)
next
  case False
  then show ?thesis
    using assms by (auto simp: deallocate_def pool_rel_def stamps_ok_def vec_simps map_option_case
      Option.bind_def split: option.splits)
qed

end
