(* ===== verification/Price_Level.thy ===== *)
theory Price_Level
  imports Memory_Pool
begin

text \<open>
  \<open>src/src/PriceLevel.h\<close>: the FIFO queue of the orders resting at one price, an intrusive
  doubly-linked list through pool slots with aggregate counters. The pool array is passed
  explicitly, as the C++ passes \<open>pool_data\<close>; every field is re-read after a write that may
  alias it.
\<close>

section \<open>State and operations\<close>

definition PRICE_LEVEL_CANARY :: u32 where
  "PRICE_LEVEL_CANARY = 0xC0FFEE11"

record PriceLevel =
  head :: u32
  tail :: u32
  total_quantity :: u64
  order_count :: u32
  debug_canary :: u32

definition PriceLevel_default :: PriceLevel where
  "PriceLevel_default = \<lparr>head = INVALID_INDEX, tail = INVALID_INDEX, total_quantity = 0,
     order_count = 0, debug_canary = PRICE_LEVEL_CANARY\<rparr>"

definition append_order :: "u32 \<Rightarrow> PriceLevel \<Rightarrow> Order list \<Rightarrow> (PriceLevel \<times> Order list) option" where
  "append_order order_idx l P = do {
     ord \<leftarrow> vec_get P (unat order_idx);
     (l1, P1) \<leftarrow>
       (if head l \<noteq> INVALID_INDEX then do {
          Q \<leftarrow> vec_set P (unat order_idx) (ord\<lparr>o_prev := tail l, o_next := INVALID_INDEX\<rparr>);
          t \<leftarrow> vec_get Q (unat (tail l));
          Q' \<leftarrow> vec_set Q (unat (tail l)) (t\<lparr>o_next := order_idx\<rparr>);
          Some (l\<lparr>tail := order_idx\<rparr>, Q')
        } else do {
          Q \<leftarrow> vec_set P (unat order_idx) (ord\<lparr>o_prev := INVALID_INDEX, o_next := INVALID_INDEX\<rparr>);
          Some (l\<lparr>head := order_idx, tail := order_idx\<rparr>, Q)
        });
     ord1 \<leftarrow> vec_get P1 (unat order_idx);
     Some (l1\<lparr>total_quantity := total_quantity l1 + ucast (o_quantity ord1),
              order_count := order_count l1 + 1\<rparr>, P1)
   }"

definition remove_order :: "u32 \<Rightarrow> PriceLevel \<Rightarrow> Order list \<Rightarrow> (PriceLevel \<times> Order list) option" where
  "remove_order order_idx l P = do {
     ord \<leftarrow> vec_get P (unat order_idx);
     (l1, P1) \<leftarrow>
       (if o_prev ord \<noteq> INVALID_INDEX then do {
          a \<leftarrow> vec_get P (unat (o_prev ord));
          Q \<leftarrow> vec_set P (unat (o_prev ord)) (a\<lparr>o_next := o_next ord\<rparr>);
          Some (l, Q)
        } else Some (l\<lparr>head := o_next ord\<rparr>, P));
     ord1 \<leftarrow> vec_get P1 (unat order_idx);
     (l2, P2) \<leftarrow>
       (if o_next ord1 \<noteq> INVALID_INDEX then do {
          a \<leftarrow> vec_get P1 (unat (o_next ord1));
          Q \<leftarrow> vec_set P1 (unat (o_next ord1)) (a\<lparr>o_prev := o_prev ord1\<rparr>);
          Some (l1, Q)
        } else Some (l1\<lparr>tail := o_prev ord1\<rparr>, P1));
     ord2 \<leftarrow> vec_get P2 (unat order_idx);
     P3 \<leftarrow> vec_set P2 (unat order_idx) (ord2\<lparr>o_prev := INVALID_INDEX, o_next := INVALID_INDEX\<rparr>);
     Some (l2\<lparr>total_quantity := total_quantity l2 - ucast (o_quantity ord2),
              order_count := order_count l2 - 1\<rparr>, P3)
   }"

definition level_is_empty :: "PriceLevel \<Rightarrow> bool" where
  "level_is_empty l = (head l = INVALID_INDEX)"

definition canary_intact :: "PriceLevel \<Rightarrow> bool" where
  "canary_intact l = (debug_canary l = PRICE_LEVEL_CANARY)"

section \<open>The queue a level stands for\<close>

text \<open>
  \<open>dll P p xs n\<close>: the slots \<open>xs\<close> are doubly linked in this order, the first one's \<open>prev\<close> is
  \<open>p\<close> and the last one's \<open>next\<close> is \<open>n\<close>.
\<close>

fun dll :: "Order list \<Rightarrow> u32 \<Rightarrow> u32 list \<Rightarrow> u32 \<Rightarrow> bool" where
  "dll P p [] n \<longleftrightarrow> True"
| "dll P p (x # xs) n \<longleftrightarrow>
     o_prev (slot P x) = p \<and> o_next (slot P x) = hd_or n xs \<and> dll P x xs n"

abbreviation qty64 :: "Order list \<Rightarrow> u32 \<Rightarrow> u64" where
  "qty64 P x \<equiv> ucast (o_quantity (slot P x))"

definition queue_rel :: "Order list \<Rightarrow> PriceLevel \<Rightarrow> u32 list \<Rightarrow> bool" where
  "queue_rel P l xs \<longleftrightarrow>
     head l = hd_or INVALID_INDEX xs \<and> tail l = last_or INVALID_INDEX xs \<and>
     dll P INVALID_INDEX xs INVALID_INDEX \<and>
     total_quantity l = (\<Sum>x\<leftarrow>xs. qty64 P x) \<and> order_count l = of_nat (length xs) \<and>
     canary_intact l"

text \<open>The part of a slot that linking and unlinking leave alone.\<close>

definition payload :: "Order \<Rightarrow> OrderId \<times> Price \<times> Quantity \<times> u8" where
  "payload s = (o_id s, o_price s, o_quantity s, o_side s)"

definition relinked :: "u32 set \<Rightarrow> Order list \<Rightarrow> Order list \<Rightarrow> bool" where
  "relinked A P P' \<longleftrightarrow> length P' = length P \<and> (\<forall>y. payload (slot P' y) = payload (slot P y)) \<and>
     (\<forall>y. y \<notin> A \<longrightarrow> slot P' y = slot P y)"

definition slots_in :: "Order list \<Rightarrow> u32 list \<Rightarrow> bool" where
  "slots_in P xs \<longleftrightarrow> distinct xs \<and> (\<forall>x \<in> set xs. unat x < length P) \<and> INVALID_INDEX \<notin> set xs"

section \<open>Facts on linked queues\<close>

lemma payload_simps [simp]:
  "payload (s\<lparr>o_next := a\<rparr>) = payload s" "payload (s\<lparr>o_prev := a\<rparr>) = payload s"
  by (simp_all add: payload_def)

lemma payload_eqD:
  "payload s = payload t \<Longrightarrow> o_id s = o_id t \<and> o_price s = o_price t \<and> o_quantity s = o_quantity t \<and> o_side s = o_side t"
  by (simp add: payload_def)

lemma dll_append:
  "dll P p (xs @ ys) n \<longleftrightarrow> dll P p xs (hd_or n ys) \<and> dll P (last_or p xs) ys n"
  by (induction xs arbitrary: p) auto

lemma dll_frame:
  "dll P p xs n \<Longrightarrow> (\<And>x. x \<in> set xs \<Longrightarrow> slot P' x = slot P x) \<Longrightarrow> dll P' p xs n"
  by (induction xs arbitrary: p) auto

lemma dll_upd [simp]: "x \<notin> set xs \<Longrightarrow> dll (P[unat x := v]) p xs n = dll P p xs n"
  by (induction xs arbitrary: p) (auto simp: slot_upd_other)

lemma dll_linked: "dll P p xs n \<Longrightarrow> linked P xs"
  by (induction xs arbitrary: p rule: induct_list012) auto

lemma queue_rel_frame:
  assumes "queue_rel P l xs" "\<And>x. x \<in> set xs \<Longrightarrow> slot P' x = slot P x"
  shows "queue_rel P' l xs"
proof -
  have "(\<Sum>x\<leftarrow>xs. qty64 P' x) = (\<Sum>x\<leftarrow>xs. qty64 P x)" using assms(2) by (simp cong: map_cong)
  with assms show ?thesis by (auto simp: queue_rel_def intro: dll_frame)
qed

lemma queue_rel_empty: "queue_rel P l xs \<Longrightarrow> INVALID_INDEX \<notin> set xs \<Longrightarrow> level_is_empty l \<longleftrightarrow> xs = []"
  by (auto simp: queue_rel_def level_is_empty_def hd_or_eq_iff)

lemma queue_rel_default: "queue_rel P PriceLevel_default []"
  by (simp add: queue_rel_def PriceLevel_default_def canary_intact_def)

lemma relinked_qty: "relinked A P P' \<Longrightarrow> qty64 P' x = qty64 P x"
  by (simp add: relinked_def payload_def)

lemma sum_qty_relinked: "relinked A P P' \<Longrightarrow> (\<Sum>x\<leftarrow>xs. qty64 P' x) = (\<Sum>x\<leftarrow>xs. qty64 P x)"
  by (simp add: relinked_qty cong: map_cong)

section \<open>Appending and removing\<close>

lemma append_order_rel:
  assumes "queue_rel P l xs" "slots_in P (xs @ [x])"
  shows "\<exists>l' P'. append_order x l P = Some (l', P') \<and> queue_rel P' l' (xs @ [x]) \<and>
    relinked (set (xs @ [x])) P P'"
proof (cases xs rule: rev_cases)
  case Nil
  let ?P = "P[unat x := (slot P x)\<lparr>o_prev := INVALID_INDEX, o_next := INVALID_INDEX\<rparr>]"
  have "relinked (set (xs @ [x])) P ?P"
    using assms Nil by (auto simp: relinked_def slots_in_def slot_upd)
  moreover have "append_order x l P = Some (l\<lparr>head := x, tail := x,
      total_quantity := total_quantity l + qty64 P x, order_count := order_count l + 1\<rparr>, ?P)"
    using assms Nil by (simp add: append_order_def queue_rel_def slots_in_def vec_simps slot_def)
  ultimately show ?thesis
    using assms Nil by (auto simp: queue_rel_def slots_in_def slot_upd_same canary_intact_def)
next
  case (snoc ys t)
  let ?P1 = "P[unat x := (slot P x)\<lparr>o_prev := t, o_next := INVALID_INDEX\<rparr>]"
  let ?P = "?P1[unat t := (slot P t)\<lparr>o_next := x\<rparr>]"
  have tx: "t \<noteq> x" "unat t < length P" "unat x < length P" "head l \<noteq> INVALID_INDEX" "tail l = t"
    using assms snoc hd_or_cases [of t ys]
    by (auto simp: queue_rel_def slots_in_def hd_or_eq_iff)
  have rl: "relinked (set (xs @ [x])) P ?P"
    using tx snoc by (auto simp: relinked_def slot_upd)
  have "append_order x l P = Some (l\<lparr>tail := x,
      total_quantity := total_quantity l + qty64 P x, order_count := order_count l + 1\<rparr>, ?P)"
    using tx by (simp add: append_order_def vec_simps slot_def nth_upd_unat)
  moreover have "dll ?P INVALID_INDEX (xs @ [x]) INVALID_INDEX"
    using assms snoc tx by (auto simp: queue_rel_def slots_in_def dll_append slot_upd)
  ultimately show ?thesis
    using assms snoc tx rl sum_qty_relinked [OF rl] relinked_qty [OF rl]
    by (auto simp: queue_rel_def canary_intact_def add_ac)
qed

text \<open>Unlinking, one lemma per neighbour: the predecessor's link, then the successor's.\<close>

lemma unlink_prev:
  assumes "queue_rel P l (ys @ x # zs)" "slots_in P (ys @ x # zs)"
  shows "\<exists>l1 P1. (if o_prev (slot P x) \<noteq> INVALID_INDEX then do {
          a \<leftarrow> vec_get P (unat (o_prev (slot P x)));
          Q \<leftarrow> vec_set P (unat (o_prev (slot P x))) (a\<lparr>o_next := o_next (slot P x)\<rparr>);
          Some (l, Q)
        } else Some (l\<lparr>head := o_next (slot P x)\<rparr>, P)) = Some (l1, P1) \<and>
     l1 = l\<lparr>head := hd_or INVALID_INDEX (ys @ zs)\<rparr> \<and> relinked (set ys) P P1 \<and>
     dll P1 INVALID_INDEX ys (hd_or INVALID_INDEX zs)"
proof (cases ys rule: rev_cases)
  case Nil
  then show ?thesis
    using assms by (auto simp: queue_rel_def relinked_def)
next
  case (snoc ys' a)
  have a: "o_prev (slot P x) = a" "o_next (slot P x) = hd_or INVALID_INDEX zs" "a \<noteq> INVALID_INDEX"
    "unat a < length P" "a \<notin> set ys'"
    using assms snoc by (auto simp: queue_rel_def dll_append slots_in_def)
  have "hd_or INVALID_INDEX (ys @ zs) = head l"
    using assms(1) snoc by (simp add: queue_rel_def)
  with a snoc assms show ?thesis
    by (simp add: vec_simps) (auto simp: queue_rel_def relinked_def dll_append slot_upd slot_def nth_upd_unat)
qed

lemma unlink_next:
  assumes "o_next (slot P x) = hd_or INVALID_INDEX zs" "dll P x zs INVALID_INDEX" "slots_in P (ys @ x # zs)"
    "o_prev (slot P x) = last_or INVALID_INDEX ys" "tail l = last_or INVALID_INDEX (ys @ x # zs)"
  shows "\<exists>l1 P1. (if o_next (slot P x) \<noteq> INVALID_INDEX then do {
          a \<leftarrow> vec_get P (unat (o_next (slot P x)));
          Q \<leftarrow> vec_set P (unat (o_next (slot P x))) (a\<lparr>o_prev := o_prev (slot P x)\<rparr>);
          Some (l, Q)
        } else Some (l\<lparr>tail := o_prev (slot P x)\<rparr>, P)) = Some (l1, P1) \<and>
     l1 = l\<lparr>tail := last_or INVALID_INDEX (ys @ zs)\<rparr> \<and> relinked (set zs) P P1 \<and>
     dll P1 (last_or INVALID_INDEX ys) zs INVALID_INDEX"
proof (cases zs)
  case Nil
  then show ?thesis
    using assms by (auto simp: relinked_def)
next
  case (Cons b zs')
  then have b: "o_next (slot P x) = b" "b \<noteq> INVALID_INDEX" "unat b < length P" "b \<notin> set zs'"
    using assms by (auto simp: slots_in_def)
  with Cons assms show ?thesis
    by (simp add: vec_simps) (auto simp: relinked_def slot_upd slot_def nth_upd_unat)
qed

lemma relinked_trans: "relinked A P Q \<Longrightarrow> relinked B Q R \<Longrightarrow> relinked (A \<union> B) P R"
  by (simp add: relinked_def)

lemma remove_order_rel:
  assumes "queue_rel P l (ys @ x # zs)" "slots_in P (ys @ x # zs)"
  shows "\<exists>l' P'. remove_order x l P = Some (l', P') \<and> queue_rel P' l' (ys @ zs) \<and>
    relinked (set (ys @ x # zs)) P P'"
proof -
  have x: "unat x < length P" "x \<notin> set ys" "x \<notin> set zs" "set ys \<inter> set zs = {}"
    using assms(2) by (auto simp: slots_in_def)
  obtain P1 where P1: "relinked (set ys) P P1" "dll P1 INVALID_INDEX ys (hd_or INVALID_INDEX zs)"
    and s1: "(if o_prev (slot P x) \<noteq> INVALID_INDEX then do {
          a \<leftarrow> vec_get P (unat (o_prev (slot P x)));
          Q \<leftarrow> vec_set P (unat (o_prev (slot P x))) (a\<lparr>o_next := o_next (slot P x)\<rparr>);
          Some (l, Q)
        } else Some (l\<lparr>head := o_next (slot P x)\<rparr>, P)) =
        Some (l\<lparr>head := hd_or INVALID_INDEX (ys @ zs)\<rparr>, P1)"
    using unlink_prev [OF assms] by auto
  let ?l1 = "l\<lparr>head := hd_or INVALID_INDEX (ys @ zs)\<rparr>"
  have same: "slot P1 y = slot P y" if "y \<in> set (x # zs)" for y
    using P1(1) x that by (auto simp: relinked_def)
  have "dll P1 x zs INVALID_INDEX"
    using assms(1) same by (auto simp: queue_rel_def dll_append intro: dll_frame)
  moreover have "slots_in P1 (ys @ x # zs)"
    using assms(2) P1(1) by (simp add: slots_in_def relinked_def)
  ultimately obtain P2 where P2: "relinked (set zs) P1 P2" "dll P2 (last_or INVALID_INDEX ys) zs INVALID_INDEX"
    and s2: "(if o_next (slot P1 x) \<noteq> INVALID_INDEX then do {
          a \<leftarrow> vec_get P1 (unat (o_next (slot P1 x)));
          Q \<leftarrow> vec_set P1 (unat (o_next (slot P1 x))) (a\<lparr>o_prev := o_prev (slot P1 x)\<rparr>);
          Some (?l1, Q)
        } else Some (?l1\<lparr>tail := o_prev (slot P1 x)\<rparr>, P1)) =
        Some (?l1\<lparr>tail := last_or INVALID_INDEX (ys @ zs)\<rparr>, P2)"
    using unlink_next [of P1 x zs ys ?l1] assms(1) same by (auto simp: queue_rel_def dll_append)
  let ?P3 = "P2[unat x := (slot P2 x)\<lparr>o_prev := INVALID_INDEX, o_next := INVALID_INDEX\<rparr>]"
  have len: "length P1 = length P" "length P2 = length P"
    using P1(1) P2(1) by (simp_all add: relinked_def)
  have "relinked {x} P2 ?P3" using x len by (auto simp: relinked_def slot_upd)
  then have rl: "relinked (set (ys @ x # zs)) P ?P3"
    using relinked_trans [OF relinked_trans [OF P1(1) P2(1)], of "{x}"] by (simp add: Un_commute)
  have "dll ?P3 INVALID_INDEX (ys @ zs) INVALID_INDEX"
  proof -
    have "dll P2 INVALID_INDEX ys (hd_or INVALID_INDEX zs)"
      by (rule dll_frame [OF P1(2)]) (use P2(1) x(4) in \<open>auto simp: relinked_def\<close>)
    with P2(2) x show ?thesis by (simp add: dll_append)
  qed
  moreover have "remove_order x l P = Some (?l1\<lparr>tail := last_or INVALID_INDEX (ys @ zs),
      total_quantity := total_quantity l - qty64 P x, order_count := order_count l - 1\<rparr>, ?P3)"
    using x len relinked_qty [OF relinked_trans [OF P1(1) P2(1)], of x]
    by (simp add: remove_order_def vec_get_slot vec_set_in s1 s2 del: hd_or_append last_or_append
        split del: if_split)
  ultimately show ?thesis
    using assms(1) rl sum_qty_relinked [OF rl] by (auto simp: queue_rel_def canary_intact_def)
qed

section \<open>The level interface\<close>

text \<open>
  What the book relies on: a level is a sequence of slots in arrival order; appending adds at
  the back, removing takes out one slot wherever it stands, and the payload of every slot and
  the links of the other slots stay.
\<close>

locale fifo_level =
  fixes append :: "u32 \<Rightarrow> 'l \<Rightarrow> Order list \<Rightarrow> ('l \<times> Order list) option"
    and remove :: "u32 \<Rightarrow> 'l \<Rightarrow> Order list \<Rightarrow> ('l \<times> Order list) option"
    and is_empty :: "'l \<Rightarrow> bool"
    and fresh :: 'l
    and rel :: "Order list \<Rightarrow> 'l \<Rightarrow> u32 list \<Rightarrow> bool"
  assumes rel_fresh: "rel P fresh []"
    and rel_empty: "rel P l xs \<Longrightarrow> slots_in P xs \<Longrightarrow> is_empty l \<longleftrightarrow> xs = []"
    and rel_append: "rel P l xs \<Longrightarrow> slots_in P (xs @ [x]) \<Longrightarrow>
      \<exists>l' P'. append x l P = Some (l', P') \<and> rel P' l' (xs @ [x]) \<and> relinked (set (xs @ [x])) P P'"
    and rel_remove: "rel P l (ys @ x # zs) \<Longrightarrow> slots_in P (ys @ x # zs) \<Longrightarrow>
      \<exists>l' P'. remove x l P = Some (l', P') \<and> rel P' l' (ys @ zs) \<and> relinked (set (ys @ x # zs)) P P'"
begin

text \<open>Appending a run of slots keeps their order.\<close>

lemma append_all:
  assumes "rel P l xs" "slots_in P (xs @ zs)"
  shows "\<exists>l' P'. foldl (\<lambda>r x. Option.bind r (\<lambda>(l, P). append x l P)) (Some (l, P)) zs = Some (l', P') \<and>
    rel P' l' (xs @ zs) \<and> relinked (set (xs @ zs)) P P'"
  using assms
proof (induction zs arbitrary: l P xs)
  case Nil
  then show ?case by (auto simp: relinked_def)
next
  case (Cons z zs)
  have "slots_in P (xs @ [z])" using Cons.prems(2) by (auto simp: slots_in_def)
  then obtain l1 P1 where 1: "append z l P = Some (l1, P1)" "rel P1 l1 (xs @ [z])"
    "relinked (set (xs @ [z])) P P1"
    using rel_append [OF Cons.prems(1)] by blast
  have "slots_in P1 ((xs @ [z]) @ zs)"
    using Cons.prems(2) 1(3) by (auto simp: slots_in_def relinked_def)
  from Cons.IH [OF 1(2) this] 1 show ?case by (auto simp: relinked_def)
qed

text \<open>Appending an order and cancelling it again leaves the queue as it was.\<close>

lemma append_remove:
  assumes "rel P l xs" "slots_in P (xs @ [x])"
  shows "\<exists>l1 P1 l2 P2. append x l P = Some (l1, P1) \<and> remove x l1 P1 = Some (l2, P2) \<and> rel P2 l2 xs"
proof -
  obtain l1 P1 where 1: "append x l P = Some (l1, P1)" "rel P1 l1 (xs @ [x])"
    "relinked (set (xs @ [x])) P P1"
    using rel_append [OF assms] by blast
  have "slots_in P1 (xs @ [x])" using assms(2) 1(3) by (simp add: slots_in_def relinked_def)
  with rel_remove [of P1 l1 xs x "[]"] 1 show ?thesis by auto
qed

end

interpretation pl: fifo_level append_order remove_order level_is_empty PriceLevel_default queue_rel
proof
  show "queue_rel P PriceLevel_default []" for P by (rule queue_rel_default)
  show "level_is_empty l \<longleftrightarrow> xs = []" if "queue_rel P l xs" "slots_in P xs" for P l xs
    using that by (simp add: queue_rel_empty slots_in_def)
qed (fact append_order_rel remove_order_rel)+

end
