(* ===== verification/Price_Bitset.thy ===== *)
theory Price_Bitset
  imports HFT_Prelude
begin

text \<open>
  The two-level price bitset of \<open>src/src/OrderBook.h\<close>: one bit per price tick in 64-bit words,
  and a summary with one bit per word. The scans of \<open>update_best_ask_after_remove\<close> and
  \<open>update_best_bid_after_remove\<close> (and their inlined copies in \<open>match_order_direct\<close>) find the
  next populated tick with masks and \<open>std::countr_zero\<close> / \<open>std::countl_zero\<close>.
\<close>

section \<open>Bit counting (the C++20 functions of <bit>)\<close>

abbreviation kWordBits :: nat where "kWordBits \<equiv> 64"
abbreviation kTopBitIndex :: nat where "kTopBitIndex \<equiv> 63"

definition countr_zero :: "u64 \<Rightarrow> nat" where
  "countr_zero w = length (takeWhile (\<lambda>n. \<not> bit w n) [0..<64])"

definition countl_zero :: "u64 \<Rightarrow> nat" where
  "countl_zero w = length (takeWhile (\<lambda>n. \<not> bit w n) (rev [0..<64]))"

definition popcount :: "u64 \<Rightarrow> nat" where
  "popcount w = length (filter (bit w) [0..<64])"

section \<open>Setting and clearing a tick\<close>

definition price_bit_set :: "u64 list \<Rightarrow> u64 list \<Rightarrow> nat \<Rightarrow> (u64 list \<times> u64 list) option" where
  "price_bit_set bitset summary bit_idx = do {
     let word_offset = bit_idx div kWordBits;
     let bit_mask = push_bit (bit_idx mod kWordBits) 1;
     w \<leftarrow> vec_get bitset word_offset;
     bitset' \<leftarrow> vec_set bitset word_offset (w OR bit_mask);
     s \<leftarrow> vec_get summary (word_offset div kWordBits);
     summary' \<leftarrow> vec_set summary (word_offset div kWordBits) (s OR push_bit (word_offset mod kWordBits) 1);
     Some (bitset', summary')
   }"

definition price_bit_clear :: "u64 list \<Rightarrow> u64 list \<Rightarrow> nat \<Rightarrow> (u64 list \<times> u64 list) option" where
  "price_bit_clear bitset summary bit_idx = do {
     let word_offset = bit_idx div kWordBits;
     let bit_mask = push_bit (bit_idx mod kWordBits) 1;
     w \<leftarrow> vec_get bitset word_offset;
     bitset' \<leftarrow> vec_set bitset word_offset (w AND NOT bit_mask);
     if w AND NOT bit_mask = 0 then do {
       s \<leftarrow> vec_get summary (word_offset div kWordBits);
       summary' \<leftarrow> vec_set summary (word_offset div kWordBits)
          (s AND NOT (push_bit (word_offset mod kWordBits) 1));
       Some (bitset', summary')
     } else Some (bitset', summary)
   }"

section \<open>Scanning upwards (asks)\<close>

function scan_summary_up :: "u64 list \<Rightarrow> nat \<Rightarrow> nat option" where
  "scan_summary_up summary i =
     (if i < length summary then
        if summary ! i \<noteq> 0 then Some i else scan_summary_up summary (Suc i)
      else None)"
  by pat_completeness auto
termination
  by (relation "measure (\<lambda>(summary, i). length summary - i)") auto

declare scan_summary_up.simps [simp del]

definition next_above :: "u64 list \<Rightarrow> u64 list \<Rightarrow> nat \<Rightarrow> nat option option" where
  "next_above bitset summary bit_idx = do {
     let word_idx = bit_idx div kWordBits;
     let msk = NOT (push_bit (bit_idx mod kWordBits) 1 - 1);
     w \<leftarrow> vec_get bitset word_idx;
     let word = w AND msk;
     if word \<noteq> 0 then Some (Some (word_idx * kWordBits + countr_zero word))
     else do {
       let summary_idx = word_idx div kWordBits;
       let k = word_idx mod kWordBits;
       let summary_mask = NOT (push_bit 1 (push_bit k 1 - 1) OR 1);
       s \<leftarrow> vec_get summary summary_idx;
       let summary_word = s AND summary_mask;
       if summary_word \<noteq> 0 then do {
         let next_word_idx = summary_idx * kWordBits + countr_zero summary_word;
         nw \<leftarrow> vec_get bitset next_word_idx;
         Some (Some (next_word_idx * kWordBits + countr_zero nw))
       } else
         case scan_summary_up summary (summary_idx + 1) of
           Some i \<Rightarrow> do {
             let next_word_idx = i * kWordBits + countr_zero (summary ! i);
             nw \<leftarrow> vec_get bitset next_word_idx;
             Some (Some (next_word_idx * kWordBits + countr_zero nw))
           }
         | None \<Rightarrow> Some None
     }
   }"

section \<open>Scanning downwards (bids)\<close>

fun scan_summary_down :: "u64 list \<Rightarrow> nat \<Rightarrow> nat option" where
  "scan_summary_down summary 0 = None"
| "scan_summary_down summary (Suc i) =
     (if summary ! i \<noteq> 0 then Some i else scan_summary_down summary i)"

definition prev_below :: "u64 list \<Rightarrow> u64 list \<Rightarrow> nat \<Rightarrow> nat option option" where
  "prev_below bitset summary bit_idx = do {
     let word_idx = bit_idx div kWordBits;
     let msk = push_bit (bit_idx mod kWordBits) 1 - 1;
     w \<leftarrow> vec_get bitset word_idx;
     let word = w AND msk;
     if word \<noteq> 0 then Some (Some (word_idx * kWordBits + kTopBitIndex - countl_zero word))
     else do {
       let summary_idx = word_idx div kWordBits;
       let summary_mask = push_bit (word_idx mod kWordBits) 1 - 1;
       s \<leftarrow> vec_get summary summary_idx;
       let summary_word = s AND summary_mask;
       if summary_word \<noteq> 0 then do {
         let next_word_idx = summary_idx * kWordBits + kTopBitIndex - countl_zero summary_word;
         nw \<leftarrow> vec_get bitset next_word_idx;
         Some (Some (next_word_idx * kWordBits + kTopBitIndex - countl_zero nw))
       } else
         case scan_summary_down summary summary_idx of
           Some i \<Rightarrow> do {
             let next_word_idx = i * kWordBits + kTopBitIndex - countl_zero (summary ! i);
             nw \<leftarrow> vec_get bitset next_word_idx;
             Some (Some (next_word_idx * kWordBits + kTopBitIndex - countl_zero nw))
           }
         | None \<Rightarrow> Some None
     }
   }"

section \<open>What a bitset stands for\<close>

definition bitset_set :: "u64 list \<Rightarrow> nat set" where
  "bitset_set ws = {i. i < 64 * length ws \<and> bit (ws ! (i div 64)) (i mod 64)}"

text \<open>\<open>S\<close> is the set of populated ticks of a range of \<open>R\<close> ticks.\<close>

definition bits_rel :: "nat \<Rightarrow> u64 list \<Rightarrow> u64 list \<Rightarrow> nat set \<Rightarrow> bool" where
  "bits_rel R bitset summary S \<longleftrightarrow>
     length bitset = (R + 63) div 64 \<and> length summary = (length bitset + 63) div 64 \<and>
     S \<subseteq> {..<R} \<and> bitset_set bitset = S \<and>
     bitset_set summary = {w. w < length bitset \<and> bitset ! w \<noteq> 0}"

definition is_next :: "nat set \<Rightarrow> nat \<Rightarrow> nat option \<Rightarrow> bool" where
  "is_next S i r \<longleftrightarrow>
     (case r of None \<Rightarrow> \<forall>k \<in> S. k < i
      | Some j \<Rightarrow> j \<in> S \<and> i \<le> j \<and> (\<forall>k \<in> S. i \<le> k \<longrightarrow> j \<le> k))"

definition is_prev :: "nat set \<Rightarrow> nat \<Rightarrow> nat option \<Rightarrow> bool" where
  "is_prev S i r \<longleftrightarrow>
     (case r of None \<Rightarrow> \<forall>k \<in> S. i \<le> k
      | Some j \<Rightarrow> j \<in> S \<and> j < i \<and> (\<forall>k \<in> S. k < i \<longrightarrow> k \<le> j))"

lemma is_next_Suc: "i \<notin> S \<Longrightarrow> is_next S i r \<longleftrightarrow> is_next S (Suc i) r"
  by (cases r) (auto simp: is_next_def Suc_le_eq less_Suc_eq, metis le_eq_less_or_eq)

lemma is_prev_Suc: "i \<notin> S \<Longrightarrow> is_prev S (Suc i) r \<longleftrightarrow> is_prev S i r"
  by (cases r) (auto simp: is_prev_def Suc_le_eq less_Suc_eq, metis le_eq_less_or_eq)

section \<open>Masks and counts\<close>

lemma bit_mask_ge: "bit (NOT (push_bit k 1 - 1) :: u64) n \<longleftrightarrow> n < 64 \<and> k \<le> n"
  by (auto simp: bit_not_iff_eq push_bit_of_1 mask_eq_exp_minus_1 [symmetric] bit_mask_iff)

lemma bit_mask_lt: "k \<le> 64 \<Longrightarrow> bit (push_bit k 1 - 1 :: u64) n \<longleftrightarrow> n < k"
  by (auto simp: push_bit_of_1 mask_eq_exp_minus_1 [symmetric] bit_mask_iff)

lemma bit_mask_gt: "bit (NOT (push_bit 1 (push_bit k 1 - 1) OR 1) :: u64) n \<longleftrightarrow> n < 64 \<and> k < n"
proof -
  have "bit (push_bit 1 (mask k :: u64) OR 1) n \<longleftrightarrow> n < 64 \<and> n \<le> k"
    by (simp only: bit_or_iff bit_push_bit_iff bit_mask_iff bit_1_iff possible_bit_word) auto
  moreover have "push_bit k 1 - 1 = (mask k :: u64)"
    by (simp add: push_bit_of_1 mask_eq_exp_minus_1)
  ultimately show ?thesis by (simp only: bit_not_iff possible_bit_word) auto
qed

lemma word_eq_0_iff_bits: "(w :: u64) = 0 \<longleftrightarrow> (\<forall>n < 64. \<not> bit w n)"
  using bit_imp_le_length [of w] by (auto simp: bit_eq_iff)

lemma takeWhile_length_first:
  assumes "\<exists>x \<in> set xs. \<not> P x"
  shows "length (takeWhile P xs) < length xs \<and> \<not> P (xs ! length (takeWhile P xs)) \<and>
    (\<forall>i < length (takeWhile P xs). P (xs ! i))"
proof -
  have "length (takeWhile P xs) < length xs"
    using assms by (induction xs) auto
  then show ?thesis
    using nth_length_takeWhile [of P xs] set_takeWhileD [of _ P xs] takeWhile_nth [of _ P xs]
    by (metis nth_mem)
qed

lemma countr_zero_props:
  assumes "w \<noteq> 0"
  shows "countr_zero w < 64" "bit w (countr_zero w)" "\<And>n. bit w n \<Longrightarrow> countr_zero w \<le> n"
proof -
  have "\<exists>x \<in> set [0..<64]. \<not> (\<not> bit w x)" using assms by (auto simp: word_eq_0_iff_bits)
  note t = takeWhile_length_first [OF this]
  from t show "countr_zero w < 64" by (simp add: countr_zero_def)
  with t show "bit w (countr_zero w)" by (auto simp: countr_zero_def)
  from t have "\<forall>i < countr_zero w. \<not> bit w ([0..<64] ! i)"
    unfolding countr_zero_def by blast
  with \<open>countr_zero w < 64\<close> have "\<forall>i < countr_zero w. \<not> bit w i" by auto
  then show "countr_zero w \<le> n" if "bit w n" for n using that by (meson not_le)
qed

lemma countl_zero_props:
  assumes "w \<noteq> 0"
  shows "countl_zero w < 64" "bit w (63 - countl_zero w)" "\<And>n. bit w n \<Longrightarrow> n \<le> 63 - countl_zero w"
proof -
  have "\<exists>x \<in> set (rev [0..<64]). \<not> (\<not> bit w x)" using assms by (auto simp: word_eq_0_iff_bits)
  note t = takeWhile_length_first [OF this]
  from t show lt: "countl_zero w < 64" by (simp add: countl_zero_def)
  with t show "bit w (63 - countl_zero w)" by (auto simp: countl_zero_def rev_nth)
  have c: "\<not> bit w (63 - i)" if "i < countl_zero w" for i
    using t that lt by (auto simp: countl_zero_def rev_nth)
  show "n \<le> 63 - countl_zero w" if "bit w n" for n
  proof (rule ccontr)
    assume "\<not> n \<le> 63 - countl_zero w"
    moreover have "n < 64" using that bit_imp_le_length [of w n] by simp
    ultimately have "63 - n < countl_zero w" "63 - (63 - n) = n" by auto
    with c [of "63 - n"] that show False by simp
  qed
qed

section \<open>One level\<close>

lemma bitset_mem:
  "q < length ws \<Longrightarrow> r < 64 \<Longrightarrow> 64 * q + r \<in> bitset_set ws \<longleftrightarrow> bit (ws ! q) r"
  by (simp add: bitset_set_def)

lemma bitset_memD:
  assumes "k \<in> bitset_set ws"
  shows "k div 64 < length ws" "bit (ws ! (k div 64)) (k mod 64)" "ws ! (k div 64) \<noteq> 0"
  using assms by (auto simp: bitset_set_def)

text \<open>A word masked to the positions from \<open>r\<close> on holds the next member, or none of its block.\<close>

lemma word_next:
  assumes q: "q < length ws" and m: "\<And>n. bit m n \<longleftrightarrow> n < 64 \<and> r \<le> n"
  shows "ws ! q AND m \<noteq> 0 \<Longrightarrow> is_next (bitset_set ws) (64 * q + r) (Some (64 * q + countr_zero (ws ! q AND m)))"
    and "ws ! q AND m = 0 \<Longrightarrow> k \<in> bitset_set ws \<Longrightarrow> 64 * q + r \<le> k \<Longrightarrow> Suc q \<le> k div 64"
proof -
  have mem: "bit (ws ! q AND m) (k mod 64)"
    if "k \<in> bitset_set ws" "64 * q + r \<le> k" "k div 64 = q" for k
  proof -
    have "r \<le> k mod 64" using that by (metis mult_div_mod_eq add_le_cancel_left)
    then show ?thesis using bitset_memD(2) [OF that(1)] that(3) m by (simp add: bit_and_iff)
  qed
  show "is_next (bitset_set ws) (64 * q + r) (Some (64 * q + countr_zero (ws ! q AND m)))"
    if nz: "ws ! q AND m \<noteq> 0"
  proof -
    note c = countr_zero_props [OF nz]
    have "bit (ws ! q) (countr_zero (ws ! q AND m))" "r \<le> countr_zero (ws ! q AND m)"
      using c(2) m by (auto simp: bit_and_iff)
    moreover have "64 * q + countr_zero (ws ! q AND m) \<le> k"
      if k: "k \<in> bitset_set ws" "64 * q + r \<le> k" for k
    proof (cases "k div 64 = q")
      case True
      then show ?thesis using c(3) [OF mem [OF k True]] by (metis add_le_cancel_left mult_div_mod_eq)
    next
      case False
      have "q \<le> k div 64" using k(2) by (simp add: less_eq_div_iff_mult_less_eq mult.commute)
      with False have "Suc q \<le> k div 64" by simp
      then have "64 * Suc q \<le> k" by (simp add: less_eq_div_iff_mult_less_eq mult.commute)
      with c(1) show ?thesis by simp
    qed
    ultimately show ?thesis using q c(1) by (simp add: is_next_def bitset_mem)
  qed
  show "Suc q \<le> k div 64" if "ws ! q AND m = 0" "k \<in> bitset_set ws" "64 * q + r \<le> k"
  proof -
    have "q \<le> k div 64" using that(3) by (simp add: less_eq_div_iff_mult_less_eq mult.commute)
    with mem [OF that(2,3)] that(1) show ?thesis by (cases "k div 64 = q") auto
  qed
qed

text \<open>A word masked to the positions below \<open>r\<close> holds the previous member, or none of its block.\<close>

lemma word_prev:
  assumes q: "q < length ws" and m: "\<And>n. bit m n \<longleftrightarrow> n < r" and r: "r \<le> 64"
  shows "ws ! q AND m \<noteq> 0 \<Longrightarrow> is_prev (bitset_set ws) (64 * q + r) (Some (64 * q + (63 - countl_zero (ws ! q AND m))))"
    and "ws ! q AND m = 0 \<Longrightarrow> k \<in> bitset_set ws \<Longrightarrow> k < 64 * q + r \<Longrightarrow> k div 64 < q"
proof -
  have mem: "bit (ws ! q AND m) (k mod 64)"
    if "k \<in> bitset_set ws" "k < 64 * q + r" "k div 64 = q" for k
  proof -
    have "k mod 64 < r" using that by (metis mult_div_mod_eq add_less_cancel_left)
    then show ?thesis using bitset_memD(2) [OF that(1)] that(3) m by (simp add: bit_and_iff)
  qed
  have blk: "k div 64 \<le> q" if "k < 64 * q + r" for k
  proof -
    have "k < 64 * Suc q" using that r by simp
    then show ?thesis by (simp add: div_less_iff_less_mult mult.commute less_Suc_eq_le [symmetric])
  qed
  show "is_prev (bitset_set ws) (64 * q + r) (Some (64 * q + (63 - countl_zero (ws ! q AND m))))"
    if nz: "ws ! q AND m \<noteq> 0"
  proof -
    note c = countl_zero_props [OF nz]
    have "bit (ws ! q) (63 - countl_zero (ws ! q AND m))" "63 - countl_zero (ws ! q AND m) < r"
      using c(2) m by (auto simp: bit_and_iff)
    moreover have "k \<le> 64 * q + (63 - countl_zero (ws ! q AND m))"
      if k: "k \<in> bitset_set ws" "k < 64 * q + r" for k
    proof (cases "k div 64 = q")
      case True
      then show ?thesis using c(3) [OF mem [OF k True]] by (metis add_le_cancel_left mult_div_mod_eq)
    next
      case False
      with blk [OF k(2)] have "k div 64 < q" by simp
      then have "k < 64 * q" by (simp add: div_less_iff_less_mult mult.commute)
      then show ?thesis by simp
    qed
    ultimately show ?thesis using q by (simp add: is_prev_def bitset_mem)
  qed
  show "k div 64 < q" if "ws ! q AND m = 0" "k \<in> bitset_set ws" "k < 64 * q + r"
    using mem [OF that(2,3)] blk [OF that(3)] that(1) by (cases "k div 64 = q") auto
qed

section \<open>Two levels\<close>

abbreviation words_set :: "u64 list \<Rightarrow> nat set" where
  "words_set bitset \<equiv> {w. w < length bitset \<and> bitset ! w \<noteq> 0}"

lemma lift_next:
  assumes "\<And>k. k \<in> bitset_set bs \<Longrightarrow> i \<le> k \<Longrightarrow> Suc q \<le> k div 64" "i \<le> 64 * Suc q"
  shows "is_next (words_set bs) (Suc q) (Some w) \<Longrightarrow>
      is_next (bitset_set bs) i (Some (64 * w + countr_zero (bs ! w)))"
    and "is_next (words_set bs) (Suc q) None \<Longrightarrow> is_next (bitset_set bs) i None"
proof -
  show "is_next (bitset_set bs) i (Some (64 * w + countr_zero (bs ! w)))"
    if n: "is_next (words_set bs) (Suc q) (Some w)"
  proof -
    have w: "w < length bs" "bs ! w \<noteq> 0" "Suc q \<le> w" using n by (auto simp: is_next_def)
    have all: "is_next (bitset_set bs) (64 * w + 0) (Some (64 * w + countr_zero (bs ! w AND - 1)))"
      using w by (intro word_next(1)) (auto simp: bit_and_iff)
    have "64 * w \<le> k" if "k \<in> bitset_set bs" "i \<le> k" for k
    proof -
      have "Suc q \<le> k div 64" "k div 64 \<in> words_set bs"
        using assms(1) [OF that] bitset_memD [OF that(1)] by auto
      then have "w \<le> k div 64" using n by (auto simp: is_next_def)
      then show ?thesis by (simp add: less_eq_div_iff_mult_less_eq mult.commute)
    qed
    moreover have "i \<le> 64 * w"
      using assms(2) w(3) by (metis mult_le_mono2 order_trans)
    ultimately show ?thesis using all by (auto simp: is_next_def)
  qed
  show "is_next (bitset_set bs) i None" if "is_next (words_set bs) (Suc q) None"
  proof -
    have "k < i" if k: "k \<in> bitset_set bs" for k
    proof (rule ccontr)
      assume "\<not> k < i"
      then have "Suc q \<le> k div 64" using assms(1) [OF k] by simp
      moreover have "k div 64 < Suc q"
        using \<open>is_next (words_set bs) (Suc q) None\<close> bitset_memD [OF k] by (auto simp: is_next_def)
      ultimately show False by simp
    qed
    then show ?thesis by (simp add: is_next_def)
  qed
qed

lemma lift_prev:
  assumes "\<And>k. k \<in> bitset_set bs \<Longrightarrow> k < i \<Longrightarrow> k div 64 < q" "64 * q \<le> i"
  shows "is_prev (words_set bs) q (Some w) \<Longrightarrow>
      is_prev (bitset_set bs) i (Some (64 * w + (63 - countl_zero (bs ! w))))"
    and "is_prev (words_set bs) q None \<Longrightarrow> is_prev (bitset_set bs) i None"
proof -
  show "is_prev (bitset_set bs) i (Some (64 * w + (63 - countl_zero (bs ! w))))"
    if n: "is_prev (words_set bs) q (Some w)"
  proof -
    have w: "w < length bs" "bs ! w \<noteq> 0" "w < q" using n by (auto simp: is_prev_def)
    have all: "is_prev (bitset_set bs) (64 * w + 64) (Some (64 * w + (63 - countl_zero (bs ! w AND - 1))))"
      using w by (intro word_prev(1)) (auto simp: bit_and_iff)
    have "k < 64 * w + 64" if "k \<in> bitset_set bs" "k < i" for k
    proof -
      have "k div 64 < q" "k div 64 \<in> words_set bs"
        using assms(1) [OF that] bitset_memD [OF that(1)] by auto
      then have "k div 64 \<le> w" using n by (auto simp: is_prev_def)
      then have "k div 64 < Suc w" by simp
      then have "k < Suc w * 64" by (simp add: div_less_iff_less_mult)
      then show ?thesis by simp
    qed
    moreover have "64 * w + 64 \<le> i"
    proof -
      have "64 * Suc w \<le> 64 * q" using w(3) by (intro mult_le_mono2) simp
      with assms(2) show ?thesis by simp
    qed
    ultimately show ?thesis using all by (auto simp: is_prev_def)
  qed
  show "is_prev (bitset_set bs) i None" if "is_prev (words_set bs) q None"
  proof -
    have "i \<le> k" if k: "k \<in> bitset_set bs" for k
    proof (rule ccontr)
      assume "\<not> i \<le> k"
      then have "k div 64 < q" using assms(1) [OF k] by simp
      moreover have "q \<le> k div 64"
        using \<open>is_prev (words_set bs) q None\<close> bitset_memD [OF k] by (auto simp: is_prev_def)
      ultimately show False by simp
    qed
    then show ?thesis by (simp add: is_prev_def)
  qed
qed

text \<open>The linear part of the scans, over whole summary words.\<close>

lemma scan_summary_up_next:
  assumes "scan_summary_up sm i = r"
  shows "is_next (words_set sm) i r"
  using assms
proof (induction sm i arbitrary: r rule: scan_summary_up.induct)
  case (1 sm i)
  show ?case
  proof (cases "i < length sm \<and> sm ! i = 0")
    case True
    then have "scan_summary_up sm (Suc i) = r"
      using "1.prems" by (simp add: scan_summary_up.simps [of sm i])
    then have "is_next (words_set sm) (Suc i) r" using "1.IH" True by simp
    with True show ?thesis by (simp add: is_next_Suc [symmetric])
  next
    case False
    with "1.prems" show ?thesis
      by (subst (asm) scan_summary_up.simps) (auto simp: is_next_def split: if_splits)
  qed
qed

lemma scan_summary_down_prev:
  "i \<le> length sm \<Longrightarrow> scan_summary_down sm i = r \<Longrightarrow> is_prev (words_set sm) i r"
proof (induction i arbitrary: r)
  case (Suc i)
  show ?case
  proof (cases "sm ! i = 0")
    case True
    with Suc show ?thesis by (simp add: is_prev_Suc)
  next
    case False
    with Suc.prems show ?thesis by (auto simp: is_prev_def)
  qed
qed (simp add: is_prev_def)

section \<open>The scans\<close>

lemma bits_rel_words:
  assumes "bits_rel R bs sm S" "i < R"
  shows "i div 64 < length bs" "i div 64 div 64 < length sm"
  using assms by (auto simp: bits_rel_def)

lemma block_bound: "i < 64 * Suc (i div (64 :: nat))"
  by presburger

text \<open>The summary names the words, so a scan of the summary finds the next non-zero word.\<close>

lemma summary_next:
  assumes "bits_rel R bs sm S" "i < R" "next_above bs sm i = r"
    "bs ! (i div 64) AND NOT (push_bit (i mod 64) 1 - 1) = 0"
  shows "\<exists>r'. r = Some (map_option (\<lambda>w. 64 * w + countr_zero (bs ! w)) r') \<and>
    is_next (words_set bs) (Suc (i div 64)) r'"
proof -
  let ?W = "i div 64" let ?q = "?W div 64" let ?k = "?W mod 64"
  let ?m = "NOT (push_bit 1 (push_bit ?k 1 - 1) OR 1) :: u64"
  note rng = bits_rel_words [OF assms(1,2)]
  have ws: "bitset_set sm = words_set bs" using assms(1) by (simp add: bits_rel_def)
  have W: "64 * ?q + Suc ?k = Suc ?W" by simp
  have m: "bit ?m n \<longleftrightarrow> n < 64 \<and> Suc ?k \<le> n" for n by (simp only: bit_mask_gt Suc_le_eq)
  show ?thesis
  proof (cases "sm ! ?q AND ?m = 0")
    case False
    let ?w = "64 * ?q + countr_zero (sm ! ?q AND ?m)"
    have n: "is_next (words_set bs) (Suc ?W) (Some ?w)"
      using word_next(1) [OF rng(2) m False] ws W by metis
    then have "?w < length bs" by (simp add: is_next_def)
    then have "r = Some (Some (64 * ?w + countr_zero (bs ! ?w)))"
      using assms(3,4) rng False by (simp add: next_above_def vec_get_in Let_def mult.commute)
    with n show ?thesis by (intro exI [of _ "Some ?w"]) simp
  next
    case True
    have none: "Suc ?q \<le> k div 64" if "k \<in> words_set bs" "Suc ?W \<le> k" for k
      using word_next(2) [OF rng(2) m True, of k] that ws W by metis
    have le: "Suc ?W \<le> 64 * Suc ?q"
      using block_bound [of ?W] by simp
    show ?thesis
    proof (cases "scan_summary_up sm (Suc ?q)")
      case None
      have "is_next (bitset_set sm) (Suc ?W) None"
        by (rule lift_next(2) [OF _ le scan_summary_up_next [OF None]]) (use none ws in blast)
      moreover have "r = Some None"
        using assms(3,4) rng True None by (simp add: next_above_def vec_get_in Let_def)
      ultimately show ?thesis using ws by auto
    next
      case (Some j)
      let ?w = "64 * j + countr_zero (sm ! j)"
      have n: "is_next (words_set bs) (Suc ?W) (Some ?w)"
        unfolding ws [symmetric]
        by (rule lift_next(1) [OF _ le scan_summary_up_next [OF Some]]) (use none ws in blast)
      then have "?w < length bs" by (simp add: is_next_def)
      then have "r = Some (Some (64 * ?w + countr_zero (bs ! ?w)))"
        using assms(3,4) rng True Some by (simp add: next_above_def vec_get_in Let_def mult.commute)
      with n show ?thesis by (intro exI [of _ "Some ?w"]) simp
    qed
  qed
qed

lemma summary_prev:
  assumes "bits_rel R bs sm S" "i < R" "prev_below bs sm i = r"
    "bs ! (i div 64) AND (push_bit (i mod 64) 1 - 1) = 0"
  shows "\<exists>r'. r = Some (map_option (\<lambda>w. 64 * w + (63 - countl_zero (bs ! w))) r') \<and>
    is_prev (words_set bs) (i div 64) r'"
proof -
  let ?W = "i div 64" let ?q = "?W div 64" let ?k = "?W mod 64"
  let ?m = "push_bit ?k 1 - 1 :: u64"
  note rng = bits_rel_words [OF assms(1,2)]
  have ws: "bitset_set sm = words_set bs" using assms(1) by (simp add: bits_rel_def)
  have W: "64 * ?q + ?k = ?W" by simp
  have m: "bit ?m n \<longleftrightarrow> n < ?k" for n by (rule bit_mask_lt) simp
  have k: "?k \<le> 64" by simp
  have top: "a * 64 + 63 - countl_zero w = 64 * a + (63 - countl_zero w)" if "w \<noteq> 0" for a w
    using countl_zero_props(1) [OF that] by simp
  show ?thesis
  proof (cases "sm ! ?q AND ?m = 0")
    case False
    define w where "w = 64 * ?q + (63 - countl_zero (sm ! ?q AND ?m))"
    have n: "is_prev (words_set bs) ?W (Some w)"
      using word_prev(1) [OF rng(2) m k False] ws W unfolding w_def by metis
    then have w: "w < length bs" "bs ! w \<noteq> 0" by (simp_all add: is_prev_def)
    have "?q * 64 + 63 - countl_zero (sm ! ?q AND ?m) = w" using top [OF False] by (simp add: w_def)
    then have "r = Some (Some (w * 64 + 63 - countl_zero (bs ! w)))"
      using assms(3,4) rng False w by (simp add: prev_below_def vec_get_in Let_def)
    with n top [OF w(2), of w] show ?thesis by (intro exI [of _ "Some w"]) simp
  next
    case True
    have none: "k div 64 < ?q" if "k \<in> words_set bs" "k < ?W" for k
      using word_prev(2) [OF rng(2) m k True, of k] that ws W by metis
    have le: "64 * ?q \<le> ?W" by simp
    have dn: "is_prev (words_set sm) ?q (scan_summary_down sm ?q)"
      by (rule scan_summary_down_prev) (use rng(2) in simp_all)
    show ?thesis
    proof (cases "scan_summary_down sm ?q")
      case None
      have "is_prev (bitset_set sm) ?W None"
        by (rule lift_prev(2) [OF _ le]) (use none ws dn None in auto)
      moreover have "r = Some None"
        using assms(3,4) rng True None by (simp add: prev_below_def vec_get_in Let_def)
      ultimately show ?thesis using ws by auto
    next
      case (Some j)
      define w where "w = 64 * j + (63 - countl_zero (sm ! j))"
      have n: "is_prev (words_set bs) ?W (Some w)"
        unfolding ws [symmetric] w_def by (rule lift_prev(1) [OF _ le]) (use none ws dn Some in auto)
      have "sm ! j \<noteq> 0" using dn Some by (simp add: is_prev_def)
      then have "j * 64 + 63 - countl_zero (sm ! j) = w" by (simp add: top w_def)
      moreover have w: "w < length bs" "bs ! w \<noteq> 0" using n by (simp_all add: is_prev_def)
      ultimately have "r = Some (Some (w * 64 + 63 - countl_zero (bs ! w)))"
        using assms(3,4) rng True Some by (simp add: prev_below_def vec_get_in Let_def)
      with n top [OF w(2), of w] show ?thesis by (intro exI [of _ "Some w"]) simp
    qed
  qed
qed

text \<open>The scans return, and return the nearest populated tick.\<close>

lemma next_above_correct:
  assumes "bits_rel R bs sm S" "i < R"
  shows "\<exists>r. next_above bs sm i = Some r \<and> is_next S i r"
proof (cases "bs ! (i div 64) AND NOT (push_bit (i mod 64) 1 - 1) = 0")
  case True
  have S: "bitset_set bs = S" using assms(1) by (simp add: bits_rel_def)
  note rng = bits_rel_words [OF assms]
  have none: "Suc (i div 64) \<le> k div 64" if "k \<in> bitset_set bs" "i \<le> k" for k
    using word_next(2) [OF rng(1) bit_mask_ge True that(1)] that(2) by simp
  have le: "i \<le> 64 * Suc (i div 64)"
    using block_bound [of i] by simp
  obtain r' where r': "next_above bs sm i = Some (map_option (\<lambda>w. 64 * w + countr_zero (bs ! w)) r')"
    "is_next (words_set bs) (Suc (i div 64)) r'"
    using summary_next [OF assms refl True] by blast
  have "is_next (bitset_set bs) i (map_option (\<lambda>w. 64 * w + countr_zero (bs ! w)) r')"
    using r'(2) lift_next [OF none le] by (cases r') auto
  with r' S show ?thesis by auto
next
  case False
  note rng = bits_rel_words [OF assms]
  have "is_next (bitset_set bs) i
      (Some (64 * (i div 64) + countr_zero (bs ! (i div 64) AND NOT (push_bit (i mod 64) 1 - 1))))"
    using word_next(1) [OF rng(1) bit_mask_ge False] by simp
  moreover have "bitset_set bs = S" using assms(1) by (simp add: bits_rel_def)
  ultimately show ?thesis
    using False rng by (simp add: next_above_def vec_get_in Let_def mult.commute)
qed

lemma prev_below_correct:
  assumes "bits_rel R bs sm S" "i < R"
  shows "\<exists>r. prev_below bs sm i = Some r \<and> is_prev S i r"
proof (cases "bs ! (i div 64) AND (push_bit (i mod 64) 1 - 1) = 0")
  case True
  have S: "bitset_set bs = S" using assms(1) by (simp add: bits_rel_def)
  note rng = bits_rel_words [OF assms]
  have m: "bit (push_bit (i mod 64) 1 - 1 :: u64) n \<longleftrightarrow> n < i mod 64" for n by (rule bit_mask_lt) simp
  have none: "k div 64 < i div 64" if "k \<in> bitset_set bs" "k < i" for k
    using word_prev(2) [OF rng(1) m _ True that(1)] that(2) by simp
  obtain r' where r': "prev_below bs sm i = Some (map_option (\<lambda>w. 64 * w + (63 - countl_zero (bs ! w))) r')"
    "is_prev (words_set bs) (i div 64) r'"
    using summary_prev [OF assms refl True] by blast
  have "is_prev (bitset_set bs) i (map_option (\<lambda>w. 64 * w + (63 - countl_zero (bs ! w))) r')"
    using r'(2) lift_prev [of bs i "i div 64"] none by (cases r') auto
  with r' S show ?thesis by auto
next
  case False
  note rng = bits_rel_words [OF assms]
  have m: "bit (push_bit (i mod 64) 1 - 1 :: u64) n \<longleftrightarrow> n < i mod 64" for n by (rule bit_mask_lt) simp
  have "is_prev (bitset_set bs) i
      (Some (64 * (i div 64) + (63 - countl_zero (bs ! (i div 64) AND (push_bit (i mod 64) 1 - 1)))))"
    using word_prev(1) [OF rng(1) m _ False] by simp
  moreover have "bitset_set bs = S" using assms(1) by (simp add: bits_rel_def)
  ultimately show ?thesis
    using False rng countl_zero_props(1) [OF False]
    by (simp add: prev_below_def vec_get_in Let_def mult.commute)
qed

section \<open>Setting and clearing\<close>

lemma bit_single: "r < 64 \<Longrightarrow> bit (push_bit r 1 :: u64) n \<longleftrightarrow> n = r"
  by (auto simp: push_bit_of_1 bit_exp_iff)

lemma bit_exp64: "r < 64 \<Longrightarrow> bit (2 ^ r :: u64) n \<longleftrightarrow> n = r"
  using bit_single [of r n] by (simp add: push_bit_of_1)

lemma bitset_upd:
  assumes "q < length ws" "\<And>n. n < 64 \<Longrightarrow> bit v n \<longleftrightarrow> P n"
  shows "bitset_set (ws[q := v]) =
    {k. k < 64 * length ws \<and> (if k div 64 = q then P (k mod 64) else k \<in> bitset_set ws)}"
  using assms by (auto simp: bitset_set_def nth_list_update)

lemma tick_iff: "k div 64 = q \<Longrightarrow> r < 64 \<Longrightarrow> k mod 64 = r \<longleftrightarrow> k = 64 * q + (r :: nat)"
  by (metis add_left_cancel mult_div_mod_eq)

lemma bitset_or:
  assumes "q < length ws" "r < 64"
  shows "bitset_set (ws[q := ws ! q OR push_bit r 1]) = insert (64 * q + r) (bitset_set ws)"
proof -
  have "bit (ws ! q OR push_bit r 1) n \<longleftrightarrow> bit (ws ! q) n \<or> n = r" for n
    using assms(2) by (simp add: bit_or_iff bit_exp64)
  note upd = bitset_upd [OF assms(1) this]
  have "64 * q + r < 64 * length ws" using assms by (simp add: Suc_le_eq [symmetric])
  then show ?thesis
    unfolding upd using assms by (auto simp: bitset_set_def tick_iff)
qed

lemma bitset_andnot:
  assumes "q < length ws" "r < 64"
  shows "bitset_set (ws[q := ws ! q AND NOT (push_bit r 1)]) = bitset_set ws - {64 * q + r}"
proof -
  have "bit (ws ! q AND NOT (push_bit r 1)) n \<longleftrightarrow> bit (ws ! q) n \<and> n \<noteq> r" if "n < 64" for n
    using assms(2) that by (simp add: bit_and_iff bit_not_iff bit_exp64)
  then have upd: "bitset_set (ws[q := ws ! q AND NOT (push_bit r 1)]) = {k. k < 64 * length ws \<and>
      (if k div 64 = q then bit (ws ! q) (k mod 64) \<and> k mod 64 \<noteq> r else k \<in> bitset_set ws)}"
    by (rule bitset_upd [OF assms(1)])
  show ?thesis
    unfolding upd using assms by (auto simp: bitset_set_def tick_iff)
qed

lemma price_bit_set_correct:
  assumes "bits_rel R bs sm S" "i < R"
  shows "\<exists>bs' sm'. price_bit_set bs sm i = Some (bs', sm') \<and> bits_rel R bs' sm' (insert i S)"
proof -
  let ?W = "i div 64" let ?q = "?W div 64"
  note rng = bits_rel_words [OF assms]
  let ?v = "bs ! ?W OR push_bit (i mod 64) 1"
  let ?bs = "bs[?W := ?v]" and ?sm = "sm[?q := sm ! ?q OR push_bit (?W mod 64) 1]"
  have "?v \<noteq> 0" by (metis bit_0_eq bit_or_iff bit_single bot_apply mod_less_divisor zero_less_numeral bot_bool_def)
  then have "words_set ?bs = insert ?W (words_set bs)"
    using rng(1) by (auto simp: nth_list_update)
  moreover have "bitset_set ?sm = insert ?W (bitset_set sm)"
    using bitset_or [OF rng(2), of "?W mod 64"] by simp
  moreover have "bitset_set ?bs = insert i (bitset_set bs)"
    using bitset_or [OF rng(1), of "i mod 64"] by simp
  ultimately have "bits_rel R ?bs ?sm (insert i S)"
    using assms by (auto simp: bits_rel_def)
  moreover have "price_bit_set bs sm i = Some (?bs, ?sm)"
    using rng by (simp add: price_bit_set_def vec_simps Let_def)
  ultimately show ?thesis by blast
qed

lemma price_bit_clear_correct:
  assumes "bits_rel R bs sm S" "i < R"
  shows "\<exists>bs' sm'. price_bit_clear bs sm i = Some (bs', sm') \<and> bits_rel R bs' sm' (S - {i})"
proof -
  let ?W = "i div 64" let ?q = "?W div 64"
  note rng = bits_rel_words [OF assms]
  let ?v = "bs ! ?W AND NOT (push_bit (i mod 64) 1)"
  let ?bs = "bs[?W := ?v]"
  let ?sm = "if ?v = 0 then sm[?q := sm ! ?q AND NOT (push_bit (?W mod 64) 1)] else sm"
  have "bitset_set ?sm = (if ?v = 0 then bitset_set sm - {?W} else bitset_set sm)"
    using bitset_andnot [OF rng(2), of "?W mod 64"] by simp
  moreover have "words_set ?bs = (if ?v = 0 then words_set bs - {?W} else words_set bs)"
    using rng(1) by (auto simp: nth_list_update)
  moreover have "bitset_set ?bs = bitset_set bs - {i}"
    using bitset_andnot [OF rng(1), of "i mod 64"] by simp
  moreover have "length ?sm = length sm" by simp
  ultimately have "bits_rel R ?bs ?sm (S - {i})"
    using assms by (auto simp: bits_rel_def)
  moreover have "price_bit_clear bs sm i = Some (?bs, ?sm)"
    using rng by (simp add: price_bit_clear_def vec_simps Let_def)
  ultimately show ?thesis by blast
qed

lemma bits_rel_empty: "bits_rel R (replicate ((R + 63) div 64) 0)
    (replicate (((R + 63) div 64 + 63) div 64) 0) {}"
  by (auto simp: bits_rel_def bitset_set_def)

section \<open>Counting populated ticks\<close>

lemma bitset_set_Cons:
  "bitset_set (w # ws) = {n. n < 64 \<and> bit w n} \<union> (\<lambda>k. k + 64) ` bitset_set ws"
proof (rule set_eqI)
  fix k
  show "k \<in> bitset_set (w # ws) \<longleftrightarrow> k \<in> {n. n < 64 \<and> bit w n} \<union> (\<lambda>k. k + 64) ` bitset_set ws"
  proof (cases "k < 64")
    case True
    then show ?thesis by (auto simp: bitset_set_def)
  next
    case False
    then obtain j where j: "k = j + 64" by (metis le_Suc_ex add.commute not_less)
    have "(j + 64) div 64 = Suc (j div 64)" by simp
    with j have "k \<in> bitset_set (w # ws) \<longleftrightarrow> j \<in> bitset_set ws" by (simp add: bitset_set_def)
    with j False show ?thesis by auto
  qed
qed

lemma finite_bitset_set: "finite (bitset_set ws)"
  by (simp add: bitset_set_def)

lemma sum_popcount: "(\<Sum>w\<leftarrow>ws. popcount w) = card (bitset_set ws)"
proof (induction ws)
  case Nil
  then show ?case by (simp add: bitset_set_def)
next
  case (Cons w ws)
  have "popcount w = card {n. n < 64 \<and> bit w n}"
  proof -
    have "popcount w = card (set (filter (bit w) [0..<64]))"
      unfolding popcount_def by (intro distinct_card [symmetric] distinct_filter distinct_upt)
    also have "set (filter (bit w) [0..<64]) = {n. n < 64 \<and> bit w n}" by (auto simp del: upt_Suc)
    finally show ?thesis .
  qed
  moreover have "card ((\<lambda>k. k + 64) ` bitset_set ws) = card (bitset_set ws)"
    by (simp add: card_image)
  moreover have "{n. n < 64 \<and> bit w n} \<inter> (\<lambda>k. k + 64) ` bitset_set ws = {}" by auto
  ultimately show ?case
    using Cons.IH finite_bitset_set by (simp add: bitset_set_Cons card_Un_disjoint)
qed

section \<open>The tick-set interface\<close>

text \<open>
  What the book relies on: a set of populated ticks with insertion, deletion and the nearest
  member above and below a tick.
\<close>

locale tick_set =
  fixes insert_tick remove_tick :: "'b \<Rightarrow> 's \<Rightarrow> nat \<Rightarrow> ('b \<times> 's) option"
    and above below :: "'b \<Rightarrow> 's \<Rightarrow> nat \<Rightarrow> nat option option"
    and rel :: "nat \<Rightarrow> 'b \<Rightarrow> 's \<Rightarrow> nat set \<Rightarrow> bool"
  assumes insert_ok: "rel R b s S \<Longrightarrow> i < R \<Longrightarrow>
      \<exists>b' s'. insert_tick b s i = Some (b', s') \<and> rel R b' s' (insert i S)"
    and remove_ok: "rel R b s S \<Longrightarrow> i < R \<Longrightarrow>
      \<exists>b' s'. remove_tick b s i = Some (b', s') \<and> rel R b' s' (S - {i})"
    and above_ok: "rel R b s S \<Longrightarrow> i < R \<Longrightarrow> \<exists>r. above b s i = Some r \<and> is_next S i r"
    and below_ok: "rel R b s S \<Longrightarrow> i < R \<Longrightarrow> \<exists>r. below b s i = Some r \<and> is_prev S i r"
begin

text \<open>Dropping the least member and scanning upwards from it gives the new least member.\<close>

lemma remove_min:
  assumes "rel R b s S" "i < R" "\<forall>k \<in> S. i \<le> k"
  shows "\<exists>b' s' r. remove_tick b s i = Some (b', s') \<and> rel R b' s' (S - {i}) \<and>
    above b' s' i = Some r \<and> is_next (S - {i}) 0 r"
proof -
  obtain b' s' where 1: "remove_tick b s i = Some (b', s')" "rel R b' s' (S - {i})"
    using remove_ok [OF assms(1,2)] by blast
  obtain r where 2: "above b' s' i = Some r" "is_next (S - {i}) i r"
    using above_ok [OF 1(2) assms(2)] by blast
  have "is_next (S - {i}) 0 r"
    using 2(2) assms(3) by (cases r) (auto simp: is_next_def, meson DiffI leD singletonD)
  with 1 2 show ?thesis by blast
qed

text \<open>Dropping the greatest member and scanning downwards gives the new greatest member.\<close>

lemma remove_max:
  assumes "rel R b s S" "i < R" "\<forall>k \<in> S. k \<le> i"
  shows "\<exists>b' s' r. remove_tick b s i = Some (b', s') \<and> rel R b' s' (S - {i}) \<and>
    below b' s' i = Some r \<and> is_prev (S - {i}) R r"
proof -
  obtain b' s' where 1: "remove_tick b s i = Some (b', s')" "rel R b' s' (S - {i})"
    using remove_ok [OF assms(1,2)] by blast
  obtain r where 2: "below b' s' i = Some r" "is_prev (S - {i}) i r"
    using below_ok [OF 1(2) assms(2)] by blast
  have le: "k < i" if "k \<in> S - {i}" for k
    using assms(3) that by (metis Diff_iff insert_iff le_neq_implies_less)
  have "is_prev (S - {i}) R r"
  proof (cases r)
    case None
    then have "\<forall>k \<in> S - {i}. i \<le> k" using 2(2) by (simp add: is_prev_def)
    with le have "S - {i} = {}" by (meson equals0I leD)
    with None show ?thesis by (auto simp: is_prev_def)
  next
    case (Some j)
    then show ?thesis using 2(2) le assms(2) by (auto simp: is_prev_def)
  qed
  with 1 2 show ?thesis by blast
qed

end

interpretation pb: tick_set price_bit_set price_bit_clear next_above prev_below bits_rel
  by unfold_locales
    (fact price_bit_set_correct price_bit_clear_correct next_above_correct prev_below_correct)+

end
