(* ===== verification/Journal.thy ===== *)
theory Journal
  imports Order_Types
begin

text \<open>
  \<open>src/src/Journal.h\<close>: the fixed-capacity ring of lifecycle events of the instrumented builds.
\<close>

section \<open>Events and entries\<close>

datatype JournalEvent =
    OrderSubmitted
  | OrderRejected
  | OrderRested
  | TradeExecuted
  | MakerFilled
  | OrderCancelled
  | EvPoolExhausted
  | BestBidChanged
  | BestAskChanged

fun event_u8 :: "JournalEvent \<Rightarrow> u8" where
  "event_u8 OrderSubmitted = 0"
| "event_u8 OrderRejected = 1"
| "event_u8 OrderRested = 2"
| "event_u8 TradeExecuted = 3"
| "event_u8 MakerFilled = 4"
| "event_u8 OrderCancelled = 5"
| "event_u8 EvPoolExhausted = 6"
| "event_u8 BestBidChanged = 7"
| "event_u8 BestAskChanged = 8"

text \<open>\<open>journal_event_name\<close>, on the stored byte as \<open>dump\<close> calls it.\<close>

definition journal_event_name :: "u8 \<Rightarrow> string" where
  "journal_event_name e =
     (if e = event_u8 OrderSubmitted then ''SUBMIT''
      else if e = event_u8 OrderRejected then ''REJECT''
      else if e = event_u8 OrderRested then ''REST''
      else if e = event_u8 TradeExecuted then ''TRADE''
      else if e = event_u8 MakerFilled then ''MAKER_FILLED''
      else if e = event_u8 OrderCancelled then ''CANCEL''
      else if e = event_u8 EvPoolExhausted then ''POOL_EXHAUSTED''
      else if e = event_u8 BestBidChanged then ''BEST_BID''
      else if e = event_u8 BestAskChanged then ''BEST_ASK''
      else ''?'')"

record JournalEntry =
  e_timestamp :: u64
  e_id :: u32
  e_price :: u32
  e_quantity :: u32
  e_event :: u8
  e_reason :: u8
  e_side :: u8
  e_pad :: u8

definition JournalEntry_zero :: JournalEntry where
  "JournalEntry_zero = \<lparr>e_timestamp = 0, e_id = 0, e_price = 0, e_quantity = 0, e_event = 0,
     e_reason = 0, e_side = 0, e_pad = 0\<rparr>"

section \<open>The ring\<close>

text \<open>\<open>ticks\<close> counts the timestamps taken, for \<^const>\<open>debug_timestamp\<close>.\<close>

record Journal =
  entries :: "JournalEntry list"
  jmask :: u64
  pos :: u64
  ticks :: nat

definition kDefaultCapacity :: nat where
  "kDefaultCapacity = 8192"

fun bit_floor :: "nat \<Rightarrow> nat" where
  "bit_floor n = (if n \<le> 1 then n else 2 * bit_floor (n div 2))"

declare bit_floor.simps [simp del]

definition Journal_new :: "nat \<Rightarrow> Journal" where
  "Journal_new cap =
     (let size0 = (if cap \<noteq> 0 then cap else 1); pow2 = bit_floor size0
      in \<lparr>entries = replicate pow2 JournalEntry_zero, jmask = of_nat (pow2 - 1), pos = 0, ticks = 0\<rparr>)"

definition journal_record ::
  "Env \<Rightarrow> JournalEvent \<Rightarrow> u32 \<Rightarrow> u32 \<Rightarrow> u32 \<Rightarrow> u8 \<Rightarrow> u8 \<Rightarrow> Journal \<Rightarrow> Journal" where
  "journal_record E event i px qty side reason j =
     j\<lparr>entries := (entries j)[unat (pos j AND jmask j) :=
          \<lparr>e_timestamp = debug_timestamp E (ticks j), e_id = i, e_price = px, e_quantity = qty,
           e_event = event_u8 event, e_reason = reason, e_side = side, e_pad = 0\<rparr>],
       pos := pos j + 1, ticks := Suc (ticks j)\<rparr>"

definition journal_size :: "Journal \<Rightarrow> nat" where
  "journal_size j = (if unat (pos j) < length (entries j) then unat (pos j) else length (entries j))"

definition journal_total :: "Journal \<Rightarrow> u64" where
  "journal_total j = pos j"

definition journal_capacity :: "Journal \<Rightarrow> nat" where
  "journal_capacity j = length (entries j)"

definition journal_at :: "Journal \<Rightarrow> nat \<Rightarrow> JournalEntry" where
  "journal_at j i = entries j ! unat ((pos j - of_nat (journal_size j) + of_nat i) AND jmask j)"

definition journal_clear :: "Journal \<Rightarrow> Journal" where
  "journal_clear j = j\<lparr>pos := 0\<rparr>"

text \<open>The entries \<open>dump\<close> renders, in the order it prints them.\<close>

definition journal_dump :: "Journal \<Rightarrow> nat \<Rightarrow> JournalEntry list" where
  "journal_dump j max_lines =
     (let n = journal_size j; start = (if n > max_lines then n - max_lines else 0)
      in map (journal_at j) [start..<n])"

section \<open>The ring holds the latest events\<close>

definition journal_ok :: "Journal \<Rightarrow> bool" where
  "journal_ok j \<longleftrightarrow> (\<exists>k < 64. length (entries j) = 2 ^ k \<and> jmask j = mask k)"

text \<open>\<open>es\<close> are the entries written since construction or the last \<open>clear\<close>.\<close>

definition journal_rel :: "Journal \<Rightarrow> JournalEntry list \<Rightarrow> bool" where
  "journal_rel j es \<longleftrightarrow> journal_ok j \<and> pos j = of_nat (length es) \<and>
     (\<forall>i < length es. length es \<le> i + length (entries j) \<longrightarrow>
        entries j ! (i mod length (entries j)) = es ! i)"

lemma bit_floor_pow2: "0 < n \<Longrightarrow> \<exists>k. bit_floor n = 2 ^ k \<and> bit_floor n \<le> n \<and> n < 2 * bit_floor n"
proof (induction n rule: bit_floor.induct)
  case (1 n)
  show ?case
  proof (cases "n \<le> 1")
    case True
    with "1.prems" show ?thesis by (auto simp: bit_floor.simps intro: exI [of _ 0])
  next
    case False
    then obtain k where k: "bit_floor (n div 2) = 2 ^ k" "bit_floor (n div 2) \<le> n div 2"
      "n div 2 < 2 * bit_floor (n div 2)"
      using 1 by auto
    have "bit_floor n = 2 * bit_floor (n div 2)" using False by (simp add: bit_floor.simps)
    with k show ?thesis by (intro exI [of _ "Suc k"]) auto
  qed
qed

lemma ring_index:
  assumes "length xs = 2 ^ k" "k < 64"
  shows "unat ((p :: u64) AND mask k) = unat p mod length xs"
proof -
  have "unat (p AND mask k) = take_bit k (unat p)"
    by (simp only: take_bit_eq_mask [symmetric] unsigned_take_bit_eq)
  then show ?thesis by (simp only: take_bit_eq_mod assms(1))
qed

lemma ring_index_less: "journal_ok j \<Longrightarrow> unat (p AND jmask j) < length (entries j)"
  by (auto simp: journal_ok_def ring_index)

lemma Journal_new_ok:
  assumes "cap < 2 ^ 64"
  shows "journal_ok (Journal_new cap)" "journal_rel (Journal_new cap) []"
proof -
  let ?n = "if cap \<noteq> 0 then cap else 1"
  have "0 < ?n" by simp
  from bit_floor_pow2 [OF this] obtain k where k: "bit_floor ?n = 2 ^ k" "bit_floor ?n \<le> ?n" by blast
  have "?n < 2 ^ 64" using assms by simp
  with k have "(2 :: nat) ^ k < 2 ^ 64" by (metis le_less_trans)
  then have "k < 64" by (rule power_less_imp_less_exp [rotated]) simp
  moreover have "(of_nat (2 ^ k - 1) :: u64) = mask k"
    by (simp add: mask_eq_exp_minus_1 of_nat_diff)
  ultimately show "journal_ok (Journal_new cap)"
    using k by (auto simp: journal_ok_def Journal_new_def Let_def)
  then show "journal_rel (Journal_new cap) []"
    by (simp add: journal_rel_def Journal_new_def Let_def)
qed

lemma journal_record_ok: "journal_ok j \<Longrightarrow> journal_ok (journal_record E ev i px q s r j)"
  by (auto simp: journal_ok_def journal_record_def)

text \<open>The entry \<open>record\<close> writes.\<close>

abbreviation recorded :: "Env \<Rightarrow> JournalEvent \<Rightarrow> u32 \<Rightarrow> u32 \<Rightarrow> u32 \<Rightarrow> u8 \<Rightarrow> u8 \<Rightarrow> nat \<Rightarrow> JournalEntry" where
  "recorded E ev i px q s r n \<equiv> \<lparr>e_timestamp = debug_timestamp E n, e_id = i, e_price = px, e_quantity = q,
     e_event = event_u8 ev, e_reason = r, e_side = s, e_pad = 0\<rparr>"

lemma journal_record_exact:
  assumes "journal_rel j es" "Suc (length es) < 2 ^ 64"
  shows "journal_rel (journal_record E ev i px q s r j) (es @ [recorded E ev i px q s r (ticks j)])"
proof -
  let ?e = "recorded E ev i px q s r (ticks j)"
  let ?c = "length (entries j)"
  obtain k where k: "k < 64" "?c = 2 ^ k" "jmask j = mask k"
    using assms(1) by (auto simp: journal_rel_def journal_ok_def)
  have "unat (pos j) = length es"
    using assms by (simp add: journal_rel_def unat_of_nat_64)
  then have w: "unat (pos j AND jmask j) = length es mod ?c" using k by (simp add: ring_index)
  have c: "0 < ?c" using k by simp
  have other: "i mod ?c \<noteq> length es mod ?c" if "i < length es" "length es < i + ?c" for i
  proof
    assume "i mod ?c = length es mod ?c"
    then have "?c dvd length es - i" using mod_eq_dvd_iff_nat [of i "length es" ?c] that(1) by simp
    then have "?c \<le> length es - i" using that(1) by (simp add: dvd_imp_le)
    with that show False by simp
  qed
  have nth: "(entries j)[length es mod ?c := ?e] ! (n mod ?c) = (es @ [?e]) ! n"
    if "n < Suc (length es)" "Suc (length es) \<le> n + ?c" for n
  proof (cases "n = length es")
    case True
    with c show ?thesis by simp
  next
    case False
    with that other [of n] have "n < length es" "n mod ?c \<noteq> length es mod ?c" by auto
    with that assms(1) show ?thesis by (simp add: nth_append journal_rel_def)
  qed
  have "journal_record E ev i px q s r j =
      j\<lparr>entries := (entries j)[length es mod ?c := ?e], pos := pos j + 1, ticks := Suc (ticks j)\<rparr>"
    by (simp add: journal_record_def w)
  moreover have "journal_ok (journal_record E ev i px q s r j)" "pos j = of_nat (length es)"
    using assms(1) by (simp_all add: journal_rel_def journal_record_ok)
  ultimately show ?thesis using nth by (simp add: journal_rel_def)
qed

lemma journal_record_rel:
  assumes "journal_rel j es" "Suc (length es) < 2 ^ 64"
  shows "\<exists>e. e_id e = i \<and> e_price e = px \<and> e_quantity e = q \<and> e_event e = event_u8 ev \<and>
    e_reason e = r \<and> e_side e = s \<and> journal_rel (journal_record E ev i px q s r j) (es @ [e])"
  using journal_record_exact [OF assms, of E ev i px q s r]
  by (intro exI [of _ "recorded E ev i px q s r (ticks j)"]) simp

lemma journal_rel_at:
  assumes "journal_rel j es" "length es < 2 ^ 64" "i < journal_size j"
  shows "journal_at j i = es ! (length es - journal_size j + i)"
proof -
  let ?c = "length (entries j)" and ?k = "length es - journal_size j + i"
  obtain k where k: "k < 64" "?c = 2 ^ k" "jmask j = mask k"
    using assms(1) by (auto simp: journal_rel_def journal_ok_def)
  have p: "unat (pos j) = length es"
    using assms by (simp add: journal_rel_def unat_of_nat_64)
  then have sz: "journal_size j = min (length es) ?c" by (simp add: journal_size_def min_def)
  then have le: "journal_size j \<le> length es" "?k < length es" "length es \<le> ?k + ?c"
    using assms(3) by auto
  have "pos j - of_nat (journal_size j) + of_nat i = (of_nat ?k :: u64)"
    using assms(1) le(1) by (simp add: journal_rel_def of_nat_diff)
  moreover have "unat (of_nat ?k :: u64) = ?k"
    using le(2) assms(2) by (intro unat_of_nat_64) simp
  ultimately have "journal_at j i = entries j ! (?k mod ?c)"
    using k by (simp only: journal_at_def ring_index [OF k(2,1)])
  with assms(1) le show ?thesis by (simp add: journal_rel_def)
qed

text \<open>What \<open>dump\<close> shows: the last entries written, as many as asked for and retained, oldest first.\<close>

lemma journal_dump_rel:
  assumes "journal_rel j es" "length es < 2 ^ 64"
  shows "journal_dump j n = drop (length es - min n (length (entries j))) es"
proof -
  have p: "unat (pos j) = length es" using assms by (simp add: journal_rel_def unat_of_nat_64)
  then have sz: "journal_size j = min (length es) (length (entries j))" by (simp add: journal_size_def min_def)
  define start where "start = (if journal_size j > n then journal_size j - n else 0)"
  have "map (journal_at j) [start..<journal_size j] = map ((!) es) [length es - journal_size j + start..<length es]"
  proof (rule nth_equalityI)
    show "length (map (journal_at j) [start..<journal_size j]) = length (map ((!) es) [length es - journal_size j + start..<length es])"
      using sz by simp
    fix i assume "i < length (map (journal_at j) [start..<journal_size j])"
    then have i: "start + i < journal_size j" by simp
    then have "length es - journal_size j + start + i < length es" using sz by linarith
    with i journal_rel_at [OF assms i]
    show "map (journal_at j) [start..<journal_size j] ! i = map ((!) es) [length es - journal_size j + start..<length es] ! i"
      by (simp add: add.assoc)
  qed
  also have "\<dots> = drop (length es - journal_size j + start) es"
    by (metis drop_map drop_upt map_nth plus_nat.add_0)
  also have "length es - journal_size j + start = length es - min n (length (entries j))"
    using sz by (auto simp: start_def min_def)
  finally show ?thesis by (simp add: journal_dump_def start_def Let_def)
qed

end
