(* ===== verification/Order_Book.thy ===== *)
theory Order_Book
  imports Price_Level Price_Bitset Journal
begin

text \<open>
  \<open>class OrderBook\<close> of \<open>src/src/OrderBook.h\<close> and its constructor in \<open>src/src/OrderBook.cpp\<close>:
  the state, the matching loops, order entry, cancellation and the accessors, in both build
  flavors. Trades are the values passed to the caller's callback, in call order. A result
  \<open>None\<close> is a call that does not return normally (abort, or an access outside a vector).
  Sizes and array indices (\<open>size_t\<close>) are \<open>nat\<close>, every other integer keeps its width.
\<close>

section \<open>State\<close>

record OrderBook =
  bids_bitset :: "u64 list"
  asks_bitset :: "u64 list"
  bids_summary :: "u64 list"
  asks_summary :: "u64 list"
  bids_levels :: "PriceLevel list"
  asks_levels :: "PriceLevel list"
  min_price :: Price
  max_price :: Price
  max_order_id :: nat
  best_bid :: Price
  best_ask :: Price
  best_bid_idx :: nat
  best_ask_idx :: nat
  has_bids :: bool
  has_asks :: bool
  order_map :: "u32 list"
  order_pool :: MemoryPool
  active_count :: u64
  journal :: Journal
  in_public_entry :: bool
  owner_thread :: nat

definition kJournalCapacity :: nat where "kJournalCapacity = 2 ^ 14"
definition kMaxPriceRangeTicks :: nat where "kMaxPriceRangeTicks = 2 ^ 26"
definition kMaxOrderIds :: nat where "kMaxOrderIds = 0xFFFFFFFE"

text \<open>The level array of one side.\<close>

fun levels :: "Side \<Rightarrow> OrderBook \<Rightarrow> PriceLevel list" where
  "levels Buy b = bids_levels b"
| "levels Sell b = asks_levels b"

fun set_levels :: "Side \<Rightarrow> PriceLevel list \<Rightarrow> OrderBook \<Rightarrow> OrderBook" where
  "set_levels Buy ls b = b\<lparr>bids_levels := ls\<rparr>"
| "set_levels Sell ls b = b\<lparr>asks_levels := ls\<rparr>"

section \<open>Construction\<close>

definition OrderBook_new :: "Env \<Rightarrow> nat \<Rightarrow> nat \<Rightarrow> Price \<Rightarrow> Price \<Rightarrow> OrderBook option" where
  "OrderBook_new E max_id max_active minp maxp =
     (if minp > maxp then None
      else if maxp = UINT32_MAX then None
      else if max_id > kMaxOrderIds then None
      else let price_range = unat maxp - unat minp + 1 in
        if price_range > kMaxPriceRangeTicks then None
        else let bitset_words = (price_range + kWordBits - 1) div kWordBits;
                 summary_words = (bitset_words + kWordBits - 1) div kWordBits
          in Some \<lparr>bids_bitset = replicate bitset_words 0, asks_bitset = replicate bitset_words 0,
            bids_summary = replicate summary_words 0, asks_summary = replicate summary_words 0,
            bids_levels = replicate price_range PriceLevel_default,
            asks_levels = replicate price_range PriceLevel_default,
            min_price = minp, max_price = maxp, max_order_id = max_id,
            best_bid = 0, best_ask = maxp + 1, best_bid_idx = 0, best_ask_idx = price_range - 1,
            has_bids = False, has_asks = False,
            order_map = replicate (max_id + 1) INVALID_INDEX,
            order_pool = MemoryPool_new E max_active, active_count = 0,
            journal = Journal_new kJournalCapacity, in_public_entry = False,
            owner_thread = this_thread E\<rparr>)"

section \<open>Journal macros and the entry gate\<close>

definition HFT_JOURNAL_REASON ::
  "Env \<Rightarrow> JournalEvent \<Rightarrow> u32 \<Rightarrow> u32 \<Rightarrow> u32 \<Rightarrow> u8 \<Rightarrow> u8 \<Rightarrow> OrderBook \<Rightarrow> OrderBook" where
  "HFT_JOURNAL_REASON E ev i px qty side reason b =
     (if hft_debug_tools E
      then b\<lparr>journal := journal_record E ev i px qty side reason (journal b)\<rparr> else b)"

definition HFT_JOURNAL ::
  "Env \<Rightarrow> JournalEvent \<Rightarrow> u32 \<Rightarrow> u32 \<Rightarrow> u32 \<Rightarrow> u8 \<Rightarrow> OrderBook \<Rightarrow> OrderBook" where
  "HFT_JOURNAL E ev i px qty side b = HFT_JOURNAL_REASON E ev i px qty side 0 b"

definition book_fault :: "Env \<Rightarrow> string \<Rightarrow> FaultAction option" where
  "book_fault E msg =
     (case book_fault_handler E of
        Some h \<Rightarrow> if h msg = SkipOperation then Some SkipOperation else None
      | None \<Rightarrow> None)"

text \<open>The message is formatted into a buffer of \<open>kFaultMessageBytes\<close>; \<open>snprintf\<close> keeps a byte for the terminator.\<close>

definition kFaultMessageBytes :: nat where "kFaultMessageBytes = 128"

definition snprintf :: "nat \<Rightarrow> string \<Rightarrow> string" where
  "snprintf n msg = take (n - 1) msg"

text \<open>The result is whether the call may proceed.\<close>

definition debug_entry_gate :: "Env \<Rightarrow> string \<Rightarrow> OrderBook \<Rightarrow> bool option" where
  "debug_entry_gate E entry_point b =
     do {
       thread_ok \<leftarrow> (if this_thread E \<noteq> owner_thread b then do {
           act \<leftarrow> book_fault E (snprintf kFaultMessageBytes (''OrderBook thread-contract violation: '' @ entry_point @
                    '' called from a foreign thread''));
           Some (act \<noteq> SkipOperation)
         } else Some True);
       if \<not> thread_ok then Some False
       else if in_public_entry b then do {
           act \<leftarrow> book_fault E (snprintf kFaultMessageBytes (''OrderBook re-entrancy violation: '' @ entry_point @
                    '' called from inside a trade callback''));
           Some (act \<noteq> SkipOperation)
         } else Some True
     }"

section \<open>Filling a level\<close>

text \<open>
  \<open>side\<close> is the taker's side, the template argument of \<open>match_order_direct\<close>; the makers rest
  on the opposite side. The two instantiations differ in the loops below only by the side
  written to the journal and the level array used.
\<close>

definition mk_trade :: "Order \<Rightarrow> OrderId \<Rightarrow> Quantity \<Rightarrow> Trade" where
  "mk_trade maker taker qty = \<lparr>maker_id = o_id maker, taker_id = taker,
     trade_price = o_price maker, trade_quantity = qty\<rparr>"

text \<open>
  A trade callback is called with the trade and may look at the book: it runs inside the call,
  on the book as it is at that point. It is a function of the book and the trade, and a call of
  the engine hands back the list of its results, one for each trade in call order. The loops
  write the journal entries and the book's fields after the callback returns. The callback that
  does not look at the book gives the trades themselves.
\<close>

type_synonym 't Callback = "OrderBook \<Rightarrow> Trade \<Rightarrow> 't"

abbreviation ignore_book :: "Trade Callback" where
  "ignore_book \<equiv> \<lambda>_ t. t"

abbreviation ignore_level :: "PriceLevel \<Rightarrow> Trade Callback" where
  "ignore_level \<equiv> \<lambda>_ _ t. t"

text \<open>The one-order fast path.\<close>

definition fill_single ::
  "'t Callback \<Rightarrow> Env \<Rightarrow> Side \<Rightarrow> OrderId \<Rightarrow> u32 \<Rightarrow> OrderBook \<Rightarrow> 't list \<Rightarrow> (OrderBook \<times> 't list) option" where
  "fill_single cb E side taker maker_order_idx b trades = do {
     maker \<leftarrow> vec_get (pool (order_pool b)) (unat maker_order_idx);
     let trades = trades @ [cb b (mk_trade maker taker (o_quantity maker))];
     let b = HFT_JOURNAL E TradeExecuted taker (o_price maker) (o_quantity maker) (side_u8 side) b;
     let b = HFT_JOURNAL E MakerFilled (o_id maker) (o_price maker) 0 (side_u8 (opposite side)) b;
     om \<leftarrow> vec_set (order_map b) (unat (o_id maker)) INVALID_INDEX;
     p \<leftarrow> deallocate E maker_order_idx (order_pool b);
     Some (b\<lparr>order_map := om, order_pool := p, active_count := active_count b - 1\<rparr>, trades)
   }"

text \<open>The walk over the makers of a level that is consumed whole (fuel: one unit per slot).\<close>

fun fill_chain ::
  "'t Callback \<Rightarrow> nat \<Rightarrow> Env \<Rightarrow> Side \<Rightarrow> OrderId \<Rightarrow> u32 \<Rightarrow> OrderBook \<Rightarrow> 't list \<Rightarrow> (OrderBook \<times> 't list) option" where
  "fill_chain cb 0 E side taker idx b trades = None"
| "fill_chain cb (Suc fuel) E side taker idx b trades =
     (if idx \<noteq> INVALID_INDEX then do {
        maker \<leftarrow> vec_get (pool (order_pool b)) (unat idx);
        let next_maker_idx = o_next maker;
        let trades = trades @ [cb b (mk_trade maker taker (o_quantity maker))];
        let b = HFT_JOURNAL E TradeExecuted taker (o_price maker) (o_quantity maker) (side_u8 side) b;
        let b = HFT_JOURNAL E MakerFilled (o_id maker) (o_price maker) 0 (side_u8 (opposite side)) b;
        om \<leftarrow> vec_set (order_map b) (unat (o_id maker)) INVALID_INDEX;
        fill_chain cb fuel E side taker next_maker_idx (b\<lparr>order_map := om\<rparr>) trades
      } else Some (b, trades))"

text \<open>Fast path: the taker consumes the whole level at index \<open>li\<close>.\<close>

definition consume_level ::
  "'t Callback \<Rightarrow> Env \<Rightarrow> Side \<Rightarrow> OrderId \<Rightarrow> nat \<Rightarrow> PriceLevel \<Rightarrow> Quantity \<Rightarrow> OrderBook \<Rightarrow> 't list
     \<Rightarrow> (OrderBook \<times> Quantity \<times> 't list) option" where
  "consume_level cb E side taker li level qty b trades = do {
     let level_qty = (ucast (total_quantity level) :: Quantity);
     let maker_count = order_count level;
     (b, trades) \<leftarrow>
       (if order_count level = 1 then fill_single cb E side taker (head level) b trades
        else do {
          (b, trades) \<leftarrow> fill_chain cb (Suc (capacity (order_pool b))) E side taker (head level) b trades;
          p \<leftarrow> deallocate_chain E (head level) (tail level) (order_pool b);
          Some (b\<lparr>order_pool := p, active_count := active_count b - ucast maker_count\<rparr>, trades)
        });
     ls \<leftarrow> vec_set (levels (opposite side) b) li
        (level\<lparr>head := INVALID_INDEX, tail := INVALID_INDEX, total_quantity := 0, order_count := 0\<rparr>);
     Some (set_levels (opposite side) ls b, qty - level_qty, trades)
   }"

text \<open>
  Slow path: fills maker by maker while the taker has quantity left. The level is a reference
  into the book's array in the source, so a callback finds the level updated so far there: it
  gets the level of the walk with the book.
\<close>

fun partial_fill ::
  "(PriceLevel \<Rightarrow> 't Callback) \<Rightarrow> nat \<Rightarrow> Env \<Rightarrow> Side \<Rightarrow> OrderId \<Rightarrow> u32 \<Rightarrow> PriceLevel \<Rightarrow> Quantity \<Rightarrow> OrderBook \<Rightarrow> 't list
     \<Rightarrow> (PriceLevel \<times> Quantity \<times> OrderBook \<times> 't list) option" where
  "partial_fill cb 0 E side taker idx level qty b trades = None"
| "partial_fill cb (Suc fuel) E side taker idx level qty b trades =
     (if idx \<noteq> INVALID_INDEX \<and> qty > 0 then do {
        maker \<leftarrow> vec_get (pool (order_pool b)) (unat idx);
        let trade_qty = (if qty < o_quantity maker then qty else o_quantity maker);
        let trades = trades @ [cb level b (mk_trade maker taker trade_qty)];
        let b = HFT_JOURNAL E TradeExecuted taker (o_price maker) trade_qty (side_u8 side) b;
        let qty = qty - trade_qty;
        let maker = maker\<lparr>o_quantity := o_quantity maker - trade_qty\<rparr>;
        sl \<leftarrow> vec_set (pool (order_pool b)) (unat idx) maker;
        let b = b\<lparr>order_pool := (order_pool b)\<lparr>pool := sl\<rparr>\<rparr>;
        let level = level\<lparr>total_quantity := total_quantity level - ucast trade_qty\<rparr>;
        let next_maker_idx = o_next maker;
        if o_quantity maker = 0 then do {
          let b = HFT_JOURNAL E MakerFilled (o_id maker) (o_price maker) 0 (side_u8 (opposite side)) b;
          om \<leftarrow> vec_set (order_map b) (unat (o_id maker)) INVALID_INDEX;
          p \<leftarrow> deallocate E idx (order_pool b);
          let level = level\<lparr>order_count := order_count level - 1, head := next_maker_idx\<rparr>;
          p \<leftarrow> (if next_maker_idx \<noteq> INVALID_INDEX then do {
                 nx \<leftarrow> vec_get (pool p) (unat next_maker_idx);
                 sl \<leftarrow> vec_set (pool p) (unat next_maker_idx) (nx\<lparr>o_prev := INVALID_INDEX\<rparr>);
                 Some (p\<lparr>pool := sl\<rparr>)
               } else Some p);
          partial_fill cb fuel E side taker next_maker_idx level qty
            (b\<lparr>order_map := om, order_pool := p, active_count := active_count b - 1\<rparr>) trades
        } else partial_fill cb fuel E side taker next_maker_idx level qty b trades
      } else Some (level, qty, b, trades))"

definition fill_level ::
  "'t Callback \<Rightarrow> Env \<Rightarrow> Side \<Rightarrow> OrderId \<Rightarrow> nat \<Rightarrow> Quantity \<Rightarrow> OrderBook \<Rightarrow> 't list
     \<Rightarrow> (OrderBook \<times> Quantity \<times> 't list) option" where
  "fill_level cb E side taker li qty b trades = do {
     level \<leftarrow> vec_get (levels (opposite side) b) li;
     if ucast qty \<ge> total_quantity level then consume_level cb E side taker li level qty b trades
     else do {
       (level, qty, b, trades) \<leftarrow>
         partial_fill (\<lambda>l b. cb (set_levels (opposite side) ((levels (opposite side) b)[li := l]) b))
           (Suc (capacity (order_pool b))) E side taker (head level) level qty b trades;
       ls \<leftarrow> vec_set (levels (opposite side) b) li level;
       Some (set_levels (opposite side) ls b, qty, trades)
     }
   }"

section \<open>Best-price maintenance\<close>

text \<open>
  The two-level scan from the removed tick, and the fields it sets. \<open>best_ask\<close> is recomputed in
  \<open>size_t\<close> and cast to \<open>Price\<close>.
\<close>

definition scan_best_ask :: "nat \<Rightarrow> OrderBook \<Rightarrow> OrderBook option" where
  "scan_best_ask bit_idx b = do {
     r \<leftarrow> next_above (asks_bitset b) (asks_summary b) bit_idx;
     Some (case r of
       Some i \<Rightarrow> b\<lparr>best_ask_idx := i, best_ask := of_nat (unat (min_price b) + i), has_asks := True\<rparr>
     | None \<Rightarrow> b\<lparr>has_asks := False, best_ask := max_price b + 1,
                 best_ask_idx := length (asks_levels b) - 1\<rparr>)
   }"

definition scan_best_bid :: "nat \<Rightarrow> OrderBook \<Rightarrow> OrderBook option" where
  "scan_best_bid bit_idx b = do {
     r \<leftarrow> prev_below (bids_bitset b) (bids_summary b) bit_idx;
     Some (case r of
       Some i \<Rightarrow> b\<lparr>best_bid_idx := i, best_bid := of_nat (unat (min_price b) + i), has_bids := True\<rparr>
     | None \<Rightarrow> b\<lparr>has_bids := False, best_bid := 0, best_bid_idx := 0\<rparr>)
   }"

definition update_best_ask_after_remove :: "Env \<Rightarrow> Price \<Rightarrow> OrderBook \<Rightarrow> OrderBook option" where
  "update_best_ask_after_remove E removed_price b = do {
     _ \<leftarrow> cassert E (has_asks b \<and> best_ask b = removed_price);
     scan_best_ask (unat (removed_price - min_price b)) b
   }"

definition update_best_bid_after_remove :: "Env \<Rightarrow> Price \<Rightarrow> OrderBook \<Rightarrow> OrderBook option" where
  "update_best_bid_after_remove E removed_price b = do {
     _ \<leftarrow> cassert E (has_bids b \<and> best_bid b = removed_price);
     scan_best_bid (unat (removed_price - min_price b)) b
   }"

text \<open>
  The tail of the matching loop when the best level was drained: its bit is cleared and the
  best price moves to the adjacent tick when that one is populated, else by the bitset scan.
  The scan is an inlined copy of the one above (the loop condition gives \<open>has_asks_\<close> on entry,
  so the copy's first branch, which leaves the flag alone, agrees with the assignment).
\<close>

definition advance_best_ask :: "Env \<Rightarrow> OrderBook \<Rightarrow> OrderBook option" where
  "advance_best_ask E b = do {
     let bit_idx = unat (best_ask b - min_price b);
     (bs, sm) \<leftarrow> price_bit_clear (asks_bitset b) (asks_summary b) bit_idx;
     let b = b\<lparr>asks_bitset := bs, asks_summary := sm\<rparr>;
     let next_ask = best_ask b + 1;
     let next_bit_idx = bit_idx + 1;
     near \<leftarrow> (if next_ask \<le> max_price b then do {
                l \<leftarrow> vec_get (asks_levels b) next_bit_idx;
                Some (\<not> level_is_empty l)
              } else Some False);
     if near then Some (b\<lparr>best_ask := next_ask, best_ask_idx := next_bit_idx\<rparr>)
     else do {
       b \<leftarrow> scan_best_ask bit_idx b;
       Some (HFT_JOURNAL E BestAskChanged 0 (best_ask b) 0 (side_u8 Sell) b)
     }
   }"

definition advance_best_bid :: "Env \<Rightarrow> OrderBook \<Rightarrow> OrderBook option" where
  "advance_best_bid E b = do {
     let bit_idx = unat (best_bid b - min_price b);
     (bs, sm) \<leftarrow> price_bit_clear (bids_bitset b) (bids_summary b) bit_idx;
     let b = b\<lparr>bids_bitset := bs, bids_summary := sm\<rparr>;
     near \<leftarrow> (if best_bid b > min_price b then do {
                l \<leftarrow> vec_get (bids_levels b) (bit_idx - 1);
                Some (\<not> level_is_empty l)
              } else Some False);
     if near then Some (b\<lparr>best_bid := best_bid b - 1, best_bid_idx := best_bid_idx b - 1\<rparr>)
     else do {
       b \<leftarrow> scan_best_bid bit_idx b;
       Some (HFT_JOURNAL E BestBidChanged 0 (best_bid b) 0 (side_u8 Buy) b)
     }
   }"

section \<open>The matching loops\<close>

text \<open>
  Each iteration drains a level or the taker, so one unit of fuel per level and one for the
  final test of the loop condition are enough.
\<close>

fun match_buy_loop ::
  "'t Callback \<Rightarrow> nat \<Rightarrow> Env \<Rightarrow> OrderId \<Rightarrow> Price \<Rightarrow> Quantity \<Rightarrow> OrderBook \<Rightarrow> 't list
     \<Rightarrow> (Quantity \<times> OrderBook \<times> 't list) option" where
  "match_buy_loop cb 0 E taker px qty b trades = None"
| "match_buy_loop cb (Suc fuel) E taker px qty b trades =
     (if has_asks b \<and> qty > 0 \<and> px \<ge> best_ask b then do {
        let li = best_ask_idx b;
        (b, qty, trades) \<leftarrow> fill_level cb E Buy taker li qty b trades;
        level \<leftarrow> vec_get (asks_levels b) li;
        b \<leftarrow> (if level_is_empty level then advance_best_ask E b else Some b);
        match_buy_loop cb fuel E taker px qty b trades
      } else Some (qty, b, trades))"

fun match_sell_loop ::
  "'t Callback \<Rightarrow> nat \<Rightarrow> Env \<Rightarrow> OrderId \<Rightarrow> Price \<Rightarrow> Quantity \<Rightarrow> OrderBook \<Rightarrow> 't list
     \<Rightarrow> (Quantity \<times> OrderBook \<times> 't list) option" where
  "match_sell_loop cb 0 E taker px qty b trades = None"
| "match_sell_loop cb (Suc fuel) E taker px qty b trades =
     (if has_bids b \<and> qty > 0 \<and> px \<le> best_bid b then do {
        let li = best_bid_idx b;
        (b, qty, trades) \<leftarrow> fill_level cb E Sell taker li qty b trades;
        level \<leftarrow> vec_get (bids_levels b) li;
        b \<leftarrow> (if level_is_empty level then advance_best_bid E b else Some b);
        match_sell_loop cb fuel E taker px qty b trades
      } else Some (qty, b, trades))"

definition match_order_direct ::
  "'t Callback \<Rightarrow> Env \<Rightarrow> Side \<Rightarrow> OrderId \<Rightarrow> Price \<Rightarrow> Quantity \<Rightarrow> OrderBook
     \<Rightarrow> (Quantity \<times> OrderBook \<times> 't list) option" where
  "match_order_direct cb E side taker px qty b =
     (case side of
        Buy \<Rightarrow> match_buy_loop cb (Suc (length (asks_levels b))) E taker px qty b []
      | Sell \<Rightarrow> match_sell_loop cb (Suc (length (bids_levels b))) E taker px qty b [])"

section \<open>Cancellation\<close>

text \<open>
  \<open>levels[bit_idx].remove_order(order_idx, pool_ptr)\<close> on either side's level array; the level
  is returned for the emptiness test that follows.
\<close>

definition level_remove :: "Side \<Rightarrow> u32 \<Rightarrow> nat \<Rightarrow> OrderBook \<Rightarrow> (PriceLevel \<times> OrderBook) option" where
  "level_remove s order_idx bit_idx b = do {
     l \<leftarrow> vec_get (levels s b) bit_idx;
     (l, sl) \<leftarrow> remove_order order_idx l (pool (order_pool b));
     ls \<leftarrow> vec_set (levels s b) bit_idx l;
     Some (l, (set_levels s ls b)\<lparr>order_pool := (order_pool b)\<lparr>pool := sl\<rparr>\<rparr>)
   }"

text \<open>A level emptied by a cancellation: its bit goes, and the best price when it was the best.\<close>

definition retire_bid :: "Env \<Rightarrow> Price \<Rightarrow> nat \<Rightarrow> OrderBook \<Rightarrow> OrderBook option" where
  "retire_bid E price bit_idx b = do {
     (bs, sm) \<leftarrow> price_bit_clear (bids_bitset b) (bids_summary b) bit_idx;
     let b = b\<lparr>bids_bitset := bs, bids_summary := sm\<rparr>;
     if has_bids b \<and> best_bid b = price then update_best_bid_after_remove E price b else Some b
   }"

definition retire_ask :: "Env \<Rightarrow> Price \<Rightarrow> nat \<Rightarrow> OrderBook \<Rightarrow> OrderBook option" where
  "retire_ask E price bit_idx b = do {
     (bs, sm) \<leftarrow> price_bit_clear (asks_bitset b) (asks_summary b) bit_idx;
     let b = b\<lparr>asks_bitset := bs, asks_summary := sm\<rparr>;
     if has_asks b \<and> best_ask b = price then update_best_ask_after_remove E price b else Some b
   }"

definition cancel_order_impl :: "Env \<Rightarrow> OrderId \<Rightarrow> OrderBook \<Rightarrow> (RejectReason \<times> OrderBook) option" where
  "cancel_order_impl E i b = (
     let b = HFT_JOURNAL E OrderSubmitted i 0 0 (side_u8 Buy) b in
     if i = 0 \<or> unat i > max_order_id b then
       Some (OutOfBoundsOrderId,
         HFT_JOURNAL_REASON E OrderRejected i 0 0 (side_u8 Buy) (reason_u8 OutOfBoundsOrderId) b)
     else do {
       order_idx \<leftarrow> vec_get (order_map b) (unat i);
       if order_idx = INVALID_INDEX then
         Some (CancelFailed,
           HFT_JOURNAL_REASON E OrderRejected i 0 0 (side_u8 Buy) (reason_u8 CancelFailed) b)
       else do {
         ord \<leftarrow> vec_get (pool (order_pool b)) (unat order_idx);
         let price = o_price ord;
         let side = o_side ord;
         let bit_idx = unat (price - min_price b);
         b \<leftarrow> (if side = side_u8 Buy then do {
             (l, b) \<leftarrow> level_remove Buy order_idx bit_idx b;
             if level_is_empty l then retire_bid E price bit_idx b else Some b
           } else do {
             (l, b) \<leftarrow> level_remove Sell order_idx bit_idx b;
             if level_is_empty l then retire_ask E price bit_idx b else Some b
           });
         om \<leftarrow> vec_set (order_map b) (unat i) INVALID_INDEX;
         p \<leftarrow> deallocate E order_idx (order_pool b);
         let b = b\<lparr>order_map := om, order_pool := p, active_count := active_count b - 1\<rparr>;
         Some (Accepted, HFT_JOURNAL E OrderCancelled i price 0 side b)
       }
     })"

section \<open>Resting a remainder\<close>

text \<open>\<open>was_empty\<close> and \<open>levels[bit_idx].append_order(order_idx, pool_data)\<close> on either side.\<close>

definition level_append :: "Side \<Rightarrow> u32 \<Rightarrow> nat \<Rightarrow> OrderBook \<Rightarrow> (bool \<times> OrderBook) option" where
  "level_append s order_idx bit_idx b = do {
     l \<leftarrow> vec_get (levels s b) bit_idx;
     let was_empty = level_is_empty l;
     (l, sl) \<leftarrow> append_order order_idx l (pool (order_pool b));
     ls \<leftarrow> vec_set (levels s b) bit_idx l;
     Some (was_empty, (set_levels s ls b)\<lparr>order_pool := (order_pool b)\<lparr>pool := sl\<rparr>\<rparr>)
   }"

text \<open>The bitset and best-price update of a newly rested order.\<close>

definition announce_bid :: "Env \<Rightarrow> bool \<Rightarrow> Price \<Rightarrow> nat \<Rightarrow> OrderBook \<Rightarrow> OrderBook option" where
  "announce_bid E was_empty px bit_idx b = do {
     (bs, sm) \<leftarrow> (if was_empty then price_bit_set (bids_bitset b) (bids_summary b) bit_idx
                 else Some (bids_bitset b, bids_summary b));
     let b = b\<lparr>bids_bitset := bs, bids_summary := sm\<rparr>;
     if \<not> has_bids b \<or> px > best_bid b then
       Some (HFT_JOURNAL E BestBidChanged 0 px 0 (side_u8 Buy)
         (b\<lparr>best_bid := px, best_bid_idx := bit_idx, has_bids := True\<rparr>))
     else Some b
   }"

definition announce_ask :: "Env \<Rightarrow> bool \<Rightarrow> Price \<Rightarrow> nat \<Rightarrow> OrderBook \<Rightarrow> OrderBook option" where
  "announce_ask E was_empty px bit_idx b = do {
     (bs, sm) \<leftarrow> (if was_empty then price_bit_set (asks_bitset b) (asks_summary b) bit_idx
                 else Some (asks_bitset b, asks_summary b));
     let b = b\<lparr>asks_bitset := bs, asks_summary := sm\<rparr>;
     if \<not> has_asks b \<or> px < best_ask b then
       Some (HFT_JOURNAL E BestAskChanged 0 px 0 (side_u8 Sell)
         (b\<lparr>best_ask := px, best_ask_idx := bit_idx, has_asks := True\<rparr>))
     else Some b
   }"

definition rest_order ::
  "Env \<Rightarrow> OrderId \<Rightarrow> Price \<Rightarrow> Quantity \<Rightarrow> Side \<Rightarrow> OrderBook \<Rightarrow> (RejectReason \<times> OrderBook) option" where
  "rest_order E i px remaining_qty side b = do {
     (order_idx, p) \<leftarrow> allocate E (order_pool b);
     let b = b\<lparr>order_pool := p\<rparr>;
     if order_idx = INVALID_INDEX then
       Some (PoolExhausted, HFT_JOURNAL E EvPoolExhausted i px remaining_qty (side_u8 side) b)
     else do {
       sl \<leftarrow> vec_set (pool p) (unat order_idx) \<lparr>o_next = INVALID_INDEX, o_prev = INVALID_INDEX,
           o_id = i, o_price = px, o_quantity = remaining_qty, o_side = side_u8 side\<rparr>;
       om \<leftarrow> vec_set (order_map b) (unat i) order_idx;
       let b = b\<lparr>order_pool := p\<lparr>pool := sl\<rparr>, active_count := active_count b + 1, order_map := om\<rparr>;
       let bit_idx = unat (px - min_price b);
       (was_empty, b) \<leftarrow> level_append side order_idx bit_idx b;
       b \<leftarrow> (case side of
           Buy \<Rightarrow> announce_bid E was_empty px bit_idx b
         | Sell \<Rightarrow> announce_ask E was_empty px bit_idx b);
       Some (Accepted, HFT_JOURNAL E OrderRested i px remaining_qty (side_u8 side) b)
     }
   }"

section \<open>Order entry\<close>

abbreviation rejected :: "Env \<Rightarrow> OrderId \<Rightarrow> Price \<Rightarrow> Quantity \<Rightarrow> Side \<Rightarrow> RejectReason \<Rightarrow> OrderBook
    \<Rightarrow> ('t AddResult \<times> OrderBook) option" where
  "rejected E i px qty side r b \<equiv> Some (mk_result r 0 [],
     HFT_JOURNAL_REASON E OrderRejected i px qty (side_u8 side) (reason_u8 r) b)"

text \<open>The body of \<open>add_order\<close> behind the entry gate.\<close>

definition add_order_body ::
  "'t Callback \<Rightarrow> Env \<Rightarrow> OrderId \<Rightarrow> OrderType \<Rightarrow> Price \<Rightarrow> Quantity \<Rightarrow> Side \<Rightarrow> OrderBook
     \<Rightarrow> ('t AddResult \<times> OrderBook) option" where
  "add_order_body cb E i type price quantity side b =
     (if type = Cancel then do {
        (r, b) \<leftarrow> cancel_order_impl E i b;
        Some (mk_result r 0 [], b)
      }
      else if quantity = 0 then rejected E i price quantity side InvalidQuantity b
      else if i = 0 \<or> unat i > max_order_id b then rejected E i price quantity side OutOfBoundsOrderId b
      else do {
        slot_idx \<leftarrow> vec_get (order_map b) (unat i);
        if slot_idx \<noteq> INVALID_INDEX then rejected E i price quantity side DuplicateOrderId b
        else if type = Limit \<and> (price < min_price b \<or> price > max_price b) then
          rejected E i price quantity side OutOfBoundsPrice b
        else if type = Market \<and> (if side = Buy then \<not> has_asks b else \<not> has_bids b) then
          rejected E i 0 quantity side MarketOnEmptyBook b
        else do {
          let b = HFT_JOURNAL E OrderSubmitted i price quantity (side_u8 side) b;
          let resolved_price = (if type = Market
             then (if side = Buy then MARKET_BUY_PRICE else MARKET_SELL_PRICE) else price);
          (remaining_qty, b, ts) \<leftarrow> match_order_direct cb E side i resolved_price quantity b;
          let filled_out = quantity - remaining_qty;
          if remaining_qty > 0 then
            if type = Market then Some (mk_result Accepted filled_out ts, b)
            else do {
              (r, b) \<leftarrow> rest_order E i resolved_price remaining_qty side b;
              Some (mk_result r filled_out ts, b)
            }
          else Some (mk_result Accepted filled_out ts, b)
        }
      })"

text \<open>
  The public entry points. In the instrumented builds the gate decides first and the entry
  latch (\<open>EntryLatch\<close>) is held for the duration of the call, callbacks included. \<open>add_order\<close>
  is the call with the callback that only takes the trades.
\<close>

definition add_order_with ::
  "'t Callback \<Rightarrow> Env \<Rightarrow> OrderId \<Rightarrow> OrderType \<Rightarrow> Price \<Rightarrow> Quantity \<Rightarrow> Side \<Rightarrow> OrderBook
     \<Rightarrow> ('t AddResult \<times> OrderBook) option" where
  "add_order_with cb E i type price quantity side b =
     (if hft_debug_tools E then do {
        ok \<leftarrow> debug_entry_gate E ''add_order'' b;
        if \<not> ok then Some (mk_result ReentrancyBlocked 0 [], b)
        else do {
          (r, b) \<leftarrow> add_order_body cb E i type price quantity side (b\<lparr>in_public_entry := True\<rparr>);
          Some (r, b\<lparr>in_public_entry := False\<rparr>)
        }
      } else add_order_body cb E i type price quantity side b)"

definition add_order ::
  "Env \<Rightarrow> OrderId \<Rightarrow> OrderType \<Rightarrow> Price \<Rightarrow> Quantity \<Rightarrow> Side \<Rightarrow> OrderBook
     \<Rightarrow> (Trade AddResult \<times> OrderBook) option" where
  "add_order = add_order_with ignore_book"

definition cancel_order :: "Env \<Rightarrow> OrderId \<Rightarrow> OrderBook \<Rightarrow> (RejectReason \<times> OrderBook) option" where
  "cancel_order E i b =
     (if hft_debug_tools E then do {
        ok \<leftarrow> debug_entry_gate E ''cancel_order'' b;
        if \<not> ok then Some (ReentrancyBlocked, b)
        else do {
          (r, b) \<leftarrow> cancel_order_impl E i (b\<lparr>in_public_entry := True\<rparr>);
          Some (r, b\<lparr>in_public_entry := False\<rparr>)
        }
      } else cancel_order_impl E i b)"

section \<open>Introspection\<close>

definition order_exists :: "OrderId \<Rightarrow> OrderBook \<Rightarrow> bool" where
  "order_exists i b = (i \<noteq> 0 \<and> unat i \<le> max_order_id b \<and> order_map b ! unat i \<noteq> INVALID_INDEX)"

definition active_order_count :: "OrderBook \<Rightarrow> u64" where
  "active_order_count b = active_count b"

definition price_level_count :: "Side \<Rightarrow> OrderBook \<Rightarrow> nat" where
  "price_level_count side b =
     (\<Sum>w\<leftarrow>(if side = Buy then bids_bitset b else asks_bitset b). popcount w)"

definition level_order_count :: "Side \<Rightarrow> Price \<Rightarrow> OrderBook \<Rightarrow> u32" where
  "level_order_count side price b =
     (if price < min_price b \<or> price > max_price b then 0
      else order_count (levels side b ! unat (price - min_price b)))"

definition level_total_quantity :: "Side \<Rightarrow> Price \<Rightarrow> OrderBook \<Rightarrow> u64" where
  "level_total_quantity side price b =
     (if price < min_price b \<or> price > max_price b then 0
      else total_quantity (levels side b ! unat (price - min_price b)))"

end
