(* ===== verification/Book_Spec.thy ===== *)
theory Book_Spec
  imports Order_Types
begin

text \<open>
  The contract of a matching engine, without any of the engine's data structures: each side
  of the book is one list of resting orders in priority order (best price first, earlier
  arrival first), matching consumes the opposite list from the front, and a remainder is
  inserted behind the orders of the same or a better price. The engine of
  \<open>src/src/OrderBook.h\<close> is shown to refine this specification in \<open>Book_Refine\<close>.
\<close>

section \<open>The book\<close>

record Resting =
  rid :: OrderId
  rprice :: Price
  rqty :: Quantity

record Config =
  cfg_max_id :: nat
  cfg_capacity :: nat
  cfg_min :: Price
  cfg_max :: Price

record SpecBook =
  spec_bids :: "Resting list"
  spec_asks :: "Resting list"

fun resting :: "Side \<Rightarrow> SpecBook \<Rightarrow> Resting list" where
  "resting Buy B = spec_bids B"
| "resting Sell B = spec_asks B"

fun set_resting :: "Side \<Rightarrow> Resting list \<Rightarrow> SpecBook \<Rightarrow> SpecBook" where
  "set_resting Buy rs B = B\<lparr>spec_bids := rs\<rparr>"
| "set_resting Sell rs B = B\<lparr>spec_asks := rs\<rparr>"

definition spec_empty :: SpecBook where
  "spec_empty = \<lparr>spec_bids = [], spec_asks = []\<rparr>"

definition book_size :: "SpecBook \<Rightarrow> nat" where
  "book_size B = length (spec_bids B) + length (spec_asks B)"

definition book_ids :: "SpecBook \<Rightarrow> OrderId list" where
  "book_ids B = map rid (spec_bids B @ spec_asks B)"

text \<open>For an order resting on side \<open>s\<close>, price \<open>p\<close> has at least the priority of \<open>q\<close>.\<close>

fun no_worse :: "Side \<Rightarrow> Price \<Rightarrow> Price \<Rightarrow> bool" where
  "no_worse Buy p q = (q \<le> p)"
| "no_worse Sell p q = (p \<le> q)"

text \<open>A taker on side \<open>s\<close> limited at \<open>px\<close> trades with a maker at \<open>mp\<close>.\<close>

definition crosses :: "Side \<Rightarrow> Price \<Rightarrow> Price \<Rightarrow> bool" where
  "crosses s px mp = no_worse (opposite s) mp px"

section \<open>Operations\<close>

definition spec_trade :: "Resting \<Rightarrow> OrderId \<Rightarrow> Quantity \<Rightarrow> Trade" where
  "spec_trade r taker q = \<lparr>maker_id = rid r, taker_id = taker, trade_price = rprice r, trade_quantity = q\<rparr>"

fun spec_fill :: "(Price \<Rightarrow> bool) \<Rightarrow> OrderId \<Rightarrow> Quantity \<Rightarrow> Resting list
    \<Rightarrow> Trade list \<times> Quantity \<times> Resting list" where
  "spec_fill c taker q [] = ([], q, [])"
| "spec_fill c taker q (r # rs) =
     (if q = 0 \<or> \<not> c (rprice r) then ([], q, r # rs)
      else if rqty r \<le> q then
        (let (ts, q', rs') = spec_fill c taker (q - rqty r) rs
         in (spec_trade r taker (rqty r) # ts, q', rs'))
      else ([spec_trade r taker q], 0, r\<lparr>rqty := rqty r - q\<rparr> # rs))"

definition spec_insert :: "Side \<Rightarrow> Resting \<Rightarrow> Resting list \<Rightarrow> Resting list" where
  "spec_insert s r rs = takeWhile (\<lambda>x. no_worse s (rprice x) (rprice r)) rs @ r #
     dropWhile (\<lambda>x. no_worse s (rprice x) (rprice r)) rs"

definition spec_remove :: "OrderId \<Rightarrow> SpecBook \<Rightarrow> SpecBook" where
  "spec_remove i B = \<lparr>spec_bids = filter (\<lambda>r. rid r \<noteq> i) (spec_bids B),
     spec_asks = filter (\<lambda>r. rid r \<noteq> i) (spec_asks B)\<rparr>"

definition spec_cancel :: "Config \<Rightarrow> OrderId \<Rightarrow> SpecBook \<Rightarrow> RejectReason \<times> SpecBook" where
  "spec_cancel cfg i B =
     (if i = 0 \<or> unat i > cfg_max_id cfg then (OutOfBoundsOrderId, B)
      else if i \<notin> set (book_ids B) then (CancelFailed, B)
      else (Accepted, spec_remove i B))"

definition spec_rest :: "Config \<Rightarrow> OrderId \<Rightarrow> Price \<Rightarrow> Quantity \<Rightarrow> Side \<Rightarrow> SpecBook
    \<Rightarrow> RejectReason \<times> SpecBook" where
  "spec_rest cfg i px q s B =
     (if cfg_capacity cfg \<le> book_size B then (PoolExhausted, B)
      else (Accepted, set_resting s (spec_insert s \<lparr>rid = i, rprice = px, rqty = q\<rparr> (resting s B)) B))"

text \<open>The effective limit of an order: a market order takes any price.\<close>

definition limit_of :: "OrderType \<Rightarrow> Side \<Rightarrow> Price \<Rightarrow> Price" where
  "limit_of type s px = (if type = Market
     then (if s = Buy then MARKET_BUY_PRICE else MARKET_SELL_PRICE) else px)"

text \<open>The first check an order fails, in the order the engine makes them.\<close>

definition spec_check :: "Config \<Rightarrow> OrderId \<Rightarrow> OrderType \<Rightarrow> Price \<Rightarrow> Quantity \<Rightarrow> Side \<Rightarrow> SpecBook
    \<Rightarrow> RejectReason option" where
  "spec_check cfg i type px q s B =
     (if q = 0 then Some InvalidQuantity
      else if i = 0 \<or> unat i > cfg_max_id cfg then Some OutOfBoundsOrderId
      else if i \<in> set (book_ids B) then Some DuplicateOrderId
      else if type = Limit \<and> (px < cfg_min cfg \<or> px > cfg_max cfg) then Some OutOfBoundsPrice
      else if type = Market \<and> resting (opposite s) B = [] then Some MarketOnEmptyBook
      else None)"

definition spec_match :: "OrderId \<Rightarrow> Price \<Rightarrow> Quantity \<Rightarrow> Side \<Rightarrow> SpecBook
    \<Rightarrow> Trade list \<times> Quantity \<times> SpecBook" where
  "spec_match i px q s B =
     (let (ts, q', rs) = spec_fill (crosses s px) i q (resting (opposite s) B)
      in (ts, q', set_resting (opposite s) rs B))"

definition spec_submit :: "Config \<Rightarrow> OrderId \<Rightarrow> OrderType \<Rightarrow> Price \<Rightarrow> Quantity \<Rightarrow> Side \<Rightarrow> SpecBook
    \<Rightarrow> Trade AddResult \<times> SpecBook" where
  "spec_submit cfg i type px q s B =
     (let (ts, q', B') = spec_match i (limit_of type s px) q s B in
      if q' = 0 \<or> type = Market then (mk_result Accepted (q - q') ts, B')
      else let (r, B'') = spec_rest cfg i px q' s B' in (mk_result r (q - q') ts, B''))"

definition spec_add :: "Config \<Rightarrow> OrderId \<Rightarrow> OrderType \<Rightarrow> Price \<Rightarrow> Quantity \<Rightarrow> Side \<Rightarrow> SpecBook
    \<Rightarrow> Trade AddResult \<times> SpecBook" where
  "spec_add cfg i type px q s B =
     (if type = Cancel then (let (r, B') = spec_cancel cfg i B in (mk_result r 0 [], B'))
      else case spec_check cfg i type px q s B of
        Some r \<Rightarrow> (mk_result r 0 [], B)
      | None \<Rightarrow> spec_submit cfg i type px q s B)"

section \<open>Well-formed books\<close>

definition side_sorted :: "Side \<Rightarrow> Resting list \<Rightarrow> bool" where
  "side_sorted s rs = sorted_wrt (\<lambda>x y. no_worse s (rprice x) (rprice y)) rs"

definition order_ok :: "Config \<Rightarrow> Resting \<Rightarrow> bool" where
  "order_ok cfg r \<longleftrightarrow> rqty r \<noteq> 0 \<and> rid r \<noteq> 0 \<and> unat (rid r) \<le> cfg_max_id cfg \<and>
     cfg_min cfg \<le> rprice r \<and> rprice r \<le> cfg_max cfg"

definition uncrossed :: "SpecBook \<Rightarrow> bool" where
  "uncrossed B \<longleftrightarrow> (\<forall>x \<in> set (spec_bids B). \<forall>y \<in> set (spec_asks B). rprice x < rprice y)"

definition spec_inv :: "Config \<Rightarrow> SpecBook \<Rightarrow> bool" where
  "spec_inv cfg B \<longleftrightarrow> side_sorted Buy (spec_bids B) \<and> side_sorted Sell (spec_asks B) \<and>
     list_all (order_ok cfg) (spec_bids B @ spec_asks B) \<and> distinct (book_ids B) \<and>
     uncrossed B \<and> book_size B \<le> cfg_capacity cfg"

section \<open>Facts on filling\<close>

lemma no_worse_refl [simp]: "no_worse s p p"
  by (cases s) simp_all

lemma no_worse_trans: "no_worse s p q \<Longrightarrow> no_worse s q r \<Longrightarrow> no_worse s p r"
  by (cases s) auto

lemma no_worse_total: "no_worse s p q \<or> no_worse s q p"
  by (cases s) auto

lemma spec_fill_0 [simp]: "spec_fill c t 0 rs = ([], 0, rs)"
  by (cases rs) simp_all

lemma spec_fill_append:
  assumes "\<forall>r \<in> set xs. c (rprice r)" "spec_fill c t q xs = (ts, q', zs)"
    "spec_fill c t q' ys = (ts2, q2, ws)" "zs \<noteq> [] \<longrightarrow> q' = 0"
  shows "spec_fill c t q (xs @ ys) = (ts @ ts2, q2, zs @ ws)"
  using assms
proof (induction xs arbitrary: q ts)
  case (Cons r xs)
  show ?case
  proof (cases "q \<noteq> 0 \<and> rqty r \<le> q")
    case True
    then obtain ts' where "ts = spec_trade r t (rqty r) # ts'" "spec_fill c t (q - rqty r) xs = (ts', q', zs)"
      using Cons.prems by (auto split: prod.splits)
    then show ?thesis using Cons True by auto
  next
    case False
    then show ?thesis using Cons.prems by (auto split: if_splits)
  qed
qed simp

lemma spec_fill_rest_zero:
  "spec_fill c t q xs = (ts, q', zs) \<Longrightarrow> \<forall>r \<in> set xs. c (rprice r) \<Longrightarrow> zs \<noteq> [] \<Longrightarrow> q' = 0"
  by (induction xs arbitrary: q ts) (auto split: if_splits prod.splits)

text \<open>What is filled and what is left add up to the quantity submitted.\<close>

lemma spec_fill_conserves:
  "spec_fill c t q rs = (ts, q', rs') \<Longrightarrow> unat q = unat q' + (\<Sum>x\<leftarrow>ts. unat (trade_quantity x))"
proof (induction rs arbitrary: q ts)
  case (Cons r rs)
  show ?case
  proof (cases "q \<noteq> 0 \<and> c (rprice r) \<and> rqty r \<le> q")
    case True
    then obtain ts' where ts: "ts = spec_trade r t (rqty r) # ts'" "spec_fill c t (q - rqty r) rs = (ts', q', rs')"
      using Cons.prems by (auto split: prod.splits)
    have "unat (q - rqty r) = unat q - unat (rqty r)" "unat (rqty r) \<le> unat q"
      using True by (simp_all add: unat_sub word_le_nat_alt)
    then show ?thesis using Cons.IH [OF ts(2)] ts(1) by (simp add: spec_trade_def)
  next
    case False
    then show ?thesis using Cons.prems by (auto simp: spec_trade_def split: if_splits)
  qed
qed simp

text \<open>Makers trade in priority order, at their own price, within the taker's limit.\<close>

lemma spec_fill_makers:
  "spec_fill c t q rs = (ts, q', rs') \<Longrightarrow>
   map (\<lambda>x. (maker_id x, trade_price x)) ts = take (length ts) (map (\<lambda>r. (rid r, rprice r)) rs)"
  by (induction rs arbitrary: q ts) (auto simp: spec_trade_def split: if_splits prod.splits)

lemma spec_fill_trades:
  "spec_fill c t q rs = (ts, q', rs') \<Longrightarrow> \<forall>r \<in> set rs. rqty r \<noteq> 0 \<Longrightarrow>
   \<forall>x \<in> set ts. taker_id x = t \<and> c (trade_price x) \<and> trade_quantity x \<noteq> 0"
  by (induction rs arbitrary: q ts) (auto simp: spec_trade_def split: if_splits prod.splits)

text \<open>Each trade takes its maker whole, except the last one when it uses up the quantity.\<close>

lemma spec_fill_nth:
  "spec_fill c t q rs = (ts, q', rs') \<Longrightarrow> k < length ts \<Longrightarrow>
   k < length rs \<and> ts ! k = spec_trade (rs ! k) t (trade_quantity (ts ! k)) \<and>
   trade_quantity (ts ! k) \<le> rqty (rs ! k) \<and>
   (Suc k < length ts \<or> q' \<noteq> 0 \<longrightarrow> trade_quantity (ts ! k) = rqty (rs ! k))"
proof (induction rs arbitrary: q ts k)
  case (Cons r rs)
  show ?case
  proof (cases "q \<noteq> 0 \<and> c (rprice r) \<and> rqty r \<le> q")
    case True
    then obtain ts' where "ts = spec_trade r t (rqty r) # ts'" "spec_fill c t (q - rqty r) rs = (ts', q', rs')"
      using Cons.prems(1) by (auto split: prod.splits)
    with Cons.IH Cons.prems(2) show ?thesis by (cases k) (auto simp: spec_trade_def)
  next
    case False
    with Cons.prems show ?thesis by (auto simp: spec_trade_def split: if_splits)
  qed
qed simp

text \<open>With quantity left over, every maker that traded is gone and nobody who crosses is next.\<close>

lemma spec_fill_left:
  "spec_fill c t q rs = (ts, q', rs') \<Longrightarrow> q' \<noteq> 0 \<Longrightarrow>
   rs' = drop (length ts) rs \<and> length ts \<le> length rs \<and> (rs' \<noteq> [] \<longrightarrow> \<not> c (rprice (hd rs')))"
  by (induction rs arbitrary: q ts) (auto split: if_splits prod.splits)

text \<open>The remaining orders are a suffix of the old ones, its first possibly reduced.\<close>

lemma spec_fill_suffix:
  "spec_fill c t q rs = (ts, q', rs') \<Longrightarrow>
   \<exists>k. map (\<lambda>r. (rid r, rprice r)) rs' = drop k (map (\<lambda>r. (rid r, rprice r)) rs)"
proof (induction rs arbitrary: q ts)
  case (Cons r rs)
  show ?case
  proof (cases "q \<noteq> 0 \<and> c (rprice r) \<and> rqty r \<le> q")
    case True
    then obtain ts' where "spec_fill c t (q - rqty r) rs = (ts', q', rs')"
      using Cons.prems by (auto split: prod.splits)
    with Cons.IH obtain k where "map (\<lambda>r. (rid r, rprice r)) rs' = drop k (map (\<lambda>r. (rid r, rprice r)) rs)"
      by blast
    then show ?thesis by (intro exI [of _ "Suc k"]) simp
  next
    case False
    then show ?thesis using Cons.prems by (intro exI [of _ 0]) (auto split: if_splits)
  qed
qed simp

lemma spec_fill_qty:
  "spec_fill c t q rs = (ts, q', rs') \<Longrightarrow> \<forall>r \<in> set rs. rqty r \<noteq> 0 \<Longrightarrow> \<forall>r \<in> set rs'. rqty r \<noteq> 0"
  by (induction rs arbitrary: q ts) (auto split: if_splits prod.splits)

lemma spec_fill_length:
  "spec_fill c t q rs = (ts, q', rs') \<Longrightarrow> length rs' \<le> length rs"
  using spec_fill_suffix [of c t q rs ts q' rs'] by (auto dest: arg_cong [where f = length])

lemma spec_fill_pairs:
  assumes "spec_fill c t q rs = (ts, q', rs')" "r' \<in> set rs'"
  shows "\<exists>r \<in> set rs. rid r = rid r' \<and> rprice r = rprice r'"
proof -
  obtain k where "map (\<lambda>r. (rid r, rprice r)) rs' = drop k (map (\<lambda>r. (rid r, rprice r)) rs)"
    using spec_fill_suffix [OF assms(1)] by blast
  then have "(rid r', rprice r') \<in> set (map (\<lambda>r. (rid r, rprice r)) rs)"
    using assms(2) by (metis (no_types, lifting) image_eqI in_set_dropD list.set_map)
  then show ?thesis by auto
qed

section \<open>Every operation keeps a book well-formed\<close>

lemma sorted_wrt_drop: "sorted_wrt R xs \<Longrightarrow> sorted_wrt R (drop k xs)"
  by (metis append_take_drop_id sorted_wrt_append)

lemma side_sorted_pairs:
  "side_sorted s rs \<longleftrightarrow> sorted_wrt (\<lambda>x y. no_worse s (snd x) (snd y)) (map (\<lambda>r. (rid r, rprice r)) rs)"
  by (simp add: side_sorted_def sorted_wrt_map)

lemma spec_fill_sorted:
  assumes "spec_fill c t q rs = (ts, q', rs')" "side_sorted s rs"
  shows "side_sorted s rs'"
  using spec_fill_suffix [OF assms(1)] assms(2) by (auto simp: side_sorted_pairs sorted_wrt_drop)

lemma spec_insert_split: "\<exists>as bs. rs = as @ bs \<and> spec_insert s r rs = as @ r # bs"
  unfolding spec_insert_def by (metis takeWhile_dropWhile_id)

lemma spec_insert_set [simp]: "set (spec_insert s r rs) = insert r (set rs)"
  using spec_insert_split [of rs s r] by auto

lemma spec_insert_length [simp]: "length (spec_insert s r rs) = Suc (length rs)"
  using spec_insert_split [of rs s r] by auto

lemma spec_insert_distinct [simp]:
  "distinct (map f (spec_insert s r rs)) \<longleftrightarrow> f r \<notin> f ` set rs \<and> distinct (map f rs)"
  using spec_insert_split [of rs s r] by auto

lemma spec_insert_sorted:
  assumes "side_sorted s rs"
  shows "side_sorted s (spec_insert s r rs)"
proof -
  let ?P = "\<lambda>x. no_worse s (rprice x) (rprice r)" and ?R = "\<lambda>x y. no_worse s (rprice x) (rprice y)"
  have "sorted_wrt ?R (takeWhile ?P rs @ dropWhile ?P rs)" using assms by (simp add: side_sorted_def)
  then have sp: "sorted_wrt ?R (takeWhile ?P rs)" "sorted_wrt ?R (dropWhile ?P rs)"
    "\<forall>x \<in> set (takeWhile ?P rs). \<forall>y \<in> set (dropWhile ?P rs). ?R x y"
    unfolding sorted_wrt_append by auto
  have "\<forall>x \<in> set (takeWhile ?P rs). ?R x r" using set_takeWhileD by fastforce
  moreover have "\<forall>y \<in> set (dropWhile ?P rs). ?R r y"
  proof (cases "dropWhile ?P rs")
    case Nil
    show ?thesis unfolding Nil by simp
  next
    case (Cons z zs)
    then have "\<not> ?P z" by (metis dropWhile_eq_Cons_conv)
    then have "?R r z" using no_worse_total by blast
    moreover have "\<forall>y \<in> set zs. ?R z y" using sp(2) unfolding Cons by simp
    ultimately show ?thesis unfolding Cons using no_worse_trans by simp
  qed
  ultimately show ?thesis
    using sp unfolding side_sorted_def spec_insert_def sorted_wrt_append sorted_wrt.simps list.set by blast
qed

lemma spec_inv_empty: "spec_inv cfg spec_empty"
  by (simp add: spec_inv_def spec_empty_def side_sorted_def book_ids_def uncrossed_def book_size_def)

lemma spec_inv_side:
  "spec_inv cfg B \<longleftrightarrow> (\<forall>s. side_sorted s (resting s B) \<and> list_all (order_ok cfg) (resting s B) \<and>
      distinct (map rid (resting s B))) \<and>
    rid ` set (resting Buy B) \<inter> rid ` set (resting Sell B) = {} \<and> uncrossed B \<and> book_size B \<le> cfg_capacity cfg"
  (is "?L \<longleftrightarrow> (\<forall>s. ?P s) \<and> ?R")
proof -
  have "(\<forall>s. ?P s) \<longleftrightarrow> ?P Buy \<and> ?P Sell" by (metis (full_types) Side.exhaust)
  then show ?thesis by (auto simp: spec_inv_def book_ids_def)
qed

lemma resting_set_resting [simp]: "resting s (set_resting t rs B) = (if s = t then rs else resting s B)"
  by (cases s; cases t) simp_all

lemma book_size_side: "book_size B = length (resting s B) + length (resting (opposite s) B)"
  by (cases s) (simp_all add: book_size_def)

lemma book_ids_side: "set (book_ids B) = rid ` set (resting s B) \<union> rid ` set (resting (opposite s) B)"
  by (cases s) (auto simp: book_ids_def)

lemma uncrossed_side: "uncrossed B \<longleftrightarrow>
  (\<forall>x \<in> set (resting s B). \<forall>y \<in> set (resting (opposite s) B). \<not> no_worse s (rprice x) (rprice y))"
  by (cases s) (auto simp: uncrossed_def not_le)

lemma disjoint_side: "rid ` set (resting Buy B) \<inter> rid ` set (resting Sell B) = {} \<longleftrightarrow>
   rid ` set (resting s B) \<inter> rid ` set (resting (opposite s) B) = {}"
  by (cases s) auto

lemma spec_fill_ok:
  assumes "spec_fill c t q rs = (ts, q', rs')" "list_all (order_ok cfg) rs"
  shows "list_all (order_ok cfg) rs'"
proof -
  have "\<forall>r \<in> set rs'. rqty r \<noteq> 0"
    using spec_fill_qty [OF assms(1)] assms(2) by (auto simp: list_all_iff order_ok_def)
  with assms(2) spec_fill_pairs [OF assms(1)] show ?thesis
    by (fastforce simp: list_all_iff order_ok_def)
qed

lemma spec_fill_distinct:
  assumes "spec_fill c t q rs = (ts, q', rs')" "distinct (map rid rs)"
  shows "distinct (map rid rs')" "rid ` set rs' \<subseteq> rid ` set rs"
proof -
  obtain k where "map (\<lambda>r. (rid r, rprice r)) rs' = drop k (map (\<lambda>r. (rid r, rprice r)) rs)"
    using spec_fill_suffix [OF assms(1)] by blast
  then have k: "map rid rs' = drop k (map rid rs)"
    by (auto simp: drop_map comp_def dest!: arg_cong [where f = "map fst"])
  then show "distinct (map rid rs')" using assms(2) by simp
  show "rid ` set rs' \<subseteq> rid ` set rs" using k by (metis list.set_map set_drop_subset)
qed

lemma spec_match_fill:
  assumes "spec_match i px q s B = (ts, q', B')"
  obtains rs where "spec_fill (crosses s px) i q (resting (opposite s) B) = (ts, q', rs)"
    "B' = set_resting (opposite s) rs B"
  using assms by (auto simp: spec_match_def Let_def split: prod.splits)

lemma spec_match_inv:
  assumes "spec_inv cfg B" "spec_match i px q s B = (ts, q', B')"
  shows "spec_inv cfg B'"
proof -
  let ?o = "opposite s"
  obtain rs where f: "spec_fill (crosses s px) i q (resting ?o B) = (ts, q', rs)"
    and B': "B' = set_resting ?o rs B"
    using assms(2) by (rule spec_match_fill)
  have inv: "side_sorted ?o (resting ?o B)" "list_all (order_ok cfg) (resting ?o B)" "distinct (map rid (resting ?o B))"
    using assms(1) by (auto simp: spec_inv_side)
  have "uncrossed B'"
    using assms(1) spec_fill_pairs [OF f] unfolding B' spec_inv_side uncrossed_side [of _ s] by simp metis
  moreover have "book_size B' \<le> cfg_capacity cfg"
    using assms(1) spec_fill_length [OF f] unfolding B' spec_inv_side book_size_side [of _ s] by simp
  moreover have "rid ` set (resting Buy B') \<inter> rid ` set (resting Sell B') = {}"
    using assms(1) spec_fill_distinct(2) [OF f inv(3)]
    unfolding B' spec_inv_side disjoint_side [of _ s] by auto
  ultimately show ?thesis
    using assms(1) spec_fill_sorted [OF f inv(1)] spec_fill_ok [OF f inv(2)] spec_fill_distinct(1) [OF f inv(3)]
    unfolding B' spec_inv_side by simp
qed

text \<open>After matching with quantity left, the taker's limit crosses nothing on the other side.\<close>

lemma spec_match_left:
  assumes "spec_inv cfg B" "spec_match i px q s B = (ts, q', B')" "q' \<noteq> 0"
  shows "\<forall>r \<in> set (resting (opposite s) B'). \<not> crosses s px (rprice r)"
proof -
  let ?o = "opposite s"
  obtain rs where f: "spec_fill (crosses s px) i q (resting ?o B) = (ts, q', rs)"
    and B': "B' = set_resting ?o rs B"
    using assms(2) by (rule spec_match_fill)
  have so: "side_sorted ?o rs" using spec_fill_sorted [OF f] assms(1) by (auto simp: spec_inv_side)
  have h: "rs \<noteq> [] \<Longrightarrow> \<not> crosses s px (rprice (hd rs))" using spec_fill_left [OF f assms(3)] by blast
  show ?thesis
  proof
    fix r assume "r \<in> set (resting ?o B')"
    then have r: "r \<in> set rs" by (simp add: B')
    then obtain x xs where rs: "rs = x # xs" by (cases rs) auto
    then have "no_worse ?o (rprice x) (rprice r)" using r so by (auto simp: side_sorted_def)
    then show "\<not> crosses s px (rprice r)"
      using h rs no_worse_trans by (auto simp: crosses_def)
  qed
qed

lemma spec_match_ids:
  assumes "spec_match i px q s B = (ts, q', B')"
  shows "set (book_ids B') \<subseteq> set (book_ids B)"
proof -
  obtain rs where f: "spec_fill (crosses s px) i q (resting (opposite s) B) = (ts, q', rs)"
    and B': "B' = set_resting (opposite s) rs B"
    using assms by (rule spec_match_fill)
  have "rid ` set rs \<subseteq> rid ` set (resting (opposite s) B)" using spec_fill_pairs [OF f] by (metis image_eqI image_subsetI)
  then show ?thesis unfolding B' book_ids_side [of _ s] by auto
qed

lemma spec_match_taker_side:
  "spec_match i px q s B = (ts, q', B') \<Longrightarrow> resting s B' = resting s B"
  by (auto simp: spec_match_def Let_def split: prod.splits)

lemma spec_rest_inv:
  assumes "spec_inv cfg B" "spec_rest cfg i px q s B = (r, B')"
    "q \<noteq> 0" "i \<noteq> 0" "unat i \<le> cfg_max_id cfg" "i \<notin> set (book_ids B)" "cfg_min cfg \<le> px" "px \<le> cfg_max cfg"
    "\<forall>r \<in> set (resting (opposite s) B). \<not> crosses s px (rprice r)"
  shows "spec_inv cfg B'"
proof (cases "cfg_capacity cfg \<le> book_size B")
  case True
  then show ?thesis using assms by (simp add: spec_rest_def)
next
  case False
  let ?r = "\<lparr>rid = i, rprice = px, rqty = q\<rparr>"
  have B': "B' = set_resting s (spec_insert s ?r (resting s B)) B"
    using assms(2) False by (simp add: spec_rest_def)
  have "\<forall>r \<in> set (resting (opposite s) B). \<not> no_worse s px (rprice r)"
    using assms(9) by (cases s) (auto simp: crosses_def)
  then have "uncrossed B'"
    using assms(1) unfolding B' spec_inv_side uncrossed_side [of _ s] by simp
  moreover have "book_size B' \<le> cfg_capacity cfg"
    using False unfolding B' book_size_side [of _ s] by simp
  moreover have "rid ` set (resting Buy B') \<inter> rid ` set (resting Sell B') = {}"
    using assms(1,6) unfolding B' spec_inv_side disjoint_side [of _ s] book_ids_side [of _ s] by auto
  moreover have "i \<notin> rid ` set (resting s B)" using assms(6) by (auto simp: book_ids_side [of _ s])
  ultimately show ?thesis
    using assms(1,3,4,5,7,8) spec_insert_sorted
    unfolding B' spec_inv_side by (simp add: list_all_iff order_ok_def)
qed

lemma spec_remove_inv: "spec_inv cfg B \<Longrightarrow> spec_inv cfg (spec_remove i B)"
  using length_filter_le [of "\<lambda>r. rid r \<noteq> i" "spec_bids B"] length_filter_le [of "\<lambda>r. rid r \<noteq> i" "spec_asks B"]
  by (auto simp: spec_inv_def spec_remove_def side_sorted_def sorted_wrt_filter list_all_iff book_ids_def
      distinct_map_filter uncrossed_def book_size_def simp del: length_filter_le)

lemma spec_cancel_inv: "spec_inv cfg B \<Longrightarrow> spec_inv cfg (snd (spec_cancel cfg i B))"
  by (simp add: spec_cancel_def spec_remove_inv)

lemma spec_submit_inv:
  assumes "spec_inv cfg B" "spec_check cfg i type px q s B = None" "type \<noteq> Cancel"
  shows "spec_inv cfg (snd (spec_submit cfg i type px q s B))"
proof -
  obtain ts q' B' where m: "spec_match i (limit_of type s px) q s B = (ts, q', B')"
    by (metis prod_cases3)
  obtain r B'' where r: "spec_rest cfg i px q' s B' = (r, B'')" by fastforce
  have "spec_inv cfg B''" if "q' \<noteq> 0" "type \<noteq> Market"
  proof -
    have "type = Limit" using that assms(3) by (cases type) auto
    then show ?thesis
      using that assms m spec_match_inv [OF assms(1) m] spec_match_left [OF assms(1) m] spec_match_ids [OF m]
      by (intro spec_rest_inv [OF _ r]) (auto simp: spec_check_def limit_of_def not_less split: if_splits)
  qed
  with m r spec_match_inv [OF assms(1) m] show ?thesis by (simp add: spec_submit_def)
qed

lemma spec_add_inv: "spec_inv cfg B \<Longrightarrow> spec_inv cfg (snd (spec_add cfg i type px q s B))"
  using spec_cancel_inv [of cfg B i] spec_submit_inv [of cfg B i type px q s]
  by (auto simp: spec_add_def split: prod.splits option.splits)

text \<open>A taker with quantity left has freed the slot of every maker it traded with.\<close>

lemma match_frees:
  assumes "spec_match i px q s B = (ts, q', B1)" "q' \<noteq> 0"
  shows "book_size B1 + length ts = book_size B" "ts = [] \<Longrightarrow> B1 = B"
proof -
  obtain rs where f: "spec_fill (crosses s px) i q (resting (opposite s) B) = (ts, q', rs)" "B1 = set_resting (opposite s) rs B"
    using assms(1) by (rule spec_match_fill)
  have l: "rs = drop (length ts) (resting (opposite s) B)" "length ts \<le> length (resting (opposite s) B)"
    using spec_fill_left [OF f(1) assms(2)] by auto
  then show "book_size B1 + length ts = book_size B" by (simp add: book_size_side [of _ s] f(2))
  show "B1 = B" if "ts = []" using l(1) that f(2) by (cases s) simp_all
qed

section \<open>Submissions of the specification\<close>

text \<open>What an accepted submission is made of.\<close>

lemma add_cases:
  assumes "spec_add cfg i ty px q s B = (res, B')" "ty \<noteq> Cancel"
  obtains (rejected) r where "spec_check cfg i ty px q s B = Some r" "res = mk_result r 0 []" "B' = B"
  | (submitted) ts q' B1 where "spec_check cfg i ty px q s B = None"
      "spec_match i (limit_of ty s px) q s B = (ts, q', B1)"
      "res_filled res = q - q'" "res_trades res = ts"
      "q' = 0 \<or> ty = Market \<Longrightarrow> res_reason res = Accepted \<and> B' = B1"
      "q' \<noteq> 0 \<Longrightarrow> ty = Limit \<Longrightarrow> spec_rest cfg i px q' s B1 = (res_reason res, B')"
proof (cases "spec_check cfg i ty px q s B")
  case (Some r)
  then show thesis using assms by (intro rejected) (auto simp: spec_add_def)
next
  case None
  obtain ts q' B1 where m: "spec_match i (limit_of ty s px) q s B = (ts, q', B1)" by (metis prod_cases3)
  show thesis
    by (rule submitted [OF None m])
      (use assms None m in \<open>auto simp: spec_add_def spec_submit_def mk_result_def split: if_splits prod.splits\<close>)
qed

lemma add_cancel_type: "spec_add cfg i Cancel px q s B = (res, B') \<Longrightarrow>
    res_filled res = 0 \<and> res_trades res = [] \<and> spec_cancel cfg i B = (res_reason res, B')"
  by (auto simp: spec_add_def mk_result_def split: prod.splits)

lemma check_not_accepted: "spec_check cfg i ty px q s B = Some r \<Longrightarrow> r \<noteq> Accepted \<and> r \<noteq> PoolExhausted"
  by (auto simp: spec_check_def split: if_splits)

text \<open>The quantity resting on a side.\<close>

definition side_qty :: "Side \<Rightarrow> SpecBook \<Rightarrow> nat" where
  "side_qty s B = (\<Sum>r\<leftarrow>resting s B. unat (rqty r))"

lemma spec_fill_resting:
  "spec_fill c t q rs = (ts, q', rs') \<Longrightarrow>
   (\<Sum>r\<leftarrow>rs. unat (rqty r)) = (\<Sum>r\<leftarrow>rs'. unat (rqty r)) + (\<Sum>x\<leftarrow>ts. unat (trade_quantity x))"
proof (induction rs arbitrary: q ts)
  case (Cons r rs)
  show ?case
  proof (cases "q \<noteq> 0 \<and> c (rprice r) \<and> rqty r \<le> q")
    case True
    then obtain ts' where "ts = spec_trade r t (rqty r) # ts'" "spec_fill c t (q - rqty r) rs = (ts', q', rs')"
      using Cons.prems by (auto split: prod.splits)
    then show ?thesis using Cons.IH by (simp add: spec_trade_def)
  next
    case False
    then show ?thesis
      using Cons.prems by (auto simp: spec_trade_def unat_sub word_le_nat_alt not_le split: if_splits)
  qed
qed simp

lemma match_qty:
  assumes "spec_match i px q s B = (ts, q', B1)"
  shows "side_qty (opposite s) B = side_qty (opposite s) B1 + (\<Sum>x\<leftarrow>ts. unat (trade_quantity x))"
    "side_qty s B1 = side_qty s B" "unat (q - q') = (\<Sum>x\<leftarrow>ts. unat (trade_quantity x))" "q' \<le> q"
proof -
  obtain rs where f: "spec_fill (crosses s px) i q (resting (opposite s) B) = (ts, q', rs)" "B1 = set_resting (opposite s) rs B"
    using assms by (rule spec_match_fill)
  show "side_qty (opposite s) B = side_qty (opposite s) B1 + (\<Sum>x\<leftarrow>ts. unat (trade_quantity x))" "side_qty s B1 = side_qty s B"
    using spec_fill_resting [OF f(1)] f(2) by (simp_all add: side_qty_def)
  show "q' \<le> q" using spec_fill_conserves [OF f(1)] by (simp add: word_le_nat_alt)
  then show "unat (q - q') = (\<Sum>x\<leftarrow>ts. unat (trade_quantity x))"
    using spec_fill_conserves [OF f(1)] by (simp add: unat_sub)
qed

text \<open>A market order takes every price.\<close>

lemma market_crosses: "crosses s (limit_of Market s px) p"
  using unat_max_less [of p]
  by (cases s) (auto simp: crosses_def limit_of_def MARKET_BUY_PRICE_def MARKET_SELL_PRICE_def UINT32_MAX_def word_le_nat_alt)

lemma match_nothing:
  assumes "\<forall>r \<in> set (resting (opposite s) B). \<not> crosses s px (rprice r)"
  shows "spec_match i px q s B = ([], q, B)"
proof -
  have "spec_fill (crosses s px) i q (resting (opposite s) B) = ([], q, resting (opposite s) B)"
    using assms by (cases "resting (opposite s) B") auto
  then show ?thesis by (cases s) (simp_all add: spec_match_def)
qed

end
