(* ===== verification/Book_Inv.thy ===== *)
theory Book_Inv
  imports Order_Book Book_Spec
begin

text \<open>
  The representation invariant of \<open>class OrderBook\<close>. A book stands for the queues of slots at
  each price tick of each side (\<open>q\<close>) and the free slots of its pool (\<open>F\<close>): every slot of the
  pool is in exactly one queue or free, the id map points at exactly the resting orders, and
  the bitsets and best prices agree with the non-empty queues. The three ways an operation
  changes the resting orders (taking out a run of slots, appending a slot, reducing a
  quantity) keep the part of the invariant that does not speak of the bitsets.
\<close>

section \<open>The relation\<close>

type_synonym queues = "Side \<Rightarrow> u32 list list"

abbreviation slab :: "OrderBook \<Rightarrow> Order list" where
  "slab b \<equiv> pool (order_pool b)"

definition range_of :: "OrderBook \<Rightarrow> nat" where
  "range_of b = unat (max_price b) - unat (min_price b) + 1"

definition live :: "queues \<Rightarrow> u32 list" where
  "live q = concat (q Buy) @ concat (q Sell)"

text \<open>The ticks that hold an order.\<close>

definition occ :: "u32 list list \<Rightarrow> nat set" where
  "occ Q = {i. i < length Q \<and> Q ! i \<noteq> []}"

text \<open>What no operation on a book changes, and the part an operation on a level leaves alone.\<close>

definition static :: "OrderBook \<Rightarrow> Price \<times> Price \<times> nat \<times> nat \<times> bool \<times> nat" where
  "static b = (min_price b, max_price b, max_order_id b, owner_thread b, in_public_entry b,
     capacity (order_pool b))"

fun top_of :: "Side \<Rightarrow> OrderBook \<Rightarrow> u64 list \<times> u64 list \<times> Price \<times> nat \<times> bool" where
  "top_of Buy b = (bids_bitset b, bids_summary b, best_bid b, best_bid_idx b, has_bids b)"
| "top_of Sell b = (asks_bitset b, asks_summary b, best_ask b, best_ask_idx b, has_asks b)"

definition geometry :: "OrderBook \<Rightarrow> bool" where
  "geometry b \<longleftrightarrow> min_price b \<le> max_price b \<and> max_price b \<noteq> UINT32_MAX \<and>
     range_of b \<le> kMaxPriceRangeTicks \<and> max_order_id b \<le> kMaxOrderIds \<and>
     length (order_map b) = max_order_id b + 1"

definition order_at :: "OrderBook \<Rightarrow> Side \<Rightarrow> nat \<Rightarrow> u32 \<Rightarrow> bool" where
  "order_at b s i x \<longleftrightarrow> unat (o_price (slot (slab b) x)) = unat (min_price b) + i \<and>
     o_side (slot (slab b) x) = side_u8 s \<and> o_quantity (slot (slab b) x) \<noteq> 0"

definition side_queues :: "OrderBook \<Rightarrow> Side \<Rightarrow> u32 list list \<Rightarrow> bool" where
  "side_queues b s Q \<longleftrightarrow> length Q = range_of b \<and> length (levels s b) = range_of b \<and>
     (\<forall>i < range_of b. queue_rel (slab b) (levels s b ! i) (Q ! i) \<and> (\<forall>x \<in> set (Q ! i). order_at b s i x))"

definition map_rel :: "u32 list \<Rightarrow> Order list \<Rightarrow> u32 set \<Rightarrow> bool" where
  "map_rel om P L \<longleftrightarrow>
     (\<forall>x \<in> L. o_id (slot P x) \<noteq> 0 \<and> unat (o_id (slot P x)) < length om \<and> om ! unat (o_id (slot P x)) = x) \<and>
     (\<forall>k < length om. om ! k \<noteq> INVALID_INDEX \<longrightarrow> om ! k \<in> L \<and> unat (o_id (slot P (om ! k))) = k)"

definition core :: "Env \<Rightarrow> OrderBook \<Rightarrow> queues \<Rightarrow> u32 list \<Rightarrow> bool" where
  "core E b q F \<longleftrightarrow> geometry b \<and> (\<forall>s. side_queues b s (q s)) \<and>
     pool_rel E (order_pool b) F \<and> distinct (live q @ F) \<and>
     (\<forall>x \<in> set (live q). unat x < capacity (order_pool b)) \<and>
     length (live q) + length F = capacity (order_pool b) \<and>
     map_rel (order_map b) (slab b) (set (live q)) \<and>
     active_count b = of_nat (length (live q)) \<and> journal_ok (journal b)"

fun side_top :: "Side \<Rightarrow> OrderBook \<Rightarrow> nat set \<Rightarrow> bool" where
  "side_top Buy b S \<longleftrightarrow> bits_rel (range_of b) (bids_bitset b) (bids_summary b) S \<and>
     (if has_bids b then best_bid_idx b \<in> S \<and> (\<forall>k \<in> S. k \<le> best_bid_idx b) \<and>
        unat (best_bid b) = unat (min_price b) + best_bid_idx b
      else S = {} \<and> best_bid b = 0 \<and> best_bid_idx b = 0)"
| "side_top Sell b S \<longleftrightarrow> bits_rel (range_of b) (asks_bitset b) (asks_summary b) S \<and>
     (if has_asks b then best_ask_idx b \<in> S \<and> (\<forall>k \<in> S. best_ask_idx b \<le> k) \<and>
        unat (best_ask b) = unat (min_price b) + best_ask_idx b
      else S = {} \<and> best_ask b = max_price b + 1 \<and> best_ask_idx b = range_of b - 1)"

definition book_rel :: "Env \<Rightarrow> OrderBook \<Rightarrow> queues \<Rightarrow> u32 list \<Rightarrow> bool" where
  "book_rel E b q F \<longleftrightarrow> core E b q F \<and> (\<forall>s. side_top s b (occ (q s)))"

section \<open>Basic facts\<close>

lemma all_sides: "(\<forall>s. P s) \<longleftrightarrow> P s \<and> P (opposite s)"
  by (cases s) (metis (full_types) Side.exhaust opposite.simps)+

lemma not_side: "t \<noteq> s \<longleftrightarrow> t = opposite s"
  by (cases s; cases t) simp_all

lemma live_set: "set (live q) = set (concat (q s)) \<union> set (concat (q (opposite s)))"
  by (cases s) (auto simp: live_def)

lemma live_distinct: "distinct (live q @ F) \<longleftrightarrow> distinct (concat (q s) @ concat (q (opposite s)) @ F)"
  by (cases s) (auto simp: live_def)

lemma live_length: "length (live q) = length (concat (q s)) + length (concat (q (opposite s)))"
  by (cases s) (auto simp: live_def)

lemma static_range: "static b' = static b \<Longrightarrow> range_of b' = range_of b"
  by (simp add: static_def range_of_def)

lemma occ_upd: "i < length Q \<Longrightarrow> occ (Q[i := v]) = (if v = [] then occ Q - {i} else insert i (occ Q))"
  by (auto simp: occ_def nth_list_update split: if_splits)

lemma side_top_frame: "static b' = static b \<Longrightarrow> top_of s b' = top_of s b \<Longrightarrow> side_top s b' S = side_top s b S"
  by (cases s) (simp_all add: static_def range_of_def)

lemma core_distinct:
  assumes "core E b q F"
  shows "distinct (concat (q s) @ concat (q (opposite s)) @ F)"
  using assms unfolding core_def live_distinct [of q F s] by blast

lemma core_live:
  assumes "core E b q F" "x \<in> set (live q)"
  shows "unat x < capacity (order_pool b)" "x \<noteq> INVALID_INDEX" "x \<notin> set F"
proof -
  show "unat x < capacity (order_pool b)" "x \<notin> set F" using assms by (auto simp: core_def)
  then show "x \<noteq> INVALID_INDEX" using assms(1) by (auto simp: core_def pool_rel_def dest: valid_index)
qed

lemma core_slots:
  assumes "core E b q F" "i < range_of b"
  shows "slots_in (slab b) (q s ! i)" "set (q s ! i) \<subseteq> set (live q)"
    "queue_rel (slab b) (levels s b ! i) (q s ! i)" "length (q s) = range_of b" "length (levels s b) = range_of b"
proof -
  have sq: "side_queues b s (q s)" using assms(1) by (simp add: core_def)
  then show q: "length (q s) = range_of b" "length (levels s b) = range_of b"
    "queue_rel (slab b) (levels s b ! i) (q s ! i)"
    using assms(2) by (auto simp: side_queues_def)
  then show sub: "set (q s ! i) \<subseteq> set (live q)"
    using assms(2) nth_in_concat [of i "q s"] by (auto simp: live_set [of q s])
  have "distinct (q s ! i)"
    using assms(2) q core_distinct [OF assms(1), of s] by (simp add: distinct_concat_nth)
  moreover have "unat x < capacity (order_pool b)" "x \<noteq> INVALID_INDEX" if "x \<in> set (q s ! i)" for x
    using that sub core_live [OF assms(1), of x] by auto
  ultimately show "slots_in (slab b) (q s ! i)"
    using assms(1) by (auto simp: slots_in_def core_def pool_rel_def)
qed

lemma core_other_tick:
  assumes "core E b q F" "i < range_of b" "j < range_of b" "x \<in> set (q t ! j)" "t \<noteq> s \<or> j \<noteq> i"
  shows "x \<notin> set (q s ! i)"
proof (cases "t = s")
  case True
  have "distinct (concat (q s))" using core_distinct [OF assms(1), of s] by simp
  from distinct_concat_disjoint [OF this, of i j] True assms core_slots(4) [OF assms(1,2), of s]
  show ?thesis by auto
next
  case False
  then have t: "t = opposite s" by (cases s; cases t) auto
  have "set (concat (q s)) \<inter> set (concat (q (opposite s))) = {}"
    using core_distinct [OF assms(1), of s] by auto
  with t assms core_slots(4) [OF assms(1,2)] show ?thesis
    using nth_in_concat [of i "q s" x] nth_in_concat [of j "q t" x] by auto
qed

lemma order_at_payload:
  assumes "static b' = static b" "payload (slot (slab b') x) = payload (slot (slab b) x)"
  shows "order_at b' s i x = order_at b s i x"
  using assms payload_eqD [OF assms(2)] by (simp add: order_at_def static_def)

lemma side_queues_frame:
  assumes "core E b q F" "i < range_of b" "static b' = static b" "t \<noteq> s \<or> j \<noteq> i" "j < range_of b"
    "\<forall>y \<in> set (live q). y \<notin> set (q s ! i) \<longrightarrow> slot (slab b') y = slot (slab b) y"
  shows "queue_rel (slab b') (levels t b ! j) (q t ! j) \<and> (\<forall>x \<in> set (q t ! j). order_at b' t j x)"
proof -
  have same: "slot (slab b') x = slot (slab b) x" if "x \<in> set (q t ! j)" for x
    using assms(6) core_other_tick [OF assms(1,2,5) that assms(4)] core_slots(2) [OF assms(1,5)] that by blast
  have "side_queues b t (q t)" using assms(1) by (simp add: core_def)
  then show ?thesis
    using assms(3,5) same by (auto simp: side_queues_def order_at_def static_def intro: queue_rel_frame)
qed

text \<open>All queues but the one at tick \<open>i\<close> of side \<open>s\<close> carry over to a book that differs there.\<close>

lemma side_queues_upd:
  assumes c: "core E b q F" and i: "i < range_of b" and st: "static b' = static b"
    and fr: "\<forall>y \<in> set (live q). y \<notin> set (q s ! i) \<longrightarrow> slot (slab b') y = slot (slab b) y"
    and lv: "levels s b' = (levels s b)[i := l']" "queue_rel (slab b') l' v"
      "levels (opposite s) b' = levels (opposite s) b"
    and v: "\<forall>x \<in> set v. order_at b' s i x"
  shows "side_queues b' t ((q(s := (q s)[i := v])) t)"
proof -
  let ?q = "q(s := (q s)[i := v])"
  note len = core_slots(4,5) [OF c i]
  have "queue_rel (slab b') (levels t b' ! j) (?q t ! j) \<and> (\<forall>x \<in> set (?q t ! j). order_at b' t j x)"
    if j: "j < range_of b" for j
  proof (cases "t = s \<and> j = i")
    case True
    with v lv(1,2) i len show ?thesis by auto
  next
    case False
    have "levels t b' ! j = levels t b ! j" "?q t ! j = q t ! j"
      using False lv(1,3) not_side [of t s] by (cases "t = s"; simp)+
    moreover have "t \<noteq> s \<or> j \<noteq> i" using False by simp
    ultimately show ?thesis
      using side_queues_frame [OF c i st _ j fr] by simp
  qed
  moreover have "length (levels t b') = range_of b" "length (?q t) = range_of b"
    using lv(1,3) len(1) [of t] len(2) [of t] not_side [of t s] by (cases "t = s"; simp)+
  ultimately show ?thesis using static_range [OF st] by (simp add: side_queues_def)
qed

section \<open>Taking out a run of slots\<close>

text \<open>The id map after the ids of the slots \<open>xs\<close> were unmapped.\<close>

definition unmapped :: "Order list \<Rightarrow> u32 list \<Rightarrow> u32 list \<Rightarrow> u32 list \<Rightarrow> bool" where
  "unmapped P xs om om' \<longleftrightarrow> length om' = length om \<and>
     (\<forall>k < length om. om' ! k = (if k \<in> (\<lambda>x. unat (o_id (slot P x))) ` set xs then INVALID_INDEX else om ! k))"

lemma map_rel_remove:
  assumes "map_rel om P L" "unmapped P xs om om'" "set xs \<subseteq> L" "L' = L - set xs"
    "\<forall>y \<in> L'. o_id (slot P' y) = o_id (slot P y)"
  shows "map_rel om' P' L'"
proof -
  have inj: "x = y" if "x \<in> L" "y \<in> L" "o_id (slot P x) = o_id (slot P y)" for x y
    using assms(1) that unfolding map_rel_def by metis
  have "om' ! unat (o_id (slot P x)) = x" if "x \<in> L'" for x
  proof -
    have "unat (o_id (slot P x)) \<notin> (\<lambda>x. unat (o_id (slot P x))) ` set xs"
    proof
      assume "unat (o_id (slot P x)) \<in> (\<lambda>x. unat (o_id (slot P x))) ` set xs"
      then obtain y where y: "y \<in> set xs" "o_id (slot P x) = o_id (slot P y)"
        unfolding unat_inj_iff image_iff by blast
      have "x = y" by (rule inj) (use y that assms(3,4) in auto)
      with y that assms(4) show False by simp
    qed
    with that assms show ?thesis by (auto simp: map_rel_def unmapped_def)
  qed
  moreover have "om' ! k \<in> L' \<and> unat (o_id (slot P (om' ! k))) = k"
    if "k < length om'" "om' ! k \<noteq> INVALID_INDEX" for k
  proof -
    have k: "om' ! k = om ! k" "k \<notin> (\<lambda>x. unat (o_id (slot P x))) ` set xs" "k < length om"
      using that assms(2) by (auto simp: unmapped_def split: if_splits)
    then have "om ! k \<in> L" "unat (o_id (slot P (om ! k))) = k"
      using that assms(1) by (auto simp: map_rel_def)
    with k show ?thesis using assms(4) by (auto simp: image_iff)
  qed
  ultimately show ?thesis
    using assms by (auto simp: map_rel_def unmapped_def)
qed

lemma core_remove:
  assumes c: "core E b q F" and i: "i < range_of b" and qi: "q s ! i = ys @ xs @ zs"
    and st: "static b' = static b"
    and p': "pool_rel E (order_pool b') (xs @ F)"
    and fr: "\<forall>y. y \<notin> set (q s ! i) \<longrightarrow> slot (slab b') y = slot (slab b) y"
    and pay: "\<forall>y \<in> set (ys @ zs). payload (slot (slab b') y) = payload (slot (slab b) y)"
    and lv: "levels s b' = (levels s b)[i := l']" "queue_rel (slab b') l' (ys @ zs)"
      "levels (opposite s) b' = levels (opposite s) b"
    and om: "unmapped (slab b) xs (order_map b) (order_map b')"
    and ac: "active_count b' = active_count b - of_nat (length xs)"
    and jr: "journal_ok (journal b')"
  shows "core E b' (q(s := (q s)[i := ys @ zs])) (xs @ F)"
proof -
  let ?q = "q(s := (q s)[i := ys @ zs])"
  note len = core_slots(4,5) [OF c i]
  obtain A C where cs: "concat (q s) = A @ (ys @ xs @ zs) @ C" "concat (?q s) = A @ (ys @ zs) @ C"
    using concat_split [of i "q s"] concat_upd [of i "q s" "ys @ zs"] len i qi by simp
  have d: "distinct (A @ (ys @ xs @ zs) @ C @ concat (q (opposite s)) @ F)"
    using core_distinct [OF c, of s] cs(1) by simp
  have dist: "distinct (live ?q @ xs @ F)"
    unfolding live_distinct [of ?q _ s] using d cs(2) by auto
  have lset: "set (live ?q) = set (live q) - set xs" "set xs \<subseteq> set (live q)"
    unfolding live_set [of _ s] using d cs by auto
  have llen: "length (live q) = length (live ?q) + length xs"
    unfolding live_length [of _ s] using cs by simp
  have rng: "range_of b' = range_of b" using st by (rule static_range)
  have mp: "map_rel (order_map b') (slab b') (set (live ?q))"
  proof (rule map_rel_remove [OF _ om lset(2,1)])
    show "map_rel (order_map b) (slab b) (set (live q))" using c by (simp add: core_def)
    show "\<forall>y \<in> set (live ?q). o_id (slot (slab b') y) = o_id (slot (slab b) y)"
    proof
      fix y assume "y \<in> set (live ?q)"
      then have "y \<notin> set xs" using lset by simp
      then have "y \<notin> set (q s ! i) \<or> y \<in> set (ys @ zs)" using qi by auto
      then show "o_id (slot (slab b') y) = o_id (slot (slab b) y)"
        using fr pay payload_eqD by metis
    qed
  qed
  have at: "\<forall>x \<in> set (ys @ zs). order_at b s i x"
    using c i qi by (auto simp: core_def side_queues_def)
  have sq: "side_queues b' t (?q t)" for t
    by (rule side_queues_upd [OF c i st _ lv]) (use fr at pay order_at_payload [OF st] in blast)+
  have "geometry b'" using c st om rng by (auto simp: core_def geometry_def static_def unmapped_def)
  moreover have "\<forall>x \<in> set (live ?q). unat x < capacity (order_pool b')"
    using lset c st by (auto simp: core_def static_def)
  moreover have "active_count b' = of_nat (length (live ?q))"
    using ac c llen by (simp add: core_def)
  moreover have "length (live ?q) + length (xs @ F) = capacity (order_pool b')"
    using c st llen by (simp add: core_def static_def)
  ultimately show ?thesis
    using sq p' dist mp jr unfolding core_def by blast
qed

section \<open>Appending a slot, and changing a quantity\<close>

lemma map_rel_insert:
  assumes "map_rel om P L" "unat k < length om" "om ! unat k = INVALID_INDEX" "k \<noteq> 0" "o_id (slot P' x) = k"
    "\<forall>y \<in> L. o_id (slot P' y) = o_id (slot P y)" "INVALID_INDEX \<notin> L"
  shows "map_rel (om[unat k := x]) P' (insert x L)"
proof -
  have "unat (o_id (slot P y)) \<noteq> unat k" if "y \<in> L" for y
    using assms(1,3,7) that unfolding map_rel_def by metis
  then show ?thesis
    using assms unfolding map_rel_def by (auto simp: nth_list_update)
qed

lemma core_insert:
  assumes c: "core E b q (x # F)" and i: "i < range_of b"
    and st: "static b' = static b" and p': "pool_rel E (order_pool b') F"
    and fr: "\<forall>y. y \<notin> insert x (set (q s ! i)) \<longrightarrow> slot (slab b') y = slot (slab b) y"
    and pay: "\<forall>y \<in> set (q s ! i). payload (slot (slab b') y) = payload (slot (slab b) y)"
    and ord: "o_id (slot (slab b') x) = k" "order_at b' s i x"
    and k: "k \<noteq> 0" "unat k \<le> max_order_id b" "order_map b ! unat k = INVALID_INDEX"
    and lv: "levels s b' = (levels s b)[i := l']" "queue_rel (slab b') l' (q s ! i @ [x])"
      "levels (opposite s) b' = levels (opposite s) b"
    and om: "order_map b' = (order_map b)[unat k := x]"
    and ac: "active_count b' = active_count b + 1"
    and jr: "journal_ok (journal b')"
  shows "core E b' (q(s := (q s)[i := q s ! i @ [x]])) F"
proof -
  let ?q = "q(s := (q s)[i := q s ! i @ [x]])"
  note len = core_slots(4,5) [OF c i]
  obtain A C where cs: "concat (q s) = A @ (q s ! i) @ C" "concat (?q s) = A @ (q s ! i @ [x]) @ C"
    using concat_split [of i "q s"] concat_upd [of i "q s" "q s ! i @ [x]"] len i by simp
  have d: "distinct (A @ (q s ! i) @ C @ concat (q (opposite s)) @ x # F)"
    using core_distinct [OF c, of s] unfolding cs(1) by simp
  have dist: "distinct (live ?q @ F)"
    unfolding live_distinct [of ?q _ s] cs(2) using d by auto
  have lset: "set (live ?q) = insert x (set (live q))" "x \<notin> set (live q)"
    unfolding live_set [of _ s] cs using d by (auto simp: cs(1))
  have llen: "length (live ?q) = Suc (length (live q))"
    unfolding live_length [of _ s] cs(2) by (simp add: cs(1))
  have x: "unat x < capacity (order_pool b)" "INVALID_INDEX \<notin> set (live q)"
    using c core_live(2) [OF c] by (auto simp: core_def pool_rel_def)
  have sq: "side_queues b' t (?q t)" for t
  proof (rule side_queues_upd [OF c i st _ lv])
    show "\<forall>y \<in> set (live q). y \<notin> set (q s ! i) \<longrightarrow> slot (slab b') y = slot (slab b) y"
      using fr lset(2) by auto
    have "\<forall>y \<in> set (q s ! i). order_at b s i y"
      using c i by (auto simp: core_def side_queues_def)
    then show "\<forall>y \<in> set (q s ! i @ [x]). order_at b' s i y"
      using pay ord(2) order_at_payload [OF st] by auto
  qed
  have ids: "\<forall>y \<in> set (live q). o_id (slot (slab b') y) = o_id (slot (slab b) y)"
    using fr pay lset(2) payload_eqD by (metis insertE)
  have "map_rel (order_map b') (slab b') (set (live ?q))"
    unfolding om lset(1)
    by (rule map_rel_insert [OF _ _ k(3,1) ord(1) ids x(2)]) (use c k(2) in \<open>simp_all add: core_def geometry_def\<close>)
  moreover have "geometry b'"
    using c om st static_range [OF st] by (auto simp: core_def geometry_def static_def)
  moreover have "\<forall>y \<in> set (live ?q). unat y < capacity (order_pool b')"
    using lset c st x by (auto simp: core_def static_def)
  moreover have "length (live ?q) + length F = capacity (order_pool b')" "active_count b' = of_nat (length (live ?q))"
    using c st llen ac by (auto simp: core_def static_def)
  ultimately show ?thesis using sq p' dist jr unfolding core_def by blast
qed

text \<open>Changes inside the slots of one queue that keep each order's id and place.\<close>

lemma core_keep:
  assumes c: "core E b q F" and i: "i < range_of b"
    and st: "static b' = static b" and p': "pool_rel E (order_pool b') F"
    and fr: "\<forall>y. y \<notin> set (q s ! i) \<longrightarrow> slot (slab b') y = slot (slab b) y"
    and ids: "\<forall>y \<in> set (q s ! i). o_id (slot (slab b') y) = o_id (slot (slab b) y) \<and> order_at b' s i y"
    and lv: "levels s b' = (levels s b)[i := l']" "queue_rel (slab b') l' (q s ! i)"
      "levels (opposite s) b' = levels (opposite s) b"
    and rest: "order_map b' = order_map b" "active_count b' = active_count b" "journal_ok (journal b')"
  shows "core E b' q F"
proof -
  have "side_queues b' t (q t)" for t
    using side_queues_upd [OF c i st _ lv, of t] fr ids by simp
  moreover have "\<forall>y. o_id (slot (slab b') y) = o_id (slot (slab b) y)" using fr ids by metis
  then have "map_rel (order_map b') (slab b') (set (live q))"
    using c rest(1) by (simp add: core_def map_rel_def)
  moreover have "geometry b'"
    using c st static_range [OF st] rest(1) by (auto simp: core_def geometry_def static_def)
  ultimately show ?thesis
    using c st p' rest unfolding core_def static_def by auto
qed

section \<open>The specification book a book stands for\<close>

definition rest_of :: "Order list \<Rightarrow> u32 \<Rightarrow> Resting" where
  "rest_of P x = \<lparr>rid = o_id (slot P x), rprice = o_price (slot P x), rqty = o_quantity (slot P x)\<rparr>"

fun side_seq :: "Side \<Rightarrow> 'a list list \<Rightarrow> 'a list" where
  "side_seq Buy Q = concat (rev Q)"
| "side_seq Sell Q = concat Q"

definition abs_side :: "Side \<Rightarrow> OrderBook \<Rightarrow> queues \<Rightarrow> Resting list" where
  "abs_side s b q = map (rest_of (slab b)) (side_seq s (q s))"

text \<open>The abstraction reads the levels off the book alone, following the links from each head.\<close>

definition level_slots :: "OrderBook \<Rightarrow> PriceLevel \<Rightarrow> u32 list" where
  "level_slots b l = free_walk (slab b) (capacity (order_pool b)) (head l)"

definition side_abs :: "Side \<Rightarrow> OrderBook \<Rightarrow> Resting list" where
  "side_abs s b = map (rest_of (slab b)) (side_seq s (map (level_slots b) (levels s b)))"

definition book_abs :: "OrderBook \<Rightarrow> SpecBook" where
  "book_abs b = \<lparr>spec_bids = side_abs Buy b, spec_asks = side_abs Sell b\<rparr>"

definition cfg_of :: "OrderBook \<Rightarrow> Config" where
  "cfg_of b = \<lparr>cfg_max_id = max_order_id b, cfg_capacity = capacity (order_pool b),
     cfg_min = min_price b, cfg_max = max_price b\<rparr>"

text \<open>The invariant: the relation holds for some queues, and the book is well-formed and uncrossed.\<close>

definition book_inv :: "Env \<Rightarrow> OrderBook \<Rightarrow> bool" where
  "book_inv E b \<longleftrightarrow> (\<exists>q F. book_rel E b q F) \<and> spec_inv (cfg_of b) (book_abs b)"

lemma dll_flist: "dll P p xs INVALID_INDEX \<Longrightarrow> flist P (hd_or INVALID_INDEX xs) xs"
  by (induction xs arbitrary: p) auto

lemma level_slots_rel:
  assumes "core E b q F" "i < range_of b"
  shows "level_slots b (levels s b ! i) = q s ! i"
proof -
  note cs = core_slots [OF assms, of s]
  have "slots_in (slab b) (q s ! i)" "length (slab b) = capacity (order_pool b)"
    using cs(1) assms(1) by (auto simp: core_def pool_rel_def)
  then have "length (q s ! i) \<le> capacity (order_pool b)" "INVALID_INDEX \<notin> set (q s ! i)"
    using distinct_slots_length [of "q s ! i" "capacity (order_pool b)"] by (auto simp: slots_in_def)
  moreover have "flist (slab b) (head (levels s b ! i)) (q s ! i)"
    using cs(3) by (auto simp: queue_rel_def intro: dll_flist)
  ultimately show ?thesis by (simp add: level_slots_def free_walk_flist)
qed

lemma side_abs_rel:
  assumes "core E b q F"
  shows "side_abs s b = abs_side s b q"
proof -
  have "side_queues b s (q s)" using assms by (simp add: core_def)
  then have "map (level_slots b) (levels s b) = q s"
    using level_slots_rel [OF assms] by (auto simp: side_queues_def intro!: nth_equalityI)
  then show ?thesis by (simp add: side_abs_def abs_side_def)
qed

lemma book_abs_resting: "core E b q F \<Longrightarrow> resting s (book_abs b) = abs_side s b q"
  by (cases s) (simp_all add: book_abs_def side_abs_rel)

lemma side_seq_set: "set (side_seq s Q) = set (concat Q)"
  by (cases s) auto

lemma side_seq_length: "length (side_seq s Q) = length (concat Q)"
  by (cases s) (simp_all add: length_concat rev_map [symmetric])

lemma abs_size:
  assumes "core E b q F"
  shows "book_size (book_abs b) = length (live q)"
  by (simp add: book_size_side [of _ Buy] book_abs_resting [OF assms] abs_side_def live_length [of q Buy]
      side_seq_length del: side_seq.simps resting.simps)

lemma abs_ids:
  assumes "core E b q F"
  shows "set (book_ids (book_abs b)) = (\<lambda>x. o_id (slot (slab b) x)) ` set (live q)"
  by (simp add: book_ids_side [of _ Buy] book_abs_resting [OF assms] abs_side_def live_set [of q Buy]
      side_seq_set image_image rest_of_def image_Un del: side_seq.simps resting.simps)

text \<open>An id is resting exactly when the id map has a slot for it.\<close>

lemma mapped_iff:
  assumes "core E b q F" "unat k \<le> max_order_id b"
  shows "order_map b ! unat k \<noteq> INVALID_INDEX \<longleftrightarrow> k \<in> set (book_ids (book_abs b))"
proof -
  have m: "map_rel (order_map b) (slab b) (set (live q))" "unat k < length (order_map b)"
    using assms by (auto simp: core_def geometry_def)
  show ?thesis
  proof
    assume "order_map b ! unat k \<noteq> INVALID_INDEX"
    with m have "order_map b ! unat k \<in> set (live q)" "o_id (slot (slab b) (order_map b ! unat k)) = k"
      by (auto simp: map_rel_def unat_inj_iff)
    then show "k \<in> set (book_ids (book_abs b))" unfolding abs_ids [OF assms(1)] by (metis imageI)
  next
    assume "k \<in> set (book_ids (book_abs b))"
    then obtain x where "x \<in> set (live q)" "k = o_id (slot (slab b) x)" unfolding abs_ids [OF assms(1)] by blast
    with m core_live(2) [OF assms(1)] show "order_map b ! unat k \<noteq> INVALID_INDEX" by (auto simp: map_rel_def)
  qed
qed

section \<open>A new book\<close>

lemma live_empty [simp]: "live (\<lambda>_. replicate n []) = []"
  by (simp add: live_def)

lemma occ_empty [simp]: "occ (replicate n []) = {}"
  by (auto simp: occ_def)

lemma map_rel_empty: "map_rel (replicate n INVALID_INDEX) P {}"
  by (auto simp: map_rel_def)

lemma OrderBook_new_rel:
  assumes "OrderBook_new E max_id max_active minp maxp = Some b"
  shows "book_rel E b (\<lambda>_. replicate (range_of b) []) (map of_nat [0..<min max_active kMaxPoolCapacity])"
proof -
  define R where "R = unat maxp - unat minp + 1"
  define W where "W = (R + 63) div 64"
  have g: "minp \<le> maxp" "maxp \<noteq> UINT32_MAX" "max_id \<le> kMaxOrderIds" "R \<le> kMaxPriceRangeTicks"
    using assms by (auto simp: OrderBook_new_def R_def Let_def split: if_splits)
  have b: "b = \<lparr>bids_bitset = replicate W 0, asks_bitset = replicate W 0,
      bids_summary = replicate ((W + 63) div 64) 0, asks_summary = replicate ((W + 63) div 64) 0,
      bids_levels = replicate R PriceLevel_default, asks_levels = replicate R PriceLevel_default,
      min_price = minp, max_price = maxp, max_order_id = max_id,
      best_bid = 0, best_ask = maxp + 1, best_bid_idx = 0, best_ask_idx = R - 1,
      has_bids = False, has_asks = False, order_map = replicate (max_id + 1) INVALID_INDEX,
      order_pool = MemoryPool_new E max_active, active_count = 0,
      journal = Journal_new kJournalCapacity, in_public_entry = False, owner_thread = this_thread E\<rparr>"
    using assms g by (auto simp: OrderBook_new_def R_def W_def Let_def not_less add.commute split: if_splits)
  have R: "range_of b = R" by (simp add: b range_of_def R_def)
  have lv: "levels s b = replicate R PriceLevel_default" for s
    by (cases s) (simp_all add: b)
  have sq: "side_queues b s (replicate R [])" for s
    by (simp add: side_queues_def R lv queue_rel_default)
  have "journal_ok (journal b)"
    unfolding b using Journal_new_ok(1) [of kJournalCapacity] by (simp add: kJournalCapacity_def)
  moreover have "pool_rel E (order_pool b) (map of_nat [0..<min max_active kMaxPoolCapacity])"
    unfolding b using MemoryPool_new_rel by simp
  moreover have "geometry b" using g by (simp add: geometry_def R) (simp add: b)
  moreover have "map_rel (order_map b) (slab b) {}" 
    using map_rel_empty [of "Suc max_id"] by (simp add: b)
  ultimately have "core E b (\<lambda>_. replicate R []) (map of_nat [0..<min max_active kMaxPoolCapacity])"
    using sq unfolding core_def by (auto simp: pool_rel_def) (auto simp: b)
  moreover have top: "top_of Buy b = (replicate W 0, replicate ((W + 63) div 64) 0, 0, 0, False)"
    "top_of Sell b = (replicate W 0, replicate ((W + 63) div 64) 0, max_price b + 1, R - 1, False)"
    by (simp_all add: b)
  have "side_top s b {}" for s
    using bits_rel_empty [of R] top by (cases s) (simp_all add: R W_def)
  ultimately show ?thesis by (simp add: book_rel_def R)
qed

lemma OrderBook_new_abs:
  assumes "OrderBook_new E max_id max_active minp maxp = Some b"
  shows "book_abs b = spec_empty" "cfg_of b = \<lparr>cfg_max_id = max_id, cfg_capacity = min max_active kMaxPoolCapacity,
      cfg_min = minp, cfg_max = maxp\<rparr>" "in_public_entry b = False" "owner_thread b = this_thread E"
proof -
  have c: "core E b (\<lambda>_. replicate (range_of b) []) (map of_nat [0..<min max_active kMaxPoolCapacity])"
    using OrderBook_new_rel [OF assms] by (simp add: book_rel_def)
  show "book_abs b = spec_empty"
    by (simp add: book_abs_def side_abs_rel [OF c] abs_side_def spec_empty_def)
  show "cfg_of b = \<lparr>cfg_max_id = max_id, cfg_capacity = min max_active kMaxPoolCapacity, cfg_min = minp, cfg_max = maxp\<rparr>"
    "in_public_entry b = False" "owner_thread b = this_thread E"
    using assms by (auto simp: OrderBook_new_def cfg_of_def Let_def split: if_splits)
qed

lemma OrderBook_new_inv: "OrderBook_new E max_id max_active minp maxp = Some b \<Longrightarrow> book_inv E b"
  unfolding book_inv_def using OrderBook_new_rel OrderBook_new_abs(1) spec_inv_empty by metis

end
