(* ===== verification/Log_Spec.thy ===== *)
theory Log_Spec
  imports Book_Spec Journal
begin

text \<open>
  What the event journal of an instrumented book is meant to say: the events of each request,
  as a function of the specification book alone. An event is an entry of the journal without
  its timestamp. That the engine's journal is this log is shown in \<open>Book_Log\<close>.
\<close>

section \<open>Events\<close>

record LogEvent =
  l_event :: JournalEvent
  l_id :: u32
  l_price :: u32
  l_qty :: u32
  l_side :: Side
  l_reason :: RejectReason

definition log_event :: "JournalEvent \<Rightarrow> u32 \<Rightarrow> u32 \<Rightarrow> u32 \<Rightarrow> Side \<Rightarrow> LogEvent" where
  "log_event ev i px q s = \<lparr>l_event = ev, l_id = i, l_price = px, l_qty = q, l_side = s, l_reason = Accepted\<rparr>"

definition reject_event :: "u32 \<Rightarrow> u32 \<Rightarrow> u32 \<Rightarrow> Side \<Rightarrow> RejectReason \<Rightarrow> LogEvent" where
  "reject_event i px q s r =
     \<lparr>l_event = OrderRejected, l_id = i, l_price = px, l_qty = q, l_side = s, l_reason = r\<rparr>"

definition log_record :: "Env \<Rightarrow> LogEvent \<Rightarrow> Journal \<Rightarrow> Journal" where
  "log_record E e j = journal_record E (l_event e) (l_id e) (l_price e) (l_qty e) (side_u8 (l_side e))
     (reason_u8 (l_reason e)) j"

definition journal_log :: "Env \<Rightarrow> LogEvent list \<Rightarrow> Journal \<Rightarrow> Journal" where
  "journal_log E evs j = fold (log_record E) evs j"

lemma journal_log_simps [simp]:
  "journal_log E [] j = j" "journal_log E (e # evs) j = journal_log E evs (log_record E e j)"
  "journal_log E (xs @ ys) j = journal_log E ys (journal_log E xs j)"
  by (simp_all add: journal_log_def)

text \<open>The entries of the events, timed from the \<open>n\<close>-th timestamp on.\<close>

fun log_entries :: "Env \<Rightarrow> nat \<Rightarrow> LogEvent list \<Rightarrow> JournalEntry list" where
  "log_entries E n [] = []"
| "log_entries E n (e # evs) = recorded E (l_event e) (l_id e) (l_price e) (l_qty e) (side_u8 (l_side e))
     (reason_u8 (l_reason e)) n # log_entries E (Suc n) evs"

lemma log_entries_length [simp]: "length (log_entries E n evs) = length evs"
  by (induction evs arbitrary: n) simp_all

lemma journal_log_rel:
  assumes "journal_rel j es" "length es + length evs < 2 ^ 64"
  shows "journal_rel (journal_log E evs j) (es @ log_entries E (ticks j) evs)"
  using assms
proof (induction evs arbitrary: j es)
  case (Cons e evs)
  have "journal_rel (log_record E e j) (es @ [recorded E (l_event e) (l_id e) (l_price e) (l_qty e) (side_u8 (l_side e))
      (reason_u8 (l_reason e)) (ticks j)])"
    unfolding log_record_def by (rule journal_record_exact) (use Cons.prems in simp_all)
  from Cons.IH [OF this] Cons.prems(2) show ?case by (simp add: log_record_def journal_record_def)
qed simp

lemma journal_log_length [simp]: "length (entries (journal_log E evs j)) = length (entries j)"
  by (induction evs arbitrary: j) (simp_all add: log_record_def journal_record_def)

section \<open>Matching\<close>

definition trade_event :: "Side \<Rightarrow> OrderId \<Rightarrow> Resting \<Rightarrow> Quantity \<Rightarrow> LogEvent" where
  "trade_event s t r q = log_event TradeExecuted t (rprice r) q s"

definition filled_event :: "Side \<Rightarrow> Resting \<Rightarrow> LogEvent" where
  "filled_event s r = log_event MakerFilled (rid r) (rprice r) 0 (opposite s)"

text \<open>The taker of side \<open>s\<close> fills orders from the front of a list.\<close>

fun fill_log :: "Side \<Rightarrow> OrderId \<Rightarrow> Quantity \<Rightarrow> Resting list \<Rightarrow> LogEvent list" where
  "fill_log s t q [] = []"
| "fill_log s t q (r # rs) =
     (if q = 0 then []
      else if rqty r \<le> q then trade_event s t r (rqty r) # filled_event s r # fill_log s t (q - rqty r) rs
      else [trade_event s t r q])"

text \<open>The taker fills every order of a list.\<close>

definition drain_log :: "Side \<Rightarrow> OrderId \<Rightarrow> Resting list \<Rightarrow> LogEvent list" where
  "drain_log s t rs = concat (map (\<lambda>r. [trade_event s t r (rqty r), filled_event s r]) rs)"

lemma drain_log_simps [simp]: "drain_log s t [] = []"
  "drain_log s t (r # rs) = trade_event s t r (rqty r) # filled_event s r # drain_log s t rs"
  by (simp_all add: drain_log_def)

lemma fill_log_all:
  assumes "(\<Sum>r\<leftarrow>rs. unat (rqty r)) \<le> unat q" "\<forall>r \<in> set rs. rqty r \<noteq> 0"
  shows "fill_log s t q rs = drain_log s t rs"
  using assms
proof (induction rs arbitrary: q)
  case (Cons r rs)
  have le: "rqty r \<le> q" "q \<noteq> 0" using Cons.prems by (auto simp: word_le_nat_alt unat_eq_0)
  have "(\<Sum>r\<leftarrow>rs. unat (rqty r)) \<le> unat (q - rqty r)"
    using Cons.prems(1) le(1) by (simp add: unat_sub word_le_nat_alt)
  from Cons.IH [OF this] Cons.prems(2) le show ?case by simp
qed simp

text \<open>
  The best price of side \<open>s\<close> leaves \<open>p\<close>, with the orders \<open>rs\<close> left on the side. A move to the
  adjacent tick is not logged; a side that is now empty is logged with its sentinel price.
\<close>

definition best_event :: "Side \<Rightarrow> Price \<Rightarrow> LogEvent" where
  "best_event s px = log_event (case s of Buy \<Rightarrow> BestBidChanged | Sell \<Rightarrow> BestAskChanged) 0 px 0 s"

definition next_tick :: "Side \<Rightarrow> Price \<Rightarrow> Price" where
  "next_tick s p = (case s of Buy \<Rightarrow> p - 1 | Sell \<Rightarrow> p + 1)"

definition no_price :: "Config \<Rightarrow> Side \<Rightarrow> Price" where
  "no_price cfg s = (case s of Buy \<Rightarrow> 0 | Sell \<Rightarrow> cfg_max cfg + 1)"

definition best_moved :: "Config \<Rightarrow> Side \<Rightarrow> Price \<Rightarrow> Resting list \<Rightarrow> LogEvent list" where
  "best_moved cfg s p rs =
     (case rs of
        [] \<Rightarrow> [best_event s (no_price cfg s)]
      | r # _ \<Rightarrow> if rprice r = p \<or> rprice r = next_tick s p then [] else [best_event s (rprice r)])"

fun match_log :: "Config \<Rightarrow> Side \<Rightarrow> Price \<Rightarrow> OrderId \<Rightarrow> Quantity \<Rightarrow> Resting list \<Rightarrow> LogEvent list" where
  "match_log cfg s px t q [] = []"
| "match_log cfg s px t q (r # rs) =
     (if q = 0 \<or> \<not> crosses s px (rprice r) then []
      else if rqty r \<le> q then trade_event s t r (rqty r) # filled_event s r #
        best_moved cfg (opposite s) (rprice r) rs @ match_log cfg s px t (q - rqty r) rs
      else [trade_event s t r q])"

section \<open>Requests\<close>

definition rest_log :: "Config \<Rightarrow> OrderId \<Rightarrow> Price \<Rightarrow> Quantity \<Rightarrow> Side \<Rightarrow> SpecBook \<Rightarrow> LogEvent list" where
  "rest_log cfg i px q s B =
     (if cfg_capacity cfg \<le> book_size B then [log_event EvPoolExhausted i px q s]
      else (case resting s B of
             [] \<Rightarrow> [best_event s px]
           | r # _ \<Rightarrow> if no_worse s (rprice r) px then [] else [best_event s px]) @
        [log_event OrderRested i px q s])"

definition cancel_log :: "Config \<Rightarrow> OrderId \<Rightarrow> SpecBook \<Rightarrow> LogEvent list" where
  "cancel_log cfg i B = log_event OrderSubmitted i 0 0 Buy #
     (if i = 0 \<or> unat i > cfg_max_id cfg then [reject_event i 0 0 Buy OutOfBoundsOrderId]
      else case find (\<lambda>r. rid r = i) (spec_bids B) of
        Some r \<Rightarrow> [log_event OrderCancelled i (rprice r) 0 Buy]
      | None \<Rightarrow> (case find (\<lambda>r. rid r = i) (spec_asks B) of
          Some r \<Rightarrow> [log_event OrderCancelled i (rprice r) 0 Sell]
        | None \<Rightarrow> [reject_event i 0 0 Buy CancelFailed]))"

definition add_log :: "Config \<Rightarrow> OrderId \<Rightarrow> OrderType \<Rightarrow> Price \<Rightarrow> Quantity \<Rightarrow> Side \<Rightarrow> SpecBook \<Rightarrow> LogEvent list" where
  "add_log cfg i ty px q s B =
     (if ty = Cancel then cancel_log cfg i B
      else case spec_check cfg i ty px q s B of
        Some r \<Rightarrow> [reject_event i (if r = MarketOnEmptyBook then 0 else px) q s r]
      | None \<Rightarrow>
         (let (ts, q', B') = spec_match i (limit_of ty s px) q s B
          in log_event OrderSubmitted i px q s #
             match_log cfg s (limit_of ty s px) i q (resting (opposite s) B) @
             (if q' = 0 \<or> ty = Market then [] else rest_log cfg i px q' s B')))"

section \<open>A level at a time\<close>

lemma match_log_0 [simp]: "match_log cfg s px t 0 rs = []"
  by (cases rs) simp_all

text \<open>The orders of one level are the front of the side, all at one price.\<close>

lemma match_log_level:
  assumes "\<forall>r \<in> set ls. rprice r = p" "crosses s px p" "\<forall>r \<in> set ls. rqty r \<noteq> 0"
    and "spec_fill (\<lambda>_. True) t q ls = (ts, q', zs)" "ls \<noteq> []" "q \<noteq> 0" "\<forall>r \<in> set ws. rprice r \<noteq> p"
  shows "match_log cfg s px t q (ls @ ws) = fill_log s t q ls @
    (if zs = [] then best_moved cfg (opposite s) p ws @ match_log cfg s px t q' ws else [])"
  using assms
proof (induction ls arbitrary: q ts)
  case (Cons r ls)
  show ?case
  proof (cases "rqty r \<le> q")
    case True
    then obtain ts' where f: "spec_fill (\<lambda>_. True) t (q - rqty r) ls = (ts', q', zs)"
      using Cons.prems by (auto split: prod.splits)
    show ?thesis
    proof (cases "ls = []")
      case True
      with f Cons.prems \<open>rqty r \<le> q\<close> show ?thesis by simp
    next
      case ne: False
      then obtain r' ls' where ls: "ls = r' # ls'" by (cases ls) auto
      then have bm: "best_moved cfg (opposite s) p (ls @ ws) = []" using Cons.prems(1) by (simp add: best_moved_def)
      show ?thesis
      proof (cases "q = rqty r")
        case eq: True
        then have "zs \<noteq> []" using f ne by auto
        then show ?thesis using Cons.prems True bm ls eq by (auto simp: fill_log.simps(2))
      next
        case False
        then show ?thesis using Cons.IH [OF _ _ _ f ne] Cons.prems True bm by auto
      qed
    qed
  next
    case False
    then show ?thesis using Cons.prems by auto
  qed
qed simp

end
