(* ===== verification/Level_Fill.thy ===== *)
theory Level_Fill
  imports Book_Inv Log_Spec
begin

text \<open>
  One pass of the matching loop of \<open>OrderBook::match_order_direct\<close> over the best level, against
  the specification: by either path, consuming the whole level or filling part of it, filling
  a level is filling the list of its orders. The inner loops end within their fuel and no
  access faults.
\<close>

section \<open>Frames\<close>

definition same_frame :: "OrderBook \<Rightarrow> OrderBook \<Rightarrow> bool" where
  "same_frame b b' \<longleftrightarrow> static b' = static b \<and> (\<forall>s. top_of s b' = top_of s b) \<and>
     (journal_ok (journal b) \<longrightarrow> journal_ok (journal b'))"

lemma same_frame_refl [simp]: "same_frame b b"
  by (simp add: same_frame_def)

lemma same_frame_trans: "same_frame a b \<Longrightarrow> same_frame b c \<Longrightarrow> same_frame a c"
  by (simp add: same_frame_def)

lemma journal_keeps [simp]:
  "order_pool (HFT_JOURNAL_REASON E ev i px qty sd r b) = order_pool b"
  "order_map (HFT_JOURNAL_REASON E ev i px qty sd r b) = order_map b"
  "active_count (HFT_JOURNAL_REASON E ev i px qty sd r b) = active_count b"
  "levels s (HFT_JOURNAL_REASON E ev i px qty sd r b) = levels s b"
  "static (HFT_JOURNAL_REASON E ev i px qty sd r b) = static b"
  "top_of s (HFT_JOURNAL_REASON E ev i px qty sd r b) = top_of s b"
  "min_price (HFT_JOURNAL_REASON E ev i px qty sd r b) = min_price b"
  "max_price (HFT_JOURNAL_REASON E ev i px qty sd r b) = max_price b"
  "max_order_id (HFT_JOURNAL_REASON E ev i px qty sd r b) = max_order_id b"
  "has_bids (HFT_JOURNAL_REASON E ev i px qty sd r b) = has_bids b"
  "has_asks (HFT_JOURNAL_REASON E ev i px qty sd r b) = has_asks b"
  "range_of (HFT_JOURNAL_REASON E ev i px qty sd r b) = range_of b"
  "journal_ok (journal b) \<Longrightarrow> journal_ok (journal (HFT_JOURNAL_REASON E ev i px qty sd r b))"
  unfolding HFT_JOURNAL_REASON_def
  by (cases s; simp add: static_def range_of_def journal_record_ok)+

lemma journal_frame [simp]: "same_frame b (HFT_JOURNAL_REASON E ev i px qty sd r b)"
  by (simp add: same_frame_def)

lemma HFT_JOURNAL_eq: "HFT_JOURNAL E ev i px qty sd b = HFT_JOURNAL_REASON E ev i px qty sd 0 b"
  by (simp add: HFT_JOURNAL_def)

lemma levels_set_levels [simp]: "levels t (set_levels s ls b) = (if t = s then ls else levels t b)"
  by (cases s; cases t) simp_all

lemma set_levels_keeps [simp]:
  "order_pool (set_levels s ls b) = order_pool b" "order_map (set_levels s ls b) = order_map b"
  "active_count (set_levels s ls b) = active_count b" "journal (set_levels s ls b) = journal b"
  "static (set_levels s ls b) = static b" "top_of t (set_levels s ls b) = top_of t b"
  by (cases s; cases t; simp add: static_def)+

lemma book_upd_keeps [simp]:
  "levels s (b\<lparr>order_map := om\<rparr>) = levels s b" "levels s (b\<lparr>order_pool := p\<rparr>) = levels s b"
  "levels s (b\<lparr>active_count := n\<rparr>) = levels s b"
  "static (b\<lparr>order_map := om\<rparr>) = static b" "static (b\<lparr>active_count := n\<rparr>) = static b"
  "capacity p = capacity (order_pool b) \<Longrightarrow> static (b\<lparr>order_pool := p\<rparr>) = static b"
  "top_of s (b\<lparr>order_map := om\<rparr>) = top_of s b" "top_of s (b\<lparr>order_pool := p\<rparr>) = top_of s b"
  "top_of s (b\<lparr>active_count := n\<rparr>) = top_of s b"
  by (cases s; simp add: static_def)+

text \<open>What a step adds to the journal; nothing in a Release build.\<close>

definition logged :: "Env \<Rightarrow> OrderBook \<Rightarrow> LogEvent list \<Rightarrow> OrderBook \<Rightarrow> bool" where
  "logged E b evs b' \<longleftrightarrow> journal b' = (if hft_debug_tools E then journal_log E evs (journal b) else journal b)"

lemma logged_same: "journal b' = journal b \<Longrightarrow> logged E b [] b'"
  by (simp add: logged_def)

lemma logged_trans: "logged E a xs b \<Longrightarrow> logged E b ys c \<Longrightarrow> logged E a (xs @ ys) c"
  by (simp add: logged_def)

lemma logged_frame: "journal a = journal a' \<Longrightarrow> journal b = journal b' \<Longrightarrow> logged E a evs b = logged E a' evs b'"
  by (simp add: logged_def)

lemma logged_event [intro!]: "logged E b [log_event ev i px q s] (HFT_JOURNAL_REASON E ev i px q (side_u8 s) 0 b)"
  by (simp add: logged_def HFT_JOURNAL_REASON_def log_record_def log_event_def)

lemma logged_reject [intro!]:
  "logged E b [reject_event i px q s r] (HFT_JOURNAL_REASON E OrderRejected i px q (side_u8 s) (reason_u8 r) b)"
  by (simp add: logged_def HFT_JOURNAL_REASON_def log_record_def reject_event_def)

text \<open>The two events of a maker that is filled.\<close>

lemma logged_drained:
  "logged E b [trade_event side t r q, filled_event side r]
     (HFT_JOURNAL_REASON E MakerFilled (rid r) (rprice r) 0 (side_u8 (opposite side)) 0
       (HFT_JOURNAL_REASON E TradeExecuted t (rprice r) q (side_u8 side) 0 b))"
  using logged_trans [OF logged_event logged_event] by (simp add: trade_event_def filled_event_def)

text \<open>The book with level \<open>l\<close> stored at tick \<open>i\<close>: the C++ loop holds the level by reference.\<close>

definition with_level :: "Side \<Rightarrow> nat \<Rightarrow> PriceLevel \<Rightarrow> OrderBook \<Rightarrow> OrderBook" where
  "with_level s i l b = set_levels s ((levels s b)[i := l]) b"

lemma with_level_keeps [simp]:
  "order_pool (with_level s i l b) = order_pool b" "order_map (with_level s i l b) = order_map b"
  "active_count (with_level s i l b) = active_count b" "journal (with_level s i l b) = journal b"
  "static (with_level s i l b) = static b" "top_of t (with_level s i l b) = top_of t b"
  "levels t (with_level s i l b) = (if t = s then (levels s b)[i := l] else levels t b)"
  by (simp_all add: with_level_def)

lemma with_level_price [simp]: "min_price (with_level s i l b) = min_price b"
  by (cases s) (simp_all add: with_level_def)

lemma with_level_range [simp]: "range_of (with_level s i l b) = range_of b"
  by (rule static_range) simp

lemma with_level_self: "with_level s i (levels s b ! i) b = b"
  by (cases s) (simp_all add: with_level_def)

section \<open>Unmapping the ids of filled makers\<close>

lemma unmapped_one:
  assumes "unat (o_id (slot P x)) < length om"
  shows "unmapped P [x] om (om[unat (o_id (slot P x)) := INVALID_INDEX])"
  using assms by (auto simp: unmapped_def nth_list_update)

lemma unmapped_trans: "unmapped P xs om om' \<Longrightarrow> unmapped P ys om' om'' \<Longrightarrow> unmapped P (xs @ ys) om om''"
  by (auto simp: unmapped_def image_Un)

lemma core_id_range:
  assumes "core E b q F" "x \<in> set (live q)"
  shows "unat (o_id (slot (slab b) x)) < length (order_map b)"
  using assms by (auto simp: core_def map_rel_def)

lemma fill_chain_some:
  assumes "dll (slab b) p xs INVALID_INDEX" "slots_in (slab b) xs"
    "\<forall>x \<in> set xs. unat (o_id (slot (slab b) x)) < length (order_map b)" "length xs < fuel"
  shows "\<exists>b'. fill_chain ignore_book fuel E side t (hd_or INVALID_INDEX xs) b ts =
      Some (b', ts @ map (\<lambda>x. mk_trade (slot (slab b) x) t (o_quantity (slot (slab b) x))) xs) \<and>
    order_pool b' = order_pool b \<and> unmapped (slab b) xs (order_map b) (order_map b') \<and>
    (\<forall>s. levels s b' = levels s b) \<and> active_count b' = active_count b \<and> same_frame b b' \<and>
    logged E b (drain_log side t (map (rest_of (slab b)) xs)) b'"
  using assms
proof (induction xs arbitrary: p b ts fuel)
  case Nil
  then show ?case by (cases fuel) (auto simp: unmapped_def logged_same)
next
  case (Cons x xs)
  obtain f where f: "fuel = Suc f" using Cons.prems(4) by (cases fuel) auto
  have x: "unat x < length (slab b)" "x \<noteq> INVALID_INDEX" "unat (o_id (slot (slab b) x)) < length (order_map b)"
    using Cons.prems by (auto simp: slots_in_def)
  let ?m = "slot (slab b) x"
  let ?b1 = "HFT_JOURNAL E MakerFilled (o_id ?m) (o_price ?m) 0 (side_u8 (opposite side))
     (HFT_JOURNAL E TradeExecuted t (o_price ?m) (o_quantity ?m) (side_u8 side) b)"
  let ?b = "?b1\<lparr>order_map := (order_map b)[unat (o_id ?m) := INVALID_INDEX]\<rparr>"
  have k: "order_pool ?b = order_pool b" "\<And>s. levels s ?b = levels s b" "active_count ?b = active_count b"
    "same_frame b ?b" "length (order_map ?b) = length (order_map b)"
    by (simp_all add: HFT_JOURNAL_eq same_frame_def)
  have lg: "logged E b [trade_event side t (rest_of (slab b) x) (o_quantity ?m), filled_event side (rest_of (slab b) x)] ?b"
    using logged_drained [of E b side t "rest_of (slab b) x" "o_quantity ?m"]
    by (simp add: logged_def HFT_JOURNAL_eq rest_of_def)
  have "\<exists>b'. fill_chain ignore_book f E side t (hd_or INVALID_INDEX xs) ?b (ts @ [mk_trade ?m t (o_quantity ?m)]) =
      Some (b', (ts @ [mk_trade ?m t (o_quantity ?m)]) @
        map (\<lambda>x. mk_trade (slot (slab ?b) x) t (o_quantity (slot (slab ?b) x))) xs) \<and>
    order_pool b' = order_pool ?b \<and> unmapped (slab ?b) xs (order_map ?b) (order_map b') \<and>
    (\<forall>s. levels s b' = levels s ?b) \<and> active_count b' = active_count ?b \<and> same_frame ?b b' \<and>
    logged E ?b (drain_log side t (map (rest_of (slab ?b)) xs)) b'"
    by (rule Cons.IH [where p = x]) (use Cons.prems f k in \<open>auto simp: slots_in_def\<close>)
  then obtain b' where b': "fill_chain ignore_book f E side t (hd_or INVALID_INDEX xs) ?b (ts @ [mk_trade ?m t (o_quantity ?m)]) =
      Some (b', ts @ map (\<lambda>x. mk_trade (slot (slab b) x) t (o_quantity (slot (slab b) x))) (x # xs))"
    "order_pool b' = order_pool b" "unmapped (slab b) xs (order_map ?b) (order_map b')"
    "\<forall>s. levels s b' = levels s b" "active_count b' = active_count b" "same_frame ?b b'"
    "logged E ?b (drain_log side t (map (rest_of (slab b)) xs)) b'"
    using k by auto
  have "fill_chain ignore_book fuel E side t (hd_or INVALID_INDEX (x # xs)) b ts =
      fill_chain ignore_book f E side t (hd_or INVALID_INDEX xs) ?b (ts @ [mk_trade ?m t (o_quantity ?m)])"
    using x Cons.prems(1) by (simp add: f vec_get_slot vec_set_in HFT_JOURNAL_eq)
  moreover have "unmapped (slab b) (x # xs) (order_map b) (order_map b')"
    using unmapped_trans [OF unmapped_one [OF x(3)], of xs "order_map b'"] b'(3) by simp
  moreover have "logged E b (drain_log side t (map (rest_of (slab b)) (x # xs))) b'"
    using logged_trans [OF lg b'(7)] by (simp add: rest_of_def)
  ultimately show ?case using b' k same_frame_trans by auto
qed

section \<open>Consuming a whole level\<close>

abbreviation full_trade :: "Order list \<Rightarrow> OrderId \<Rightarrow> u32 \<Rightarrow> Trade" where
  "full_trade P t x \<equiv> mk_trade (slot P x) t (o_quantity (slot P x))"

lemma core_queue_length:
  assumes "core E b q F" "i < range_of b"
  shows "length (q s ! i) < 2 ^ 32" "length (q s ! i) \<le> capacity (order_pool b)"
proof -
  have "length (q s ! i) \<le> capacity (order_pool b)" "capacity (order_pool b) \<le> kMaxPoolCapacity"
    using core_slots(1) [OF assms, of s] assms(1) distinct_slots_length [of "q s ! i" "capacity (order_pool b)"]
    by (auto simp: core_def pool_rel_def slots_in_def)
  then show "length (q s ! i) < 2 ^ 32" "length (q s ! i) \<le> capacity (order_pool b)"
    by (simp_all add: kMaxPoolCapacity_def)
qed

lemma ucast_of_nat_32: "n < 2 ^ 32 \<Longrightarrow> ucast (of_nat n :: u32) = (of_nat n :: u64)"
  by (rule word_unat_eq_iff [THEN iffD2]) (simp add: unat_of_nat_32 unat_of_nat_64)

lemma fill_single_some:
  assumes "core E b q F" "i < range_of b" "q (opposite side) ! i = [x]"
  shows "\<exists>b'. fill_single ignore_book E side t x b ts = Some (b', ts @ [full_trade (slab b) t x]) \<and>
    pool_rel E (order_pool b') (x # F) \<and> unmapped (slab b) [x] (order_map b) (order_map b') \<and>
    (\<forall>s. levels s b' = levels s b) \<and> active_count b' = active_count b - 1 \<and> same_frame b b' \<and>
    (\<forall>y. y \<noteq> x \<longrightarrow> slot (slab b') y = slot (slab b) y) \<and>
    logged E b (drain_log side t (map (rest_of (slab b)) [x])) b'"
proof -
  have x: "x \<in> set (live q)" "unat x < length (slab b)"
    using core_slots(1,2) [OF assms(1,2), of "opposite side"] assms(3) by (auto simp: slots_in_def)
  note id = core_id_range [OF assms(1) x(1)]
  obtain p' where p': "deallocate E x (order_pool b) = Some p'" "pool_rel E p' (x # F)"
    "capacity p' = capacity (order_pool b)" "\<And>y. y \<noteq> x \<Longrightarrow> slot (pool p') y = slot (slab b) y"
    using assms(1) core_live(1,3) [OF assms(1) x(1)] by (auto simp: core_def elim: deallocate_some)
  let ?m = "slot (slab b) x"
  let ?b1 = "HFT_JOURNAL E MakerFilled (o_id ?m) (o_price ?m) 0 (side_u8 (opposite side))
     (HFT_JOURNAL E TradeExecuted t (o_price ?m) (o_quantity ?m) (side_u8 side) b)"
  let ?b = "?b1\<lparr>order_map := (order_map b)[unat (o_id ?m) := INVALID_INDEX], order_pool := p',
      active_count := active_count b - 1\<rparr>"
  have "fill_single ignore_book E side t x b ts = Some (?b, ts @ [full_trade (slab b) t x])"
    using x(2) id p'(1) by (simp add: fill_single_def vec_get_slot vec_set_in HFT_JOURNAL_eq)
  moreover have "same_frame b ?b" using p'(3) by (simp add: same_frame_def HFT_JOURNAL_eq)
  moreover have "levels s ?b = levels s b" for s by (simp add: HFT_JOURNAL_eq)
  moreover have "logged E b (drain_log side t (map (rest_of (slab b)) [x])) ?b"
    using logged_drained [of E b side t "rest_of (slab b) x" "o_quantity ?m"]
    by (simp add: logged_def HFT_JOURNAL_eq rest_of_def)
  ultimately show ?thesis
    using p' unmapped_one [OF id] by (intro exI [of _ ?b]) simp
qed

lemma fill_chain_free:
  assumes "core E b q F" "i < range_of b" "q (opposite side) ! i = xs" "xs \<noteq> []"
  shows "\<exists>b'. do {
      (b, ts) \<leftarrow> fill_chain ignore_book (Suc (capacity (order_pool b))) E side t (hd xs) b ts;
      p \<leftarrow> deallocate_chain E (hd xs) (last xs) (order_pool b);
      Some (b\<lparr>order_pool := p, active_count := active_count b - n\<rparr>, ts)
    } = Some (b', ts @ map (full_trade (slab b) t) xs) \<and>
    pool_rel E (order_pool b') (xs @ F) \<and> unmapped (slab b) xs (order_map b) (order_map b') \<and>
    (\<forall>s. levels s b' = levels s b) \<and> active_count b' = active_count b - n \<and> same_frame b b' \<and>
    (\<forall>y. y \<notin> set xs \<longrightarrow> slot (slab b') y = slot (slab b) y) \<and>
    logged E b (drain_log side t (map (rest_of (slab b)) xs)) b'"
proof -
  note cs = core_slots [OF assms(1,2), of "opposite side", unfolded assms(3)]
  have dl: "dll (slab b) INVALID_INDEX xs INVALID_INDEX" using cs(3) by (simp add: queue_rel_def)
  have h: "hd_or INVALID_INDEX xs = hd xs" using assms(4) by (cases xs) auto
  have "length xs < Suc (capacity (order_pool b))"
    using core_queue_length(2) [OF assms(1,2), of "opposite side"] assms(3) by simp
  then obtain b1 where b1: "fill_chain ignore_book (Suc (capacity (order_pool b))) E side t (hd xs) b ts =
      Some (b1, ts @ map (full_trade (slab b) t) xs)" "order_pool b1 = order_pool b"
    "unmapped (slab b) xs (order_map b) (order_map b1)" "\<forall>s. levels s b1 = levels s b"
    "active_count b1 = active_count b" "same_frame b b1" "logged E b (drain_log side t (map (rest_of (slab b)) xs)) b1"
    using fill_chain_some [OF dl cs(1), of "Suc (capacity (order_pool b))" E side t ts] h
      core_id_range [OF assms(1)] cs(2) by auto
  have pr: "pool_rel E (order_pool b) F" and "distinct (xs @ F)" "\<forall>x \<in> set xs. unat x < capacity (order_pool b)"
    using cs(1,2) core_live(1,3) [OF assms(1)] assms(1) by (auto simp: slots_in_def core_def)
  then obtain p' where p': "deallocate_chain E (hd xs) (last xs) (order_pool b) = Some p'"
    "pool_rel E p' (xs @ F)" "capacity p' = capacity (order_pool b)"
    "\<And>y. y \<notin> set xs \<Longrightarrow> slot (pool p') y = slot (slab b) y"
    using mp.chain_push [OF pr dll_linked [OF dl] assms(4)] by blast
  let ?b = "b1\<lparr>order_pool := p', active_count := active_count b1 - n\<rparr>"
  have "same_frame b1 ?b" using p'(3) b1(2) by (simp add: same_frame_def static_def)
  then have "same_frame b ?b" using b1(6) same_frame_trans by blast
  moreover have "logged E b (drain_log side t (map (rest_of (slab b)) xs)) ?b" using b1(7) by (simp add: logged_def)
  ultimately show ?thesis
    using b1 p' by (intro exI [of _ ?b]) simp
qed

lemma consume_level_some:
  assumes "core E b q F" "i < range_of b" "q (opposite side) ! i = xs" "xs \<noteq> []"
  defines "l \<equiv> levels (opposite side) b ! i"
  shows "\<exists>b'. consume_level ignore_book E side t i l qty b ts =
      Some (b', qty - ucast (total_quantity l), ts @ map (full_trade (slab b) t) xs) \<and>
    core E b' (q(opposite side := (q (opposite side))[i := []])) (xs @ F) \<and> same_frame b b' \<and>
    (\<forall>y. y \<notin> set xs \<longrightarrow> slot (slab b') y = slot (slab b) y) \<and>
    logged E b (drain_log side t (map (rest_of (slab b)) xs)) b'"
proof -
  let ?s = "opposite side" and ?l = "l\<lparr>head := INVALID_INDEX, tail := INVALID_INDEX, total_quantity := 0, order_count := 0\<rparr>"
  note cs = core_slots [OF assms(1,2), of ?s, unfolded assms(3)]
  have l: "head l = hd xs" "tail l = last xs" "order_count l = of_nat (length xs)" "canary_intact l"
    using cs(3) assms(4) by (auto simp: queue_rel_def l_def last_or_def neq_Nil_conv)
  have n: "length xs < 2 ^ 32" using core_queue_length(1) [OF assms(1,2), of ?s] assms(3) by simp
  have one: "order_count l = 1 \<longleftrightarrow> length xs = 1"
    using unat_of_nat_32 [OF n] unat_inj_iff [of "order_count l" 1] by (simp add: l(3))
  have cnt: "ucast (order_count l) = (of_nat (length xs) :: u64)" using n by (simp add: l(3) ucast_of_nat_32)
  have "\<exists>b1. (if order_count l = 1 then fill_single ignore_book E side t (head l) b ts
        else do {
          (b, ts) \<leftarrow> fill_chain ignore_book (Suc (capacity (order_pool b))) E side t (head l) b ts;
          p \<leftarrow> deallocate_chain E (head l) (tail l) (order_pool b);
          Some (b\<lparr>order_pool := p, active_count := active_count b - ucast (order_count l)\<rparr>, ts)
        }) = Some (b1, ts @ map (full_trade (slab b) t) xs) \<and>
    pool_rel E (order_pool b1) (xs @ F) \<and> unmapped (slab b) xs (order_map b) (order_map b1) \<and>
    (\<forall>s. levels s b1 = levels s b) \<and> active_count b1 = active_count b - of_nat (length xs) \<and> same_frame b b1 \<and>
    (\<forall>y. y \<notin> set xs \<longrightarrow> slot (slab b1) y = slot (slab b) y) \<and>
    logged E b (drain_log side t (map (rest_of (slab b)) xs)) b1"
  proof (cases "length xs = 1")
    case True
    then obtain x where "xs = [x]" by (auto simp: length_Suc_conv)
    with fill_single_some [of E b q F i side x t ts] assms(1,2,3) one l(1) show ?thesis by simp
  next
    case False
    with fill_chain_free [OF assms(1-4), of t ts "of_nat (length xs)"] one l(1,2) cnt show ?thesis by simp
  qed
  then obtain b1 where b1: "(if order_count l = 1 then fill_single ignore_book E side t (head l) b ts
        else do {
          (b, ts) \<leftarrow> fill_chain ignore_book (Suc (capacity (order_pool b))) E side t (head l) b ts;
          p \<leftarrow> deallocate_chain E (head l) (tail l) (order_pool b);
          Some (b\<lparr>order_pool := p, active_count := active_count b - ucast (order_count l)\<rparr>, ts)
        }) = Some (b1, ts @ map (full_trade (slab b) t) xs)"
    "pool_rel E (order_pool b1) (xs @ F)" "unmapped (slab b) xs (order_map b) (order_map b1)"
    "\<forall>s. levels s b1 = levels s b" "active_count b1 = active_count b - of_nat (length xs)" "same_frame b b1"
    "\<forall>y. y \<notin> set xs \<longrightarrow> slot (slab b1) y = slot (slab b) y"
    "logged E b (drain_log side t (map (rest_of (slab b)) xs)) b1"
    by blast
  let ?b = "with_level ?s i ?l b1"
  have "consume_level ignore_book E side t i l qty b ts =
      Some (?b, qty - ucast (total_quantity l), ts @ map (full_trade (slab b) t) xs)"
    using assms(2) cs(5) b1(4) by (simp add: consume_level_def b1(1) vec_set_in with_level_def Let_def)
  moreover have "core E ?b (q(?s := (q ?s)[i := [] @ []])) (xs @ F)"
    by (rule core_remove [where l' = ?l])
      (use assms(1-3) b1 l(4) in \<open>auto simp: same_frame_def core_def queue_rel_def canary_intact_def\<close>)
  moreover have "same_frame b ?b" using b1(6) by (simp add: same_frame_def)
  moreover have "logged E b (drain_log side t (map (rest_of (slab b)) xs)) ?b" using b1(8) by (simp add: logged_def)
  ultimately show ?thesis using b1(7) by (intro exI [of _ ?b]) simp
qed

section \<open>Filling part of a level\<close>

lemma pool_rel_write:
  assumes "pool_rel E p F" "x \<notin> set F"
  shows "pool_rel E (p\<lparr>pool := (pool p)[unat x := v]\<rparr>) F"
  using assms by (auto simp: pool_rel_def stamps_ok_def)

lemma ucast_minus_32_64: "(d :: u32) \<le> v \<Longrightarrow> ucast (v - d) = (ucast v - ucast d :: u64)"
  by (rule word_unat_eq_iff [THEN iffD2]) (simp add: unat_sub word_le_nat_alt)

lemma sum_qty_upd: "x \<notin> set xs \<Longrightarrow> (\<Sum>y\<leftarrow>xs. qty64 (P[unat x := v]) y) = (\<Sum>y\<leftarrow>xs. qty64 P y)"
  by (induction xs) (auto simp: slot_upd_other)

lemma queue_rel_reduce:
  assumes "queue_rel P l (x # xs)" "x \<notin> set xs" "unat x < length P" "d \<le> o_quantity (slot P x)"
  shows "queue_rel (P[unat x := (slot P x)\<lparr>o_quantity := o_quantity (slot P x) - d\<rparr>])
    (l\<lparr>total_quantity := total_quantity l - ucast d\<rparr>) (x # xs)"
proof -
  let ?P = "P[unat x := (slot P x)\<lparr>o_quantity := o_quantity (slot P x) - d\<rparr>]"
  have "(\<Sum>y\<leftarrow>xs. qty64 ?P y) = (\<Sum>y\<leftarrow>xs. qty64 P y)"
    using assms(2) by (rule sum_qty_upd)
  then show ?thesis
    using assms by (simp add: queue_rel_def slot_upd_same ucast_minus_32_64 canary_intact_def)
qed

lemma queue_rel_pop:
  assumes "queue_rel P l (x # y # zs)" "distinct (y # zs)" "unat y < length P'"
    "\<forall>w \<in> set (y # zs). slot P' w = slot P w"
  shows "queue_rel (P'[unat y := (slot P' y)\<lparr>o_prev := INVALID_INDEX\<rparr>])
    (l\<lparr>total_quantity := total_quantity l - qty64 P x, order_count := order_count l - 1, head := y\<rparr>) (y # zs)"
proof -
  let ?P = "P'[unat y := (slot P' y)\<lparr>o_prev := INVALID_INDEX\<rparr>]"
  have "(\<Sum>w\<leftarrow>zs. qty64 ?P w) = (\<Sum>w\<leftarrow>zs. qty64 P' w)"
    using assms(2) by (intro sum_qty_upd) simp
  also have "\<dots> = (\<Sum>w\<leftarrow>zs. qty64 P w)" using assms(4) by (simp cong: map_cong)
  finally have "(\<Sum>w\<leftarrow>zs. qty64 ?P w) = (\<Sum>w\<leftarrow>zs. qty64 P w)" .
  moreover have "dll P' y zs INVALID_INDEX"
    by (rule dll_frame) (use assms(1,4) in \<open>auto simp: queue_rel_def\<close>)
  ultimately show ?thesis
    using assms by (simp add: queue_rel_def slot_upd_same canary_intact_def)
qed

text \<open>Unlinking the filled front maker \<open>x\<close>: the one behind it, \<open>y\<close>, becomes the head.\<close>

lemma core_pop:
  fixes b b' :: OrderBook
  assumes c: "core E (with_level s i l b) q F" and i: "i < range_of b" and qi: "q s ! i = x # y # zs"
    and p: "pool_rel E p (x # F)" "capacity p = capacity (order_pool b)" "\<forall>w. w \<noteq> x \<longrightarrow> slot (pool p) w = slot (slab b) w"
    and fr: "same_frame b b'" "\<forall>s. levels s b' = levels s b" "active_count b' = active_count b - 1"
      "order_map b' = (order_map b)[unat (o_id (slot (slab b) x)) := INVALID_INDEX]"
      "order_pool b' = p\<lparr>pool := (pool p)[unat y := (slot (slab b) y)\<lparr>o_prev := INVALID_INDEX\<rparr>]\<rparr>"
  defines "l' \<equiv> l\<lparr>total_quantity := total_quantity l - qty64 (slab b) x, order_count := order_count l - 1, head := y\<rparr>"
  shows "core E (with_level s i l' b') (q(s := (q s)[i := y # zs])) (x # F)"
    "\<forall>w. w \<notin> {x, y} \<longrightarrow> slot (slab b') w = slot (slab b) w" "payload (slot (slab b') y) = payload (slot (slab b) y)"
proof -
  let ?B = "with_level s i l b" and ?B' = "with_level s i l' b'"
  have iB: "i < range_of ?B" using i by simp
  note cs = core_slots [OF c iB, of s, unfolded qi]
  have xy: "x \<noteq> y" "x \<notin> set zs" "distinct (y # zs)" "unat y < length (pool p)"
    using cs(1) p(1,2) c by (auto simp: slots_in_def pool_rel_def core_def)
  have lx: "x \<in> set (live q)" "y \<in> set (live q)" using cs(2) by simp_all
  have id: "unat (o_id (slot (slab b) x)) < length (order_map b)" using core_id_range [OF c lx(1)] by simp
  have pl: "pool_rel E (order_pool b') (x # F)"
    using pool_rel_write [OF p(1)] core_live(3) [OF c lx(2)] xy(1) fr(5) by auto
  show sl: "\<forall>w. w \<notin> {x, y} \<longrightarrow> slot (slab b') w = slot (slab b) w" and
    pay: "payload (slot (slab b') y) = payload (slot (slab b) y)"
    using p(3) xy by (auto simp: fr(5) slot_upd payload_def)
  have "queue_rel (slab b) l (x # y # zs)" using cs(3,5) iB by simp
  moreover have "\<forall>w \<in> set (y # zs). slot (pool p) w = slot (slab b) w" using p(3) xy by auto
  ultimately have ql: "queue_rel (slab b') l' (y # zs)"
    using queue_rel_pop [of "slab b" l x y zs "pool p"] xy(3,4) fr(5) by (simp add: l'_def)
  have "core E ?B' (q(s := (q s)[i := [] @ y # zs])) ([x] @ F)"
  proof (rule core_remove [OF c iB, where l' = l'])
    show "q s ! i = [] @ [x] @ y # zs" using qi by simp
    show "\<forall>w \<in> set ([] @ y # zs). payload (slot (slab ?B') w) = payload (slot (slab ?B) w)"
    proof
      fix w assume "w \<in> set ([] @ y # zs)"
      then have "w = y \<or> w \<notin> {x, y}" using xy by auto
      then show "payload (slot (slab ?B') w) = payload (slot (slab ?B) w)" using sl pay by (elim disjE) simp_all
    qed
    show "unmapped (slab ?B) [x] (order_map ?B) (order_map ?B')" using unmapped_one [OF id] fr(4) by simp
    show "journal_ok (journal ?B')" using fr(1) c by (simp add: same_frame_def core_def)
  qed (use fr pl ql sl qi in \<open>simp_all add: same_frame_def\<close>)
  then show "core E ?B' (q(s := (q s)[i := y # zs])) (x # F)" by simp
qed

text \<open>One pass of the slow path that fills the front maker completely; another one is behind it.\<close>

lemma partial_fill_step:
  fixes b :: OrderBook
  assumes "core E (with_level (opposite side) i l b) q F" "i < range_of b"
    "q (opposite side) ! i = x # y # zs" "o_quantity (slot (slab b) x) \<le> qty" "qty \<noteq> 0"
  shows "\<exists>l' b'. (\<forall>fuel ts. partial_fill ignore_level (Suc fuel) E side t x l qty b ts =
       partial_fill ignore_level fuel E side t y l' (qty - o_quantity (slot (slab b) x)) b'
         (ts @ [full_trade (slab b) t x])) \<and>
     core E (with_level (opposite side) i l' b') (q(opposite side := (q (opposite side))[i := y # zs])) (x # F) \<and>
     same_frame b b' \<and> (\<forall>s. levels s b' = levels s b) \<and>
     (\<forall>w. w \<notin> {x, y} \<longrightarrow> slot (slab b') w = slot (slab b) w) \<and>
     payload (slot (slab b') y) = payload (slot (slab b) y) \<and>
     logged E b (drain_log side t [rest_of (slab b) x]) b'"
proof -
  let ?s = "opposite side" and ?B = "with_level (opposite side) i l b" and ?m = "slot (slab b) x"
  have i: "i < range_of ?B" using assms(2) by simp
  note cs = core_slots [OF assms(1) i, of ?s, unfolded assms(3)]
  have xy: "x \<noteq> y" "unat x < length (slab b)" "unat y < length (slab b)" "x \<noteq> INVALID_INDEX" "y \<noteq> INVALID_INDEX"
    using cs(1) by (auto simp: slots_in_def)
  have nx: "o_next ?m = y" using cs(3,5) i by (simp add: queue_rel_def)
  have lx: "x \<in> set (live q)" using cs(2) by simp
  have id: "unat (o_id ?m) < length (order_map b)" using core_id_range [OF assms(1) lx] by simp
  let ?p1 = "(order_pool b)\<lparr>pool := (slab b)[unat x := ?m\<lparr>o_quantity := 0\<rparr>]\<rparr>"
  have pr: "pool_rel E ?p1 F" "x \<notin> set F" "unat x < capacity ?p1"
    using assms(1) core_live(1,3) [OF assms(1) lx] pool_rel_write [of E "order_pool b" F x] by (auto simp: core_def)
  obtain p2 where p2: "deallocate E x ?p1 = Some p2" "pool_rel E p2 (x # F)" "capacity p2 = capacity (order_pool b)"
    "\<forall>w. w \<noteq> x \<longrightarrow> slot (pool p2) w = slot (pool ?p1) w"
    using mp.dealloc_push [OF pr] by auto
  have same: "\<forall>w. w \<noteq> x \<longrightarrow> slot (pool p2) w = slot (slab b) w" using p2(4) by (auto simp: slot_upd_other)
  have len: "length (pool p2) = length (slab b)" using p2(2,3) assms(1) by (simp add: pool_rel_def core_def)
  let ?b1 = "HFT_JOURNAL E TradeExecuted t (o_price ?m) (o_quantity ?m) (side_u8 side) b"
  let ?b2 = "HFT_JOURNAL E MakerFilled (o_id ?m) (o_price ?m) 0 (side_u8 ?s) (?b1\<lparr>order_pool := ?p1\<rparr>)"
  let ?p3 = "p2\<lparr>pool := (pool p2)[unat y := (slot (slab b) y)\<lparr>o_prev := INVALID_INDEX\<rparr>]\<rparr>"
  define b3 where "b3 = ?b2\<lparr>order_map := (order_map b)[unat (o_id ?m) := INVALID_INDEX], order_pool := ?p3,
     active_count := active_count b - 1\<rparr>"
  have fr: "same_frame b b3" "\<forall>s. levels s b3 = levels s b" "active_count b3 = active_count b - 1"
    "order_map b3 = (order_map b)[unat (o_id ?m) := INVALID_INDEX]" "order_pool b3 = ?p3"
    using p2(3) by (simp_all add: b3_def HFT_JOURNAL_eq same_frame_def)
  have "0 < qty" "\<not> qty < o_quantity ?m" using assms(4,5) by (auto simp: word_gt_0)
  then have "\<forall>fuel ts. partial_fill ignore_level (Suc fuel) E side t x l qty b ts = partial_fill ignore_level fuel E side t y
      (l\<lparr>total_quantity := total_quantity l - ucast (o_quantity ?m), order_count := order_count l - 1, head := y\<rparr>)
      (qty - o_quantity ?m) b3 (ts @ [full_trade (slab b) t x])"
    using xy nx id p2(1) same len by (simp add: b3_def vec_get_slot vec_set_in HFT_JOURNAL_eq Let_def)
  moreover have "logged E b (drain_log side t [rest_of (slab b) x]) b3"
    by (simp add: b3_def logged_def HFT_JOURNAL_eq HFT_JOURNAL_REASON_def log_record_def trade_event_def
        filled_event_def log_event_def rest_of_def)
  ultimately show ?thesis using core_pop [OF assms(1-3) p2(2,3) same fr] fr(1,2) by blast
qed

text \<open>The pass that leaves the front maker with a smaller quantity.\<close>

lemma partial_fill_last:
  fixes b :: OrderBook
  assumes "core E (with_level (opposite side) i l b) q F" "i < range_of b"
    "q (opposite side) ! i = x # xs" "qty < o_quantity (slot (slab b) x)" "qty \<noteq> 0"
  shows "\<exists>l' b'. (\<forall>fuel ts. partial_fill ignore_level (Suc (Suc fuel)) E side t x l qty b ts =
       Some (l', 0, b', ts @ [mk_trade (slot (slab b) x) t qty])) \<and>
     core E (with_level (opposite side) i l' b') q F \<and>
     same_frame b b' \<and> (\<forall>s. levels s b' = levels s b) \<and>
     (\<forall>w. w \<noteq> x \<longrightarrow> slot (slab b') w = slot (slab b) w) \<and>
     rest_of (slab b') x = (rest_of (slab b) x)\<lparr>rqty := o_quantity (slot (slab b) x) - qty\<rparr> \<and>
     logged E b [trade_event side t (rest_of (slab b) x) qty] b'"
proof -
  let ?s = "opposite side" and ?B = "with_level (opposite side) i l b" and ?m = "slot (slab b) x"
  have i: "i < range_of ?B" using assms(2) by simp
  note cs = core_slots [OF assms(1) i, of ?s, unfolded assms(3)]
  have x: "x \<notin> set xs" "distinct xs" "unat x < length (slab b)" "x \<noteq> INVALID_INDEX"
    using cs(1) by (auto simp: slots_in_def)
  have ll: "i < length (levels ?s b)" using cs(5) i by simp
  have ql: "queue_rel (slab b) l (x # xs)" using cs(3) ll by simp
  let ?b1 = "HFT_JOURNAL E TradeExecuted t (o_price ?m) qty (side_u8 side) b"
  let ?p1 = "(order_pool b)\<lparr>pool := (slab b)[unat x := ?m\<lparr>o_quantity := o_quantity ?m - qty\<rparr>]\<rparr>"
  let ?b = "?b1\<lparr>order_pool := ?p1\<rparr>" and ?l = "l\<lparr>total_quantity := total_quantity l - ucast qty\<rparr>"
  have q: "0 < qty" "o_quantity ?m - qty \<noteq> 0" "qty \<le> o_quantity ?m" "o_quantity ?m \<noteq> qty"
    using assms(4,5) by (auto simp: word_gt_0)
  have "x \<notin> set F" using core_live(3) [OF assms(1)] cs(2) by auto
  then have pr: "pool_rel E ?p1 F" using assms(1) pool_rel_write by (auto simp: core_def)
  have fr: "same_frame b ?b" "\<And>s. levels s ?b = levels s b" "order_pool ?b = ?p1"
    "order_map ?b = order_map b" "active_count ?b = active_count b"
    by (simp_all add: HFT_JOURNAL_eq same_frame_def)
  have at: "\<forall>y \<in> set (x # xs). order_at ?B ?s i y"
    using assms(1,3) i by (auto simp: core_def side_queues_def)
  have "partial_fill ignore_level (Suc (Suc fuel)) E side t x l qty b ts = Some (?l, 0, ?b, ts @ [mk_trade ?m t qty])" for fuel ts
    using assms(4) q x by (simp add: vec_get_slot vec_set_in HFT_JOURNAL_eq Let_def)
  moreover have "core E (with_level ?s i ?l ?b) q F"
  proof (rule core_keep [OF assms(1) i, of _ ?s ?l])
    show "queue_rel (slab (with_level ?s i ?l ?b)) ?l (q ?s ! i)"
      using queue_rel_reduce [OF ql x(1,3) q(3)] assms(3) fr(3) by simp
    show "\<forall>y \<in> set (q ?s ! i). o_id (slot (slab (with_level ?s i ?l ?b)) y) = o_id (slot (slab ?B) y) \<and>
        order_at (with_level ?s i ?l ?b) ?s i y"
      using at assms(3) fr(3) x q(2) fr(1) by (auto simp: order_at_def slot_upd same_frame_def static_def)
  qed (use assms(1,3) fr pr ll in \<open>auto simp: same_frame_def core_def slot_upd_other\<close>)
  moreover have "logged E b [trade_event side t (rest_of (slab b) x) qty] ?b"
    using logged_event [of E b TradeExecuted t "o_price ?m" qty side]
    by (simp add: logged_def HFT_JOURNAL_eq trade_event_def rest_of_def)
  ultimately show ?thesis
    using fr x(3) by (intro exI [of _ ?l] exI [of _ ?b]) (simp add: slot_upd_other slot_upd_same rest_of_def)
qed

lemma rest_of_eqI: "payload (slot P' y) = payload (slot P y) \<Longrightarrow> rest_of P' y = rest_of P y"
  by (simp add: rest_of_def payload_def)

lemma mk_trade_rest: "mk_trade (slot P x) t q = spec_trade (rest_of P x) t q"
  by (simp add: mk_trade_def spec_trade_def rest_of_def)

text \<open>
  What filling part of a level leaves: the level \<open>l'\<close> stored in \<open>b'\<close> holds a non-empty
  rest of its queue, which is what the specification leaves of the orders.
\<close>

definition partly_filled :: "Env \<Rightarrow> Side \<Rightarrow> OrderId \<Rightarrow> nat \<Rightarrow> (Side \<Rightarrow> u32 list list) \<Rightarrow> u32 list \<Rightarrow> Quantity \<Rightarrow>
    OrderBook \<Rightarrow> PriceLevel \<Rightarrow> OrderBook \<Rightarrow> Trade list \<Rightarrow> bool" where
  "partly_filled E side t i q xs qty b l' b' ts' \<longleftrightarrow> (\<exists>zs F'.
     core E (with_level (opposite side) i l' b') (q(opposite side := (q (opposite side))[i := zs])) F' \<and>
     spec_fill (\<lambda>_. True) t qty (map (rest_of (slab b)) xs) = (ts', 0, map (rest_of (slab b')) zs) \<and> zs \<noteq> [] \<and>
     same_frame b b' \<and> (\<forall>s. levels s b' = levels s b) \<and> (\<forall>w. w \<notin> set xs \<longrightarrow> slot (slab b') w = slot (slab b) w)) \<and>
     logged E b (fill_log side t qty (map (rest_of (slab b)) xs)) b'"

lemma partly_filled_last:
  fixes b :: OrderBook
  assumes c: "core E (with_level (opposite side) i l' b') q F" and qi: "q (opposite side) ! i = x # xs" and x: "x \<notin> set xs"
    and lt: "qty < o_quantity (slot (slab b) x)" "qty \<noteq> 0" and fr: "same_frame b b'" "\<forall>s. levels s b' = levels s b"
    and sl: "\<forall>w. w \<noteq> x \<longrightarrow> slot (slab b') w = slot (slab b) w"
    and rx: "rest_of (slab b') x = (rest_of (slab b) x)\<lparr>rqty := o_quantity (slot (slab b) x) - qty\<rparr>"
    and lg: "logged E b [trade_event side t (rest_of (slab b) x) qty] b'"
  shows "partly_filled E side t i q (x # xs) qty b l' b' [mk_trade (slot (slab b) x) t qty]"
proof -
  let ?s = "opposite side"
  have "(q ?s)[i := x # xs] = q ?s" using qi by (metis list_update_id)
  then have "core E (with_level ?s i l' b') (q(?s := (q ?s)[i := x # xs])) F" using c by simp
  moreover have "\<forall>w \<in> set xs. slot (slab b') w = slot (slab b) w" using sl x by auto
  then have "map (rest_of (slab b')) xs = map (rest_of (slab b)) xs" by (simp add: rest_of_def)
  then have "spec_fill (\<lambda>_. True) t qty (map (rest_of (slab b)) (x # xs)) =
      ([mk_trade (slot (slab b) x) t qty], 0, map (rest_of (slab b')) (x # xs))"
    using lt rx not_le [of "o_quantity (slot (slab b) x)" qty] by (simp add: mk_trade_rest) (simp add: rest_of_def)
  moreover have "fill_log side t qty (map (rest_of (slab b)) (x # xs)) = [trade_event side t (rest_of (slab b) x) qty]"
    using lt not_le [of "o_quantity (slot (slab b) x)" qty] by (simp add: rest_of_def)
  ultimately show ?thesis unfolding partly_filled_def using fr sl lg by auto
qed

lemma partly_filled_step:
  fixes b b1 :: OrderBook
  assumes p: "partly_filled E side t i (q(opposite side := (q (opposite side))[i := xs])) xs (qty - o_quantity (slot (slab b) x)) b1 l' b' ts'"
    and le: "o_quantity (slot (slab b) x) \<le> qty" "qty \<noteq> 0" and fr: "same_frame b b1" "\<forall>s. levels s b1 = levels s b"
    and pay: "\<forall>w \<in> set xs. payload (slot (slab b1) w) = payload (slot (slab b) w)"
    and sl: "\<forall>w. w \<notin> set (x # xs) \<longrightarrow> slot (slab b1) w = slot (slab b) w"
    and lg: "logged E b (drain_log side t [rest_of (slab b) x]) b1"
  shows "partly_filled E side t i q (x # xs) qty b l' b' (full_trade (slab b) t x # ts')"
proof -
  have mr: "map (rest_of (slab b1)) xs = map (rest_of (slab b)) xs" using pay by (auto intro: rest_of_eqI)
  obtain zs F' where 2: "core E (with_level (opposite side) i l' b') (q(opposite side := (q (opposite side))[i := zs])) F'"
      "spec_fill (\<lambda>_. True) t (qty - o_quantity (slot (slab b) x)) (map (rest_of (slab b1)) xs) = (ts', 0, map (rest_of (slab b')) zs)"
      "zs \<noteq> []" "same_frame b1 b'" "\<forall>s. levels s b' = levels s b1"
      "\<forall>w. w \<notin> set xs \<longrightarrow> slot (slab b') w = slot (slab b1) w"
      "logged E b1 (fill_log side t (qty - o_quantity (slot (slab b) x)) (map (rest_of (slab b1)) xs)) b'"
    using p by (auto simp: partly_filled_def)
  have "spec_fill (\<lambda>_. True) t qty (map (rest_of (slab b)) (x # xs)) =
      (full_trade (slab b) t x # ts', 0, map (rest_of (slab b')) zs)"
    using 2(2) le by (simp add: mr mk_trade_rest) (simp add: rest_of_def)
  moreover have "logged E b (fill_log side t qty (map (rest_of (slab b)) (x # xs))) b'"
    using logged_trans [OF lg 2(7)] le by (simp add: mr) (simp add: rest_of_def)
  ultimately show ?thesis
    unfolding partly_filled_def using 2 fr sl same_frame_trans by (intro conjI exI [of _ zs] exI [of _ F']) auto
qed

lemma partial_fill_some:
  fixes b :: OrderBook
  assumes "core E (with_level (opposite side) i l b) q F" "i < range_of b" "q (opposite side) ! i = xs"
    "unat qty < (\<Sum>x\<leftarrow>xs. unat (o_quantity (slot (slab b) x)))" "length xs < fuel"
  shows "\<exists>l' b' ts'. partial_fill ignore_level fuel E side t (hd_or INVALID_INDEX xs) l qty b ts = Some (l', 0, b', ts @ ts') \<and>
     partly_filled E side t i q xs qty b l' b' ts'"
  using assms
proof (induction xs arbitrary: l b q F qty fuel ts)
  case (Cons x xs)
  let ?s = "opposite side" and ?m = "slot (slab b) x"
  obtain f where f: "fuel = Suc f" using Cons.prems(5) by (cases fuel) auto
  have x: "x \<notin> set xs" and ii: "i < length (q ?s)"
    using core_slots(1,4) [OF Cons.prems(1), of i ?s] Cons.prems(2,3) by (simp_all add: slots_in_def)
  consider "qty = 0" | "qty \<noteq> 0" "qty < o_quantity ?m" | "qty \<noteq> 0" "o_quantity ?m \<le> qty" by force
  then show ?case
  proof cases
    case 1
    have "(q ?s)[i := x # xs] = q ?s" using Cons.prems(3) by (metis list_update_id)
    then have "partly_filled E side t i q (x # xs) qty b l b []"
      unfolding partly_filled_def using Cons.prems(1)
      by (intro conjI exI [of _ "x # xs"] exI [of _ F]) (simp_all add: 1 logged_same)
    then show ?thesis by (simp add: 1 f)
  next
    case 2
    obtain f' where f': "f = Suc f'" using Cons.prems(5) f by (cases f) auto
    obtain l' b' where 1: "\<forall>fuel ts. partial_fill ignore_level (Suc (Suc fuel)) E side t x l qty b ts =
       Some (l', 0, b', ts @ [mk_trade ?m t qty])" "core E (with_level ?s i l' b') q F" "same_frame b b'"
       "\<forall>s. levels s b' = levels s b" "\<forall>w. w \<noteq> x \<longrightarrow> slot (slab b') w = slot (slab b) w"
       "rest_of (slab b') x = (rest_of (slab b) x)\<lparr>rqty := o_quantity ?m - qty\<rparr>"
       "logged E b [trade_event side t (rest_of (slab b) x) qty] b'"
      using partial_fill_last [OF Cons.prems(1-3) 2(2,1), of t] by blast
    from partly_filled_last [where t = t, OF 1(2) Cons.prems(3) x 2(2,1) 1(3-7)]
    show ?thesis using 1(1) by (auto simp: f f')
  next
    case 3
    have le: "unat (o_quantity ?m) \<le> unat qty" "unat (qty - o_quantity ?m) = unat qty - unat (o_quantity ?m)"
      using 3(2) by (simp_all add: word_le_nat_alt unat_sub)
    then obtain y zs where xs: "xs = y # zs" using Cons.prems(4) by (cases xs) auto
    obtain l1 b1 where 1: "\<forall>fuel ts. partial_fill ignore_level (Suc fuel) E side t x l qty b ts =
         partial_fill ignore_level fuel E side t y l1 (qty - o_quantity ?m) b1 (ts @ [full_trade (slab b) t x])"
       "core E (with_level ?s i l1 b1) (q(?s := (q ?s)[i := xs])) (x # F)"
       "same_frame b b1" "\<forall>s. levels s b1 = levels s b"
       "\<forall>w. w \<notin> {x, y} \<longrightarrow> slot (slab b1) w = slot (slab b) w"
       "payload (slot (slab b1) y) = payload (slot (slab b) y)" "logged E b (drain_log side t [rest_of (slab b) x]) b1"
      using partial_fill_step [OF Cons.prems(1,2), of x y zs qty] Cons.prems(3) xs 3 by blast
    have pay: "\<forall>w \<in> set xs. payload (slot (slab b1) w) = payload (slot (slab b) w)"
      using 1(5,6) x by (metis insertE singletonD)
    then have "(\<Sum>w\<leftarrow>xs. unat (o_quantity (slot (slab b1) w))) = (\<Sum>w\<leftarrow>xs. unat (o_quantity (slot (slab b) w)))"
      by (simp add: payload_def cong: map_cong)
    then have lt: "unat (qty - o_quantity ?m) < (\<Sum>w\<leftarrow>xs. unat (o_quantity (slot (slab b1) w)))"
      using Cons.prems(4) le by simp
    have rg: "i < range_of b1" using Cons.prems(2) 1(3) static_range [of b1 b] by (simp add: same_frame_def)
    have hd: "hd_or INVALID_INDEX xs = y" by (simp add: xs)
    have "(q(?s := (q ?s)[i := xs])) ?s ! i = xs" "length xs < f" using ii Cons.prems(5) f by simp_all
    from Cons.IH [OF 1(2) rg this(1) lt this(2), where ts = "ts @ [full_trade (slab b) t x]"]
    obtain l' b' ts' where 2: "partial_fill ignore_level f E side t y l1 (qty - o_quantity ?m) b1 (ts @ [full_trade (slab b) t x]) =
        Some (l', 0, b', ts @ full_trade (slab b) t x # ts')"
      "partly_filled E side t i (q(?s := (q ?s)[i := xs])) xs (qty - o_quantity ?m) b1 l' b' ts'"
      unfolding hd append_assoc append_Cons append_Nil by blast
    have "partly_filled E side t i q (x # xs) qty b l' b' (full_trade (slab b) t x # ts')"
      by (rule partly_filled_step [OF 2(2) 3(2,1) 1(3,4) pay _ 1(7)]) (use 1(5) xs in simp)
    then show ?thesis using 1(1) 2(1) f by auto
  qed
qed simp

section \<open>Filling a level\<close>

text \<open>A taker that covers every order of a list fills all of them.\<close>

lemma spec_fill_all:
  assumes "(\<Sum>r\<leftarrow>rs. unat (rqty r)) \<le> unat q" "\<forall>r \<in> set rs. c (rprice r) \<and> rqty r \<noteq> 0"
  shows "spec_fill c t q rs = (map (\<lambda>r. spec_trade r t (rqty r)) rs, q - (\<Sum>r\<leftarrow>rs. rqty r), [])"
  using assms
proof (induction rs arbitrary: q)
  case (Cons r rs)
  have le: "rqty r \<le> q" "q \<noteq> 0" using Cons.prems by (auto simp: word_le_nat_alt unat_eq_0)
  have "(\<Sum>r\<leftarrow>rs. unat (rqty r)) \<le> unat (q - rqty r)"
    using Cons.prems(1) le(1) by (simp add: unat_sub word_le_nat_alt)
  from Cons.IH [OF this] Cons.prems(2) le show ?case by (simp add: diff_diff_eq)
qed simp

text \<open>The 64-bit total of a level is the sum of its quantities: it never wraps.\<close>

lemma level_total:
  assumes "core E b q F" "i < range_of b"
  shows "unat (total_quantity (levels s b ! i)) = (\<Sum>x\<leftarrow>q s ! i. unat (o_quantity (slot (slab b) x)))"
proof -
  have "(\<Sum>x\<leftarrow>q s ! i. unat (o_quantity (slot (slab b) x))) < 2 ^ 64"
    by (rule sum_list_u32_bound) (rule core_queue_length(1) [OF assms])
  then show ?thesis
    using core_slots(3) [OF assms, of s] unat_sum_list_64 [of "\<lambda>x. qty64 (slab b) x" "q s ! i"]
    by (simp add: queue_rel_def)
qed

lemma unat_sum_list_32:
  assumes "(\<Sum>x\<leftarrow>xs. unat (f x)) < 2 ^ 32"
  shows "unat (\<Sum>x\<leftarrow>xs. f x :: u32) = (\<Sum>x\<leftarrow>xs. unat (f x))"
  using assms
proof (induction xs)
  case (Cons x xs)
  then have IH: "unat (\<Sum>x\<leftarrow>xs. f x) = (\<Sum>x\<leftarrow>xs. unat (f x))" by simp
  have "unat (f x + (\<Sum>x\<leftarrow>xs. f x)) = unat (f x) + unat (\<Sum>x\<leftarrow>xs. f x)"
    using Cons.prems IH by (subst unat_add_lem [symmetric]) simp_all
  with IH show ?case by simp
qed simp

lemma ucast_sum_32:
  assumes "(\<Sum>x\<leftarrow>xs. unat (f x)) < 2 ^ 32"
  shows "ucast (\<Sum>x\<leftarrow>xs. ucast (f x) :: u64) = (\<Sum>x\<leftarrow>xs. f x :: u32)"
proof (rule word_unat_eq_iff [THEN iffD2])
  have "unat (\<Sum>x\<leftarrow>xs. ucast (f x) :: u64) = (\<Sum>x\<leftarrow>xs. unat (f x))"
    using unat_sum_list_64 [of "\<lambda>x. ucast (f x)" xs] assms by simp
  then have "unat (ucast (\<Sum>x\<leftarrow>xs. ucast (f x) :: u64) :: u32) = take_bit 32 (\<Sum>x\<leftarrow>xs. unat (f x))"
    by (simp only: unsigned_ucast_eq) simp
  then show "unat (ucast (\<Sum>x\<leftarrow>xs. ucast (f x) :: u64) :: u32) = unat (\<Sum>x\<leftarrow>xs. f x)"
    using assms by (simp only: take_bit_nat_eq_self unat_sum_list_32)
qed

text \<open>The two paths of \<open>fill_level\<close>: the taker covers the level's total, or it does not.\<close>

lemma fill_level_whole:
  assumes c: "core E b q F" and i: "i < range_of b" and qi: "q (opposite side) ! i = xs" "xs \<noteq> []"
    and le: "total_quantity (levels (opposite side) b ! i) \<le> ucast qty"
  shows "\<exists>b' qty' ts'. fill_level ignore_book E side t i qty b ts = Some (b', qty', ts @ ts') \<and>
    core E b' (q(opposite side := (q (opposite side))[i := []])) (xs @ F) \<and> same_frame b b' \<and>
    spec_fill (\<lambda>_. True) t qty (map (rest_of (slab b)) xs) = (ts', qty', []) \<and>
    (\<forall>w. w \<notin> set xs \<longrightarrow> slot (slab b') w = slot (slab b) w) \<and> logged E b (fill_log side t qty (map (rest_of (slab b)) xs)) b'"
proof -
  let ?s = "opposite side"
  define l where "l = levels ?s b ! i"
  note cs = core_slots [OF c i, of ?s, unfolded qi(1)]
  have get: "vec_get (levels ?s b) i = Some l" using cs(5) i by (simp add: vec_simps l_def)
  have sum: "(\<Sum>x\<leftarrow>xs. unat (o_quantity (slot (slab b) x))) \<le> unat qty"
    using le level_total [OF c i, of ?s] qi(1) by (simp add: word_le_nat_alt)
  obtain b' where b': "consume_level ignore_book E side t i l qty b ts =
      Some (b', qty - ucast (total_quantity l), ts @ map (full_trade (slab b) t) xs)"
    "core E b' (q(?s := (q ?s)[i := []])) (xs @ F)" "same_frame b b'"
    "\<forall>y. y \<notin> set xs \<longrightarrow> slot (slab b') y = slot (slab b) y" "logged E b (drain_log side t (map (rest_of (slab b)) xs)) b'"
    using consume_level_some [OF c i qi, of t qty ts] by (auto simp: l_def)
  have tl: "total_quantity l = (\<Sum>x\<leftarrow>xs. qty64 (slab b) x)"
    using cs(3) by (simp add: queue_rel_def l_def)
  have "ucast (total_quantity l) = (\<Sum>x\<leftarrow>xs. o_quantity (slot (slab b) x))"
    unfolding tl by (rule ucast_sum_32) (use sum unat_max_less [of qty] in simp)
  moreover have nz: "\<forall>x \<in> set xs. o_quantity (slot (slab b) x) \<noteq> 0"
    using c i qi(1) by (auto simp: core_def side_queues_def order_at_def)
  ultimately have "spec_fill (\<lambda>_. True) t qty (map (rest_of (slab b)) xs) =
      (map (full_trade (slab b) t) xs, qty - ucast (total_quantity l), [])"
    using spec_fill_all [of "map (rest_of (slab b)) xs" qty "\<lambda>_. True" t] sum
    by (simp add: comp_def mk_trade_rest) (simp add: rest_of_def)
  moreover have "fill_level ignore_book E side t i qty b ts = Some (b', qty - ucast (total_quantity l), ts @ map (full_trade (slab b) t) xs)"
    using le b'(1) by (simp add: fill_level_def get) (simp add: l_def)
  moreover have "logged E b (fill_log side t qty (map (rest_of (slab b)) xs)) b'"
    using b'(5) fill_log_all [of "map (rest_of (slab b)) xs" qty side t] sum nz by (simp add: comp_def rest_of_def)
  ultimately show ?thesis using b'(2-4) by blast
qed

lemma fill_level_part:
  assumes c: "core E b q F" and i: "i < range_of b" and qi: "q (opposite side) ! i = xs"
    and gt: "\<not> total_quantity (levels (opposite side) b ! i) \<le> ucast qty"
  shows "\<exists>b' ts' zs F'. fill_level ignore_book E side t i qty b ts = Some (b', 0, ts @ ts') \<and>
    core E b' (q(opposite side := (q (opposite side))[i := zs])) F' \<and> same_frame b b' \<and>
    spec_fill (\<lambda>_. True) t qty (map (rest_of (slab b)) xs) = (ts', 0, map (rest_of (slab b')) zs) \<and>
    (\<forall>w. w \<notin> set xs \<longrightarrow> slot (slab b') w = slot (slab b) w) \<and> logged E b (fill_log side t qty (map (rest_of (slab b)) xs)) b'"
proof -
  let ?s = "opposite side"
  define l where "l = levels ?s b ! i"
  note cs = core_slots [OF c i, of ?s, unfolded qi]
  have get: "vec_get (levels ?s b) i = Some l" using cs(5) i by (simp add: vec_simps l_def)
  have lt: "unat qty < (\<Sum>x\<leftarrow>xs. unat (o_quantity (slot (slab b) x)))"
    using gt level_total [OF c i, of ?s] qi by (simp add: word_le_nat_alt)
  have c1: "core E (with_level ?s i l b) q F" using c by (simp add: l_def with_level_self)
  have "length xs < Suc (capacity (order_pool b))" using core_queue_length(2) [OF c i, of ?s] qi by simp
  from partial_fill_some [OF c1 i qi lt this, of t ts, unfolded partly_filled_def]
  obtain l' b' ts' zs F' where 1: "partial_fill ignore_level (Suc (capacity (order_pool b))) E side t (hd_or INVALID_INDEX xs) l qty b ts =
      Some (l', 0, b', ts @ ts')" "core E (with_level ?s i l' b') (q(?s := (q ?s)[i := zs])) F'"
    "spec_fill (\<lambda>_. True) t qty (map (rest_of (slab b)) xs) = (ts', 0, map (rest_of (slab b')) zs)"
    "same_frame b b'" "\<forall>s. levels s b' = levels s b"
    "\<forall>w. w \<notin> set xs \<longrightarrow> slot (slab b') w = slot (slab b) w"
    "logged E b (fill_log side t qty (map (rest_of (slab b)) xs)) b'"
    by blast
  have "head l = hd_or INVALID_INDEX xs" using cs(3) by (simp add: queue_rel_def l_def)
  then have "fill_level ignore_book E side t i qty b ts = Some (with_level ?s i l' b', 0, ts @ ts')"
    using gt [folded l_def] 1(1,5) cs(5) i by (simp add: fill_level_def get vec_set_in with_level_def)
  moreover have "same_frame b (with_level ?s i l' b')" using 1(4) by (simp add: same_frame_def)
  moreover have "slab (with_level ?s i l' b') = slab b'" by simp
  moreover have "logged E b (fill_log side t qty (map (rest_of (slab b)) xs)) (with_level ?s i l' b')"
    using 1(7) by (simp add: logged_def)
  ultimately show ?thesis using 1(2,3,6) by metis
qed

lemma fill_level_some:
  assumes "core E b q F" "i < range_of b" "q (opposite side) ! i = xs" "xs \<noteq> []"
  shows "\<exists>b' qty' ts' zs F'. fill_level ignore_book E side t i qty b ts = Some (b', qty', ts @ ts') \<and>
    core E b' (q(opposite side := (q (opposite side))[i := zs])) F' \<and> same_frame b b' \<and>
    spec_fill (\<lambda>_. True) t qty (map (rest_of (slab b)) xs) = (ts', qty', map (rest_of (slab b')) zs) \<and>
    (\<forall>w. w \<notin> set xs \<longrightarrow> slot (slab b') w = slot (slab b) w) \<and> logged E b (fill_log side t qty (map (rest_of (slab b)) xs)) b'"
proof (cases "total_quantity (levels (opposite side) b ! i) \<le> ucast qty")
  case True
  obtain b' qty' ts' where "fill_level ignore_book E side t i qty b ts = Some (b', qty', ts @ ts')"
    "core E b' (q(opposite side := (q (opposite side))[i := []])) (xs @ F)" "same_frame b b'"
    "spec_fill (\<lambda>_. True) t qty (map (rest_of (slab b)) xs) = (ts', qty', map (rest_of (slab b')) [])"
    "\<forall>w. w \<notin> set xs \<longrightarrow> slot (slab b') w = slot (slab b) w"
    "logged E b (fill_log side t qty (map (rest_of (slab b)) xs)) b'"
    using fill_level_whole [OF assms True, of t ts] by auto
  then show ?thesis by blast
next
  case False
  show ?thesis using fill_level_part [OF assms(1-3) False, of t ts] by blast
qed

end
