(* ===== verification/Book_Match.thy ===== *)
theory Book_Match
  imports Level_Fill
begin

text \<open>
  The matching loops of \<open>OrderBook::match_order_direct\<close> and the best-price maintenance: with
  the best level drained, the two-level bitset scan finds the next populated tick, and the
  loop over the levels fills the side of the specification book, within its fuel.
\<close>

section \<open>What the best-price code leaves alone\<close>

definition same_data :: "OrderBook \<Rightarrow> OrderBook \<Rightarrow> bool" where
  "same_data b b' \<longleftrightarrow> static b' = static b \<and> (\<forall>s. levels s b' = levels s b) \<and> order_pool b' = order_pool b \<and>
     order_map b' = order_map b \<and> active_count b' = active_count b \<and>
     (journal_ok (journal b) \<longrightarrow> journal_ok (journal b'))"

lemma same_data_core:
  assumes "core E b q F" "same_data b b'"
  shows "core E b' q F"
proof -
  have sl: "slab b' = slab b" and st: "static b' = static b"
    using assms(2) by (simp_all add: same_data_def)
  have "order_at b' s i x = order_at b s i x" for s i x by (rule order_at_payload [OF st]) (simp add: sl)
  moreover have "range_of b' = range_of b" by (rule static_range [OF st])
  ultimately show ?thesis
    using assms by (simp add: core_def same_data_def geometry_def side_queues_def static_def)
qed

lemma abs_side_data: "same_data b b' \<Longrightarrow> abs_side s b' q = abs_side s b q"
  by (simp add: abs_side_def same_data_def)

section \<open>Moving the best price\<close>

lemma price_index:
  assumes "unat p = unat (min_price b) + i"
  shows "unat (p - min_price b) = i"
  using assms by (simp add: unat_sub word_le_nat_alt)

lemma index_price:
  assumes "geometry b" "i < range_of b"
  shows "unat (of_nat (unat (min_price b) + i) :: Price) = unat (min_price b) + i"
proof (rule unat_of_nat_32)
  have "unat (min_price b) + i \<le> unat (max_price b)"
    using assms by (auto simp: geometry_def range_of_def word_le_nat_alt)
  then show "unat (min_price b) + i < 2 ^ 32" using unat_max_less [of "max_price b"] by simp
qed

lemma scan_best_ask_top:
  assumes "geometry b" "bits_rel (range_of b) (asks_bitset b) (asks_summary b) S" "i < range_of b"
    "\<forall>k \<in> S. i < k" "length (asks_levels b) = range_of b"
  shows "\<exists>b'. scan_best_ask i b = Some b' \<and> side_top Sell b' S \<and> same_data b b' \<and> top_of Buy b' = top_of Buy b"
proof -
  obtain r where r: "next_above (asks_bitset b) (asks_summary b) i = Some r" "is_next S i r"
    using pb.above_ok [OF assms(2,3)] by blast
  show ?thesis
  proof (cases r)
    case None
    then have "S = {}" using r(2) assms(4) by (fastforce simp: is_next_def)
    let ?b = "b\<lparr>has_asks := False, best_ask := max_price b + 1, best_ask_idx := length (asks_levels b) - 1\<rparr>"
    have "same_data b ?b" unfolding same_data_def static_def by (simp add: all_sides [of _ Buy])
    then show ?thesis
      using r(1) None assms(2,5) \<open>S = {}\<close>
      by (intro exI [of _ ?b]) (simp add: scan_best_ask_def range_of_def)
  next
    case (Some j)
    then have j: "j \<in> S" "\<forall>k \<in> S. j \<le> k" using r(2) assms(4) by (auto simp: is_next_def)
    then have "j < range_of b" using assms(2) by (auto simp: bits_rel_def)
    note p = index_price [OF assms(1) this]
    let ?b = "b\<lparr>best_ask_idx := j, best_ask := of_nat (unat (min_price b) + j), has_asks := True\<rparr>"
    have "same_data b ?b" unfolding same_data_def static_def by (simp add: all_sides [of _ Buy])
    then show ?thesis
      using r(1) Some assms(2) j p
      by (intro exI [of _ ?b]) (simp add: scan_best_ask_def range_of_def)
  qed
qed

lemma scan_best_bid_top:
  assumes "geometry b" "bits_rel (range_of b) (bids_bitset b) (bids_summary b) S" "i < range_of b"
    "\<forall>k \<in> S. k < i"
  shows "\<exists>b'. scan_best_bid i b = Some b' \<and> side_top Buy b' S \<and> same_data b b' \<and> top_of Sell b' = top_of Sell b"
proof -
  obtain r where r: "prev_below (bids_bitset b) (bids_summary b) i = Some r" "is_prev S i r"
    using pb.below_ok [OF assms(2,3)] by blast
  show ?thesis
  proof (cases r)
    case None
    then have "S = {}" using r(2) assms(4) by (fastforce simp: is_prev_def)
    let ?b = "b\<lparr>has_bids := False, best_bid := 0, best_bid_idx := 0\<rparr>"
    have "same_data b ?b" unfolding same_data_def static_def by (simp add: all_sides [of _ Buy])
    then show ?thesis
      using r(1) None assms(2) \<open>S = {}\<close>
      by (intro exI [of _ ?b]) (simp add: scan_best_bid_def range_of_def)
  next
    case (Some j)
    then have j: "j \<in> S" "\<forall>k \<in> S. k \<le> j" using r(2) assms(4) by (auto simp: is_prev_def)
    then have "j < range_of b" using assms(2) by (auto simp: bits_rel_def)
    note p = index_price [OF assms(1) this]
    let ?b = "b\<lparr>best_bid_idx := j, best_bid := of_nat (unat (min_price b) + j), has_bids := True\<rparr>"
    have "same_data b ?b" unfolding same_data_def static_def by (simp add: all_sides [of _ Buy])
    then show ?thesis
      using r(1) Some assms(2) j p
      by (intro exI [of _ ?b]) (simp add: scan_best_bid_def range_of_def)
  qed
qed

lemma same_data_trans: "same_data a b \<Longrightarrow> same_data b c \<Longrightarrow> same_data a c"
  by (simp add: same_data_def)

lemma journal_data [simp]: "same_data b (HFT_JOURNAL_REASON E ev i px qty sd r b)"
  by (simp add: same_data_def)

lemma journal_top: "side_top s (HFT_JOURNAL_REASON E ev i px qty sd r b) S = side_top s b S"
  by (rule side_top_frame) simp_all

lemma level_empty_occ:
  assumes "core E b q F" "i < range_of b"
  shows "level_is_empty (levels s b ! i) \<longleftrightarrow> i \<notin> occ (q s)"
  using pl.rel_empty [OF core_slots(3,1) [OF assms, of s]] core_slots(4) [OF assms, of s] assms(2)
  by (simp add: occ_def)

lemma core_levels: "core E b q F \<Longrightarrow> length (levels s b) = range_of b"
  by (simp add: core_def side_queues_def)

text \<open>The test of the adjacent tick, on either side.\<close>

lemma ask_neighbour:
  assumes c: "core E b q F" and pr: "unat (best_ask b) = unat (min_price b) + i" and li: "i < range_of b"
  shows "unat (best_ask b + 1) = unat (min_price b) + Suc i"
    "(if best_ask b + 1 \<le> max_price b then do {
        l \<leftarrow> vec_get (asks_levels b) (Suc i);
        Some (\<not> level_is_empty l)
      } else Some False) = Some (Suc i < range_of b \<and> Suc i \<in> occ (q Sell))"
proof -
  have g: "geometry b" using c by (simp add: core_def)
  have "unat (min_price b) + i \<le> unat (max_price b)" "unat (max_price b) < 2 ^ 32 - 1"
    using g li unat_max_less [of "max_price b"] by (auto simp: geometry_def range_of_def word_le_nat_alt UINT32_MAX_def word_unat_eq_iff)
  then show u: "unat (best_ask b + 1) = unat (min_price b) + Suc i" using pr by (simp add: unat_plus_if')
  have "best_ask b + 1 \<le> max_price b \<longleftrightarrow> Suc i < range_of b"
    using g by (auto simp: word_le_nat_alt u range_of_def geometry_def)
  then show "(if best_ask b + 1 \<le> max_price b then do {
        l \<leftarrow> vec_get (asks_levels b) (Suc i);
        Some (\<not> level_is_empty l)
      } else Some False) = Some (Suc i < range_of b \<and> Suc i \<in> occ (q Sell))"
    using level_empty_occ [OF c, of "Suc i" Sell] core_levels [OF c, of Sell] by (auto simp: vec_simps)
qed

lemma bid_neighbour:
  assumes c: "core E b q F" and pr: "unat (best_bid b) = unat (min_price b) + i" and li: "i < range_of b"
  shows "0 < i \<Longrightarrow> unat (best_bid b - 1) = unat (min_price b) + (i - 1)"
    "(if best_bid b > min_price b then do {
        l \<leftarrow> vec_get (bids_levels b) (i - 1);
        Some (\<not> level_is_empty l)
      } else Some False) = Some (0 < i \<and> i - 1 \<in> occ (q Buy))"
proof -
  show "unat (best_bid b - 1) = unat (min_price b) + (i - 1)" if "0 < i"
    using pr that by (subst unat_minus_one) (auto simp: unat_gt_0 [symmetric])
  have "best_bid b > min_price b \<longleftrightarrow> 0 < i" using pr by (simp add: word_less_nat_alt)
  then show "(if best_bid b > min_price b then do {
        l \<leftarrow> vec_get (bids_levels b) (i - 1);
        Some (\<not> level_is_empty l)
      } else Some False) = Some (0 < i \<and> i - 1 \<in> occ (q Buy))"
    using level_empty_occ [OF c, of "i - 1" Buy] core_levels [OF c, of Buy] li by (auto simp: vec_simps)
qed

lemma advance_ask_step:
  assumes "core E b q F" and pr: "unat (best_ask b) = unat (min_price b) + best_ask_idx b" and "best_ask_idx b < range_of b"
    and "price_bit_clear (asks_bitset b) (asks_summary b) (best_ask_idx b) = Some (bs, sm)"
  shows "advance_best_ask E b =
    (if Suc (best_ask_idx b) < range_of b \<and> Suc (best_ask_idx b) \<in> occ (q Sell)
     then Some (b\<lparr>asks_bitset := bs, asks_summary := sm, best_ask := best_ask b + 1, best_ask_idx := Suc (best_ask_idx b)\<rparr>)
     else do {
       b \<leftarrow> scan_best_ask (best_ask_idx b) (b\<lparr>asks_bitset := bs, asks_summary := sm\<rparr>);
       Some (HFT_JOURNAL E BestAskChanged 0 (best_ask b) 0 (side_u8 Sell) b)
     })"
  using assms(4) ask_neighbour(2) [OF assms(1-3)]
  by (simp add: advance_best_ask_def price_index [OF pr] Let_def split del: if_split cong: if_cong)

lemma advance_best_ask_top:
  assumes c: "core E b q F" and h: "has_asks b"
    and top: "side_top Sell b (insert (best_ask_idx b) (occ (q Sell)))" and ni: "best_ask_idx b \<notin> occ (q Sell)"
  shows "\<exists>b'. advance_best_ask E b = Some b' \<and> side_top Sell b' (occ (q Sell)) \<and> same_data b b' \<and>
    top_of Buy b' = top_of Buy b"
proof -
  let ?li = "best_ask_idx b" and ?S = "occ (q Sell)"
  have g: "geometry b" using c by (simp add: core_def)
  have bits: "bits_rel (range_of b) (asks_bitset b) (asks_summary b) (insert ?li ?S)"
    and pr: "unat (best_ask b) = unat (min_price b) + ?li" and mn: "\<forall>k \<in> ?S. ?li < k"
    using top h ni by (auto simp: order_le_less)
  have li: "?li < range_of b" using bits by (auto simp: bits_rel_def)
  obtain bs sm where cl: "price_bit_clear (asks_bitset b) (asks_summary b) ?li = Some (bs, sm)"
    "bits_rel (range_of b) bs sm ?S"
    using pb.remove_ok [OF bits li] ni by auto
  define b1 where "b1 = b\<lparr>asks_bitset := bs, asks_summary := sm\<rparr>"
  have d1: "same_data b b1" "range_of b1 = range_of b" "top_of Buy b1 = top_of Buy b" "geometry b1"
    "asks_bitset b1 = bs" "asks_summary b1 = sm" "best_ask b1 = best_ask b" "max_price b1 = max_price b"
    "asks_levels b1 = levels Sell b" "has_asks b1" "min_price b1 = min_price b"
    using g h unfolding b1_def same_data_def static_def
    by (simp_all add: all_sides [of _ Buy] range_of_def geometry_def)
  have ll: "length (levels Sell b) = range_of b" by (rule core_levels [OF c])
  let ?near = "Suc ?li < range_of b \<and> Suc ?li \<in> ?S"
  note nx = ask_neighbour [OF c pr li]
  note unf = advance_ask_step [OF c pr li cl(1), folded b1_def]
  show ?thesis
  proof (cases ?near)
    case True
    let ?b = "b1\<lparr>best_ask := best_ask b + 1, best_ask_idx := ?li + 1\<rparr>"
    have "same_data b1 ?b" unfolding same_data_def static_def by (simp add: all_sides [of _ Buy])
    then have "same_data b ?b" using d1(1) same_data_trans by blast
    moreover have "side_top Sell ?b ?S"
      using True cl(2) d1 mn nx(1) by (simp add: range_of_def Suc_le_eq)
    moreover have "advance_best_ask E b = Some ?b"
      using True by (simp add: unf b1_def)
    moreover have "top_of Buy ?b = top_of Buy b" using d1(3) by simp
    ultimately show ?thesis by blast
  next
    case False
    obtain b2 where b2: "scan_best_ask ?li b1 = Some b2" "side_top Sell b2 ?S" "same_data b1 b2" "top_of Buy b2 = top_of Buy b1"
      using scan_best_ask_top [OF d1(4), of ?S ?li] cl(2) li mn ll d1 by auto
    have "advance_best_ask E b = Some (HFT_JOURNAL E BestAskChanged 0 (best_ask b2) 0 (side_u8 Sell) b2)"
      using False b2(1) by (auto simp: unf)
    then show ?thesis
      using b2(2,4) same_data_trans [OF same_data_trans [OF d1(1) b2(3)] journal_data] d1(3)
      by (simp add: HFT_JOURNAL_eq journal_top del: side_top.simps top_of.simps)
  qed
qed

lemma advance_bid_step:
  assumes "core E b q F" and pr: "unat (best_bid b) = unat (min_price b) + best_bid_idx b" and "best_bid_idx b < range_of b"
    and "price_bit_clear (bids_bitset b) (bids_summary b) (best_bid_idx b) = Some (bs, sm)"
  shows "advance_best_bid E b =
    (if 0 < best_bid_idx b \<and> best_bid_idx b - 1 \<in> occ (q Buy)
     then Some (b\<lparr>bids_bitset := bs, bids_summary := sm, best_bid := best_bid b - 1, best_bid_idx := best_bid_idx b - 1\<rparr>)
     else do {
       b \<leftarrow> scan_best_bid (best_bid_idx b) (b\<lparr>bids_bitset := bs, bids_summary := sm\<rparr>);
       Some (HFT_JOURNAL E BestBidChanged 0 (best_bid b) 0 (side_u8 Buy) b)
     })"
  using assms(4) bid_neighbour(2) [OF assms(1-3)]
  by (simp add: advance_best_bid_def price_index [OF pr] Let_def split del: if_split cong: if_cong)

lemma advance_best_bid_top:
  assumes c: "core E b q F" and h: "has_bids b"
    and top: "side_top Buy b (insert (best_bid_idx b) (occ (q Buy)))" and ni: "best_bid_idx b \<notin> occ (q Buy)"
  shows "\<exists>b'. advance_best_bid E b = Some b' \<and> side_top Buy b' (occ (q Buy)) \<and> same_data b b' \<and>
    top_of Sell b' = top_of Sell b"
proof -
  let ?li = "best_bid_idx b" and ?S = "occ (q Buy)"
  have g: "geometry b" using c by (simp add: core_def)
  have bits: "bits_rel (range_of b) (bids_bitset b) (bids_summary b) (insert ?li ?S)"
    and pr: "unat (best_bid b) = unat (min_price b) + ?li" and mn: "\<forall>k \<in> ?S. k < ?li"
    using top h ni by (auto simp: order_le_less)
  have li: "?li < range_of b" using bits by (auto simp: bits_rel_def)
  obtain bs sm where cl: "price_bit_clear (bids_bitset b) (bids_summary b) ?li = Some (bs, sm)"
    "bits_rel (range_of b) bs sm ?S"
    using pb.remove_ok [OF bits li] ni by auto
  define b1 where "b1 = b\<lparr>bids_bitset := bs, bids_summary := sm\<rparr>"
  have d1: "same_data b b1" "range_of b1 = range_of b" "top_of Sell b1 = top_of Sell b" "geometry b1"
    "bids_bitset b1 = bs" "bids_summary b1 = sm" "best_bid b1 = best_bid b" "best_bid_idx b1 = ?li"
    "bids_levels b1 = levels Buy b" "has_bids b1" "min_price b1 = min_price b"
    using g h unfolding b1_def same_data_def static_def
    by (simp_all add: all_sides [of _ Buy] range_of_def geometry_def)
  let ?near = "0 < ?li \<and> ?li - 1 \<in> ?S"
  note nx = bid_neighbour [OF c pr li]
  note unf = advance_bid_step [OF c pr li cl(1), folded b1_def]
  show ?thesis
  proof (cases ?near)
    case True
    let ?b = "b1\<lparr>best_bid := best_bid b - 1, best_bid_idx := ?li - 1\<rparr>"
    have "same_data b1 ?b" unfolding same_data_def static_def by (simp add: all_sides [of _ Buy])
    then have "same_data b ?b" using d1(1) same_data_trans by blast
    moreover have "k \<le> ?li - 1" if "k \<in> ?S" for k using mn that True by fastforce
    then have "side_top Buy ?b ?S"
      using True cl(2) d1 nx(1) by (simp add: range_of_def)
    moreover have "advance_best_bid E b = Some ?b"
      using True by (simp add: unf b1_def)
    moreover have "top_of Sell ?b = top_of Sell b" using d1(3) by simp
    ultimately show ?thesis by blast
  next
    case False
    obtain b2 where b2: "scan_best_bid ?li b1 = Some b2" "side_top Buy b2 ?S" "same_data b1 b2" "top_of Sell b2 = top_of Sell b1"
      using scan_best_bid_top [OF d1(4), of ?S ?li] cl(2) li mn d1 by auto
    have "advance_best_bid E b = Some (HFT_JOURNAL E BestBidChanged 0 (best_bid b2) 0 (side_u8 Buy) b2)"
      using False b2(1) by (auto simp: unf)
    then show ?thesis
      using b2(2,4) same_data_trans [OF same_data_trans [OF d1(1) b2(3)] journal_data] d1(3)
      by (simp add: HFT_JOURNAL_eq journal_top del: side_top.simps top_of.simps)
  qed
qed

lemma book_relI:
  "core E b q F \<Longrightarrow> side_top s b (occ (q s)) \<Longrightarrow> side_top (opposite s) b (occ (q (opposite s))) \<Longrightarrow> book_rel E b q F"
  unfolding book_rel_def using all_sides [of "\<lambda>s. side_top s b (occ (q s))" s] by blast

lemma finite_occ [simp]: "finite (occ Q)"
  by (simp add: occ_def)

section \<open>The side in priority order\<close>

text \<open>Tick \<open>i\<close> comes before tick \<open>k\<close> on side \<open>s\<close>, or is the same.\<close>

fun tick_first :: "Side \<Rightarrow> nat \<Rightarrow> nat \<Rightarrow> bool" where
  "tick_first Buy i k = (k \<le> i)"
| "tick_first Sell i k = (i \<le> k)"

lemma side_seq_best:
  assumes "i < length Q" "\<forall>k \<in> occ Q. tick_first s i k"
  shows "side_seq s (Q[i := v]) = v @ side_seq s (Q[i := []])"
proof (cases s)
  case Buy
  have n: "concat (rev (drop (Suc i) Q)) = []"
    using concat_drop_Nil [of "Suc i" Q] assms(2) by (force simp: Buy occ_def concat_eq_Nil_conv)
  show ?thesis unfolding Buy side_seq.simps concat_rev_upd [OF assms(1)] n by simp
next
  case Sell
  have n: "concat (take i Q) = []"
  proof (rule concat_take_Nil)
    show "Q ! j = []" if "j < i" for j
    proof (rule ccontr)
      assume "Q ! j \<noteq> []"
      then have "j \<in> occ Q" using that assms(1) by (simp add: occ_def)
      with assms(2) that show False by (auto simp: Sell)
    qed
  qed (use assms(1) in simp)
  show ?thesis unfolding Sell side_seq.simps concat_upd [OF assms(1)] n by simp
qed

lemma side_seq_upd_set:
  assumes "i < length Q" "distinct (concat Q)"
  shows "set (side_seq s (Q[i := []])) \<inter> set (Q ! i) = {}"
proof -
  have "x \<notin> set (Q ! i)" if x: "x \<in> set (side_seq s (Q[i := []]))" for x
  proof -
    have "x \<in> set (concat (Q[i := []]))" using x by (simp add: side_seq_set del: side_seq.simps)
    then obtain j where j: "j < length Q" "j \<noteq> i" "x \<in> set (Q ! j)"
      using set_concat_nth_upd [OF assms(1), of x "[]"] by auto
    with distinct_concat_disjoint [OF assms(2,1) j(1)] show ?thesis by auto
  qed
  then show ?thesis by auto
qed

lemma spec_fill_cross:
  "\<forall>r \<in> set rs. c (rprice r) \<Longrightarrow> spec_fill c t q rs = spec_fill (\<lambda>_. True) t q rs"
  by (induction rs arbitrary: q) auto

lemma abs_side_frame:
  assumes "\<forall>x \<in> set (concat (q s)). slot (slab b') x = slot (slab b) x" "q' s = q s"
  shows "abs_side s b' q' = abs_side s b q"
  using assms by (auto simp: abs_side_def side_seq_set rest_of_def simp del: side_seq.simps)

lemma core_price:
  assumes "core E b q F" "i < range_of b" "x \<in> set (q s ! i)"
  shows "unat (o_price (slot (slab b) x)) = unat (min_price b) + i"
  using assms by (auto simp: core_def side_queues_def order_at_def)

text \<open>One pass of the loop body, on either side.\<close>

lemma best_level_fill:
  assumes "book_rel E b q F" "i \<in> occ (q (opposite side))" "\<forall>k \<in> occ (q (opposite side)). tick_first (opposite side) i k"
    "\<forall>x \<in> set (q (opposite side) ! i). c (o_price (slot (slab b) x))"
  shows "\<exists>b1 qty1 ts1 zs F1. fill_level ignore_book E side t i qty b ts = Some (b1, qty1, ts @ ts1) \<and>
    core E b1 (q(opposite side := (q (opposite side))[i := zs])) F1 \<and> same_frame b b1 \<and>
    (zs \<noteq> [] \<longrightarrow> qty1 = 0) \<and>
    abs_side side b1 (q(opposite side := (q (opposite side))[i := zs])) = abs_side side b q \<and>
    (\<forall>ts2 qty2 ws. spec_fill c t qty1 (map (rest_of (slab b1)) (side_seq (opposite side) ((q (opposite side))[i := []]))) =
        (ts2, qty2, ws) \<longrightarrow>
      spec_fill c t qty (abs_side (opposite side) b q) = (ts1 @ ts2, qty2, map (rest_of (slab b1)) zs @ ws)) \<and>
    logged E b (fill_log side t qty (map (rest_of (slab b)) (q (opposite side) ! i))) b1 \<and>
    spec_fill (\<lambda>_. True) t qty (map (rest_of (slab b)) (q (opposite side) ! i)) = (ts1, qty1, map (rest_of (slab b1)) zs) \<and>
    abs_side (opposite side) b q = map (rest_of (slab b)) (q (opposite side) ! i) @
      map (rest_of (slab b1)) (side_seq (opposite side) ((q (opposite side))[i := []]))"
proof -
  let ?s = "opposite side" and ?xs = "q (opposite side) ! i"
  let ?ys = "side_seq ?s ((q ?s)[i := []])"
  have c: "core E b q F" using assms(1) by (simp add: book_rel_def)
  have i: "i < length (q ?s)" "?xs \<noteq> []" using assms(2) by (auto simp: occ_def)
  have ir: "i < range_of b" using i(1) c by (simp add: core_def side_queues_def)
  obtain b1 qty1 ts1 zs F1 where 1: "fill_level ignore_book E side t i qty b ts = Some (b1, qty1, ts @ ts1)"
    "core E b1 (q(?s := (q ?s)[i := zs])) F1" "same_frame b b1"
    "spec_fill (\<lambda>_. True) t qty (map (rest_of (slab b)) ?xs) = (ts1, qty1, map (rest_of (slab b1)) zs)"
    "\<forall>w. w \<notin> set ?xs \<longrightarrow> slot (slab b1) w = slot (slab b) w"
    "logged E b (fill_log side t qty (map (rest_of (slab b)) ?xs)) b1"
    using fill_level_some [OF c ir refl i(2), of t qty ts] by blast
  have dist: "distinct (concat (q ?s))" "set (concat (q ?s)) \<inter> set (concat (q side)) = {}"
    using core_distinct [OF c, of ?s] by auto
  have seq: "side_seq ?s (q ?s) = ?xs @ ?ys"
    using side_seq_best [OF i(1) assms(3), of ?xs] by (simp del: side_seq.simps)
  have "set ?ys \<inter> set ?xs = {}" by (rule side_seq_upd_set [OF i(1) dist(1)])
  then have ys: "map (rest_of (slab b1)) ?ys = map (rest_of (slab b)) ?ys"
    using 1(5) by (auto simp: rest_of_def simp del: side_seq.simps)
  have cr: "\<forall>r \<in> set (map (rest_of (slab b)) ?xs). c (rprice r)" using assms(4) by (simp add: rest_of_def)
  note f = 1(4) [folded spec_fill_cross [OF cr, of t qty]]
  have z: "map (rest_of (slab b1)) zs \<noteq> [] \<longrightarrow> qty1 = 0" using spec_fill_rest_zero [OF f cr] by blast
  have "\<forall>x \<in> set (concat (q side)). x \<notin> set ?xs" using dist(2) nth_in_concat [OF i(1)] by blast
  then have "abs_side side b1 (q(?s := (q ?s)[i := zs])) = abs_side side b q"
    using 1(5) by (intro abs_side_frame) simp_all
  moreover have "spec_fill c t qty (abs_side ?s b q) = (ts1 @ ts2, qty2, map (rest_of (slab b1)) zs @ ws)"
    if "spec_fill c t qty1 (map (rest_of (slab b1)) ?ys) = (ts2, qty2, ws)" for ts2 qty2 ws
    using spec_fill_append [OF cr f, of "map (rest_of (slab b)) ?ys"] that z
    by (simp add: abs_side_def seq ys del: side_seq.simps)
  moreover have "abs_side ?s b q = map (rest_of (slab b)) ?xs @ map (rest_of (slab b1)) ?ys"
    by (simp add: abs_side_def seq ys del: side_seq.simps)
  ultimately show ?thesis using 1(1-4,6) z by (intro exI conjI) (auto simp del: side_seq.simps)
qed

section \<open>The matching loops\<close>

text \<open>
  The two instantiations of \<open>match_order_direct\<close> share one shape. The interface: the resting
  side \<open>s\<close>, its best-price fields, the guard of the loop and the code that moves the best
  price; the laws: what the fields say of the populated ticks, and that moving the best price
  restores them. The loop's correctness is proved once from these.
\<close>

locale match_side =
  fixes s :: Side
    and loop :: "nat \<Rightarrow> Env \<Rightarrow> OrderId \<Rightarrow> Price \<Rightarrow> Quantity \<Rightarrow> OrderBook \<Rightarrow> Trade list
      \<Rightarrow> (Quantity \<times> OrderBook \<times> Trade list) option"
    and avail :: "OrderBook \<Rightarrow> bool"
    and best :: "OrderBook \<Rightarrow> Price"
    and best_idx :: "OrderBook \<Rightarrow> nat"
    and advance :: "Env \<Rightarrow> OrderBook \<Rightarrow> OrderBook option"
  assumes loop_0: "loop 0 E t px qty b ts = None"
    and loop_Suc: "loop (Suc n) E t px qty b ts =
      (if avail b \<and> qty > 0 \<and> crosses (opposite s) px (best b) then do {
         let li = best_idx b;
         (b, qty, ts) \<leftarrow> fill_level ignore_book E (opposite s) t li qty b ts;
         level \<leftarrow> vec_get (levels s b) li;
         b \<leftarrow> (if level_is_empty level then advance E b else Some b);
         loop n E t px qty b ts
       } else Some (qty, b, ts))"
    and top_none: "side_top s b S \<Longrightarrow> \<not> avail b \<Longrightarrow> S = {}"
    and top_best: "side_top s b S \<Longrightarrow> avail b \<Longrightarrow> best_idx b \<in> S \<and> (\<forall>k \<in> S. tick_first s (best_idx b) k) \<and>
      unat (best b) = unat (min_price b) + best_idx b"
    and top_fields: "top_of s b = top_of s b' \<Longrightarrow> avail b = avail b' \<and> best_idx b = best_idx b'"
    and advance_top: "core E b q F \<Longrightarrow> avail b \<Longrightarrow> side_top s b (insert (best_idx b) (occ (q s))) \<Longrightarrow>
      best_idx b \<notin> occ (q s) \<Longrightarrow>
      \<exists>b'. advance E b = Some b' \<and> side_top s b' (occ (q s)) \<and> same_data b b' \<and>
        top_of (opposite s) b' = top_of (opposite s) b"
begin

lemma loop_stop: "\<not> (avail b \<and> qty > 0 \<and> crosses (opposite s) px (best b)) \<Longrightarrow>
  loop (Suc n) E t px qty b ts = Some (qty, b, ts)"
  unfolding loop_Suc by (rule if_not_P)

text \<open>A loop that returns returns the same with more fuel.\<close>

lemma loop_more: "loop n E t px qty b ts = Some r \<Longrightarrow> n \<le> m \<Longrightarrow> loop m E t px qty b ts = Some r"
proof (induction n arbitrary: m qty b ts)
  case (Suc n)
  then obtain k where m: "m = Suc k" "n \<le> k" by (cases m) auto
  show ?case
  proof (cases "avail b \<and> qty > 0 \<and> crosses (opposite s) px (best b)")
    case True
    with Suc.prems(1) obtain b1 qty1 ts1 level b2 where 1: "fill_level ignore_book E (opposite s) t (best_idx b) qty b ts = Some (b1, qty1, ts1)"
      "vec_get (levels s b1) (best_idx b) = Some level" "(if level_is_empty level then advance E b1 else Some b1) = Some b2"
      "loop n E t px qty1 b2 ts1 = Some r"
      unfolding loop_Suc by (auto simp: Let_def bind_eq_Some_conv)
    have "loop k E t px qty1 b2 ts1 = Some r" by (rule Suc.IH [OF 1(4) m(2)])
    with 1(1-3) True show ?thesis unfolding m(1) loop_Suc by (simp add: Let_def)
  next
    case False
    with Suc.prems(1) show ?thesis unfolding m(1) by (simp add: loop_stop)
  qed
qed (simp add: loop_0)

text \<open>Every order of the side is at the best price or behind it.\<close>

lemma side_prices:
  assumes "core E b q F" "side_top s b (occ (q s))" "avail b" "r \<in> set (abs_side s b q)"
  shows "no_worse s (best b) (rprice r)"
proof -
  obtain x where x: "x \<in> set (concat (q s))" "r = rest_of (slab b) x"
    using assms(4) by (auto simp: abs_side_def side_seq_set simp del: side_seq.simps)
  then obtain k where k: "k < length (q s)" "x \<in> set (q s ! k)" unfolding in_concat_nth by blast
  then have "k \<in> occ (q s)" "k < range_of b"
    using assms(1) by (auto simp: occ_def core_def side_queues_def)
  then have "tick_first s (best_idx b) k" "unat (rprice r) = unat (min_price b) + k"
    "unat (best b) = unat (min_price b) + best_idx b"
    using top_best [OF assms(2,3)] core_price [OF assms(1) _ k(2)] x(2) by (auto simp: rest_of_def)
  then show ?thesis by (cases s) (simp_all add: word_le_nat_alt)
qed

text \<open>When the guard fails, the specification fills nothing.\<close>

lemma stop_spec:
  assumes "core E b q F" "side_top s b (occ (q s))"
    "\<not> (avail b \<and> qty > 0 \<and> crosses (opposite s) px (best b))"
  shows "spec_fill (crosses (opposite s) px) t qty (abs_side s b q) = ([], qty, abs_side s b q)"
proof (cases "abs_side s b q")
  case (Cons r rs)
  have "\<not> crosses (opposite s) px (rprice r)" if "qty \<noteq> 0"
  proof (cases "avail b")
    case True
    then have "\<not> crosses (opposite s) px (best b)" using assms(3) that by (simp add: word_gt_0)
    moreover have "no_worse s (best b) (rprice r)" using side_prices [OF assms(1,2) True] Cons by simp
    ultimately show ?thesis using no_worse_trans by (auto simp: crosses_def)
  next
    case False
    then have "occ (q s) = {}" using top_none [OF assms(2)] by simp
    then have "concat (q s) = []" unfolding concat_Nil_iff by (auto simp: occ_def)
    then have "set (side_seq s (q s)) = {}" by (simp add: side_seq_set del: side_seq.simps)
    with Cons show ?thesis by (simp add: abs_side_def del: side_seq.simps)
  qed
  then show ?thesis using Cons by auto
qed simp

text \<open>One pass of the loop: the best level is filled, and left behind when it is drained.\<close>

lemma loop_pass:
  assumes br: "book_rel E b q F" and g: "avail b" "qty > 0" "crosses (opposite s) px (best b)"
  obtains b1 qty1 ts1 zs F1 where
    "core E b1 (q(s := (q s)[best_idx b := zs])) F1" "same_frame b b1" "zs \<noteq> [] \<longrightarrow> qty1 = 0" "best_idx b \<in> occ (q s)"
    "occ ((q s)[best_idx b := zs]) = (if zs = [] then occ (q s) - {best_idx b} else occ (q s))"
    "abs_side (opposite s) b1 (q(s := (q s)[best_idx b := zs])) = abs_side (opposite s) b q"
    "\<forall>ts2 qty2 ws. spec_fill (crosses (opposite s) px) t qty1 (map (rest_of (slab b1)) (side_seq s ((q s)[best_idx b := []]))) = (ts2, qty2, ws) \<longrightarrow>
      spec_fill (crosses (opposite s) px) t qty (abs_side s b q) = (ts1 @ ts2, qty2, map (rest_of (slab b1)) zs @ ws)"
    "abs_side s b1 (q(s := (q s)[best_idx b := zs])) =
      map (rest_of (slab b1)) zs @ map (rest_of (slab b1)) (side_seq s ((q s)[best_idx b := []]))"
    "\<forall>n. loop (Suc n) E t px qty b ts = do {
       b \<leftarrow> (if zs = [] then advance E b1 else Some b1);
       loop n E t px qty1 b (ts @ ts1) }"
    "logged E b (fill_log (opposite s) t qty (map (rest_of (slab b)) (q s ! best_idx b))) b1"
    "spec_fill (\<lambda>_. True) t qty (map (rest_of (slab b)) (q s ! best_idx b)) = (ts1, qty1, map (rest_of (slab b1)) zs)"
    "abs_side s b q = map (rest_of (slab b)) (q s ! best_idx b) @ map (rest_of (slab b1)) (side_seq s ((q s)[best_idx b := []]))"
proof -
  let ?i = "best_idx b" and ?c = "crosses (opposite s) px"
  have c: "core E b q F" and tp: "side_top s b (occ (q s))" using br by (auto simp: book_rel_def simp del: side_top.simps)
  have i: "?i \<in> occ (q s)" "\<forall>k \<in> occ (q s). tick_first s ?i k" "unat (best b) = unat (min_price b) + ?i"
    using top_best [OF tp g(1)] by auto
  have il: "?i < length (q s)" "?i < range_of b" using i(1) c by (auto simp: occ_def core_def side_queues_def)
  have "o_price (slot (slab b) x) = best b" if "x \<in> set (q s ! ?i)" for x
    using core_price [OF c il(2) that] i(3) by (simp add: word_unat_eq_iff)
  then obtain b1 qty1 ts1 zs F1 where 1: "fill_level ignore_book E (opposite s) t ?i qty b ts = Some (b1, qty1, ts @ ts1)"
    "core E b1 (q(s := (q s)[?i := zs])) F1" "same_frame b b1" "zs \<noteq> [] \<longrightarrow> qty1 = 0"
    "abs_side (opposite s) b1 (q(s := (q s)[?i := zs])) = abs_side (opposite s) b q"
    "\<forall>ts2 qty2 ws. spec_fill ?c t qty1 (map (rest_of (slab b1)) (side_seq s ((q s)[?i := []]))) = (ts2, qty2, ws) \<longrightarrow>
      spec_fill ?c t qty (abs_side s b q) = (ts1 @ ts2, qty2, map (rest_of (slab b1)) zs @ ws)"
    "logged E b (fill_log (opposite s) t qty (map (rest_of (slab b)) (q s ! ?i))) b1"
    "spec_fill (\<lambda>_. True) t qty (map (rest_of (slab b)) (q s ! ?i)) = (ts1, qty1, map (rest_of (slab b1)) zs)"
    "abs_side s b q = map (rest_of (slab b)) (q s ! ?i) @ map (rest_of (slab b1)) (side_seq s ((q s)[?i := []]))"
    using best_level_fill [OF br, of ?i "opposite s" ?c t qty ts] i g by fastforce
  let ?q = "q(s := (q s)[?i := zs])"
  have st: "static b1 = static b" using 1(3) by (simp add: same_frame_def)
  have rg: "?i < range_of b1" using il(2) static_range [OF st] by simp
  have oc: "occ ((q s)[?i := zs]) = (if zs = [] then occ (q s) - {?i} else occ (q s))"
    using occ_upd [OF il(1), of zs] i(1) by auto
  have emp: "level_is_empty (levels s b1 ! ?i) \<longleftrightarrow> zs = []"
    using level_empty_occ [OF 1(2) rg, of s] oc i(1) by auto
  have lv: "vec_get (levels s b1) ?i = Some (levels s b1 ! ?i)"
    using core_levels [OF 1(2), of s] rg by (simp add: vec_simps)
  have seq: "abs_side s b1 ?q = map (rest_of (slab b1)) zs @ map (rest_of (slab b1)) (side_seq s ((q s)[?i := []]))"
    using side_seq_best [OF il(1) i(2), of zs] by (simp add: abs_side_def del: side_seq.simps)
  have "loop (Suc n) E t px qty b ts = do {
      b \<leftarrow> (if zs = [] then advance E b1 else Some b1);
      loop n E t px qty1 b (ts @ ts1) }" for n
    using g 1(1) lv emp by (simp add: loop_Suc [of n])
  with that 1(2-9) i(1) oc seq show thesis by blast
qed

text \<open>After a pass the relation holds again, once the best price has moved off a drained level.\<close>

lemma pass_rel:
  assumes br: "book_rel E b q F" and av: "avail b" and i: "best_idx b \<in> occ (q s)"
    and c1: "core E b1 (q(s := (q s)[best_idx b := zs])) F1" and fr: "same_frame b b1"
    and oc: "occ ((q s)[best_idx b := zs]) = (if zs = [] then occ (q s) - {best_idx b} else occ (q s))"
  shows "zs \<noteq> [] \<Longrightarrow> book_rel E b1 (q(s := (q s)[best_idx b := zs])) F1"
    "zs = [] \<Longrightarrow> \<exists>b2. advance E b1 = Some b2 \<and> book_rel E b2 (q(s := (q s)[best_idx b := zs])) F1 \<and> same_data b1 b2"
proof -
  let ?q = "q(s := (q s)[best_idx b := zs])"
  have tp: "side_top s b (occ (q s))" and to: "side_top (opposite s) b (occ (q (opposite s)))"
    using br by (auto simp: book_rel_def simp del: side_top.simps)
  have st: "static b1 = static b" "\<And>u. top_of u b1 = top_of u b" using fr by (simp_all add: same_frame_def)
  have avl: "avail b1" "best_idx b1 = best_idx b" using top_fields [of b1 b] st(2) av by auto
  have to1: "side_top (opposite s) b1 (occ (?q (opposite s)))" using to side_top_frame [OF st] by simp
  show "book_rel E b1 ?q F1" if "zs \<noteq> []"
  proof -
    have "side_top s b1 (occ (?q s))" using tp side_top_frame [OF st] oc that by simp
    then show ?thesis using c1 to1 book_relI by blast
  qed
  show "\<exists>b2. advance E b1 = Some b2 \<and> book_rel E b2 ?q F1 \<and> same_data b1 b2" if "zs = []"
  proof -
    have ins: "insert (best_idx b) (occ (?q s)) = occ (q s)" "best_idx b \<notin> occ (?q s)" using oc i that by auto
    have "side_top s b1 (insert (best_idx b1) (occ (?q s)))" using tp side_top_frame [OF st] ins(1) avl(2) by simp
    with advance_top [OF c1 avl(1)] avl(2) ins(2)
    obtain b2 where b2: "advance E b1 = Some b2" "side_top s b2 (occ (?q s))" "same_data b1 b2"
      "top_of (opposite s) b2 = top_of (opposite s) b1"
      by auto
    have "static b2 = static b1" using b2(3) by (simp add: same_data_def)
    then have "side_top (opposite s) b2 (occ (?q (opposite s)))" using to1 side_top_frame [OF _ b2(4)] by simp
    then show ?thesis using b2 book_relI same_data_core [OF c1 b2(3)] by blast
  qed
qed

theorem loop_correct:
  assumes "book_rel E b q F" "card (occ (q s)) < n"
  shows "\<exists>b' qty' ts' Q' F'. loop n E t px qty b ts = Some (qty', b', ts @ ts') \<and>
    book_rel E b' (q(s := Q')) F' \<and> static b' = static b \<and>
    spec_fill (crosses (opposite s) px) t qty (abs_side s b q) = (ts', qty', abs_side s b' (q(s := Q'))) \<and>
    abs_side (opposite s) b' (q(s := Q')) = abs_side (opposite s) b q"
  using assms
proof (induction n arbitrary: b q F qty ts)
  case (Suc n)
  have c: "core E b q F" and tp: "side_top s b (occ (q s))" using Suc.prems(1) by (auto simp: book_rel_def simp del: side_top.simps)
  show ?case
  proof (cases "avail b \<and> qty > 0 \<and> crosses (opposite s) px (best b)")
    case False
    have "q(s := q s) = q" by simp
    with Suc.prems(1) loop_stop [OF False, of n E t ts] stop_spec [OF c tp False] show ?thesis
      by (metis append_Nil2)
  next
    case True
    let ?c = "crosses (opposite s) px"
    have g: "avail b" "qty > 0" "crosses (opposite s) px (best b)" using True by auto
    obtain b1 qty1 ts1 zs F1 where p: "core E b1 (q(s := (q s)[best_idx b := zs])) F1" "same_frame b b1" "zs \<noteq> [] \<longrightarrow> qty1 = 0"
      "best_idx b \<in> occ (q s)" "occ ((q s)[best_idx b := zs]) = (if zs = [] then occ (q s) - {best_idx b} else occ (q s))"
      "abs_side (opposite s) b1 (q(s := (q s)[best_idx b := zs])) = abs_side (opposite s) b q"
      and fill: "\<forall>ts2 qty2 ws. spec_fill ?c t qty1 (map (rest_of (slab b1)) (side_seq s ((q s)[best_idx b := []]))) = (ts2, qty2, ws) \<longrightarrow>
        spec_fill ?c t qty (abs_side s b q) = (ts1 @ ts2, qty2, map (rest_of (slab b1)) zs @ ws)"
      and seq: "abs_side s b1 (q(s := (q s)[best_idx b := zs])) =
        map (rest_of (slab b1)) zs @ map (rest_of (slab b1)) (side_seq s ((q s)[best_idx b := []]))"
      and step: "\<forall>n. loop (Suc n) E t px qty b ts = do {
        b \<leftarrow> (if zs = [] then advance E b1 else Some b1); loop n E t px qty1 b (ts @ ts1) }"
      by (rule loop_pass [OF Suc.prems(1) g, where t = t and ts = ts]) (rule that; assumption)
    let ?q = "q(s := (q s)[best_idx b := zs])"
    have st: "static b1 = static b" using p(2) by (simp add: same_frame_def)
    note rel = pass_rel [OF Suc.prems(1) g(1) p(4,1,2,5)]
    show ?thesis
    proof (cases "zs = []")
      case False
      then have q1: "qty1 = 0" using p(3) by simp
      have "0 < card (occ (q s))" using p(4) by (auto simp: card_gt_0_iff occ_def)
      then obtain n' where n: "n = Suc n'" using Suc.prems(2) by (cases n) auto
      have "loop (Suc n) E t px qty b ts = Some (qty1, b1, ts @ ts1)"
        using False step loop_stop [of b1 0 px n' E t "ts @ ts1"] by (simp add: n q1)
      moreover have "spec_fill ?c t qty (abs_side s b q) = (ts1, qty1, abs_side s b1 ?q)"
        using fill unfolding seq q1 by simp
      ultimately show ?thesis using rel(1) [OF False] st p(6) by blast
    next
      case True
      then obtain b2 where b2: "advance E b1 = Some b2" "book_rel E b2 ?q F1" "same_data b1 b2" using rel(2) by blast
      have "card (occ (?q s)) < n"
        using card_Diff1_less [OF finite_occ p(4)] p(5) True Suc.prems(2) by simp
      from Suc.IH [OF b2(2) this, of qty1 "ts @ ts1"]
      obtain b' qty' ts' Q' F' where 2: "loop n E t px qty1 b2 (ts @ ts1) = Some (qty', b', (ts @ ts1) @ ts')"
        "book_rel E b' (?q(s := Q')) F'" "static b' = static b2"
        "spec_fill ?c t qty1 (abs_side s b2 ?q) = (ts', qty', abs_side s b' (?q(s := Q')))"
        "abs_side (opposite s) b' (?q(s := Q')) = abs_side (opposite s) b2 ?q"
        by blast
      have "spec_fill ?c t qty (abs_side s b q) = (ts1 @ ts', qty', abs_side s b' (q(s := Q')))"
        using fill 2(4) seq True by (simp add: abs_side_data [OF b2(3)])
      moreover have "loop (Suc n) E t px qty b ts = Some (qty', b', ts @ (ts1 @ ts'))" using step True b2(1) 2(1) by simp
      moreover have "static b' = static b" using 2(3) b2(3) st by (simp add: same_data_def)
      moreover have "abs_side (opposite s) b' (q(s := Q')) = abs_side (opposite s) b q"
        using 2(5) p(6) abs_side_data [OF b2(3)] by simp
      moreover have "book_rel E b' (q(s := Q')) F'" using 2(2) by simp
      ultimately show ?thesis by blast
    qed
  qed
qed simp

end

interpretation buy: match_side Sell "match_buy_loop ignore_book" has_asks best_ask best_ask_idx advance_best_ask
proof
  show "match_buy_loop ignore_book (Suc n) E t px qty b ts =
      (if has_asks b \<and> qty > 0 \<and> crosses (opposite Sell) px (best_ask b) then do {
         let li = best_ask_idx b;
         (b, qty, ts) \<leftarrow> fill_level ignore_book E (opposite Sell) t li qty b ts;
         level \<leftarrow> vec_get (levels Sell b) li;
         b \<leftarrow> (if level_is_empty level then advance_best_ask E b else Some b);
         match_buy_loop ignore_book n E t px qty b ts
       } else Some (qty, b, ts))" for n E t px qty b ts
    by (simp add: crosses_def)
qed (use advance_best_ask_top in auto)

interpretation sell: match_side Buy "match_sell_loop ignore_book" has_bids best_bid best_bid_idx advance_best_bid
proof
  show "match_sell_loop ignore_book (Suc n) E t px qty b ts =
      (if has_bids b \<and> qty > 0 \<and> crosses (opposite Buy) px (best_bid b) then do {
         let li = best_bid_idx b;
         (b, qty, ts) \<leftarrow> fill_level ignore_book E (opposite Buy) t li qty b ts;
         level \<leftarrow> vec_get (levels Buy b) li;
         b \<leftarrow> (if level_is_empty level then advance_best_bid E b else Some b);
         match_sell_loop ignore_book n E t px qty b ts
       } else Some (qty, b, ts))" for n E t px qty b ts
    by (simp add: crosses_def)
qed (use advance_best_bid_top in auto)

section \<open>Matching an order\<close>

lemma card_occ: "card (occ Q) \<le> length Q"
proof -
  have "card (occ Q) \<le> card {..<length Q}" by (rule card_mono) (auto simp: occ_def)
  then show ?thesis by simp
qed

theorem match_order_direct_rel:
  assumes "book_rel E b q F"
  shows "\<exists>b' qty' ts q' F'. match_order_direct ignore_book E side t px qty b = Some (qty', b', ts) \<and>
    book_rel E b' q' F' \<and> static b' = static b \<and>
    spec_match t px qty side (book_abs b) = (ts, qty', book_abs b')"
proof -
  let ?s = "opposite side"
  have c: "core E b q F" using assms by (simp add: book_rel_def)
  have n: "card (occ (q ?s)) < Suc (length (levels ?s b))"
    using card_occ [of "q ?s"] c by (simp add: core_def side_queues_def less_Suc_eq_le)
  have "\<exists>b' qty' ts' Q' F'. match_order_direct ignore_book E side t px qty b = Some (qty', b', ts') \<and>
    book_rel E b' (q(?s := Q')) F' \<and> static b' = static b \<and>
    spec_fill (crosses side px) t qty (abs_side ?s b q) = (ts', qty', abs_side ?s b' (q(?s := Q'))) \<and>
    abs_side side b' (q(?s := Q')) = abs_side side b q"
  proof (cases side)
    case Buy
    with buy.loop_correct [OF assms, of "Suc (length (asks_levels b))" t px qty "[]"] n show ?thesis
      by (simp add: match_order_direct_def)
  next
    case Sell
    with sell.loop_correct [OF assms, of "Suc (length (bids_levels b))" t px qty "[]"] n show ?thesis
      by (simp add: match_order_direct_def)
  qed
  then obtain b' qty' ts' Q' F' where 1: "match_order_direct ignore_book E side t px qty b = Some (qty', b', ts')"
    "book_rel E b' (q(?s := Q')) F'" "static b' = static b"
    "spec_fill (crosses side px) t qty (abs_side ?s b q) = (ts', qty', abs_side ?s b' (q(?s := Q')))"
    "abs_side side b' (q(?s := Q')) = abs_side side b q"
    by blast
  have c': "core E b' (q(?s := Q')) F'" using 1(2) by (simp add: book_rel_def)
  have "set_resting ?s (abs_side ?s b' (q(?s := Q'))) (book_abs b) = book_abs b'"
    using 1(5) side_abs_rel [OF c] side_abs_rel [OF c'] by (cases side) (simp_all add: book_abs_def)
  then have "spec_match t px qty side (book_abs b) = (ts', qty', book_abs b')"
    using 1(4) by (simp add: spec_match_def book_abs_resting [OF c])
  with 1(1-3) show ?thesis by blast
qed

end
