(* ===== verification/Book_Refine.thy ===== *)
theory Book_Refine
  imports Book_Match
begin

text \<open>
  The public operations of \<open>class OrderBook\<close> implement the specification: resting a remainder
  is the stable insertion behind the orders of the same or a better price, cancelling is
  removing the order with the given id, and \<open>add_order\<close> is the specification's
  \<open>spec_add\<close>, result code, filled quantity and trades included. Every operation returns.
\<close>

section \<open>One tick within a side\<close>

lemma side_tick:
  assumes "core E b q F" "i < range_of b" "unat px = unat (min_price b) + i"
  shows "\<exists>A C. side_seq s (q s) = A @ q s ! i @ C \<and> (\<forall>v. side_seq s ((q s)[i := v]) = A @ v @ C) \<and>
    (\<forall>x \<in> set (A @ q s ! i). no_worse s (o_price (slot (slab b) x)) px) \<and>
    (\<forall>x \<in> set C. \<not> no_worse s (o_price (slot (slab b) x)) px)"
proof -
  have len: "length (q s) = range_of b" by (rule core_slots(4) [OF assms(1,2)])
  have pr: "\<exists>k. k \<in> K \<and> unat (o_price (slot (slab b) x)) = unat (min_price b) + k"
    if xc: "x \<in> set (concat Q)" and Qk: "\<And>j. j < length Q \<Longrightarrow> \<exists>k \<in> K. k < range_of b \<and> Q ! j = q s ! k" for x Q and K :: "nat set"
  proof -
    obtain j where j: "j < length Q" "x \<in> set (Q ! j)" using xc [unfolded in_concat_nth] by blast
    then show ?thesis using Qk [OF j(1)] core_price [OF assms(1)] by metis
  qed
  have here: "unat (o_price (slot (slab b) x)) = unat px" if "x \<in> set (q s ! i)" for x
    using core_price [OF assms(1,2) that] assms(3) by simp
  have lo: "unat (o_price (slot (slab b) x)) < unat px" if "x \<in> set (concat (take i (q s)))" for x
    using pr [OF that, of "{..<i}"] len assms(2,3) by fastforce
  have hi: "unat px < unat (o_price (slot (slab b) x))" if "x \<in> set (concat (drop (Suc i) (q s)))" for x
  proof -
    have "\<exists>k \<in> {i<..}. k < range_of b \<and> drop (Suc i) (q s) ! j = q s ! k" if "j < length (drop (Suc i) (q s))" for j
      using that len by (intro bexI [of _ "Suc i + j"]) auto
    from pr [OF that, of "{i<..}", OF this] assms(3) show ?thesis by auto
  qed
  show ?thesis
  proof (cases s)
    case Buy
    let ?A = "concat (rev (drop (Suc i) (q s)))" and ?C = "concat (rev (take i (q s)))"
    have "\<forall>x \<in> set (?A @ q s ! i). no_worse s (o_price (slot (slab b) x)) px"
      using hi here by (fastforce simp: Buy word_le_nat_alt)
    moreover have "\<forall>x \<in> set ?C. \<not> no_worse s (o_price (slot (slab b) x)) px"
      using lo by (fastforce simp: Buy word_le_nat_alt)
    moreover have "side_seq s (q s) = ?A @ q s ! i @ ?C" "\<forall>v. side_seq s ((q s)[i := v]) = ?A @ v @ ?C"
      using concat_rev_split [of i "q s"] concat_rev_upd [of i "q s"] len assms(2) by (simp_all add: Buy)
    ultimately show ?thesis by blast
  next
    case Sell
    let ?A = "concat (take i (q s))" and ?C = "concat (drop (Suc i) (q s))"
    have "\<forall>x \<in> set (?A @ q s ! i). no_worse s (o_price (slot (slab b) x)) px"
      using lo here by (fastforce simp: Sell word_le_nat_alt)
    moreover have "\<forall>x \<in> set ?C. \<not> no_worse s (o_price (slot (slab b) x)) px"
      using hi by (fastforce simp: Sell word_le_nat_alt)
    moreover have "side_seq s (q s) = ?A @ q s ! i @ ?C" "\<forall>v. side_seq s ((q s)[i := v]) = ?A @ v @ ?C"
      using concat_split [of i "q s"] concat_upd [of i "q s"] len assms(2) by (simp_all add: Sell)
    ultimately show ?thesis by blast
  qed
qed

lemma spec_insert_at:
  assumes "\<forall>r \<in> set A. no_worse s (rprice r) (rprice x)" "\<forall>r \<in> set C. \<not> no_worse s (rprice r) (rprice x)"
  shows "spec_insert s x (A @ C) = A @ x # C"
  using assms by (cases C) (auto simp: spec_insert_def takeWhile_append dropWhile_append)

section \<open>Resting\<close>

lemma pool_rel_slab:
  assumes "pool_rel E p F" "length sl = length (pool p)" "\<forall>y \<in> set F. slot sl y = slot (pool p) y"
  shows "pool_rel E (p\<lparr>pool := sl\<rparr>) F"
proof -
  have "flist sl (free_head p) F"
    by (rule flist_frame [where P = "pool p"]) (use assms in \<open>auto simp: pool_rel_def\<close>)
  then show ?thesis using assms by (auto simp: pool_rel_def stamps_ok_def)
qed

text \<open>In the specification, a slot linked at the end of its tick is the stable insertion of its order.\<close>

lemma abs_insert:
  fixes b b' :: OrderBook
  assumes c: "core E b q F" and c': "core E b' (q(s := (q s)[i := q s ! i @ [x]])) F'" and i: "i < range_of b"
    and px: "unat (rprice r) = unat (min_price b) + i" and x: "x \<notin> set (live q)" and rx: "rest_of (slab b') x = r"
    and ro: "\<forall>y. y \<noteq> x \<longrightarrow> rest_of (slab b') y = rest_of (slab b) y"
  shows "book_abs b' = set_resting s (spec_insert s r (resting s (book_abs b))) (book_abs b)"
proof -
  let ?xs = "q s ! i" and ?q = "q(s := (q s)[i := q s ! i @ [x]])"
  obtain A C where AC: "side_seq s (q s) = A @ ?xs @ C" "\<forall>v. side_seq s ((q s)[i := v]) = A @ v @ C"
    "\<forall>y \<in> set (A @ ?xs). no_worse s (o_price (slot (slab b) y)) (rprice r)"
    "\<forall>y \<in> set C. \<not> no_worse s (o_price (slot (slab b) y)) (rprice r)"
    using side_tick [OF c i px, of s] by blast
  have "set (A @ ?xs @ C) \<subseteq> set (live q)"
    unfolding AC(1) [symmetric] by (simp add: side_seq_set live_set [of q s] del: side_seq.simps)
  then have nx: "\<forall>y \<in> set (A @ ?xs @ C). y \<noteq> x" using x by blast
  have "abs_side s b' ?q = map (rest_of (slab b)) (A @ ?xs) @ r # map (rest_of (slab b)) C"
    using nx ro rx by (simp add: abs_side_def AC(2) del: side_seq.simps)
  also have "\<dots> = spec_insert s r (map (rest_of (slab b)) (A @ ?xs) @ map (rest_of (slab b)) C)"
    by (rule spec_insert_at [symmetric]) (use AC(3,4) in \<open>auto simp: rest_of_def\<close>)
  also have "\<dots> = spec_insert s r (abs_side s b q)" by (simp add: abs_side_def AC(1) del: side_seq.simps)
  finally have "abs_side s b' ?q = spec_insert s r (abs_side s b q)" .
  moreover have "\<forall>y \<in> set (concat (q (opposite s))). y \<noteq> x" using x by (auto simp: live_set [of q s])
  then have "map (rest_of (slab b')) (side_seq (opposite s) (q (opposite s))) =
      map (rest_of (slab b)) (side_seq (opposite s) (q (opposite s)))"
    using ro by (simp add: side_seq_set del: side_seq.simps)
  then have "abs_side (opposite s) b' ?q = abs_side (opposite s) b q"
    by (simp add: abs_side_def del: side_seq.simps)
  ultimately show ?thesis
    unfolding book_abs_resting [OF c]
    using side_abs_rel [OF c] side_abs_rel [OF c'] by (cases s) (simp_all add: book_abs_def)
qed

text \<open>The slot-level effect of resting an order at the slot \<open>x\<close>, and what it is in the specification.\<close>

text \<open>The slot \<open>x\<close> written and appended: its level's queue grows by it, the free list is untouched.\<close>

lemma rest_slot:
  fixes b :: OrderBook and s :: Side
  assumes c: "core E b q (x # F)" and i: "i < range_of b" and p: "pool_rel E p F"
    and cp: "capacity p = capacity (order_pool b)" and same: "\<forall>y. y \<noteq> x \<longrightarrow> slot (pool p) y = slot (slab b) y"
  shows "\<exists>l' sl. append_order x (levels s b ! i) ((pool p)[unat x := ord]) = Some (l', sl) \<and>
    queue_rel sl l' (q s ! i @ [x]) \<and> payload (slot sl x) = payload ord \<and>
    (\<forall>y. y \<noteq> x \<longrightarrow> payload (slot sl y) = payload (slot (slab b) y)) \<and>
    (\<forall>y. y \<notin> insert x (set (q s ! i)) \<longrightarrow> slot sl y = slot (slab b) y) \<and>
    pool_rel E (p\<lparr>pool := sl\<rparr>) F"
proof -
  let ?P = "(pool p)[unat x := ord]" and ?xs = "q s ! i"
  note cs = core_slots [OF c i, of s]
  have x: "x \<notin> set (live q)" "x \<notin> set F" "unat x < capacity (order_pool b)" "x \<noteq> INVALID_INDEX"
    using c mp.free_not_invalid [of E "order_pool b" "x # F" x] by (auto simp: core_def pool_rel_def)
  have len: "length (pool p) = capacity (order_pool b)" "length (slab b) = capacity (order_pool b)"
    using p cp c by (simp_all add: pool_rel_def core_def)
  have xs: "x \<notin> set ?xs" using x(1) cs(2) by auto
  have sP: "slot ?P y = (if y = x then ord else slot (slab b) y)" for y
    using same x(3) len by (simp add: slot_upd)
  have "queue_rel ?P (levels s b ! i) ?xs" by (rule queue_rel_frame [OF cs(3)]) (use sP xs in auto)
  moreover have "slots_in ?P (?xs @ [x])" using cs(1) x xs len by (auto simp: slots_in_def)
  ultimately obtain l' sl where a: "append_order x (levels s b ! i) ?P = Some (l', sl)"
    "queue_rel sl l' (?xs @ [x])" "relinked (set (?xs @ [x])) ?P sl"
    using pl.rel_append by blast
  have pay: "payload (slot sl y) = payload (slot ?P y)" for y using a(3) by (simp add: relinked_def)
  have fr: "slot sl y = slot (slab b) y" if "y \<notin> insert x (set ?xs)" for y
    using a(3) sP that by (auto simp: relinked_def)
  have pl': "pool_rel E (p\<lparr>pool := sl\<rparr>) F"
  proof (rule pool_rel_slab [OF p])
    show "length sl = length (pool p)" using a(3) by (simp add: relinked_def)
    show "\<forall>y \<in> set F. slot sl y = slot (pool p) y"
    proof
      fix y assume y: "y \<in> set F"
      then have "y \<noteq> x" "y \<notin> set ?xs" using x(2) cs(2) core_live(3) [OF c] by auto
      then show "slot sl y = slot (pool p) y" using fr same by simp
    qed
  qed
  show ?thesis
    using a(1,2) pay fr pl' sP by (intro exI [of _ l'] exI [of _ sl]) simp
qed

lemma rest_core:
  fixes b :: OrderBook and s :: Side
  assumes c: "core E b q (x # F)" and i: "i < range_of b" and p: "pool_rel E p F"
    and cp: "capacity p = capacity (order_pool b)" and same: "\<forall>y. y \<noteq> x \<longrightarrow> slot (pool p) y = slot (slab b) y"
    and k: "k \<noteq> 0" "unat k \<le> max_order_id b" "order_map b ! unat k = INVALID_INDEX"
    and px: "unat px = unat (min_price b) + i" and qty: "qty \<noteq> 0"
  defines "ord \<equiv> \<lparr>o_next = INVALID_INDEX, o_prev = INVALID_INDEX, o_id = k, o_price = px, o_quantity = qty, o_side = side_u8 s\<rparr>"
  shows "\<exists>l' sl. append_order x (levels s b ! i) ((pool p)[unat x := ord]) = Some (l', sl) \<and>
    (\<forall>b'. levels s b' = (levels s b)[i := l'] \<longrightarrow> levels (opposite s) b' = levels (opposite s) b \<longrightarrow>
       order_pool b' = p\<lparr>pool := sl\<rparr> \<longrightarrow> order_map b' = (order_map b)[unat k := x] \<longrightarrow>
       active_count b' = active_count b + 1 \<longrightarrow> static b' = static b \<longrightarrow> journal_ok (journal b') \<longrightarrow>
       core E b' (q(s := (q s)[i := q s ! i @ [x]])) F \<and>
       book_abs b' = set_resting s (spec_insert s \<lparr>rid = k, rprice = px, rqty = qty\<rparr> (resting s (book_abs b))) (book_abs b))"
proof -
  have x: "x \<notin> set (live q)" "x \<notin> set (q s ! i)"
    using c core_slots(2) [OF c i, of s] by (auto simp: core_def)
  obtain l' sl where a: "append_order x (levels s b ! i) ((pool p)[unat x := ord]) = Some (l', sl)"
    "queue_rel sl l' (q s ! i @ [x])" and payx: "payload (slot sl x) = payload ord"
    and pay: "\<forall>y. y \<noteq> x \<longrightarrow> payload (slot sl y) = payload (slot (slab b) y)"
    and fr: "\<forall>y. y \<notin> insert x (set (q s ! i)) \<longrightarrow> slot sl y = slot (slab b) y"
    and pl': "pool_rel E (p\<lparr>pool := sl\<rparr>) F"
    using rest_slot [OF c i p cp same, of s ord] by blast
  show ?thesis
  proof (intro exI conjI allI impI)
    show "append_order x (levels s b ! i) ((pool p)[unat x := ord]) = Some (l', sl)" by (rule a(1))
    fix b' :: OrderBook
    assume b': "levels s b' = (levels s b)[i := l']" "levels (opposite s) b' = levels (opposite s) b"
       "order_pool b' = p\<lparr>pool := sl\<rparr>" "order_map b' = (order_map b)[unat k := x]"
       "active_count b' = active_count b + 1" "static b' = static b" "journal_ok (journal b')"
    have mn: "min_price b' = min_price b" using b'(6) by (simp add: static_def)
    show c': "core E b' (q(s := (q s)[i := q s ! i @ [x]])) F"
    proof (rule core_insert [OF c i])
      show "order_at b' s i x" "o_id (slot (slab b') x) = k"
        using payx px qty b'(3) mn by (auto simp: order_at_def payload_def ord_def)
      show "\<forall>y. y \<notin> insert x (set (q s ! i)) \<longrightarrow> slot (slab b') y = slot (slab b) y" using fr b'(3) by simp
      show "\<forall>y \<in> set (q s ! i). payload (slot (slab b') y) = payload (slot (slab b) y)"
        using pay x(2) b'(3) by auto
      show "queue_rel (slab b') l' (q s ! i @ [x])" using a(2) b'(3) by simp
    qed (use b' k pl' in auto)
    show "book_abs b' = set_resting s
        (spec_insert s \<lparr>rid = k, rprice = px, rqty = qty\<rparr> (resting s (book_abs b))) (book_abs b)"
    proof (rule abs_insert [OF c c' i _ x(1)])
      show "rest_of (slab b') x = \<lparr>rid = k, rprice = px, rqty = qty\<rparr>"
        using payx b'(3) by (simp add: rest_of_def payload_def ord_def)
      show "\<forall>y. y \<noteq> x \<longrightarrow> rest_of (slab b') y = rest_of (slab b) y"
        using pay b'(3) by (auto intro!: rest_of_eqI)
    qed (use px in simp)
  qed
qed

lemma announce_bid_top:
  assumes "geometry b" "side_top Buy b S" "i < range_of b" "unat px = unat (min_price b) + i" "e \<longleftrightarrow> i \<notin> S"
  shows "\<exists>b'. announce_bid E e px i b = Some b' \<and> side_top Buy b' (insert i S) \<and> same_data b b' \<and>
    top_of Sell b' = top_of Sell b"
proof -
  have bits: "bits_rel (range_of b) (bids_bitset b) (bids_summary b) S" using assms(2) by simp
  obtain bs sm where 1: "(if e then price_bit_set (bids_bitset b) (bids_summary b) i
      else Some (bids_bitset b, bids_summary b)) = Some (bs, sm)" "bits_rel (range_of b) bs sm (insert i S)"
    using pb.insert_ok [OF bits assms(3)] bits assms(5) by (cases e) (auto simp: insert_absorb)
  define b1 where "b1 = b\<lparr>bids_bitset := bs, bids_summary := sm\<rparr>"
  have d1: "same_data b b1" "range_of b1 = range_of b" "top_of Sell b1 = top_of Sell b" "min_price b1 = min_price b"
    "bids_bitset b1 = bs" "bids_summary b1 = sm" "best_bid b1 = best_bid b" "has_bids b1 = has_bids b"
    "best_bid_idx b1 = best_bid_idx b"
    unfolding b1_def same_data_def static_def by (simp_all add: all_sides [of _ Buy] range_of_def)
  have unf: "announce_bid E e px i b = (if \<not> has_bids b \<or> px > best_bid b then
       Some (HFT_JOURNAL E BestBidChanged 0 px 0 (side_u8 Buy)
         (b1\<lparr>best_bid := px, best_bid_idx := i, has_bids := True\<rparr>)) else Some b1)"
    unfolding announce_bid_def 1(1) by (simp add: b1_def cong: if_cong)
  have lt: "best_bid b < px \<longleftrightarrow> best_bid_idx b < i" if "has_bids b"
    using assms(2,4) that by (simp add: word_less_nat_alt)
  show ?thesis
  proof (cases "\<not> has_bids b \<or> px > best_bid b")
    case True
    let ?b = "b1\<lparr>best_bid := px, best_bid_idx := i, has_bids := True\<rparr>"
    have "same_data b1 ?b" unfolding same_data_def static_def by (simp add: all_sides [of _ Buy])
    then have "same_data b (HFT_JOURNAL E BestBidChanged 0 px 0 (side_u8 Buy) ?b)"
      using d1(1) same_data_trans journal_data unfolding HFT_JOURNAL_eq by blast
    moreover have "\<forall>k \<in> S. k \<le> i" using True lt assms(2) by (cases "has_bids b") auto
    then have "side_top Buy ?b (insert i S)" using 1(2) d1 assms(4) by (simp add: range_of_def)
    then have "side_top Buy (HFT_JOURNAL E BestBidChanged 0 px 0 (side_u8 Buy) ?b) (insert i S)"
      unfolding HFT_JOURNAL_eq journal_top .
    moreover have "top_of Sell (HFT_JOURNAL E BestBidChanged 0 px 0 (side_u8 Buy) ?b) = top_of Sell b"
      using d1(3) unfolding HFT_JOURNAL_eq journal_keeps by simp
    ultimately show ?thesis using unf True by auto
  next
    case False
    then have "side_top Buy b1 (insert i S)" using 1(2) d1 lt assms(2) by auto
    then show ?thesis using unf False d1(1,3) by auto
  qed
qed

lemma announce_ask_top:
  assumes "geometry b" "side_top Sell b S" "i < range_of b" "unat px = unat (min_price b) + i" "e \<longleftrightarrow> i \<notin> S"
  shows "\<exists>b'. announce_ask E e px i b = Some b' \<and> side_top Sell b' (insert i S) \<and> same_data b b' \<and>
    top_of Buy b' = top_of Buy b"
proof -
  have bits: "bits_rel (range_of b) (asks_bitset b) (asks_summary b) S" using assms(2) by simp
  obtain bs sm where 1: "(if e then price_bit_set (asks_bitset b) (asks_summary b) i
      else Some (asks_bitset b, asks_summary b)) = Some (bs, sm)" "bits_rel (range_of b) bs sm (insert i S)"
    using pb.insert_ok [OF bits assms(3)] bits assms(5) by (cases e) (auto simp: insert_absorb)
  define b1 where "b1 = b\<lparr>asks_bitset := bs, asks_summary := sm\<rparr>"
  have d1: "same_data b b1" "range_of b1 = range_of b" "top_of Buy b1 = top_of Buy b" "min_price b1 = min_price b"
    "asks_bitset b1 = bs" "asks_summary b1 = sm" "best_ask b1 = best_ask b" "has_asks b1 = has_asks b"
    "best_ask_idx b1 = best_ask_idx b"
    unfolding b1_def same_data_def static_def by (simp_all add: all_sides [of _ Buy] range_of_def)
  have unf: "announce_ask E e px i b = (if \<not> has_asks b \<or> px < best_ask b then
       Some (HFT_JOURNAL E BestAskChanged 0 px 0 (side_u8 Sell)
         (b1\<lparr>best_ask := px, best_ask_idx := i, has_asks := True\<rparr>)) else Some b1)"
    unfolding announce_ask_def 1(1) by (simp add: b1_def cong: if_cong)
  have lt: "px < best_ask b \<longleftrightarrow> i < best_ask_idx b" if "has_asks b"
    using assms(2,4) that by (simp add: word_less_nat_alt)
  show ?thesis
  proof (cases "\<not> has_asks b \<or> px < best_ask b")
    case True
    let ?b = "b1\<lparr>best_ask := px, best_ask_idx := i, has_asks := True\<rparr>"
    have "same_data b1 ?b" unfolding same_data_def static_def by (simp add: all_sides [of _ Buy])
    then have "same_data b (HFT_JOURNAL E BestAskChanged 0 px 0 (side_u8 Sell) ?b)"
      using d1(1) same_data_trans journal_data unfolding HFT_JOURNAL_eq by blast
    moreover have "\<forall>k \<in> S. i \<le> k" using True lt assms(2) by (cases "has_asks b") auto
    then have "side_top Sell ?b (insert i S)" using 1(2) d1 assms(4) by (simp add: range_of_def)
    then have "side_top Sell (HFT_JOURNAL E BestAskChanged 0 px 0 (side_u8 Sell) ?b) (insert i S)"
      unfolding HFT_JOURNAL_eq journal_top .
    moreover have "top_of Buy (HFT_JOURNAL E BestAskChanged 0 px 0 (side_u8 Sell) ?b) = top_of Buy b"
      using d1(3) unfolding HFT_JOURNAL_eq journal_keeps by simp
    ultimately show ?thesis using unf True by auto
  next
    case False
    then have "side_top Sell b1 (insert i S)" using 1(2) d1 lt assms(2) by auto
    then show ?thesis using unf False d1(1,3) by auto
  qed
qed

lemma level_append_some:
  assumes "bit_idx < length (levels s b)" "append_order x (levels s b ! bit_idx) (slab b) = Some (l', sl)"
  shows "level_append s x bit_idx b = Some (level_is_empty (levels s b ! bit_idx),
    (set_levels s ((levels s b)[bit_idx := l']) b)\<lparr>order_pool := (order_pool b)\<lparr>pool := sl\<rparr>\<rparr>)"
  using assms by (simp add: level_append_def vec_simps)

lemma book_relE:
  assumes "book_rel E b q F"
  shows "core E b q F" "side_top s b (occ (q s))" "geometry b"
  using assms by (auto simp: book_rel_def core_def simp del: side_top.simps)

lemma journal_book_rel: "book_rel E b q F \<Longrightarrow> book_rel E (HFT_JOURNAL_REASON E' ev i px qty sd r b) q F"
  using same_data_core [OF _ journal_data] by (simp add: book_rel_def journal_top del: side_top.simps)

lemma same_data_abs:
  assumes "core E b q F" "same_data b b'"
  shows "book_abs b' = book_abs b"
  using side_abs_rel [OF assms(1)] side_abs_rel [OF same_data_core [OF assms]] abs_side_data [OF assms(2)]
  by (simp add: book_abs_def)

lemma journal_abs [simp]: "book_abs (HFT_JOURNAL_REASON E ev i px qty sd r b) = book_abs b"
  "cfg_of (HFT_JOURNAL_REASON E ev i px qty sd r b) = cfg_of b"
  by (simp_all add: book_abs_def side_abs_def level_slots_def [abs_def] cfg_of_def)

lemma announce_side_top:
  assumes "geometry b" "side_top s b S" "i < range_of b" "unat px = unat (min_price b) + i" "e \<longleftrightarrow> i \<notin> S"
  shows "\<exists>b'. (case s of Buy \<Rightarrow> announce_bid E e px i b | Sell \<Rightarrow> announce_ask E e px i b) = Some b' \<and>
    side_top s b' (insert i S) \<and> same_data b b' \<and> top_of (opposite s) b' = top_of (opposite s) b"
  using announce_bid_top [of b S i px e E] announce_ask_top [of b S i px e E] assms
  by (cases s) (simp_all del: side_top.simps top_of.simps)

text \<open>No free slot: the remainder is refused and the book keeps its orders.\<close>

lemma rest_order_full:
  assumes br: "book_rel E b q []"
  shows "\<exists>b'. rest_order E k px qty side b = Some (PoolExhausted, b') \<and> book_rel E b' q [] \<and> static b' = static b \<and>
    spec_rest (cfg_of b) k px qty side (book_abs b) = (PoolExhausted, book_abs b')"
proof -
  note c = book_relE(1) [OF br]
  let ?b = "HFT_JOURNAL_REASON E EvPoolExhausted k px qty (side_u8 side) 0 b"
  have "allocate E (order_pool b) = Some (INVALID_INDEX, order_pool b)"
    using c mp.alloc_none by (simp add: core_def)
  then have "rest_order E k px qty side b = Some (PoolExhausted, ?b)"
    by (simp add: rest_order_def HFT_JOURNAL_eq)
  moreover have "book_size (book_abs b) = capacity (order_pool b)"
    using abs_size [OF c] c by (simp add: core_def)
  then have "spec_rest (cfg_of b) k px qty side (book_abs b) = (PoolExhausted, book_abs ?b)"
    by (simp add: spec_rest_def cfg_of_def)
  ultimately show ?thesis using journal_book_rel [OF br] by auto
qed

text \<open>
  A free slot \<open>x\<close>: \<open>rest_order\<close> takes it and links it, which leaves the caches of the best
  prices to be brought up to date.
\<close>

lemma rest_linked:
  fixes b :: OrderBook and s :: Side
  assumes c: "core E b q (x # F)" and i: "i < range_of b" and px: "unat px = unat (min_price b) + i" and qty: "qty \<noteq> 0"
    and k: "k \<noteq> 0" "unat k \<le> max_order_id b" "order_map b ! unat k = INVALID_INDEX"
  defines "e \<equiv> level_is_empty (levels s b ! i)"
  shows "\<exists>b2. rest_order E k px qty s b = do {
       b \<leftarrow> (case s of Buy \<Rightarrow> announce_bid E e px i b2 | Sell \<Rightarrow> announce_ask E e px i b2);
       Some (Accepted, HFT_JOURNAL E OrderRested k px qty (side_u8 s) b) } \<and>
     static b2 = static b \<and> length (order_map b2) = length (order_map b) \<and> (\<forall>u. top_of u b2 = top_of u b) \<and>
     journal b2 = journal b \<and>
     (\<forall>b'. same_data b2 b' \<longrightarrow> core E b' (q(s := (q s)[i := q s ! i @ [x]])) F \<and>
       book_abs b' = set_resting s (spec_insert s \<lparr>rid = k, rprice = px, rqty = qty\<rparr> (resting s (book_abs b))) (book_abs b))"
proof -
  obtain p where p: "allocate E (order_pool b) = Some (x, p)" "pool_rel E p F" "capacity p = capacity (order_pool b)"
    "\<forall>y. y \<noteq> x \<longrightarrow> slot (pool p) y = slot (slab b) y"
    using mp.alloc_pop [of E "order_pool b" x F] c by (auto simp: core_def)
  have x: "x \<noteq> INVALID_INDEX" "unat x < length (pool p)"
    using c mp.free_not_invalid [of E "order_pool b" "x # F" x] p(2,3) by (auto simp: core_def pool_rel_def)
  have kl: "unat k < length (order_map b)" using k c by (simp add: core_def geometry_def)
  let ?ord = "\<lparr>o_next = INVALID_INDEX, o_prev = INVALID_INDEX, o_id = k, o_price = px, o_quantity = qty, o_side = side_u8 s\<rparr>"
  obtain l' sl where a: "append_order x (levels s b ! i) ((pool p)[unat x := ?ord]) = Some (l', sl)"
    "\<And>b'. levels s b' = (levels s b)[i := l'] \<Longrightarrow> levels (opposite s) b' = levels (opposite s) b \<Longrightarrow>
       order_pool b' = p\<lparr>pool := sl\<rparr> \<Longrightarrow> order_map b' = (order_map b)[unat k := x] \<Longrightarrow>
       active_count b' = active_count b + 1 \<Longrightarrow> static b' = static b \<Longrightarrow> journal_ok (journal b') \<Longrightarrow>
       core E b' (q(s := (q s)[i := q s ! i @ [x]])) F \<and>
       book_abs b' = set_resting s (spec_insert s \<lparr>rid = k, rprice = px, rqty = qty\<rparr> (resting s (book_abs b))) (book_abs b)"
    using rest_core [OF c i p(2-4) k px qty, of s] by blast
  define b1 where "b1 = b\<lparr>order_pool := p\<lparr>pool := (pool p)[unat x := ?ord]\<rparr>, active_count := active_count b + 1,
     order_map := (order_map b)[unat k := x]\<rparr>"
  define b2 where "b2 = (set_levels s ((levels s b)[i := l']) b1)\<lparr>order_pool := p\<lparr>pool := sl\<rparr>\<rparr>"
  have b1: "levels s b1 = levels s b" "slab b1 = (pool p)[unat x := ?ord]" "unat (px - min_price b) = i"
    using price_index [OF px] by (simp_all add: b1_def)
  have "level_append s x i b1 = Some (e, b2)"
    using level_append_some [of i s b1 x l' sl] a(1) core_levels [OF c, of s] i b1
    by (simp add: b2_def e_def) (simp add: b1_def)
  then have "rest_order E k px qty s b = do {
       b \<leftarrow> (case s of Buy \<Rightarrow> announce_bid E e px i b2 | Sell \<Rightarrow> announce_ask E e px i b2);
       Some (Accepted, HFT_JOURNAL E OrderRested k px qty (side_u8 s) b) }"
    using p(1) x kl b1(3) by (simp add: rest_order_def vec_simps b1_def [symmetric] Let_def cong: Side.case_cong)
  moreover have b2: "levels s b2 = (levels s b)[i := l']" "levels (opposite s) b2 = levels (opposite s) b"
    "order_pool b2 = p\<lparr>pool := sl\<rparr>" "order_map b2 = (order_map b)[unat k := x]"
    "active_count b2 = active_count b + 1" "static b2 = static b" "journal b2 = journal b" "\<forall>u. top_of u b2 = top_of u b"
    using p(3) by (simp_all add: b2_def b1_def)
  moreover have "core E b' (q(s := (q s)[i := q s ! i @ [x]])) F \<and> book_abs b' =
      set_resting s (spec_insert s \<lparr>rid = k, rprice = px, rqty = qty\<rparr> (resting s (book_abs b))) (book_abs b)"
    if "same_data b2 b'" for b'
    by (rule a(2)) (use that b2 c in \<open>simp_all add: same_data_def core_def\<close>)
  ultimately show ?thesis by (intro exI [of _ b2]) simp
qed

theorem rest_order_rel:
  assumes br: "book_rel E b q F" and k: "k \<noteq> 0" "unat k \<le> max_order_id b" "order_map b ! unat k = INVALID_INDEX"
    and px: "min_price b \<le> px" "px \<le> max_price b" and qty: "qty \<noteq> 0"
  shows "\<exists>r b' q' F'. rest_order E k px qty side b = Some (r, b') \<and> book_rel E b' q' F' \<and> static b' = static b \<and>
    spec_rest (cfg_of b) k px qty side (book_abs b) = (r, book_abs b')"
proof (cases F)
  case Nil
  then show ?thesis using rest_order_full [of E b q k px qty side] br by blast
next
  case (Cons x F')
  have c: "core E b q (x # F')" using br Cons by (simp add: book_rel_def)
  note g = book_relE(3) [OF br]
  define i where "i = unat (px - min_price b)"
  have up: "unat px = unat (min_price b) + i" using px by (simp add: i_def unat_sub word_le_nat_alt)
  have ir: "i < range_of b" using px up g by (auto simp: geometry_def range_of_def word_le_nat_alt)
  let ?e = "level_is_empty (levels side b ! i)" and ?q = "q(side := (q side)[i := q side ! i @ [x]])"
  obtain b2 where b2: "rest_order E k px qty side b = do {
       b \<leftarrow> (case side of Buy \<Rightarrow> announce_bid E ?e px i b2 | Sell \<Rightarrow> announce_ask E ?e px i b2);
       Some (Accepted, HFT_JOURNAL E OrderRested k px qty (side_u8 side) b) }"
     "static b2 = static b" "length (order_map b2) = length (order_map b)" "\<And>u. top_of u b2 = top_of u b"
     "\<And>b'. same_data b2 b' \<Longrightarrow> core E b' ?q F' \<and> book_abs b' = set_resting side
        (spec_insert side \<lparr>rid = k, rprice = px, rqty = qty\<rparr> (resting side (book_abs b))) (book_abs b)"
    using rest_linked [OF c ir up qty k] by blast
  have r2: "range_of b2 = range_of b" "min_price b2 = min_price b" "geometry b2"
    using b2(2,3) g static_range [OF b2(2)] by (auto simp: static_def geometry_def)
  have t2: "side_top side b2 (occ (q side))" using book_relE(2) [OF br] side_top_frame [OF b2(2,4)] by simp
  obtain b3 where b3: "(case side of Buy \<Rightarrow> announce_bid E ?e px i b2 | Sell \<Rightarrow> announce_ask E ?e px i b2) = Some b3"
    "side_top side b3 (insert i (occ (q side)))" "same_data b2 b3" "top_of (opposite side) b3 = top_of (opposite side) b2"
    using announce_side_top [OF r2(3) t2, of i px ?e E] ir up r2 level_empty_occ [OF c ir, of side] by auto
  define b4 where "b4 = HFT_JOURNAL E OrderRested k px qty (side_u8 side) b3"
  have d4: "same_data b2 b4" "side_top side b4 (insert i (occ (q side)))" "top_of (opposite side) b4 = top_of (opposite side) b"
    using same_data_trans [OF b3(3) journal_data] b3(2,4) b2(4)
    by (simp_all add: b4_def HFT_JOURNAL_eq journal_top del: side_top.simps top_of.simps)
  have st4: "static b4 = static b" using d4(1) b2(2) by (simp add: same_data_def)
  note b4 = b2(5) [OF d4(1)]
  have "occ (?q side) = insert i (occ (q side))"
    using occ_upd [of i "q side"] core_slots(4) [OF c ir] ir by simp
  then have "book_rel E b4 ?q F'"
    using b4 d4(2) book_relE(2) [OF br, of "opposite side"] side_top_frame [OF st4 d4(3)]
    by (intro book_relI [of E b4 ?q F' side]) (simp_all del: side_top.simps)
  moreover have "rest_order E k px qty side b = Some (Accepted, b4)" using b2(1) b3(1) by (simp add: b4_def)
  moreover have "spec_rest (cfg_of b) k px qty side (book_abs b) = (Accepted, book_abs b4)"
    using abs_size [OF c] c b4 by (simp add: spec_rest_def cfg_of_def core_def)
  ultimately show ?thesis using st4 by blast
qed

section \<open>Cancelling\<close>

lemma retire_bid_top:
  assumes "geometry b" "side_top Buy b S" "i \<in> S" "unat px = unat (min_price b) + i"
  shows "\<exists>b'. retire_bid E px i b = Some b' \<and> side_top Buy b' (S - {i}) \<and> same_data b b' \<and>
    top_of Sell b' = top_of Sell b"
proof -
  have bits: "bits_rel (range_of b) (bids_bitset b) (bids_summary b) S" and h: "has_bids b"
    using assms(2,3) by (auto split: if_splits)
  have ir: "i < range_of b" using bits assms(3) by (auto simp: bits_rel_def)
  obtain bs sm where 1: "price_bit_clear (bids_bitset b) (bids_summary b) i = Some (bs, sm)"
    "bits_rel (range_of b) bs sm (S - {i})"
    using pb.remove_ok [OF bits ir] by blast
  define b1 where "b1 = b\<lparr>bids_bitset := bs, bids_summary := sm\<rparr>"
  have d1: "same_data b b1" "range_of b1 = range_of b" "top_of Sell b1 = top_of Sell b" "min_price b1 = min_price b"
    "bids_bitset b1 = bs" "bids_summary b1 = sm" "best_bid b1 = best_bid b" "has_bids b1"
    "best_bid_idx b1 = best_bid_idx b" "geometry b1"
    using h assms(1) unfolding b1_def same_data_def static_def
    by (simp_all add: all_sides [of _ Buy] range_of_def geometry_def)
  have eq: "best_bid b = px \<longleftrightarrow> best_bid_idx b = i" using assms(2,4) h by (auto simp: word_unat_eq_iff)
  have unf: "retire_bid E px i b = (if best_bid b = px then update_best_bid_after_remove E px b1 else Some b1)"
    using 1(1) h by (simp add: retire_bid_def b1_def)
  show ?thesis
  proof (cases "best_bid b = px")
    case True
    then have "\<forall>k \<in> S - {i}. k < i" using eq assms(2) h by (auto simp: order_le_less)
    with scan_best_bid_top [OF d1(10), of "S - {i}" i] 1(2) ir d1
    obtain b2 where "scan_best_bid i b1 = Some b2" "side_top Buy b2 (S - {i})" "same_data b1 b2" "top_of Sell b2 = top_of Sell b1"
      by auto
    moreover have "unat (px - min_price b1) = i" using price_index [OF assms(4)] d1(4) by simp
    ultimately show ?thesis
      using unf True d1 same_data_trans [OF d1(1)] by (simp add: update_best_bid_after_remove_def del: side_top.simps top_of.simps)
  next
    case False
    then have "side_top Buy b1 (S - {i})" using 1(2) d1 eq assms(2) h by auto
    then show ?thesis using unf False d1(1,3) by auto
  qed
qed

lemma retire_ask_top:
  assumes "geometry b" "side_top Sell b S" "i \<in> S" "unat px = unat (min_price b) + i"
    "length (asks_levels b) = range_of b"
  shows "\<exists>b'. retire_ask E px i b = Some b' \<and> side_top Sell b' (S - {i}) \<and> same_data b b' \<and>
    top_of Buy b' = top_of Buy b"
proof -
  have bits: "bits_rel (range_of b) (asks_bitset b) (asks_summary b) S" and h: "has_asks b"
    using assms(2,3) by (auto split: if_splits)
  have ir: "i < range_of b" using bits assms(3) by (auto simp: bits_rel_def)
  obtain bs sm where 1: "price_bit_clear (asks_bitset b) (asks_summary b) i = Some (bs, sm)"
    "bits_rel (range_of b) bs sm (S - {i})"
    using pb.remove_ok [OF bits ir] by blast
  define b1 where "b1 = b\<lparr>asks_bitset := bs, asks_summary := sm\<rparr>"
  have d1: "same_data b b1" "range_of b1 = range_of b" "top_of Buy b1 = top_of Buy b" "min_price b1 = min_price b"
    "asks_bitset b1 = bs" "asks_summary b1 = sm" "best_ask b1 = best_ask b" "has_asks b1"
    "best_ask_idx b1 = best_ask_idx b" "geometry b1" "length (asks_levels b1) = range_of b"
    using h assms(1,5) unfolding b1_def same_data_def static_def
    by (simp_all add: all_sides [of _ Buy] range_of_def geometry_def)
  have eq: "best_ask b = px \<longleftrightarrow> best_ask_idx b = i" using assms(2,4) h by (auto simp: word_unat_eq_iff)
  have unf: "retire_ask E px i b = (if best_ask b = px then update_best_ask_after_remove E px b1 else Some b1)"
    using 1(1) h by (simp add: retire_ask_def b1_def)
  show ?thesis
  proof (cases "best_ask b = px")
    case True
    then have "\<forall>k \<in> S - {i}. i < k" using eq assms(2) h by (auto simp: order_le_less)
    with scan_best_ask_top [OF d1(10), of "S - {i}" i] 1(2) ir d1
    obtain b2 where "scan_best_ask i b1 = Some b2" "side_top Sell b2 (S - {i})" "same_data b1 b2" "top_of Buy b2 = top_of Buy b1"
      by auto
    moreover have "unat (px - min_price b1) = i" using price_index [OF assms(4)] d1(4) by simp
    ultimately show ?thesis
      using unf True d1 same_data_trans [OF d1(1)] by (simp add: update_best_ask_after_remove_def del: side_top.simps top_of.simps)
  next
    case False
    then have "side_top Sell b1 (S - {i})" using 1(2) d1 eq assms(2) h by auto
    then show ?thesis using unf False d1(1,3) by auto
  qed
qed

text \<open>Unlinking the slot \<open>x\<close> and freeing it, and what it is in the specification.\<close>

lemma side_seq_distinct: "distinct (side_seq s Q) \<longleftrightarrow> distinct (concat Q)"
  by (metis card_distinct distinct_card side_seq_set side_seq_length)

lemma filter_other: "\<forall>y \<in> set xs. f y \<noteq> k \<Longrightarrow> filter (\<lambda>y. f y \<noteq> k) xs = xs"
  by (induction xs) auto

lemma abs_remove:
  fixes b b' :: OrderBook
  assumes c: "core E b q F" and c': "core E b' (q(s := (q s)[i := ys @ zs])) F'" and i: "i < range_of b"
    and qi: "q s ! i = ys @ x # zs" and pay: "\<forall>y. y \<noteq> x \<longrightarrow> payload (slot (slab b') y) = payload (slot (slab b) y)"
  shows "book_abs b' = spec_remove (o_id (slot (slab b) x)) (book_abs b)"
proof -
  let ?q = "q(s := (q s)[i := ys @ zs])" and ?k = "o_id (slot (slab b) x)"
  have ro: "rest_of (slab b') y = rest_of (slab b) y" if "y \<noteq> x" for y
    by (rule rest_of_eqI) (use pay that in simp)
  have xq: "x \<in> set (live q)" using core_slots(2) [OF c i, of s] qi by auto
  have ids: "o_id (slot (slab b) y) \<noteq> ?k" if "y \<in> set (live q)" "y \<noteq> x" for y
    using c xq that unfolding core_def map_rel_def by metis
  have px: "unat (o_price (slot (slab b) x)) = unat (min_price b) + i" using core_price [OF c i, of x s] qi by simp
  obtain A C where AC: "side_seq s (q s) = A @ (ys @ x # zs) @ C" "side_seq s ((q s)[i := ys @ zs]) = A @ (ys @ zs) @ C"
    using side_tick [OF c i px, of s] qi by metis
  have dist: "distinct (side_seq s (q s))"
    using core_distinct [OF c, of s] side_seq_distinct [of s "q s"] by simp
  have sub: "set (A @ (ys @ x # zs) @ C) \<subseteq> set (live q)"
    unfolding AC(1) [symmetric] by (simp add: side_seq_set live_set [of q s] del: side_seq.simps)
  have nx: "\<forall>y \<in> set (A @ (ys @ zs) @ C). y \<noteq> x \<and> o_id (slot (slab b) y) \<noteq> ?k"
  proof
    fix y assume y: "y \<in> set (A @ (ys @ zs) @ C)"
    then have "y \<noteq> x" using dist unfolding AC(1) by auto
    moreover have "y \<in> set (live q)" using y sub by auto
    ultimately show "y \<noteq> x \<and> o_id (slot (slab b) y) \<noteq> ?k" using ids by blast
  qed
  have "abs_side s b' ?q = map (rest_of (slab b)) (A @ (ys @ zs) @ C)"
    using nx ro by (simp add: abs_side_def AC(2) del: side_seq.simps)
  also have "\<dots> = filter (\<lambda>r. rid r \<noteq> ?k) (abs_side s b q)"
    using nx by (simp add: abs_side_def AC(1) filter_map comp_def rest_of_def filter_other del: side_seq.simps)
  finally have s1: "abs_side s b' ?q = filter (\<lambda>r. rid r \<noteq> ?k) (abs_side s b q)" .
  have "\<forall>y \<in> set (concat (q (opposite s))). y \<noteq> x \<and> o_id (slot (slab b) y) \<noteq> ?k"
  proof
    fix y assume y: "y \<in> set (concat (q (opposite s)))"
    have "x \<in> set (concat (q s))" using AC(1) side_seq_set [of s "q s"] by auto
    then have "y \<noteq> x" using core_distinct [OF c, of s] y by auto
    then show "y \<noteq> x \<and> o_id (slot (slab b) y) \<noteq> ?k" using ids y by (auto simp: live_set [of q s])
  qed
  then have nx2: "\<forall>y \<in> set (side_seq (opposite s) (q (opposite s))). y \<noteq> x \<and> o_id (slot (slab b) y) \<noteq> ?k"
    by (simp add: side_seq_set del: side_seq.simps)
  then have "map (rest_of (slab b')) (side_seq (opposite s) (q (opposite s))) =
      map (rest_of (slab b)) (side_seq (opposite s) (q (opposite s)))"
    using ro by (simp del: side_seq.simps)
  moreover have "filter (\<lambda>r. rid r \<noteq> ?k) (map (rest_of (slab b)) (side_seq (opposite s) (q (opposite s)))) =
      map (rest_of (slab b)) (side_seq (opposite s) (q (opposite s)))"
    using nx2 by (simp add: filter_map comp_def rest_of_def filter_other del: side_seq.simps)
  ultimately have s2: "abs_side (opposite s) b' ?q = filter (\<lambda>r. rid r \<noteq> ?k) (abs_side (opposite s) b q)"
    by (simp add: abs_side_def del: side_seq.simps)
  show ?thesis
    using s1 s2 side_abs_rel [OF c] side_abs_rel [OF c'] by (cases s) (simp_all add: book_abs_def spec_remove_def)
qed

lemma cancel_core:
  fixes b :: OrderBook
  assumes c: "core E b q F" and i: "i < range_of b" and qi: "q s ! i = ys @ x # zs"
  shows "\<exists>l' sl p'. remove_order x (levels s b ! i) (slab b) = Some (l', sl) \<and>
    (level_is_empty l' \<longleftrightarrow> ys @ zs = []) \<and> deallocate E x ((order_pool b)\<lparr>pool := sl\<rparr>) = Some p' \<and>
    capacity p' = capacity (order_pool b) \<and>
    (\<forall>b'. levels s b' = (levels s b)[i := l'] \<longrightarrow> levels (opposite s) b' = levels (opposite s) b \<longrightarrow>
       order_pool b' = p' \<longrightarrow> unmapped (slab b) [x] (order_map b) (order_map b') \<longrightarrow>
       active_count b' = active_count b - 1 \<longrightarrow> static b' = static b \<longrightarrow> journal_ok (journal b') \<longrightarrow>
       core E b' (q(s := (q s)[i := ys @ zs])) (x # F) \<and>
       book_abs b' = spec_remove (o_id (slot (slab b) x)) (book_abs b))"
proof -
  note cs = core_slots [OF c i, of s, unfolded qi]
  have xl: "x \<in> set (live q)" using cs(2) by auto
  obtain l' sl where r: "remove_order x (levels s b ! i) (slab b) = Some (l', sl)"
    "queue_rel sl l' (ys @ zs)" "relinked (set (ys @ x # zs)) (slab b) sl"
    using pl.rel_remove [OF cs(3,1)] by blast
  have nb: "INVALID_INDEX \<notin> set (ys @ zs)" "x \<notin> set (ys @ zs)" using cs(1) by (auto simp: slots_in_def)
  have F: "y \<notin> set (ys @ x # zs)" if "y \<in> set F" for y using core_live(3) [OF c, of y] cs(2) that by auto
  have p1: "pool_rel E ((order_pool b)\<lparr>pool := sl\<rparr>) F"
    by (rule pool_rel_slab) (use c r(3) F in \<open>auto simp: core_def relinked_def\<close>)
  obtain p' where p': "deallocate E x ((order_pool b)\<lparr>pool := sl\<rparr>) = Some p'" "pool_rel E p' (x # F)"
    "capacity p' = capacity (order_pool b)" "\<forall>y. y \<noteq> x \<longrightarrow> slot (pool p') y = slot sl y"
    using mp.dealloc_push [OF p1, of x] core_live(1,3) [OF c xl] by auto
  have pay: "payload (slot (pool p') y) = payload (slot (slab b) y)" if "y \<noteq> x" for y
    using p'(4) r(3) that by (simp add: relinked_def)
  show ?thesis
  proof (intro exI conjI allI impI)
    show "remove_order x (levels s b ! i) (slab b) = Some (l', sl)" by (rule r(1))
    show "level_is_empty l' \<longleftrightarrow> ys @ zs = []" by (rule queue_rel_empty [OF r(2) nb(1)])
    show "deallocate E x ((order_pool b)\<lparr>pool := sl\<rparr>) = Some p'" "capacity p' = capacity (order_pool b)"
      by (rule p')+
    fix b' :: OrderBook
    assume b': "levels s b' = (levels s b)[i := l']" "levels (opposite s) b' = levels (opposite s) b"
       "order_pool b' = p'" "unmapped (slab b) [x] (order_map b) (order_map b')"
       "active_count b' = active_count b - 1" "static b' = static b" "journal_ok (journal b')"
    have "core E b' (q(s := (q s)[i := ys @ zs])) ([x] @ F)"
    proof (rule core_remove [OF c i, where xs = "[x]"])
      show "q s ! i = ys @ [x] @ zs" using qi by simp
      show "queue_rel (slab b') l' (ys @ zs)"
        by (rule queue_rel_frame [OF r(2)]) (use p'(4) nb(2) b'(3) in auto)
      show "\<forall>y. y \<notin> set (q s ! i) \<longrightarrow> slot (slab b') y = slot (slab b) y"
        using p'(4) r(3) b'(3) qi by (auto simp: relinked_def)
      show "\<forall>y \<in> set (ys @ zs). payload (slot (slab b') y) = payload (slot (slab b) y)"
        using pay nb(2) b'(3) by (metis (no_types))
    qed (use b' p'(2) in simp_all)
    then show c': "core E b' (q(s := (q s)[i := ys @ zs])) (x # F)" by simp
    show "book_abs b' = spec_remove (o_id (slot (slab b) x)) (book_abs b)"
      by (rule abs_remove [OF c c' i qi]) (use pay b'(3) in simp)
  qed
qed

lemma level_remove_some:
  assumes "bit_idx < length (levels s b)" "remove_order x (levels s b ! bit_idx) (slab b) = Some (l', sl)"
  shows "level_remove s x bit_idx b = Some (l',
    (set_levels s ((levels s b)[bit_idx := l']) b)\<lparr>order_pool := (order_pool b)\<lparr>pool := sl\<rparr>\<rparr>)"
  using assms by (simp add: level_remove_def vec_simps)

lemma retire_side_top:
  assumes "geometry b" "side_top s b S" "i \<in> S" "unat px = unat (min_price b) + i" "length (levels s b) = range_of b"
  shows "\<exists>b'. (if e then if s = Buy then retire_bid E px i b else retire_ask E px i b else Some b) = Some b' \<and>
    side_top s b' (if e then S - {i} else S) \<and> same_data b b' \<and> top_of (opposite s) b' = top_of (opposite s) b"
proof (cases e)
  case True
  with retire_bid_top [of b S i px E] retire_ask_top [of b S i px E] assms show ?thesis
    by (cases s) (simp_all del: side_top.simps top_of.simps)
next
  case False
  have "same_data b b" by (simp add: same_data_def)
  with False assms(2) show ?thesis by simp
qed

text \<open>Unlinking the order at tick \<open>i\<close> of side \<open>s\<close>, as \<open>cancel_order_impl\<close> does before it frees the slot.\<close>

definition unlink_order :: "Env \<Rightarrow> Side \<Rightarrow> u32 \<Rightarrow> Price \<Rightarrow> nat \<Rightarrow> OrderBook \<Rightarrow> OrderBook option" where
  "unlink_order E s x px i b =
     (if s = Buy then do {
        (l, b) \<leftarrow> level_remove Buy x i b;
        if level_is_empty l then retire_bid E px i b else Some b
      } else do {
        (l, b) \<leftarrow> level_remove Sell x i b;
        if level_is_empty l then retire_ask E px i b else Some b
      })"

lemma unlink_some:
  fixes b :: OrderBook
  assumes br: "book_rel E b q F" and i: "i < range_of b" and qi: "q s ! i = ys @ x # zs"
    and r: "remove_order x (levels s b ! i) (slab b) = Some (l', sl)" and e: "level_is_empty l' \<longleftrightarrow> ys @ zs = []"
    and up: "unat px = unat (min_price b) + i"
  defines "b1 \<equiv> (set_levels s ((levels s b)[i := l']) b)\<lparr>order_pool := (order_pool b)\<lparr>pool := sl\<rparr>\<rparr>"
  shows "\<exists>b2. unlink_order E s x px i b = Some b2 \<and> side_top s b2 (occ ((q s)[i := ys @ zs])) \<and> same_data b1 b2 \<and>
    top_of (opposite s) b2 = top_of (opposite s) b"
proof -
  note c = book_relE(1) [OF br] and g = book_relE(3) [OF br]
  have lr: "level_remove s x i b = Some (l', b1)"
    using level_remove_some [OF _ r] core_levels [OF c, of s] i by (simp add: b1_def)
  have b1: "length (levels s b1) = length (levels s b)" "order_map b1 = order_map b" "static b1 = static b"
    "\<And>s. top_of s b1 = top_of s b"
    by (simp_all add: b1_def)
  have r1: "range_of b1 = range_of b" "min_price b1 = min_price b" "geometry b1"
    using b1(2,3) g static_range [OF b1(3)] by (auto simp: static_def geometry_def)
  have t1: "side_top s b1 (occ (q s))"
    using book_relE(2) [OF br, of s] side_top_frame [OF b1(3,4)] by simp
  have io: "i \<in> occ (q s)" using qi i core_slots(4) [OF c i, of s] by (simp add: occ_def)
  have oc: "occ ((q s)[i := ys @ zs]) = (if level_is_empty l' then occ (q s) - {i} else occ (q s))"
    using occ_upd [of i "q s"] core_slots(4) [OF c i, of s] i io e by auto
  have "length (levels s b1) = range_of b1" using b1(1) core_levels [OF c, of s] r1(1) by simp
  with retire_side_top [OF r1(3) t1 io, of px "level_is_empty l'" E] up r1(2)
  obtain b2 where b2: "(if level_is_empty l' then if s = Buy then retire_bid E px i b1 else retire_ask E px i b1 else Some b1) = Some b2"
    "side_top s b2 (occ ((q s)[i := ys @ zs]))" "same_data b1 b2" "top_of (opposite s) b2 = top_of (opposite s) b1"
    unfolding oc by auto
  have "unlink_order E s x px i b = Some b2"
    using lr b2(1) unfolding unlink_order_def by (cases s) (auto split: if_splits)
  with b2(2-4) b1(4) show ?thesis by metis
qed

text \<open>A cancellation that finds the order, on the side where it rests.\<close>

lemma cancel_found:
  fixes b :: OrderBook
  assumes br: "book_rel E b q F" and i: "i < range_of b" and qi: "q s ! i = ys @ x # zs"
  defines "px \<equiv> o_price (slot (slab b) x)" and "k \<equiv> o_id (slot (slab b) x)"
  shows "\<exists>b' q' F'. do {
      b \<leftarrow> unlink_order E s x px i b;
      om \<leftarrow> vec_set (order_map b) (unat k) INVALID_INDEX;
      p \<leftarrow> deallocate E x (order_pool b);
      let b = b\<lparr>order_map := om, order_pool := p, active_count := active_count b - 1\<rparr>;
      Some (Accepted, HFT_JOURNAL E OrderCancelled k px 0 sd b) } = Some (Accepted, b') \<and>
    book_rel E b' q' F' \<and> static b' = static b \<and> book_abs b' = spec_remove k (book_abs b)"
proof -
  note c = book_relE(1) [OF br]
  have xl: "x \<in> set (live q)" using core_slots(2) [OF c i, of s] qi by auto
  have up: "unat px = unat (min_price b) + i" using core_price [OF c i, of x s] qi by (simp add: px_def)
  obtain l' sl p' where r: "remove_order x (levels s b ! i) (slab b) = Some (l', sl)"
    "level_is_empty l' \<longleftrightarrow> ys @ zs = []" "deallocate E x ((order_pool b)\<lparr>pool := sl\<rparr>) = Some p'"
    "capacity p' = capacity (order_pool b)"
    "\<And>b'. levels s b' = (levels s b)[i := l'] \<Longrightarrow> levels (opposite s) b' = levels (opposite s) b \<Longrightarrow>
       order_pool b' = p' \<Longrightarrow> unmapped (slab b) [x] (order_map b) (order_map b') \<Longrightarrow>
       active_count b' = active_count b - 1 \<Longrightarrow> static b' = static b \<Longrightarrow> journal_ok (journal b') \<Longrightarrow>
       core E b' (q(s := (q s)[i := ys @ zs])) (x # F) \<and> book_abs b' = spec_remove k (book_abs b)"
    unfolding k_def using cancel_core [OF c i qi] by blast
  let ?b1 = "(set_levels s ((levels s b)[i := l']) b)\<lparr>order_pool := (order_pool b)\<lparr>pool := sl\<rparr>\<rparr>"
  obtain b2 where b2: "unlink_order E s x px i b = Some b2" "side_top s b2 (occ ((q s)[i := ys @ zs]))" "same_data ?b1 b2"
    "top_of (opposite s) b2 = top_of (opposite s) b"
    using unlink_some [OF br i qi r(1,2) up] by blast
  have eqs: "order_map b2 = order_map b" "order_pool b2 = (order_pool b)\<lparr>pool := sl\<rparr>" "active_count b2 = active_count b"
    "levels s b2 = (levels s b)[i := l']" "levels (opposite s) b2 = levels (opposite s) b"
    "static b2 = static b" "journal_ok (journal b2)"
    using b2(3) c by (simp_all add: same_data_def core_def)
  have kl: "unat k < length (order_map b)" using core_id_range [OF c xl] by (simp add: k_def)
  define b3 where "b3 = b2\<lparr>order_map := (order_map b)[unat k := INVALID_INDEX], order_pool := p', active_count := active_count b - 1\<rparr>"
  define b4 where "b4 = HFT_JOURNAL E OrderCancelled k px 0 sd b3"
  have b4: "levels u b4 = levels u b2" "order_pool b4 = p'" "order_map b4 = (order_map b)[unat k := INVALID_INDEX]"
    "active_count b4 = active_count b - 1" "static b4 = static b" "journal_ok (journal b4)" "top_of u b4 = top_of u b2" for u
    using eqs r(4) by (simp_all add: b4_def b3_def HFT_JOURNAL_eq)
  have "unmapped (slab b) [x] (order_map b) (order_map b4)"
    using unmapped_one [of "slab b" x "order_map b"] kl b4(3) by (simp add: k_def)
  then have c4: "core E b4 (q(s := (q s)[i := ys @ zs])) (x # F)" and abs4: "book_abs b4 = spec_remove k (book_abs b)"
    using r(5) [of b4] b4 eqs by simp_all
  have "side_top s b4 (occ ((q s)[i := ys @ zs]))" using b2(2) side_top_frame [OF _ b4(7), of s] b4(5) eqs(6) by (simp only:)
  moreover have "side_top (opposite s) b4 (occ (q (opposite s)))"
    using book_relE(2) [OF br, of "opposite s"] side_top_frame [OF b4(5), of "opposite s"] b4(7) b2(4)
    by (simp del: side_top.simps top_of.simps)
  ultimately have "book_rel E b4 (q(s := (q s)[i := ys @ zs])) (x # F)"
    using c4 by (intro book_relI [of E b4 _ "x # F" s]) (simp_all del: side_top.simps)
  then show ?thesis
    using b2(1) kl eqs(1,2,3) r(3) b4(5) abs4 by (auto simp: vec_simps b3_def [symmetric] b4_def [symmetric])
qed

lemma live_place:
  assumes "core E b q F" "x \<in> set (live q)"
  shows "\<exists>s i ys zs. i < range_of b \<and> q s ! i = ys @ x # zs \<and> o_side (slot (slab b) x) = side_u8 s"
proof -
  have "\<exists>s. x \<in> set (concat (q s))" using assms(2) by (auto simp: live_def)
  then obtain s where "x \<in> set (concat (q s))" by blast
  then obtain i where i: "i < length (q s)" "x \<in> set (q s ! i)" unfolding in_concat_nth by blast
  then have "i < range_of b" "o_side (slot (slab b) x) = side_u8 s"
    using assms(1) by (auto simp: core_def side_queues_def order_at_def)
  with split_list [OF i(2)] show ?thesis by blast
qed

text \<open>The id is mapped: the order it names is live, and the call unlinks and frees it.\<close>

lemma cancel_hit:
  fixes b :: OrderBook
  assumes br: "book_rel E b0 q F" and b0: "b0 = HFT_JOURNAL_REASON E OrderSubmitted k 0 0 (side_u8 Buy) 0 b"
    and k: "k \<noteq> 0" "unat k \<le> max_order_id b" "k \<in> set (book_ids (book_abs b))"
  shows "\<exists>b' q' F'. cancel_order_impl E k b = Some (Accepted, b') \<and> book_rel E b' q' F' \<and> static b' = static b \<and>
    book_abs b' = spec_remove k (book_abs b)"
proof -
  note c = book_relE(1) [OF br]
  have s0: "static b0 = static b" "max_order_id b0 = max_order_id b" "book_abs b0 = book_abs b" by (simp_all add: b0)
  let ?x = "order_map b0 ! unat k"
  have kl: "unat k < length (order_map b0)" "?x \<noteq> INVALID_INDEX"
    using mapped_iff [OF c, of k] k book_relE(3) [OF br] s0 by (auto simp: geometry_def)
  then have x: "?x \<in> set (live q)" "o_id (slot (slab b0) ?x) = k"
    using c by (auto simp: core_def map_rel_def unat_inj_iff)
  obtain s i ys zs where p: "i < range_of b0" "q s ! i = ys @ ?x # zs" "o_side (slot (slab b0) ?x) = side_u8 s"
    using live_place [OF c x(1)] by blast
  have sd: "side_u8 s = side_u8 Buy \<longleftrightarrow> s = Buy" by (rule side_u8_inj)
  have xs: "unat ?x < length (slab b0)" using core_slots(1) [OF c p(1), of s] p(2) by (auto simp: slots_in_def)
  have bi: "unat (o_price (slot (slab b0) ?x) - min_price b0) = i"
    by (rule price_index) (use core_price [OF c p(1), of ?x s] p(2) in simp)
  from cancel_found [OF br p(1,2), of "side_u8 s"]
  obtain b' q' F' where f: "do {
      b \<leftarrow> unlink_order E s ?x (o_price (slot (slab b0) ?x)) i b0;
      om \<leftarrow> vec_set (order_map b) (unat k) INVALID_INDEX;
      p \<leftarrow> deallocate E ?x (order_pool b);
      let b = b\<lparr>order_map := om, order_pool := p, active_count := active_count b - 1\<rparr>;
      Some (Accepted, HFT_JOURNAL E OrderCancelled k (o_price (slot (slab b0) ?x)) 0 (side_u8 s) b) } = Some (Accepted, b')"
      "book_rel E b' q' F'" "static b' = static b0" "book_abs b' = spec_remove k (book_abs b0)"
    unfolding x(2) by blast
  have "cancel_order_impl E k b = Some (Accepted, b')"
    using k(1,2) kl xs f(1) [unfolded unlink_order_def]
    unfolding sd [symmetric] cancel_order_impl_def Let_def HFT_JOURNAL_eq b0 [symmetric] s0(2) [symmetric]
    by (simp add: vec_get_in [OF kl(1)] vec_get_slot [OF xs] p(3) bi del: side_u8_inj side_u8.simps split del: if_split cong: if_cong)
  then show ?thesis using f(2-4) s0 by auto
qed

theorem cancel_order_impl_rel:
  assumes "book_rel E b q F"
  shows "\<exists>r b' q' F'. cancel_order_impl E k b = Some (r, b') \<and> book_rel E b' q' F' \<and> static b' = static b \<and>
    spec_cancel (cfg_of b) k (book_abs b) = (r, book_abs b')"
proof -
  define b0 where "b0 = HFT_JOURNAL_REASON E OrderSubmitted k 0 0 (side_u8 Buy) 0 b"
  have br: "book_rel E b0 q F" using assms journal_book_rel by (simp add: b0_def)
  note c = book_relE(1) [OF br]
  have b0: "static b0 = static b" "max_order_id b0 = max_order_id b" "book_abs b0 = book_abs b"
    by (simp_all add: b0_def)
  have rej: "book_rel E (HFT_JOURNAL_REASON E OrderRejected k 0 0 (side_u8 Buy) z b0) q F \<and>
      static (HFT_JOURNAL_REASON E OrderRejected k 0 0 (side_u8 Buy) z b0) = static b \<and>
      book_abs (HFT_JOURNAL_REASON E OrderRejected k 0 0 (side_u8 Buy) z b0) = book_abs b" for z
    using journal_book_rel [OF br] b0 by simp
  consider "k = 0 \<or> unat k > max_order_id b" | "k \<noteq> 0" "unat k \<le> max_order_id b" "k \<notin> set (book_ids (book_abs b))"
    | "k \<noteq> 0" "unat k \<le> max_order_id b" "k \<in> set (book_ids (book_abs b))" by force
  then show ?thesis
  proof cases
    case 1
    then have "cancel_order_impl E k b = Some (OutOfBoundsOrderId,
        HFT_JOURNAL_REASON E OrderRejected k 0 0 (side_u8 Buy) (reason_u8 OutOfBoundsOrderId) b0)"
      by (auto simp: cancel_order_impl_def HFT_JOURNAL_eq b0_def Let_def)
    moreover have "spec_cancel (cfg_of b) k (book_abs b) = (OutOfBoundsOrderId, book_abs b)"
      using 1 by (simp add: spec_cancel_def cfg_of_def)
    ultimately show ?thesis using rej by metis
  next
    case 2
    have kl: "unat k < length (order_map b0)" "order_map b0 ! unat k = INVALID_INDEX"
      using mapped_iff [OF c, of k] 2 book_relE(3) [OF br] b0 by (auto simp: geometry_def)
    then have "cancel_order_impl E k b = Some (CancelFailed,
        HFT_JOURNAL_REASON E OrderRejected k 0 0 (side_u8 Buy) (reason_u8 CancelFailed) b0)"
      using 2 unfolding cancel_order_impl_def Let_def HFT_JOURNAL_eq b0_def [symmetric] b0(2) by (simp add: vec_simps)
    moreover have "spec_cancel (cfg_of b) k (book_abs b) = (CancelFailed, book_abs b)"
      using 2 by (simp add: spec_cancel_def cfg_of_def)
    ultimately show ?thesis using rej by metis
  next
    case 3
    then have "spec_cancel (cfg_of b) k (book_abs b) = (Accepted, spec_remove k (book_abs b))"
      by (simp add: spec_cancel_def cfg_of_def)
    with cancel_hit [OF br b0_def 3] show ?thesis by metis
  qed
qed

section \<open>Order entry\<close>

lemma abs_side_empty:
  assumes "core E b q F"
  shows "abs_side s b q = [] \<longleftrightarrow> occ (q s) = {}"
proof -
  have "abs_side s b q = [] \<longleftrightarrow> set (side_seq s (q s)) = {}" by (simp add: abs_side_def del: side_seq.simps)
  also have "\<dots> \<longleftrightarrow> concat (q s) = []" by (simp only: side_seq_set set_empty)
  also have "\<dots> \<longleftrightarrow> occ (q s) = {}" unfolding concat_Nil_iff by (auto simp: occ_def)
  finally show ?thesis .
qed

lemma has_side:
  assumes "book_rel E b q F"
  shows "has_asks b \<longleftrightarrow> resting Sell (book_abs b) \<noteq> []" "has_bids b \<longleftrightarrow> resting Buy (book_abs b) \<noteq> []"
proof -
  note c = book_relE(1) [OF assms]
  show "has_asks b \<longleftrightarrow> resting Sell (book_abs b) \<noteq> []"
    using book_relE(2) [OF assms, of Sell] abs_side_empty [OF c, of Sell] unfolding book_abs_resting [OF c] by auto
  show "has_bids b \<longleftrightarrow> resting Buy (book_abs b) \<noteq> []"
    using book_relE(2) [OF assms, of Buy] abs_side_empty [OF c, of Buy] unfolding book_abs_resting [OF c] by auto
qed

lemma static_cfg: "static b' = static b \<Longrightarrow> cfg_of b' = cfg_of b"
  by (simp add: static_def cfg_of_def)

text \<open>The part of \<open>add_order\<close> behind the checks.\<close>

lemma submit_rel:
  assumes br: "book_rel E b q F" and ok: "spec_check (cfg_of b) k type px qty side (book_abs b) = None" and ty: "type \<noteq> Cancel"
  shows "\<exists>res b' q' F'. do {
      let b = HFT_JOURNAL E OrderSubmitted k px qty (side_u8 side) b;
      let resolved_price = (if type = Market
         then (if side = Buy then MARKET_BUY_PRICE else MARKET_SELL_PRICE) else px);
      (remaining_qty, b, ts) \<leftarrow> match_order_direct ignore_book E side k resolved_price qty b;
      let filled_out = qty - remaining_qty;
      if remaining_qty > 0 then
        if type = Market then Some (mk_result Accepted filled_out ts, b)
        else do {
          (r, b) \<leftarrow> rest_order E k resolved_price remaining_qty side b;
          Some (mk_result r filled_out ts, b)
        }
      else Some (mk_result Accepted filled_out ts, b) } = Some (res, b') \<and>
    book_rel E b' q' F' \<and> static b' = static b \<and>
    spec_submit (cfg_of b) k type px qty side (book_abs b) = (res, book_abs b')"
proof -
  define b0 where "b0 = HFT_JOURNAL E OrderSubmitted k px qty (side_u8 side) b"
  have b0: "book_rel E b0 q F" "book_abs b0 = book_abs b" "static b0 = static b"
    using journal_book_rel [OF br] by (simp_all add: b0_def HFT_JOURNAL_eq)
  let ?px = "limit_of type side px"
  have lim: "(if type = Market then (if side = Buy then MARKET_BUY_PRICE else MARKET_SELL_PRICE) else px) = ?px"
    by (simp add: limit_of_def)
  obtain b1 q' ts q1 F1 where m: "match_order_direct ignore_book E side k ?px qty b0 = Some (q', b1, ts)" "book_rel E b1 q1 F1"
    "static b1 = static b" "spec_match k ?px qty side (book_abs b) = (ts, q', book_abs b1)"
    using match_order_direct_rel [OF b0(1), of side k ?px qty] b0(2,3) by auto
  have cfg: "cfg_of b1 = cfg_of b" by (rule static_cfg [OF m(3)])
  have pos: "q' > 0 \<longleftrightarrow> q' \<noteq> 0" by (auto simp: word_gt_0)
  show ?thesis
  proof (cases "q' = 0 \<or> type = Market")
    case True
    then have "spec_submit (cfg_of b) k type px qty side (book_abs b) = (mk_result Accepted (qty - q') ts, book_abs b1)"
      using m(4) by (simp add: spec_submit_def)
    then show ?thesis
      using m(1,2,3) True unfolding b0_def [symmetric] lim Let_def pos by auto
  next
    case False
    then have L: "type = Limit" "?px = px" using ty by (cases type; simp add: limit_of_def)+
    have chk: "k \<noteq> 0" "unat k \<le> cfg_max_id (cfg_of b)" "k \<notin> set (book_ids (book_abs b))"
      "cfg_min (cfg_of b) \<le> px" "px \<le> cfg_max (cfg_of b)"
      using ok L(1) by (auto simp: spec_check_def not_less split: if_splits)
    have "k \<notin> set (book_ids (book_abs b1))" using spec_match_ids [OF m(4)] chk(3) by blast
    moreover have "unat k \<le> max_order_id b1" "min_price b1 \<le> px" "px \<le> max_price b1"
      using chk cfg by (simp_all add: cfg_of_def)
    ultimately obtain r b2 q2 F2 where r: "rest_order E k px q' side b1 = Some (r, b2)" "book_rel E b2 q2 F2" "static b2 = static b1"
      "spec_rest (cfg_of b1) k px q' side (book_abs b1) = (r, book_abs b2)"
      using rest_order_rel [OF m(2) chk(1), of px q' side] mapped_iff [OF book_relE(1) [OF m(2)], of k] False by blast
    have "spec_submit (cfg_of b) k type px qty side (book_abs b) = (mk_result r (qty - q') ts, book_abs b2)"
      using m(4) r(4) False L cfg by (simp add: spec_submit_def)
    then show ?thesis
      using m(1,3) r(1,2,3) False L pos unfolding b0_def [symmetric] lim Let_def by auto
  qed
qed

text \<open>The checks of \<open>add_order\<close> refuse what the specification refuses, with the same code.\<close>

lemma add_order_guards:
  assumes br: "book_rel E b q F"
  shows "(if side = Buy then \<not> has_asks b else \<not> has_bids b) \<longleftrightarrow> resting (opposite side) (book_abs b) = []"
    "unat k \<le> max_order_id b \<Longrightarrow> vec_get (order_map b) (unat k) = Some (order_map b ! unat k)"
  using has_side [OF br] book_relE(3) [OF br] by (cases side; simp add: geometry_def vec_simps)+

lemma add_order_rejects:
  assumes br: "book_rel E b q F" and ty: "type \<noteq> Cancel"
    and r: "spec_check (cfg_of b) k type px qty side (book_abs b) = Some r"
  shows "\<exists>b'. add_order_body ignore_book E k type px qty side b = Some (mk_result r 0 [], b') \<and> book_rel E b' q F \<and>
    static b' = static b \<and> book_abs b' = book_abs b"
proof -
  have "\<exists>p. add_order_body ignore_book E k type px qty side b =
      Some (mk_result r 0 [], HFT_JOURNAL_REASON E OrderRejected k p qty (side_u8 side) (reason_u8 r) b)"
    using r ty add_order_guards(1) [OF br, of side] add_order_guards(2) [OF br, of k] mapped_iff [OF book_relE(1) [OF br], of k]
    unfolding add_order_body_def spec_check_def
    by (auto simp: cfg_of_def simp del: side_u8.simps reason_u8.simps split: if_splits)
  then obtain p where "add_order_body ignore_book E k type px qty side b =
      Some (mk_result r 0 [], HFT_JOURNAL_REASON E OrderRejected k p qty (side_u8 side) (reason_u8 r) b)"
    by blast
  then show ?thesis using journal_book_rel [OF br] by simp
qed

theorem add_order_body_rel:
  assumes br: "book_rel E b q F"
  shows "\<exists>res b' q' F'. add_order_body ignore_book E k type px qty side b = Some (res, b') \<and> book_rel E b' q' F' \<and> static b' = static b \<and>
    spec_add (cfg_of b) k type px qty side (book_abs b) = (res, book_abs b')"
proof (cases "type = Cancel")
  case True
  with cancel_order_impl_rel [OF br, of k] show ?thesis
    by (fastforce simp: add_order_body_def spec_add_def)
next
  case False
  show ?thesis
  proof (cases "spec_check (cfg_of b) k type px qty side (book_abs b)")
    case (Some r)
    with False have "spec_add (cfg_of b) k type px qty side (book_abs b) = (mk_result r 0 [], book_abs b)"
      by (simp add: spec_add_def)
    with add_order_rejects [OF br False Some] show ?thesis by metis
  next
    case None
    then have nc: "qty \<noteq> 0" "k \<noteq> 0" "unat k \<le> max_order_id b" "order_map b ! unat k = INVALID_INDEX"
      "\<not> (type = Limit \<and> (px < min_price b \<or> max_price b < px))"
      "\<not> (type = Market \<and> (if side = Buy then \<not> has_asks b else \<not> has_bids b))"
      using mapped_iff [OF book_relE(1) [OF br], of k] unfolding add_order_guards(1) [OF br]
      by (auto simp: spec_check_def cfg_of_def split: if_splits)
    then have "add_order_body ignore_book E k type px qty side b = do {
      let b = HFT_JOURNAL E OrderSubmitted k px qty (side_u8 side) b;
      let resolved_price = (if type = Market
         then (if side = Buy then MARKET_BUY_PRICE else MARKET_SELL_PRICE) else px);
      (remaining_qty, b, ts) \<leftarrow> match_order_direct ignore_book E side k resolved_price qty b;
      let filled_out = qty - remaining_qty;
      if remaining_qty > 0 then
        if type = Market then Some (mk_result Accepted filled_out ts, b)
        else do {
          (r, b) \<leftarrow> rest_order E k resolved_price remaining_qty side b;
          Some (mk_result r filled_out ts, b)
        }
      else Some (mk_result Accepted filled_out ts, b) }"
      using False add_order_guards(2) [OF br nc(3)] unfolding add_order_body_def
      by (simp only: if_False simp_thms not_le [symmetric] Option.bind.bind_lunit)
    with submit_rel [OF br None False] None False show ?thesis by (simp add: spec_add_def)
  qed
qed

section \<open>The entry points\<close>

text \<open>
  In the instrumented builds a call proceeds when it comes from the thread that built the book
  and no other call on this book is running; the Release build has no gate.
\<close>

definition may_enter :: "Env \<Rightarrow> OrderBook \<Rightarrow> bool" where
  "may_enter E b \<longleftrightarrow> (hft_debug_tools E \<longrightarrow> this_thread E = owner_thread b \<and> \<not> in_public_entry b)"

lemma entry_keeps [simp]:
  "levels s (b\<lparr>in_public_entry := v\<rparr>) = levels s b" "top_of s (b\<lparr>in_public_entry := v\<rparr>) = top_of s b"
  "range_of (b\<lparr>in_public_entry := v\<rparr>) = range_of b" "cfg_of (b\<lparr>in_public_entry := v\<rparr>) = cfg_of b"
  "side_top s (b\<lparr>in_public_entry := v\<rparr>) S = side_top s b S"
  by (cases s; simp add: range_of_def cfg_of_def)+

lemma entry_abs [simp]: "book_abs (b\<lparr>in_public_entry := v\<rparr>) = book_abs b"
  by (simp add: book_abs_def side_abs_def level_slots_def [abs_def])

lemma entry_rel [simp]: "book_rel E (b\<lparr>in_public_entry := v\<rparr>) q F = book_rel E b q F"
  by (simp add: book_rel_def core_def geometry_def side_queues_def order_at_def del: side_top.simps)

lemma entry_static: "static b' = static (b\<lparr>in_public_entry := True\<rparr>) \<Longrightarrow> \<not> in_public_entry b \<Longrightarrow>
  static (b'\<lparr>in_public_entry := False\<rparr>) = static b"
  by (simp add: static_def)

theorem add_order_rel:
  assumes "book_rel E b q F" "may_enter E b"
  shows "\<exists>res b' q' F'. add_order E k type px qty side b = Some (res, b') \<and> book_rel E b' q' F' \<and> static b' = static b \<and>
    spec_add (cfg_of b) k type px qty side (book_abs b) = (res, book_abs b')"
proof (cases "hft_debug_tools E")
  case False
  with add_order_body_rel [OF assms(1)] show ?thesis by (simp add: add_order_def add_order_with_def)
next
  case True
  let ?b = "b\<lparr>in_public_entry := True\<rparr>"
  have g: "debug_entry_gate E ''add_order'' b = Some True" "\<not> in_public_entry b"
    using assms(2) True by (simp_all add: may_enter_def debug_entry_gate_def)
  obtain res b' q' F' where 1: "add_order_body ignore_book E k type px qty side ?b = Some (res, b')" "book_rel E b' q' F'"
    "static b' = static ?b" "spec_add (cfg_of ?b) k type px qty side (book_abs ?b) = (res, book_abs b')"
    using add_order_body_rel [of E ?b q F k type px qty side] assms(1) by auto
  have "add_order E k type px qty side b = Some (res, b'\<lparr>in_public_entry := False\<rparr>)"
    using True g(1) 1(1) by (simp add: add_order_def add_order_with_def)
  moreover have "book_rel E (b'\<lparr>in_public_entry := False\<rparr>) q' F'" using 1(2) by simp
  moreover have "spec_add (cfg_of b) k type px qty side (book_abs b) = (res, book_abs (b'\<lparr>in_public_entry := False\<rparr>))"
    using 1(4) by simp
  ultimately show ?thesis using entry_static [OF 1(3) g(2)] by blast
qed

theorem cancel_order_rel:
  assumes "book_rel E b q F" "may_enter E b"
  shows "\<exists>r b' q' F'. cancel_order E k b = Some (r, b') \<and> book_rel E b' q' F' \<and> static b' = static b \<and>
    spec_cancel (cfg_of b) k (book_abs b) = (r, book_abs b')"
proof (cases "hft_debug_tools E")
  case False
  with cancel_order_impl_rel [OF assms(1)] show ?thesis by (simp add: cancel_order_def)
next
  case True
  let ?b = "b\<lparr>in_public_entry := True\<rparr>"
  have g: "debug_entry_gate E ''cancel_order'' b = Some True" "\<not> in_public_entry b"
    using assms(2) True by (simp_all add: may_enter_def debug_entry_gate_def)
  obtain r b' q' F' where 1: "cancel_order_impl E k ?b = Some (r, b')" "book_rel E b' q' F'"
    "static b' = static ?b" "spec_cancel (cfg_of ?b) k (book_abs ?b) = (r, book_abs b')"
    using cancel_order_impl_rel [of E ?b q F k] assms(1) by auto
  have "cancel_order E k b = Some (r, b'\<lparr>in_public_entry := False\<rparr>)"
    using True g(1) 1(1) by (simp add: cancel_order_def)
  moreover have "book_rel E (b'\<lparr>in_public_entry := False\<rparr>) q' F'" using 1(2) by simp
  moreover have "spec_cancel (cfg_of b) k (book_abs b) = (r, book_abs (b'\<lparr>in_public_entry := False\<rparr>))"
    using 1(4) by simp
  ultimately show ?thesis using entry_static [OF 1(3) g(2)] by blast
qed

lemma static_enter: "static b' = static b \<Longrightarrow> may_enter E b' = may_enter E b"
  by (simp add: static_def may_enter_def)

text \<open>The same, over the invariant alone.\<close>

lemma add_order_refines:
  assumes "book_inv E b" "may_enter E b"
  shows "\<exists>res b'. add_order E k type px qty side b = Some (res, b') \<and>
    spec_add (cfg_of b) k type px qty side (book_abs b) = (res, book_abs b') \<and>
    book_inv E b' \<and> static b' = static b"
proof -
  obtain q F where br: "book_rel E b q F" and si: "spec_inv (cfg_of b) (book_abs b)"
    using assms(1) by (auto simp: book_inv_def)
  obtain res b' q' F' where 1: "add_order E k type px qty side b = Some (res, b')" "book_rel E b' q' F'" "static b' = static b"
    "spec_add (cfg_of b) k type px qty side (book_abs b) = (res, book_abs b')"
    using add_order_rel [OF br assms(2)] by blast
  have "spec_inv (cfg_of b) (book_abs b')" using spec_add_inv [OF si, of k type px qty side] 1(4) by simp
  with 1 static_cfg [OF 1(3)] show ?thesis by (auto simp: book_inv_def)
qed

lemma cancel_order_refines:
  assumes "book_inv E b" "may_enter E b"
  shows "\<exists>r b'. cancel_order E k b = Some (r, b') \<and> spec_cancel (cfg_of b) k (book_abs b) = (r, book_abs b') \<and>
    book_inv E b' \<and> static b' = static b"
proof -
  obtain q F where br: "book_rel E b q F" and si: "spec_inv (cfg_of b) (book_abs b)"
    using assms(1) by (auto simp: book_inv_def)
  obtain r b' q' F' where 1: "cancel_order E k b = Some (r, b')" "book_rel E b' q' F'" "static b' = static b"
    "spec_cancel (cfg_of b) k (book_abs b) = (r, book_abs b')"
    using cancel_order_rel [OF br assms(2)] by blast
  have "spec_inv (cfg_of b) (book_abs b')" using spec_cancel_inv [OF si, of k] 1(4) by simp
  with 1 static_cfg [OF 1(3)] show ?thesis by (auto simp: book_inv_def)
qed

end
