(* ===== verification/Engine_Runs.thy ===== *)
theory Engine_Runs
  imports Book_Refine
begin

text \<open>
  Sequences of calls. A request is a call of \<open>add_order\<close> or \<open>cancel_order\<close>; the interface
  \<open>matching_engine\<close> is what it takes to implement the specification request by request, and
  its lemmas lift that to whole sessions. The book of \<open>src/src/OrderBook.h\<close> is an instance in
  each build flavor; the reachable states are those of any sequence of calls, from any thread.
\<close>

section \<open>Requests\<close>

datatype Request = Add OrderId OrderType Price Quantity Side | CancelId OrderId

datatype Outcome = Added "Trade AddResult" | Cancelled RejectReason

fun spec_step :: "Config \<Rightarrow> Request \<Rightarrow> SpecBook \<Rightarrow> Outcome \<times> SpecBook" where
  "spec_step cfg (Add i ty px q s) B = (let (r, B') = spec_add cfg i ty px q s B in (Added r, B'))"
| "spec_step cfg (CancelId i) B = (let (r, B') = spec_cancel cfg i B in (Cancelled r, B'))"

fun spec_run :: "Config \<Rightarrow> Request list \<Rightarrow> SpecBook \<Rightarrow> Outcome list \<times> SpecBook" where
  "spec_run cfg [] B = ([], B)"
| "spec_run cfg (x # xs) B =
     (let (r, B') = spec_step cfg x B; (rs, B'') = spec_run cfg xs B' in (r # rs, B''))"

fun engine_step :: "Env \<Rightarrow> Request \<Rightarrow> OrderBook \<Rightarrow> (Outcome \<times> OrderBook) option" where
  "engine_step E (Add i ty px q s) b = do {
     (r, b') \<leftarrow> add_order E i ty px q s b;
     Some (Added r, b')
   }"
| "engine_step E (CancelId i) b = do {
     (r, b') \<leftarrow> cancel_order E i b;
     Some (Cancelled r, b')
   }"

text \<open>A session: the outcomes in order, \<open>None\<close> when a call does not return.\<close>

fun run :: "(Request \<Rightarrow> 'b \<Rightarrow> (Outcome \<times> 'b) option) \<Rightarrow> Request list \<Rightarrow> 'b \<Rightarrow> (Outcome list \<times> 'b) option" where
  "run step [] b = Some ([], b)"
| "run step (x # xs) b = do {
     (r, b') \<leftarrow> step x b;
     (rs, b'') \<leftarrow> run step xs b';
     Some (r # rs, b'')
   }"

section \<open>What an engine promises\<close>

locale matching_engine =
  fixes step :: "Request \<Rightarrow> 'b \<Rightarrow> (Outcome \<times> 'b) option"
    and inv :: "'b \<Rightarrow> bool"
    and abs :: "'b \<Rightarrow> SpecBook"
    and cfg :: "'b \<Rightarrow> Config"
    and admits :: "Config \<Rightarrow> Request \<Rightarrow> bool"
  assumes step_refines: "inv b \<Longrightarrow> admits (cfg b) x \<Longrightarrow>
      \<exists>r b'. step x b = Some (r, b') \<and> spec_step (cfg b) x (abs b) = (r, abs b') \<and> inv b' \<and> cfg b' = cfg b"
    and inv_spec: "inv b \<Longrightarrow> spec_inv (cfg b) (abs b)"
begin

lemma run_refines:
  assumes "inv b" "\<forall>x \<in> set xs. admits (cfg b) x"
  shows "\<exists>rs b'. run step xs b = Some (rs, b') \<and> spec_run (cfg b) xs (abs b) = (rs, abs b') \<and>
    inv b' \<and> cfg b' = cfg b \<and> length rs = length xs"
  using assms
proof (induction xs arbitrary: b)
  case (Cons x xs)
  obtain r b1 where 1: "step x b = Some (r, b1)" "spec_step (cfg b) x (abs b) = (r, abs b1)" "inv b1" "cfg b1 = cfg b"
    using step_refines [OF Cons.prems(1)] Cons.prems(2) by fastforce
  from Cons.IH [OF 1(3)] 1(4) Cons.prems(2)
  obtain rs b2 where 2: "run step xs b1 = Some (rs, b2)" "spec_run (cfg b) xs (abs b1) = (rs, abs b2)"
    "inv b2" "cfg b2 = cfg b" "length rs = length xs"
    by auto
  with 1(1,2) show ?case by simp
qed auto

lemma run_total: "inv b \<Longrightarrow> \<forall>x \<in> set xs. admits (cfg b) x \<Longrightarrow> run step xs b \<noteq> None"
  using run_refines by fastforce

lemma run_spec_inv:
  assumes "inv b" "\<forall>x \<in> set xs. admits (cfg b) x" "run step xs b = Some (rs, b')"
  shows "spec_inv (cfg b) (abs b')"
  using run_refines [OF assms(1,2)] assms(3) inv_spec by fastforce

end

text \<open>Two engines that refine the same specification agree on every session both admit.\<close>

lemma engines_agree:
  assumes "matching_engine step1 inv1 abs1 cfg1 ok1" "matching_engine step2 inv2 abs2 cfg2 ok2"
    and "inv1 b1" "inv2 b2" "cfg1 b1 = cfg2 b2" "abs1 b1 = abs2 b2"
    and "\<forall>x \<in> set xs. ok1 (cfg1 b1) x \<and> ok2 (cfg1 b1) x"
  shows "\<exists>rs b1' b2'. run step1 xs b1 = Some (rs, b1') \<and> run step2 xs b2 = Some (rs, b2') \<and> abs1 b1' = abs2 b2'"
proof -
  obtain rs b1' where 1: "run step1 xs b1 = Some (rs, b1')" "spec_run (cfg1 b1) xs (abs1 b1) = (rs, abs1 b1')"
    using matching_engine.run_refines [OF assms(1,3), of xs] assms(7) by blast
  obtain rs2 b2' where 2: "run step2 xs b2 = Some (rs2, b2')" "spec_run (cfg2 b2) xs (abs2 b2) = (rs2, abs2 b2')"
    using matching_engine.run_refines [OF assms(2,4), of xs] assms(5,7) by auto
  with 1 assms(5,6) show ?thesis by auto
qed

section \<open>The engine's instance\<close>

definition engine_inv :: "Env \<Rightarrow> OrderBook \<Rightarrow> bool" where
  "engine_inv E b \<longleftrightarrow> book_inv E b \<and> may_enter E b"

lemma engine_step_refines:
  assumes "engine_inv E b"
  shows "\<exists>r b'. engine_step E x b = Some (r, b') \<and> spec_step (cfg_of b) x (book_abs b) = (r, book_abs b') \<and>
    engine_inv E b' \<and> static b' = static b"
proof -
  have "\<exists>r b'. engine_step E x b = Some (r, b') \<and> spec_step (cfg_of b) x (book_abs b) = (r, book_abs b') \<and>
      book_inv E b' \<and> static b' = static b"
  proof (cases x)
    case (Add i ty px q s)
    with add_order_refines [of E b i ty px q s] assms show ?thesis by (auto simp: engine_inv_def)
  next
    case (CancelId i)
    with cancel_order_refines [of E b i] assms show ?thesis by (auto simp: engine_inv_def)
  qed
  then obtain r b' where "engine_step E x b = Some (r, b')" "spec_step (cfg_of b) x (book_abs b) = (r, book_abs b')"
    "book_inv E b'" and st: "static b' = static b" by blast
  then show ?thesis using static_enter [OF st, of E] assms by (simp add: engine_inv_def)
qed

interpretation eng: matching_engine "engine_step E" "engine_inv E" book_abs cfg_of "\<lambda>_ _. True" for E
proof
  show "spec_inv (cfg_of b) (book_abs b)" if "engine_inv E b" for b
    using that by (simp add: engine_inv_def book_inv_def)
qed (use engine_step_refines static_cfg in metis)

lemma new_engine_inv: "OrderBook_new E max_id max_active minp maxp = Some b \<Longrightarrow> engine_inv E b"
  using OrderBook_new_inv OrderBook_new_abs(3,4) by (auto simp: engine_inv_def may_enter_def)

section \<open>Reachable states\<close>

text \<open>
  The states of a book of one build flavor \<open>D\<close> after any sequence of returning calls, each
  with its own environment: any thread, any fault handlers.
\<close>

inductive reachable :: "bool \<Rightarrow> OrderBook \<Rightarrow> bool" for D :: bool where
  built: "OrderBook_new E max_id max_active minp maxp = Some b \<Longrightarrow> hft_debug_tools E = D \<Longrightarrow> reachable D b"
| called: "reachable D b \<Longrightarrow> hft_debug_tools E = D \<Longrightarrow> engine_step E x b = Some (r, b') \<Longrightarrow> reachable D b'"

inductive_cases reachable_elim: "reachable D b"

lemma pool_rel_flavor: "hft_debug_tools E = hft_debug_tools E' \<Longrightarrow> pool_rel E p F = pool_rel E' p F"
  by (simp add: pool_rel_def)

lemma book_inv_flavor: "hft_debug_tools E = hft_debug_tools E' \<Longrightarrow> book_inv E b = book_inv E' b"
  using pool_rel_flavor [of E E'] by (simp add: book_inv_def book_rel_def core_def)

text \<open>A call the gate refuses.\<close>

lemma gate_refuses:
  assumes "hft_debug_tools E" "this_thread E \<noteq> owner_thread b \<or> in_public_entry b"
  shows "debug_entry_gate E name b = None \<or> debug_entry_gate E name b = Some False"
  using assms(2) by (auto simp: debug_entry_gate_def book_fault_def split: option.splits)

lemma refused_unchanged:
  assumes "hft_debug_tools E" "this_thread E \<noteq> owner_thread b \<or> in_public_entry b" "engine_step E x b = Some (r, b')"
  shows "b' = b"
  using assms(3) gate_refuses [OF assms(1,2), of "''add_order''"] gate_refuses [OF assms(1,2), of "''cancel_order''"]
  by (cases x) (auto simp: add_order_def add_order_with_def cancel_order_def assms(1))

lemma reachable_inv:
  assumes "reachable D b"
  shows "hft_debug_tools E = D \<Longrightarrow> book_inv E b" "\<not> in_public_entry b"
  using assms
proof (induction arbitrary: E)
  case (built E0 max_id max_active minp maxp b)
  {
    case 1
    then show ?case using OrderBook_new_inv built.hyps book_inv_flavor by metis
  next
    case 2
    then show ?case using OrderBook_new_abs(3) [OF built.hyps(1)] by simp
  }
next
  case (called b E0 x r b')
  have bi: "book_inv E0 b" and np: "\<not> in_public_entry b" using called.IH called.hyps(2) by simp_all
  have "book_inv E0 b' \<and> \<not> in_public_entry b'"
  proof (cases "may_enter E0 b")
    case True
    then have ei: "engine_inv E0 b" using bi by (simp add: engine_inv_def)
    then have "engine_inv E0 b'" "static b' = static b" using engine_step_refines [OF ei, of x] called.hyps(3) by auto
    then show ?thesis using np by (simp add: engine_inv_def static_def)
  next
    case False
    then have "b' = b"
      using refused_unchanged [OF _ _ called.hyps(3)] by (auto simp: may_enter_def)
    with bi np show ?thesis by simp
  qed
  then show "hft_debug_tools E = D \<Longrightarrow> book_inv E b'" "\<not> in_public_entry b'" for E
    using book_inv_flavor [of E E0] called.hyps(2) by auto
qed

end
