(* ===== verification/Engine_Samples.thy ===== *)
theory Engine_Samples
  imports Engine_Runs
begin

text \<open>
  Facts shared by the theorems on reachable books, and the concrete environments, books and
  sessions their witnesses use.
\<close>

section \<open>Calls on reachable books\<close>

lemma reachable_engine: "reachable (hft_debug_tools E) b \<Longrightarrow> may_enter E b \<Longrightarrow> engine_inv E b"
  using reachable_inv(1) by (simp add: engine_inv_def)

lemma add_reachable:
  assumes "reachable (hft_debug_tools E) b" "add_order E i ty px q s b = Some (res, b')"
  shows "reachable (hft_debug_tools E) b'"
  by (rule reachable.called [where x = "Add i ty px q s" and r = "Added res", OF assms(1) refl]) (simp add: assms(2))

lemma cancel_reachable:
  assumes "reachable (hft_debug_tools E) b" "cancel_order E i b = Some (r, b')"
  shows "reachable (hft_debug_tools E) b'"
  by (rule reachable.called [where x = "CancelId i" and r = "Cancelled r", OF assms(1) refl]) (simp add: assms(2))

lemma add_spec:
  assumes "reachable (hft_debug_tools E) b" "may_enter E b" "add_order E i ty px q s b = Some (res, b')"
  shows "spec_add (cfg_of b) i ty px q s (book_abs b) = (res, book_abs b')" "spec_inv (cfg_of b) (book_abs b)"
    "cfg_of b' = cfg_of b" "may_enter E b'"
proof -
  have bi: "book_inv E b" using reachable_engine [OF assms(1,2)] by (simp add: engine_inv_def)
  show "spec_inv (cfg_of b) (book_abs b)" using bi by (simp add: book_inv_def)
  have *: "spec_add (cfg_of b) i ty px q s (book_abs b) = (res, book_abs b') \<and> static b' = static b"
    using add_order_refines [OF bi assms(2), of i ty px q s] assms(3) by auto
  then show "spec_add (cfg_of b) i ty px q s (book_abs b) = (res, book_abs b')" by blast
  show "cfg_of b' = cfg_of b" "may_enter E b'"
    using * static_cfg static_enter assms(2) by blast+
qed

text \<open>A book used by the witnesses: ids up to 100, 8 slots, prices 1 to 1000.\<close>

definition E_release :: Env where
  "E_release = \<lparr>ndebug = True, hft_audit_mode = False, pool_fault_handler = None, book_fault_handler = None,
     this_thread = 1, rdtsc = None\<rparr>"

definition E_audit :: Env where
  "E_audit = \<lparr>ndebug = True, hft_audit_mode = True, pool_fault_handler = Some (\<lambda>_ _. SkipOperation),
     book_fault_handler = Some (\<lambda>_. SkipOperation), this_thread = 1, rdtsc = None\<rparr>"

definition sample_book :: "Env \<Rightarrow> OrderBook" where
  "sample_book E = the (OrderBook_new E 100 8 1 1000)"

lemma sample_flavor [simp]: "hft_debug_tools E_release = False" "hft_debug_tools E_audit = True"
  by (simp_all add: hft_debug_tools_def E_release_def E_audit_def)

lemma sample_new: "OrderBook_new E 100 8 1 1000 = Some (sample_book E)"
  by (simp add: sample_book_def OrderBook_new_def UINT32_MAX_def kMaxOrderIds_def kMaxPriceRangeTicks_def Let_def)

lemma sample_cfg: "cfg_of (sample_book E) = \<lparr>cfg_max_id = 100, cfg_capacity = 8, cfg_min = 1, cfg_max = 1000\<rparr>"
  using OrderBook_new_abs(2) [OF sample_new] by (simp add: kMaxPoolCapacity_def)

lemma sample_reachable: "reachable (hft_debug_tools E) (sample_book E)" "may_enter E (sample_book E)"
  "book_abs (sample_book E) = spec_empty"
  using reachable.built [OF sample_new refl] OrderBook_new_abs(1,3,4) [OF sample_new, of E] by (simp_all add: may_enter_def)

text \<open>A session on the sample book reaches the state the specification computes.\<close>

lemma sample_run:
  assumes "spec_run \<lparr>cfg_max_id = 100, cfg_capacity = 8, cfg_min = 1, cfg_max = 1000\<rparr> xs spec_empty = (rs, B)"
  shows "\<exists>b. run (engine_step E) xs (sample_book E) = Some (rs, b) \<and> reachable (hft_debug_tools E) b \<and>
    may_enter E b \<and> book_abs b = B \<and> cfg_of b = \<lparr>cfg_max_id = 100, cfg_capacity = 8, cfg_min = 1, cfg_max = 1000\<rparr>"
proof -
  have gen: "reachable (hft_debug_tools E) b'" if "run (engine_step E) ys b = Some (us, b')" "reachable (hft_debug_tools E) b" for ys us b b'
    using that
  proof (induction ys arbitrary: b us)
    case (Cons y ys)
    then obtain r b1 where 1: "engine_step E y b = Some (r, b1)" by (auto split: Option.bind_splits)
    then have "reachable (hft_debug_tools E) b1" using Cons.prems(2) reachable.called by blast
    with Cons 1 show ?case by (auto split: Option.bind_splits)
  qed auto
  have "engine_inv E (sample_book E)" using reachable_engine [OF sample_reachable(1,2)] .
  from eng.run_refines [OF this, of xs] assms sample_reachable(3) sample_cfg
  obtain b where "run (engine_step E) xs (sample_book E) = Some (rs, b)" "book_abs b = B" "engine_inv E b"
    "cfg_of b = \<lparr>cfg_max_id = 100, cfg_capacity = 8, cfg_min = 1, cfg_max = 1000\<rparr>"
    by auto
  with gen [of xs "sample_book E" rs b] sample_reachable(1) show ?thesis by (auto simp: engine_inv_def)
qed

lemmas spec_eval = spec_add_def spec_cancel_def spec_check_def spec_submit_def spec_match_def spec_rest_def
  spec_insert_def spec_remove_def spec_trade_def spec_empty_def book_ids_def book_size_def crosses_def limit_of_def
  mk_result_def Let_def

end
