(* ===== verification/Book_Access.thy ===== *)
theory Book_Access
  imports Book_Refine
begin

text \<open>
  The introspection functions of \<open>class OrderBook\<close> read the specification book: best prices,
  counts per side and per price, totals per price, and membership by id.
\<close>

lemma price_filter:
  assumes "core E b q F" "i < range_of b" "unat px = unat (min_price b) + i"
  shows "filter (\<lambda>x. o_price (slot (slab b) x) = px) (side_seq s (q s)) = q s ! i"
proof -
  obtain A C where AC: "side_seq s (q s) = A @ q s ! i @ C"
    using side_tick [OF assms, of s] by blast
  have d: "distinct (A @ q s ! i @ C)"
    using core_distinct [OF assms(1), of s] side_seq_distinct [of s "q s"] unfolding AC [symmetric] by simp
  have other: "o_price (slot (slab b) x) \<noteq> px" if x: "x \<in> set A \<union> set C" for x
  proof
    assume p: "o_price (slot (slab b) x) = px"
    have "x \<in> set (concat (q s))" using x AC side_seq_set [of s "q s"] by auto
    then obtain k where k: "k < length (q s)" "x \<in> set (q s ! k)" unfolding in_concat_nth by blast
    then have "k < range_of b" using core_slots(4) [OF assms(1,2), of s] by simp
    with core_price [OF assms(1) this k(2)] p assms(3) have "k = i" by simp
    with k(2) x d show False by auto
  qed
  have here: "o_price (slot (slab b) x) = px" if "x \<in> set (q s ! i)" for x
    using core_price [OF assms(1,2) that] assms(3) by (simp add: word_unat_eq_iff)
  have "filter (\<lambda>x. o_price (slot (slab b) x) = px) A = []" "filter (\<lambda>x. o_price (slot (slab b) x) = px) C = []"
    using other by (auto simp: filter_empty_conv)
  moreover have "filter (\<lambda>x. o_price (slot (slab b) x) = px) (q s ! i) = q s ! i"
    using here by (simp add: filter_id_conv)
  ultimately show ?thesis unfolding AC by simp
qed

lemma resting_at_price:
  assumes "core E b q F" "i < range_of b" "unat px = unat (min_price b) + i"
  shows "filter (\<lambda>r. rprice r = px) (resting s (book_abs b)) = map (rest_of (slab b)) (q s ! i)"
  unfolding book_abs_resting [OF assms(1)] abs_side_def filter_map
  using price_filter [OF assms, of s] by (simp add: comp_def rest_of_def)

lemma price_bounds_index:
  assumes "geometry b" "min_price b \<le> px" "px \<le> max_price b"
  shows "unat (px - min_price b) < range_of b" "unat px = unat (min_price b) + unat (px - min_price b)"
proof -
  show u: "unat px = unat (min_price b) + unat (px - min_price b)"
    using assms(2) by (simp add: unat_sub word_le_nat_alt)
  then show "unat (px - min_price b) < range_of b"
    using assms by (auto simp: range_of_def word_le_nat_alt)
qed

lemma resting_in_range:
  assumes "spec_inv (cfg_of b) (book_abs b)" "px < min_price b \<or> px > max_price b"
  shows "filter (\<lambda>r. rprice r = px) (resting s (book_abs b)) = []"
proof -
  have "cfg_min (cfg_of b) \<le> rprice r \<and> rprice r \<le> cfg_max (cfg_of b)" if "r \<in> set (resting s (book_abs b))" for r
    using assms(1) that unfolding spec_inv_side list_all_iff order_ok_def by blast
  then show ?thesis using assms(2) by (fastforce simp: filter_empty_conv cfg_of_def)
qed

lemma level_order_count_abs:
  assumes "book_inv E b"
  shows "unat (level_order_count s px b) = length (filter (\<lambda>r. rprice r = px) (resting s (book_abs b)))"
proof -
  obtain q F where br: "book_rel E b q F" using assms by (auto simp: book_inv_def)
  note c = book_relE(1) [OF br] and g = book_relE(3) [OF br]
  show ?thesis
  proof (cases "px < min_price b \<or> px > max_price b")
    case True
    then show ?thesis using resting_in_range assms by (simp add: level_order_count_def book_inv_def)
  next
    case False
    then have i: "unat (px - min_price b) < range_of b" "unat px = unat (min_price b) + unat (px - min_price b)"
      using price_bounds_index [OF g] by (auto simp: not_less)
    have "order_count (levels s b ! unat (px - min_price b)) = of_nat (length (q s ! unat (px - min_price b)))"
      using core_slots(3) [OF c i(1), of s] by (simp add: queue_rel_def)
    then have "unat (order_count (levels s b ! unat (px - min_price b))) = length (q s ! unat (px - min_price b))"
      using unat_of_nat_32 [OF core_queue_length(1) [OF c i(1), of s]] by simp
    then show ?thesis
      using False resting_at_price [OF c i, of s] by (simp add: level_order_count_def)
  qed
qed

lemma level_total_quantity_abs:
  assumes "book_inv E b"
  shows "unat (level_total_quantity s px b) =
    (\<Sum>r\<leftarrow>filter (\<lambda>r. rprice r = px) (resting s (book_abs b)). unat (rqty r))"
proof -
  obtain q F where br: "book_rel E b q F" using assms by (auto simp: book_inv_def)
  note c = book_relE(1) [OF br] and g = book_relE(3) [OF br]
  show ?thesis
  proof (cases "px < min_price b \<or> px > max_price b")
    case True
    then show ?thesis using resting_in_range assms by (simp add: level_total_quantity_def book_inv_def)
  next
    case False
    then have i: "unat (px - min_price b) < range_of b" "unat px = unat (min_price b) + unat (px - min_price b)"
      using price_bounds_index [OF g] by (auto simp: not_less)
    show ?thesis
      using False resting_at_price [OF c i, of s] level_total [OF c i(1), of s]
      by (simp add: level_total_quantity_def comp_def rest_of_def)
  qed
qed

lemma price_level_count_occ:
  assumes "book_rel E b q F"
  shows "price_level_count s b = card (occ (q s))"
proof -
  have "bitset_set (if s = Buy then bids_bitset b else asks_bitset b) = occ (q s)"
    using book_relE(2) [OF assms, of s] by (cases s) (simp_all add: bits_rel_def)
  then show ?thesis by (simp add: price_level_count_def sum_popcount)
qed

lemma price_level_count_abs:
  assumes "book_inv E b"
  shows "price_level_count s b = card (rprice ` set (resting s (book_abs b)))"
proof -
  obtain q F where br: "book_rel E b q F" using assms by (auto simp: book_inv_def)
  note c = book_relE(1) [OF br] and g = book_relE(3) [OF br]
  have "price_level_count s b = card (occ (q s))" by (rule price_level_count_occ [OF br])
  moreover have "bij_betw (\<lambda>i. of_nat (unat (min_price b) + i) :: Price) (occ (q s)) (rprice ` set (resting s (book_abs b)))"
  proof (rule bij_betw_imageI)
    have lt: "i < range_of b" if "i \<in> occ (q s)" for i using that c by (auto simp: occ_def core_def side_queues_def)
    show "inj_on (\<lambda>i. of_nat (unat (min_price b) + i) :: Price) (occ (q s))"
    proof (rule inj_onI)
      fix i j assume "i \<in> occ (q s)" "j \<in> occ (q s)" "(of_nat (unat (min_price b) + i) :: Price) = of_nat (unat (min_price b) + j)"
      then show "i = j" using index_price [OF g lt] by (metis add_left_cancel)
    qed
    have "rprice ` set (resting s (book_abs b)) = (\<lambda>x. o_price (slot (slab b) x)) ` set (concat (q s))"
      unfolding book_abs_resting [OF c] abs_side_def set_map side_seq_set image_image by (simp add: rest_of_def)
    also have "\<dots> = (\<lambda>i. of_nat (unat (min_price b) + i)) ` occ (q s)"
    proof (intro equalityI subsetI)
      fix p assume "p \<in> (\<lambda>x. o_price (slot (slab b) x)) ` set (concat (q s))"
      then obtain x where x: "x \<in> set (concat (q s))" "p = o_price (slot (slab b) x)" by blast
      then obtain i where i: "i < length (q s)" "x \<in> set (q s ! i)" unfolding in_concat_nth by blast
      then have "i \<in> occ (q s)" by (auto simp: occ_def)
      with core_price [OF c lt i(2)] index_price [OF g lt] x(2)
      show "p \<in> (\<lambda>i. of_nat (unat (min_price b) + i)) ` occ (q s)" by (intro image_eqI [of _ _ i]) (simp_all add: word_unat_eq_iff)
    next
      fix p assume "p \<in> (\<lambda>i. of_nat (unat (min_price b) + i) :: Price) ` occ (q s)"
      then obtain i where i: "i \<in> occ (q s)" "p = of_nat (unat (min_price b) + i)" by blast
      then obtain x where x: "x \<in> set (q s ! i)" unfolding occ_def by (metis (mono_tags, lifting) hd_in_set mem_Collect_eq)
      have "x \<in> set (concat (q s))" using i(1) x by (auto simp: occ_def intro: nth_in_concat)
      moreover have "p = o_price (slot (slab b) x)"
        using core_price [OF c lt [OF i(1)] x] index_price [OF g lt [OF i(1)]] i(2) by (simp add: word_unat_eq_iff)
      ultimately show "p \<in> (\<lambda>x. o_price (slot (slab b) x)) ` set (concat (q s))" by blast
    qed
    finally show "(\<lambda>i. of_nat (unat (min_price b) + i) :: Price) ` occ (q s) = rprice ` set (resting s (book_abs b))" by simp
  qed
  ultimately show ?thesis using bij_betw_same_card by metis
qed

lemma order_exists_abs:
  assumes "book_inv E b"
  shows "order_exists k b \<longleftrightarrow> k \<in> set (book_ids (book_abs b))"
proof -
  obtain q F where br: "book_rel E b q F" using assms by (auto simp: book_inv_def)
  have "k \<noteq> 0 \<and> unat k \<le> max_order_id b" if "k \<in> set (book_ids (book_abs b))"
    using assms that by (auto simp: book_inv_def spec_inv_def book_ids_def list_all_iff order_ok_def cfg_of_def)
  then show ?thesis using mapped_iff [OF book_relE(1) [OF br], of k] by (auto simp: order_exists_def)
qed

lemma active_order_count_abs:
  assumes "book_inv E b"
  shows "unat (active_order_count b) = book_size (book_abs b)"
proof -
  obtain q F where br: "book_rel E b q F" using assms by (auto simp: book_inv_def)
  note c = book_relE(1) [OF br]
  have "length (live q) < 2 ^ 64" using c by (auto simp: core_def pool_rel_def kMaxPoolCapacity_def)
  then show ?thesis using c abs_size [OF c] unat_of_nat_64 by (simp add: core_def active_order_count_def)
qed

text \<open>The cached best prices.\<close>

lemma best_prices:
  assumes "book_inv E b"
  shows "has_bids b \<longleftrightarrow> spec_bids (book_abs b) \<noteq> []" "has_asks b \<longleftrightarrow> spec_asks (book_abs b) \<noteq> []"
    "has_bids b \<Longrightarrow> best_bid b = rprice (hd (spec_bids (book_abs b)))"
    "has_asks b \<Longrightarrow> best_ask b = rprice (hd (spec_asks (book_abs b)))"
    "\<not> has_bids b \<Longrightarrow> best_bid b = 0" "\<not> has_asks b \<Longrightarrow> best_ask b = max_price b + 1"
proof -
  obtain q F where br: "book_rel E b q F" using assms by (auto simp: book_inv_def)
  note c = book_relE(1) [OF br]
  show hb: "has_bids b \<longleftrightarrow> spec_bids (book_abs b) \<noteq> []" and ha: "has_asks b \<longleftrightarrow> spec_asks (book_abs b) \<noteq> []"
    using has_side [OF br] by simp_all
  show "\<not> has_bids b \<Longrightarrow> best_bid b = 0" "\<not> has_asks b \<Longrightarrow> best_ask b = max_price b + 1"
    using book_relE(2) [OF br, of Buy] book_relE(2) [OF br, of Sell] by auto
  have hdp: "rprice (hd (resting s (book_abs b))) = p"
    if i: "i \<in> occ (q s)" "\<forall>k \<in> occ (q s). tick_first s i k" and p: "unat p = unat (min_price b) + i" for s i p
  proof -
    have il: "i < length (q s)" "q s ! i \<noteq> []" "i < range_of b" using i(1) c by (auto simp: occ_def core_def side_queues_def)
    then have "side_seq s (q s) = q s ! i @ side_seq s ((q s)[i := []])"
      using side_seq_best [OF il(1) i(2), of "q s ! i"] by (simp del: side_seq.simps)
    then have "hd (resting s (book_abs b)) = rest_of (slab b) (hd (q s ! i))"
      using il(2) unfolding book_abs_resting [OF c] abs_side_def by (simp add: hd_map hd_append del: side_seq.simps)
    then show ?thesis
      using core_price [OF c il(3), of "hd (q s ! i)" s] il(2) p by (simp add: rest_of_def word_unat_eq_iff)
  qed
  show "has_bids b \<Longrightarrow> best_bid b = rprice (hd (spec_bids (book_abs b)))"
    using book_relE(2) [OF br, of Buy] hdp [of "best_bid_idx b" Buy "best_bid b"] by simp
  show "has_asks b \<Longrightarrow> best_ask b = rprice (hd (spec_asks (book_abs b)))"
    using book_relE(2) [OF br, of Sell] hdp [of "best_ask_idx b" Sell "best_ask b"] by simp
qed

text \<open>The pool accounts for every slot.\<close>

lemma pool_accounts:
  assumes "book_inv E b"
  shows "free_list_depth (order_pool b) + book_size (book_abs b) = capacity (order_pool b)"
proof -
  obtain q F where br: "book_rel E b q F" using assms by (auto simp: book_inv_def)
  note c = book_relE(1) [OF br]
  have "free_list_depth (order_pool b) = length F" using c free_list_depth_rel by (auto simp: core_def)
  then show ?thesis using c abs_size [OF c] by (simp add: core_def)
qed

text \<open>The matching loops need one pass per populated level of the other side, and one to stop.\<close>

lemma matching_fuel:
  assumes "book_inv E b"
  shows "price_level_count Sell b < n \<Longrightarrow> match_buy_loop ignore_book n E t px qty b [] = match_order_direct ignore_book E Buy t px qty b"
    "price_level_count Buy b < n \<Longrightarrow> match_sell_loop ignore_book n E t px qty b [] = match_order_direct ignore_book E Sell t px qty b"
    "match_order_direct ignore_book E side t px qty b \<noteq> None"
proof -
  obtain q F where br: "book_rel E b q F" using assms by (auto simp: book_inv_def)
  note c = book_relE(1) [OF br]
  show "match_order_direct ignore_book E side t px qty b \<noteq> None" using match_order_direct_rel [OF br, of side t px qty] by auto
  have levels: "card (occ (q s)) < Suc (length (levels s b))" for s
    using card_occ [of "q s"] c by (simp add: core_def side_queues_def less_Suc_eq_le)
  show "match_buy_loop ignore_book n E t px qty b [] = match_order_direct ignore_book E Buy t px qty b" if "price_level_count Sell b < n"
  proof -
    let ?m = "Suc (card (occ (q Sell)))"
    obtain r where r: "match_buy_loop ignore_book ?m E t px qty b [] = Some r" using buy.loop_correct [OF br, of ?m t px qty "[]"] by blast
    have "match_buy_loop ignore_book n E t px qty b [] = Some r"
      by (rule buy.loop_more [OF r]) (use that price_level_count_occ [OF br, of Sell] in simp)
    moreover have "match_buy_loop ignore_book (Suc (length (asks_levels b))) E t px qty b [] = Some r"
      by (rule buy.loop_more [OF r]) (use levels [of Sell] in simp)
    ultimately show ?thesis by (simp add: match_order_direct_def)
  qed
  show "match_sell_loop ignore_book n E t px qty b [] = match_order_direct ignore_book E Sell t px qty b" if "price_level_count Buy b < n"
  proof -
    let ?m = "Suc (card (occ (q Buy)))"
    obtain r where r: "match_sell_loop ignore_book ?m E t px qty b [] = Some r" using sell.loop_correct [OF br, of ?m t px qty "[]"] by blast
    have "match_sell_loop ignore_book n E t px qty b [] = Some r"
      by (rule sell.loop_more [OF r]) (use that price_level_count_occ [OF br, of Buy] in simp)
    moreover have "match_sell_loop ignore_book (Suc (length (bids_levels b))) E t px qty b [] = Some r"
      by (rule sell.loop_more [OF r]) (use levels [of Buy] in simp)
    ultimately show ?thesis by (simp add: match_order_direct_def)
  qed
qed

end
