(* ===== verification/Order_Callbacks.thy ===== *)
theory Order_Callbacks
  imports Order_Book
begin

text \<open>
  Trade callbacks that look at the book. A callback cannot change what a call does: erasing
  what it returns gives the call that only takes the trades. And every callback of a call runs
  on a book with the entry latch and the owner of that call.
\<close>

section \<open>What a callback returns does not matter\<close>

text \<open>\<open>erases f cb\<close>: \<open>f\<close> recovers the trade from what the callback returns for it.\<close>

definition erases :: "('t \<Rightarrow> Trade) \<Rightarrow> 't Callback \<Rightarrow> bool" where
  "erases f cb \<longleftrightarrow> (\<forall>b t. f (cb b t) = t)"

lemma erases_simp: "erases f cb \<Longrightarrow> f (cb b t) = t"
  by (simp add: erases_def)

lemma fill_single_erase:
  "erases f cb \<Longrightarrow> fill_single ignore_book E side taker idx b (map f ts) =
   map_option (map_prod id (map f)) (fill_single cb E side taker idx b ts)"
  by (simp add: fill_single_def Let_def erases_simp split: Option.bind_splits)

lemma fill_chain_erase:
  "erases f cb \<Longrightarrow> fill_chain ignore_book n E side taker idx b (map f ts) =
   map_option (map_prod id (map f)) (fill_chain cb n E side taker idx b ts)"
proof (induction n arbitrary: idx b ts)
  case (Suc n)
  show ?case
    using Suc.IH [OF Suc.prems, where ts = "ts @ [cb b' t]" for b' t]
    by (simp add: Let_def erases_simp [OF Suc.prems] split: Option.bind_splits)
qed simp

lemma consume_level_erase:
  "erases f cb \<Longrightarrow> consume_level ignore_book E side taker li l qty b (map f ts) =
   map_option (map_prod id (map_prod id (map f))) (consume_level cb E side taker li l qty b ts)"
  by (auto simp: consume_level_def Let_def fill_single_erase fill_chain_erase map_option_case
      split: Option.bind_splits option.splits prod.splits simp del: fill_chain.simps)

lemma partial_fill_erase:
  "(\<And>l. erases f (cb l)) \<Longrightarrow> partial_fill ignore_level n E side taker idx l qty b (map f ts) =
   map_option (map_prod id (map_prod id (map_prod id (map f)))) (partial_fill cb n E side taker idx l qty b ts)"
proof (induction n arbitrary: idx l qty b ts)
  case (Suc n)
  show ?case
    using Suc.IH [OF Suc.prems, where ts = "ts @ [cb l b' t]" for b' t]
    by (simp add: Let_def erases_simp [OF Suc.prems] split: Option.bind_splits)
qed simp

lemma fill_level_erase:
  assumes "erases f cb"
  shows "fill_level ignore_book E side taker li qty b (map f ts) =
    map_option (map_prod id (map_prod id (map f))) (fill_level cb E side taker li qty b ts)"
proof -
  have "erases f (\<lambda>b. cb (set_levels (opposite side) ((levels (opposite side) b)[li := l]) b))" for l
    using assms by (simp add: erases_def)
  note pf = partial_fill_erase [where cb = "\<lambda>l b. cb (set_levels (opposite side) ((levels (opposite side) b)[li := l]) b)", OF this]
  show ?thesis
    by (auto simp: fill_level_def Let_def consume_level_erase [OF assms] pf map_option_case
        split: Option.bind_splits option.splits prod.splits simp del: partial_fill.simps)
qed

lemma match_buy_loop_erase:
  "erases f cb \<Longrightarrow> match_buy_loop ignore_book n E taker px qty b (map f ts) =
   map_option (map_prod id (map_prod id (map f))) (match_buy_loop cb n E taker px qty b ts)"
proof (induction n arbitrary: qty b ts)
  case (Suc n)
  show ?case
    by (auto simp: Let_def fill_level_erase [OF Suc.prems] Suc.IH [OF Suc.prems] map_option_case
        split: Option.bind_splits option.splits prod.splits)
qed simp

lemma match_sell_loop_erase:
  "erases f cb \<Longrightarrow> match_sell_loop ignore_book n E taker px qty b (map f ts) =
   map_option (map_prod id (map_prod id (map f))) (match_sell_loop cb n E taker px qty b ts)"
proof (induction n arbitrary: qty b ts)
  case (Suc n)
  show ?case
    by (auto simp: Let_def fill_level_erase [OF Suc.prems] Suc.IH [OF Suc.prems] map_option_case
        split: Option.bind_splits option.splits prod.splits)
qed simp

lemma match_order_direct_erase:
  "erases f cb \<Longrightarrow> match_order_direct ignore_book E side taker px qty b =
   map_option (map_prod id (map_prod id (map f))) (match_order_direct cb E side taker px qty b)"
  using match_buy_loop_erase [of f cb _ E taker px qty b "[]"] match_sell_loop_erase [of f cb _ E taker px qty b "[]"]
  by (simp add: match_order_direct_def split: Side.split del: match_buy_loop.simps match_sell_loop.simps)

text \<open>The result of a call with what the callbacks returned erased.\<close>

definition erase_result :: "('t \<Rightarrow> 'u) \<Rightarrow> 't AddResult \<Rightarrow> 'u AddResult" where
  "erase_result f r = mk_result (res_reason r) (res_filled r) (map f (res_trades r))"

lemma erase_mk_result [simp]: "erase_result f (mk_result r q ts) = mk_result r q (map f ts)"
  by (simp add: erase_result_def mk_result_def)

lemma map_option_bind: "map_option g (Option.bind m k) = Option.bind m (\<lambda>x. map_option g (k x))"
  by (cases m) simp_all

lemma bind_map_option: "Option.bind (map_option g m) k = Option.bind m (\<lambda>x. k (g x))"
  by (cases m) simp_all

lemmas map_option_push = map_option_bind bind_map_option if_distrib [where f = "map_option _"] case_prod_beta'

lemma add_order_body_erase:
  "erases f cb \<Longrightarrow> add_order_body ignore_book E i type px qty side b =
   map_option (map_prod (erase_result f) id) (add_order_body cb E i type px qty side b)"
  by (simp add: add_order_body_def Let_def match_order_direct_erase [of f cb] map_option_push split del: if_split cong: if_cong)

theorem add_order_erase:
  assumes "erases f cb"
  shows "add_order E i type px qty side b = map_option (map_prod (erase_result f) id) (add_order_with cb E i type px qty side b)"
  by (auto simp: add_order_def add_order_with_def add_order_body_erase [OF assms] map_option_case
      split: Option.bind_splits option.splits prod.splits)


section \<open>What a callback sees of the entry latch\<close>

definition gate_state :: "OrderBook \<Rightarrow> bool \<times> nat" where
  "gate_state b = (in_public_entry b, owner_thread b)"

lemma gate_state_simps [simp]:
  "gate_state (HFT_JOURNAL_REASON E ev i px q s r b) = gate_state b" "gate_state (HFT_JOURNAL E ev i px q s b) = gate_state b"
  "gate_state (set_levels d ls b) = gate_state b" "gate_state (b\<lparr>order_map := om\<rparr>) = gate_state b"
  "gate_state (b\<lparr>order_pool := p\<rparr>) = gate_state b" "gate_state (b\<lparr>active_count := n\<rparr>) = gate_state b"
  "gate_state (b\<lparr>bids_bitset := w\<rparr>) = gate_state b" "gate_state (b\<lparr>bids_summary := w\<rparr>) = gate_state b"
  "gate_state (b\<lparr>asks_bitset := w\<rparr>) = gate_state b" "gate_state (b\<lparr>asks_summary := w\<rparr>) = gate_state b"
  "gate_state (b\<lparr>best_bid := v\<rparr>) = gate_state b" "gate_state (b\<lparr>best_ask := v\<rparr>) = gate_state b"
  "gate_state (b\<lparr>best_bid_idx := n'\<rparr>) = gate_state b" "gate_state (b\<lparr>best_ask_idx := n'\<rparr>) = gate_state b"
  "gate_state (b\<lparr>has_bids := h\<rparr>) = gate_state b" "gate_state (b\<lparr>has_asks := h\<rparr>) = gate_state b"
  by (cases d; simp add: gate_state_def HFT_JOURNAL_def HFT_JOURNAL_REASON_def)+

text \<open>
  \<open>all_seen P g\<close>: the callback gives a result in \<open>P\<close> on every book whose latch and owner are
  \<open>g\<close>. Then every result a call adds is in \<open>P\<close>, and the call keeps \<open>g\<close>.
\<close>

definition all_seen :: "('t \<Rightarrow> bool) \<Rightarrow> bool \<times> nat \<Rightarrow> 't Callback \<Rightarrow> bool" where
  "all_seen P g cb \<longleftrightarrow> (\<forall>b t. gate_state b = g \<longrightarrow> P (cb b t))"

lemma all_seenD: "all_seen P g cb \<Longrightarrow> gate_state b = g \<Longrightarrow> P (cb b t)"
  by (simp add: all_seen_def)

lemma fill_single_seen:
  assumes "fill_single cb E side taker idx b ts = Some (b', ts')" "all_seen P (gate_state b) cb" "list_all P ts"
  shows "gate_state b' = gate_state b \<and> list_all P ts'"
  using assms by (auto simp: fill_single_def Let_def bind_eq_Some_conv all_seenD)

lemma fill_chain_seen:
  "fill_chain cb n E side taker idx b ts = Some (b', ts') \<Longrightarrow> all_seen P (gate_state b) cb \<Longrightarrow> list_all P ts \<Longrightarrow>
   gate_state b' = gate_state b \<and> list_all P ts'"
proof (induction n arbitrary: idx b ts)
  case (Suc n)
  from Suc.prems show ?case
    by (auto simp: Let_def bind_eq_Some_conv all_seenD split: if_splits dest!: Suc.IH)
qed simp

lemma consume_level_seen:
  assumes "consume_level cb E side taker li l qty b ts = Some (b', q', ts')" "all_seen P (gate_state b) cb" "list_all P ts"
  shows "gate_state b' = gate_state b \<and> list_all P ts'"
  using assms
  by (auto simp: consume_level_def Let_def bind_eq_Some_conv split: if_splits prod.splits simp del: fill_chain.simps
      dest!: fill_single_seen [where P = P] fill_chain_seen [where P = P])

lemma partial_fill_seen:
  "partial_fill cb n E side taker idx l qty b ts = Some (l', q', b', ts') \<Longrightarrow> \<forall>l. all_seen P (gate_state b) (cb l) \<Longrightarrow>
   list_all P ts \<Longrightarrow> gate_state b' = gate_state b \<and> list_all P ts'"
proof (induction n arbitrary: idx l qty b ts)
  case (Suc n)
  note cb = all_seenD [OF Suc.prems(2) [rule_format]]
  show ?case
  proof (cases "idx \<noteq> INVALID_INDEX \<and> qty > 0")
    case True
    with Suc.prems(1) obtain x bm lm qm im where "partial_fill cb n E side taker im lm qm bm (ts @ [x]) = Some (l', q', b', ts')"
      "gate_state bm = gate_state b" "P x"
      by (auto simp: Let_def bind_eq_Some_conv cb split: if_splits)
    from Suc.IH [OF this(1)] this(2,3) Suc.prems(2,3) show ?thesis by simp
  next
    case False
    with Suc.prems show ?thesis by auto
  qed
qed simp

lemma fill_level_seen:
  assumes "fill_level cb E side taker li qty b ts = Some (b', q', ts')" "all_seen P (gate_state b) cb" "list_all P ts"
  shows "gate_state b' = gate_state b \<and> list_all P ts'"
proof -
  have s: "all_seen P (gate_state b) (\<lambda>b. cb (set_levels (opposite side) ((levels (opposite side) b)[li := l]) b))" for l
    using assms(2) by (simp add: all_seen_def)
  show ?thesis
    using assms
    by (auto simp: fill_level_def Let_def bind_eq_Some_conv s split: if_splits prod.splits simp del: partial_fill.simps
        dest!: consume_level_seen [where P = P] partial_fill_seen [where P = P])
qed

lemma advance_best_gate:
  "advance_best_ask E b = Some b' \<Longrightarrow> gate_state b' = gate_state b"
  "advance_best_bid E b = Some b' \<Longrightarrow> gate_state b' = gate_state b"
  by (auto simp: advance_best_ask_def advance_best_bid_def scan_best_ask_def scan_best_bid_def Let_def bind_eq_Some_conv
      split: if_splits option.splits prod.splits)

lemma match_buy_loop_seen:
  "match_buy_loop cb n E taker px qty b ts = Some (q', b', ts') \<Longrightarrow> all_seen P (gate_state b) cb \<Longrightarrow> list_all P ts \<Longrightarrow>
   gate_state b' = gate_state b \<and> list_all P ts'"
proof (induction n arbitrary: qty b ts)
  case (Suc n)
  from Suc.prems show ?case
    by (auto simp: Let_def bind_eq_Some_conv split: if_splits prod.splits
        dest!: Suc.IH fill_level_seen [where P = P] advance_best_gate)
qed simp

lemma match_sell_loop_seen:
  "match_sell_loop cb n E taker px qty b ts = Some (q', b', ts') \<Longrightarrow> all_seen P (gate_state b) cb \<Longrightarrow> list_all P ts \<Longrightarrow>
   gate_state b' = gate_state b \<and> list_all P ts'"
proof (induction n arbitrary: qty b ts)
  case (Suc n)
  from Suc.prems show ?case
    by (auto simp: Let_def bind_eq_Some_conv split: if_splits prod.splits
        dest!: Suc.IH fill_level_seen [where P = P] advance_best_gate)
qed simp

lemma match_order_direct_seen:
  "match_order_direct cb E side taker px qty b = Some (q', b', ts') \<Longrightarrow> all_seen P (gate_state b) cb \<Longrightarrow>
   gate_state b' = gate_state b \<and> list_all P ts'"
  by (auto simp: match_order_direct_def split: Side.splits simp del: match_buy_loop.simps match_sell_loop.simps
      dest!: match_buy_loop_seen [where P = P] match_sell_loop_seen [where P = P])

lemma add_order_body_seen:
  assumes "add_order_body cb E i type px qty side b = Some (res, b')" "all_seen P (gate_state b) cb"
  shows "list_all P (res_trades res)"
  using assms
  by (auto simp: add_order_body_def Let_def bind_eq_Some_conv mk_result_def split: if_splits prod.splits
      dest!: match_order_direct_seen [where P = P])

text \<open>In the instrumented builds every callback runs with the latch set, and the call releases it.\<close>

lemma add_order_latched:
  assumes "hft_debug_tools E" "\<not> in_public_entry b" "add_order_with (\<lambda>bc t. (bc, t)) E i type px qty side b = Some (res, b')"
  shows "\<not> in_public_entry b' \<and> (\<forall>x \<in> set (res_trades res). in_public_entry (fst x) \<and> owner_thread (fst x) = owner_thread b)"
proof -
  let ?P = "\<lambda>x :: OrderBook \<times> Trade. in_public_entry (fst x) \<and> owner_thread (fst x) = owner_thread b"
  have s: "all_seen ?P (gate_state (b\<lparr>in_public_entry := True\<rparr>)) (\<lambda>bc t. (bc, t))" by (simp add: all_seen_def gate_state_def)
  from assms consider "res_trades res = []" "\<not> in_public_entry b'"
    | b1 where "add_order_body (\<lambda>bc t. (bc, t)) E i type px qty side (b\<lparr>in_public_entry := True\<rparr>) = Some (res, b1)" "\<not> in_public_entry b'"
    by (auto simp: add_order_with_def bind_eq_Some_conv mk_result_def split: if_splits)
  then show ?thesis using add_order_body_seen [OF _ s] by cases (simp_all add: list_all_iff)
qed

end
