(* ===== verification/Book_Properties.thy ===== *)
theory Book_Properties
  imports Engine_Samples Book_Access Order_Callbacks
begin

text \<open>
  What the engine guarantees in every state a book can reach, stated over the calls of the
  code: refinement of the specification, the invariant, conservation of quantity, price-time
  priority, error behaviour, the entry gate, and the introspection functions.
\<close>

section \<open>What the statements use\<close>

text \<open>What the entry gate reports for a call it does not let in.\<close>

definition gate_message :: "Env \<Rightarrow> OrderBook \<Rightarrow> string \<Rightarrow> string" where
  "gate_message E b entry_point =
     (if this_thread E \<noteq> owner_thread b
      then ''OrderBook thread-contract violation: '' @ entry_point @ '' called from a foreign thread''
      else ''OrderBook re-entrancy violation: '' @ entry_point @ '' called from inside a trade callback'')"

text \<open>The gate refuses whatever call is made on the book: the message reaches the handler, and the call has no effect.\<close>

definition refuses :: "Env \<Rightarrow> OrderBook \<Rightarrow> bool" where
  "refuses E b \<longleftrightarrow>
     (\<forall>i ty px q s. add_order E i ty px q s b =
        (case book_fault_handler E of
           Some h \<Rightarrow> if h (gate_message E b ''add_order'') = SkipOperation then Some (mk_result ReentrancyBlocked 0 [], b) else None
         | None \<Rightarrow> None)) \<and>
     (\<forall>i. cancel_order E i b =
        (case book_fault_handler E of
           Some h \<Rightarrow> if h (gate_message E b ''cancel_order'') = SkipOperation then Some (ReentrancyBlocked, b) else None
         | None \<Rightarrow> None))"

lemma latched_refuses:
  assumes "hft_debug_tools E" "this_thread E \<noteq> owner_thread b \<or> in_public_entry b"
  shows "refuses E b"
  using assms
  by (auto simp: refuses_def add_order_def add_order_with_def cancel_order_def debug_entry_gate_def book_fault_def
      gate_message_def snprintf_def kFaultMessageBytes_def split: option.splits)

lemma rest_qty:
  assumes "spec_rest cfg i px q s B = (r, B')"
  shows "r = Accepted \<Longrightarrow> side_qty s B' = side_qty s B + unat q \<and> side_qty (opposite s) B' = side_qty (opposite s) B"
    "r \<noteq> Accepted \<Longrightarrow> r = PoolExhausted \<and> B' = B \<and> cfg_capacity cfg \<le> book_size B"
proof -
  obtain as bs where "resting s B = as @ bs" "spec_insert s \<lparr>rid = i, rprice = px, rqty = q\<rparr> (resting s B) = as @ \<lparr>rid = i, rprice = px, rqty = q\<rparr> # bs"
    using spec_insert_split by blast
  then show "r = Accepted \<Longrightarrow> side_qty s B' = side_qty s B + unat q \<and> side_qty (opposite s) B' = side_qty (opposite s) B"
    "r \<noteq> Accepted \<Longrightarrow> r = PoolExhausted \<and> B' = B \<and> cfg_capacity cfg \<le> book_size B"
    using assms by (auto simp: spec_rest_def side_qty_def split: if_splits)
qed

text \<open>A limit order is told \<open>PoolExhausted\<close> when it trades nothing and no slot is free.\<close>

lemma limit_pool_exhausted:
  assumes "spec_add cfg i Limit px q s B = (res, B')" "spec_inv cfg B" "book_size B \<le> cfg_capacity cfg"
  shows "res_reason res = PoolExhausted \<longleftrightarrow> spec_check cfg i Limit px q s B = None \<and>
    book_size B = cfg_capacity cfg \<and> (\<forall>r \<in> set (resting (opposite s) B). \<not> crosses s px (rprice r))"
proof -
  have nc: "Limit \<noteq> Cancel" by simp
  show ?thesis
    using assms(1) nc
  proof (cases rule: add_cases)
    case (submitted ts q' B1)
    have q0: "q \<noteq> 0" using submitted(1) by (auto simp: spec_check_def split: if_splits)
    show ?thesis
    proof (cases "q' = 0")
      case True
      then have "\<exists>r \<in> set (resting (opposite s) B). crosses s px (rprice r)"
        using match_nothing [of s B px i q] submitted(2) q0 by (auto simp: limit_of_def)
      with submitted(5) True show ?thesis by auto
    next
      case False
      have r: "res_reason res = PoolExhausted \<longleftrightarrow> cfg_capacity cfg \<le> book_size B1"
        using submitted(6) [OF False refl] by (auto simp: spec_rest_def split: if_splits)
      note fr = match_frees [OF submitted(2) False]
      have left: "\<forall>r \<in> set (resting (opposite s) B1). \<not> crosses s px (rprice r)"
        using spec_match_left [OF assms(2) submitted(2) False] by (simp add: limit_of_def)
      have "ts = [] \<longleftrightarrow> (\<forall>r \<in> set (resting (opposite s) B). \<not> crosses s px (rprice r))"
        using match_nothing [of s B px i q] submitted(2) left fr(2) by (auto simp: limit_of_def)
      moreover have "cfg_capacity cfg \<le> book_size B1 \<longleftrightarrow> ts = [] \<and> book_size B = cfg_capacity cfg"
        using fr(1) assms(3) by (cases ts) auto
      ultimately show ?thesis using r submitted(1) by simp blast
    qed
  next
    case (rejected r)
    then show ?thesis using check_not_accepted [OF rejected(1)] by (simp add: mk_result_def)
  qed
qed

text \<open>The maker of a trade.\<close>

lemma spec_fill_maker:
  assumes "spec_fill c t q rs = (ts, q', rs')" "x \<in> set ts"
  shows "\<exists>r \<in> set rs. maker_id x = rid r \<and> trade_price x = rprice r \<and> trade_quantity x \<le> rqty r"
proof -
  obtain k where k: "k < length ts" "x = ts ! k" using assms(2) by (auto simp: in_set_conv_nth)
  from spec_fill_nth [OF assms(1) k(1)]
  have "k < length rs" "x = spec_trade (rs ! k) t (trade_quantity x)" "trade_quantity x \<le> rqty (rs ! k)"
    using k(2) by simp_all
  moreover from this(2) have "maker_id x = rid (rs ! k)" "trade_price x = rprice (rs ! k)"
    by (metis Trade.select_convs(1) spec_trade_def) (metis Trade.select_convs(3) calculation(2) spec_trade_def)
  ultimately show ?thesis by (intro bexI [of _ "rs ! k"]) simp_all
qed

section \<open>Properties of the engine\<close>

text \<open>
  C1: on every reachable book, a call of \<open>add_order\<close> that may enter returns, and its result
  code, filled quantity, trades and resulting book are those of the specification.
\<close>

theorem add_order_correct:
  assumes "reachable (hft_debug_tools E) b" "may_enter E b"
  shows "\<exists>res b'. add_order E i ty px q s b = Some (res, b') \<and>
    spec_add (cfg_of b) i ty px q s (book_abs b) = (res, book_abs b') \<and>
    reachable (hft_debug_tools E) b' \<and> may_enter E b' \<and> cfg_of b' = cfg_of b"
proof -
  have "book_inv E b" using reachable_engine [OF assms] by (simp add: engine_inv_def)
  then obtain res b' where "add_order E i ty px q s b = Some (res, b')"
    using add_order_refines [OF _ assms(2)] by blast
  with add_spec [OF assms this] add_reachable [OF assms(1) this] show ?thesis by blast
qed

theorem add_order_correct_witness:
  "\<exists>res b'. add_order E_release 7 Limit 50 3 Buy (sample_book E_release) = Some (res, b') \<and>
    res = \<lparr>res_reason = Accepted, res_filled = 0, res_trades = []\<rparr> \<and>
    book_abs b' = \<lparr>spec_bids = [\<lparr>rid = 7, rprice = 50, rqty = 3\<rparr>], spec_asks = []\<rparr>"
  using add_order_correct [OF sample_reachable(1,2), of E_release 7 Limit 50 3 Buy]
  by (auto simp: sample_cfg sample_reachable(3) spec_eval)

text \<open>C2: the same for \<open>cancel_order\<close>.\<close>

theorem cancel_order_correct:
  assumes "reachable (hft_debug_tools E) b" "may_enter E b"
  shows "\<exists>r b'. cancel_order E i b = Some (r, b') \<and>
    spec_cancel (cfg_of b) i (book_abs b) = (r, book_abs b') \<and>
    reachable (hft_debug_tools E) b' \<and> may_enter E b' \<and> cfg_of b' = cfg_of b"
proof -
  have "book_inv E b" using reachable_engine [OF assms] by (simp add: engine_inv_def)
  then obtain r b' where 1: "cancel_order E i b = Some (r, b')" "static b' = static b"
    "spec_cancel (cfg_of b) i (book_abs b) = (r, book_abs b')"
    using cancel_order_refines [OF _ assms(2)] by blast
  with cancel_reachable [OF assms(1) 1(1)] static_cfg [OF 1(2)] static_enter [OF 1(2)] assms(2) show ?thesis by auto
qed

theorem cancel_order_correct_witness:
  "\<exists>b. reachable True b \<and> book_abs b = \<lparr>spec_bids = [\<lparr>rid = 7, rprice = 50, rqty = 3\<rparr>], spec_asks = []\<rparr> \<and>
    (\<exists>b'. cancel_order E_audit 7 b = Some (Accepted, b') \<and> book_abs b' = spec_empty)"
proof -
  obtain b where b: "reachable True b" "may_enter E_audit b"
    "book_abs b = \<lparr>spec_bids = [\<lparr>rid = 7, rprice = 50, rqty = 3\<rparr>], spec_asks = []\<rparr>"
    "cfg_of b = \<lparr>cfg_max_id = 100, cfg_capacity = 8, cfg_min = 1, cfg_max = 1000\<rparr>"
    using sample_run [of "[Add 7 Limit 50 3 Buy]" _ _ E_audit] by (auto simp: spec_eval)
  then show ?thesis
    using cancel_order_correct [of E_audit b 7] by (auto simp: spec_eval)
qed

text \<open>
  C3: a whole session on a new book, whatever the requests, runs to its end, with the outcomes
  and the final book of the specification started on the empty book.
\<close>

theorem session_correct:
  assumes "OrderBook_new E max_id max_active minp maxp = Some b"
  shows "\<exists>rs b'. run (engine_step E) xs b = Some (rs, b') \<and> length rs = length xs \<and>
    spec_run (cfg_of b) xs spec_empty = (rs, book_abs b')"
  using eng.run_refines [OF new_engine_inv [OF assms], of xs] OrderBook_new_abs(1) [OF assms] by auto

theorem session_correct_witness:
  "\<exists>rs b'. run (engine_step E_release) [Add 1 Limit 50 3 Buy, Add 2 Market 0 2 Sell, CancelId 1] (sample_book E_release) = Some (rs, b') \<and>
    rs = [Added \<lparr>res_reason = Accepted, res_filled = 0, res_trades = []\<rparr>,
      Added \<lparr>res_reason = Accepted, res_filled = 2,
        res_trades = [\<lparr>maker_id = 1, taker_id = 2, trade_price = 50, trade_quantity = 2\<rparr>]\<rparr>,
      Cancelled Accepted]"
  using session_correct [where xs = "[Add 1 Limit 50 3 Buy, Add 2 Market 0 2 Sell, CancelId 1]", OF sample_new [of E_release]]
  by (auto simp: sample_cfg spec_eval MARKET_SELL_PRICE_def)

text \<open>
  C5: the representation invariant holds in every reachable state: each pool slot is in exactly
  one queue or free, the id map, the links, the counters, the bitsets and the best prices agree
  with the resting orders, and the entry latch is released.
\<close>

theorem reachable_book_inv:
  assumes "reachable (hft_debug_tools E) b"
  shows "book_inv E b \<and> \<not> in_public_entry b"
  using reachable_inv(1) [OF assms refl] reachable_inv(2) [OF assms] by simp

theorem reachable_book_inv_witness: "book_inv E_audit (sample_book E_audit) \<and> \<not> in_public_entry (sample_book E_audit)"
  by (rule reachable_book_inv [OF sample_reachable(1)])

text \<open>C10: a reachable book is never crossed: the best bid is below the best ask.\<close>

theorem never_crossed:
  assumes "reachable D b" "has_bids b" "has_asks b"
  shows "best_bid b < best_ask b"
proof -
  obtain E where D: "hft_debug_tools E = D" using sample_flavor by (metis (full_types))
  have bi: "book_inv E b" using reachable_inv(1) [OF assms(1) D] .
  then have "uncrossed (book_abs b)" by (simp add: book_inv_def spec_inv_def)
  with best_prices(1-4) [OF bi] assms(2,3) show ?thesis by (simp add: uncrossed_def)
qed

theorem never_crossed_witness:
  "\<exists>b. reachable False b \<and> has_bids b \<and> has_asks b \<and> best_bid b < best_ask b"
proof -
  obtain b where b: "reachable False b"
    "book_abs b = \<lparr>spec_bids = [\<lparr>rid = 7, rprice = 50, rqty = 3\<rparr>], spec_asks = [\<lparr>rid = 8, rprice = 60, rqty = 1\<rparr>]\<rparr>"
    using sample_run [of "[Add 7 Limit 50 3 Buy, Add 8 Limit 60 1 Sell]" _ _ E_release] by (auto simp: spec_eval)
  then have "has_bids b" "has_asks b" using best_prices(1,2) [of E_release b] reachable_inv(1) [OF b(1), of E_release] by simp_all
  with b(1) never_crossed show ?thesis by blast
qed

text \<open>
  C12: quantity is conserved. The reported fill is the sum of the trades and at most the
  quantity submitted, the opposite side loses exactly what was filled, and an accepted limit
  order adds exactly its remainder to its own side.
\<close>

theorem quantity_conserved:
  assumes "reachable (hft_debug_tools E) b" "may_enter E b" "add_order E i ty px q s b = Some (res, b')" "ty \<noteq> Cancel"
  shows "unat (res_filled res) = (\<Sum>x\<leftarrow>res_trades res. unat (trade_quantity x)) \<and> res_filled res \<le> q \<and>
    side_qty (opposite s) (book_abs b) = side_qty (opposite s) (book_abs b') + unat (res_filled res) \<and>
    side_qty s (book_abs b') = side_qty s (book_abs b) +
      (if ty = Limit \<and> res_reason res = Accepted then unat q - unat (res_filled res) else 0)"
  using add_spec(1) [OF assms(1-3)] assms(4)
proof (cases rule: add_cases)
  case (rejected r)
  then show ?thesis using check_not_accepted [OF rejected(1)] by (simp add: mk_result_def)
next
  case (submitted ts q' B1)
  note mq = match_qty [OF submitted(2)]
  have le: "unat q' \<le> unat q" "unat q - unat (q - q') = unat q'" "q - q' \<le> q"
    using mq(4) by (simp_all add: unat_sub word_le_nat_alt)
  show ?thesis
  proof (cases "q' = 0 \<or> ty = Market")
    case True
    then show ?thesis using submitted(3,4,5) mq le by auto
  next
    case False
    then have "ty = Limit" using assms(4) by (cases ty) auto
    with submitted(3,4,6) False mq le rest_qty [of "cfg_of b" i px q' s B1 "res_reason res" "book_abs b'"]
    show ?thesis by (cases "res_reason res = Accepted") auto
  qed
qed

theorem quantity_conserved_witness:
  "\<exists>b res b'. add_order E_release 9 Limit 60 5 Buy b = Some (res, b') \<and> unat (res_filled res) = 3 \<and>
    side_qty Sell (book_abs b) = side_qty Sell (book_abs b') + 3 \<and> side_qty Buy (book_abs b') = side_qty Buy (book_abs b) + 2"
proof -
  obtain b where b: "reachable False b" "may_enter E_release b"
    "book_abs b = \<lparr>spec_bids = [], spec_asks = [\<lparr>rid = 8, rprice = 60, rqty = 3\<rparr>]\<rparr>"
    "cfg_of b = \<lparr>cfg_max_id = 100, cfg_capacity = 8, cfg_min = 1, cfg_max = 1000\<rparr>"
    using sample_run [of "[Add 8 Limit 60 3 Sell]" _ _ E_release] by (auto simp: spec_eval)
  obtain res b' where a: "add_order E_release 9 Limit 60 5 Buy b = Some (res, b')"
    using add_order_refines [of E_release b 9 Limit 60 5 Buy] reachable_engine [of E_release b] b by (auto simp: engine_inv_def)
  have "res = mk_result Accepted 3 [\<lparr>maker_id = 8, taker_id = 9, trade_price = 60, trade_quantity = 3\<rparr>]"
    using add_spec(1) [OF _ b(2) a] b by (simp add: spec_eval)
  with quantity_conserved [OF _ b(2) a] b(1) a show ?thesis by (intro exI [of _ b] exI [of _ res] exI [of _ b']) (simp add: mk_result_def)
qed

text \<open>
  C13: every trade names the taker and an order that rests on the opposite side, is at the price
  of that order, carries a positive quantity of at most what rests there, and is within the
  taker's limit; a market order has none.
\<close>

theorem trades_within_limit:
  assumes "reachable (hft_debug_tools E) b" "may_enter E b" "add_order E i ty px q s b = Some (res, b')"
    "x \<in> set (res_trades res)"
  shows "taker_id x = i \<and> trade_quantity x \<noteq> 0 \<and>
    (\<exists>r \<in> set (resting (opposite s) (book_abs b)).
       maker_id x = rid r \<and> trade_price x = rprice r \<and> trade_quantity x \<le> rqty r) \<and>
    (ty = Limit \<longrightarrow> (if s = Buy then trade_price x \<le> px else px \<le> trade_price x))"
proof (cases "ty = Cancel")
  case True
  then show ?thesis using add_cancel_type [of "cfg_of b" i px q s "book_abs b"] add_spec(1) [OF assms(1-3)] assms(4) by simp
next
  case False
  from add_spec(1) [OF assms(1-3)] False show ?thesis
  proof (cases rule: add_cases)
    case (rejected r)
    then show ?thesis using assms(4) by (simp add: mk_result_def)
  next
    case (submitted ts q' B1)
    obtain rs where f: "spec_fill (crosses s (limit_of ty s px)) i q (resting (opposite s) (book_abs b)) = (ts, q', rs)"
      using submitted(2) by (rule spec_match_fill)
    have "\<forall>r \<in> set (resting (opposite s) (book_abs b)). rqty r \<noteq> 0"
      using add_spec(2) [OF assms(1-3)] by (auto simp: spec_inv_side list_all_iff order_ok_def)
    note tr = spec_fill_trades [OF f this]
    have x: "x \<in> set ts" using assms(4) submitted(4) by simp
    note spec_fill_maker [OF f x]
    moreover have "ty = Limit \<longrightarrow> (if s = Buy then trade_price x \<le> px else px \<le> trade_price x)"
      using tr x by (cases s) (auto simp: crosses_def limit_of_def)
    ultimately show ?thesis using tr x by blast
  qed
qed

theorem trades_within_limit_witness:
  "\<exists>b res b' x. add_order E_audit 9 Limit 61 5 Buy b = Some (res, b') \<and> x \<in> set (res_trades res) \<and>
    taker_id x = 9 \<and> maker_id x = 8 \<and> trade_price x = 60 \<and> trade_quantity x \<le> 3"
proof -
  obtain b where b: "reachable True b" "may_enter E_audit b"
    "book_abs b = \<lparr>spec_bids = [], spec_asks = [\<lparr>rid = 8, rprice = 60, rqty = 3\<rparr>]\<rparr>"
    "cfg_of b = \<lparr>cfg_max_id = 100, cfg_capacity = 8, cfg_min = 1, cfg_max = 1000\<rparr>"
    using sample_run [of "[Add 8 Limit 60 3 Sell]" _ _ E_audit] by (auto simp: spec_eval)
  obtain res b' where a: "add_order E_audit 9 Limit 61 5 Buy b = Some (res, b')"
    using add_order_refines [of E_audit b 9 Limit 61 5 Buy] reachable_engine [of E_audit b] b by (auto simp: engine_inv_def)
  have "res = mk_result Accepted 3 [\<lparr>maker_id = 8, taker_id = 9, trade_price = 60, trade_quantity = 3\<rparr>]"
    using add_spec(1) [OF _ b(2) a] b by (simp add: spec_eval)
  then have x: "\<lparr>maker_id = 8, taker_id = 9, trade_price = 60, trade_quantity = 3\<rparr> \<in> set (res_trades res)" by (simp add: mk_result_def)
  with trades_within_limit [OF _ b(2) a x] b(1,3) a show ?thesis by fastforce
qed

text \<open>
  C14: price-time priority. The makers of an order's trades, in the order the callback sees
  them, are the first orders of the opposite side sorted by price, then by arrival, each
  trading at its own price; every maker is filled whole, except that the last one may keep a
  part when the taker's quantity is used up.
\<close>

theorem price_time_priority:
  assumes "reachable (hft_debug_tools E) b" "may_enter E b" "add_order E i ty px q s b = Some (res, b')"
  shows "side_sorted (opposite s) (resting (opposite s) (book_abs b)) \<and>
    map (\<lambda>x. (maker_id x, trade_price x)) (res_trades res) =
      take (length (res_trades res)) (map (\<lambda>r. (rid r, rprice r)) (resting (opposite s) (book_abs b))) \<and>
    (\<forall>k < length (res_trades res).
       trade_quantity (res_trades res ! k) \<le> rqty (resting (opposite s) (book_abs b) ! k) \<and>
       (Suc k < length (res_trades res) \<or> res_filled res \<noteq> q \<longrightarrow>
          trade_quantity (res_trades res ! k) = rqty (resting (opposite s) (book_abs b) ! k)))"
proof -
  have so: "side_sorted (opposite s) (resting (opposite s) (book_abs b))"
    using add_spec(2) [OF assms] by (simp add: spec_inv_side)
  show ?thesis
  proof (cases "ty = Cancel")
    case True
    then show ?thesis using so add_cancel_type [of "cfg_of b" i px q s "book_abs b"] add_spec(1) [OF assms] by simp
  next
    case False
    from add_spec(1) [OF assms] False show ?thesis
    proof (cases rule: add_cases)
      case (rejected r)
      then show ?thesis using so by (simp add: mk_result_def)
    next
      case (submitted ts q' B1)
      obtain rs where f: "spec_fill (crosses s (limit_of ty s px)) i q (resting (opposite s) (book_abs b)) = (ts, q', rs)"
        using submitted(2) by (rule spec_match_fill)
      from spec_fill_makers [OF f] spec_fill_nth [OF f] so submitted(3,4) show ?thesis by auto
    qed
  qed
qed

theorem price_time_priority_witness:
  "\<exists>b res b'. add_order E_release 9 Limit 61 5 Buy b = Some (res, b') \<and>
    map maker_id (res_trades res) = [10, 8] \<and> side_sorted Sell (spec_asks (book_abs b)) \<and>
    map (\<lambda>x. (maker_id x, trade_price x)) (res_trades res) = [(10, 59), (8, 60)] \<and>
    trade_quantity (res_trades res ! 0) = 1 \<and> trade_quantity (res_trades res ! 1) \<le> 9"
proof -
  obtain b where b: "reachable False b" "may_enter E_release b"
    "book_abs b = \<lparr>spec_bids = [], spec_asks = [\<lparr>rid = 10, rprice = 59, rqty = 1\<rparr>, \<lparr>rid = 8, rprice = 60, rqty = 9\<rparr>]\<rparr>"
    "cfg_of b = \<lparr>cfg_max_id = 100, cfg_capacity = 8, cfg_min = 1, cfg_max = 1000\<rparr>"
    using sample_run [of "[Add 8 Limit 60 9 Sell, Add 10 Limit 59 1 Sell]" _ _ E_release] by (auto simp: spec_eval)
  obtain res b' where a: "add_order E_release 9 Limit 61 5 Buy b = Some (res, b')"
    using add_order_refines [of E_release b 9 Limit 61 5 Buy] reachable_engine [of E_release b] b by (auto simp: engine_inv_def)
  have res: "length (res_trades res) = 2" "map maker_id (res_trades res) = [10, 8]"
    using add_spec(1) [OF _ b(2) a] b by (auto simp: spec_eval)
  have r: "reachable (hft_debug_tools E_release) b" using b(1) by simp
  note pt = price_time_priority [OF r b(2) a]
  have "\<forall>k < 2. trade_quantity (res_trades res ! k) \<le> rqty (spec_asks (book_abs b) ! k) \<and>
      (Suc k < 2 \<longrightarrow> trade_quantity (res_trades res ! k) = rqty (spec_asks (book_abs b) ! k))"
    using pt res(1) by simp
  then have "trade_quantity (res_trades res ! 0) = 1" "trade_quantity (res_trades res ! 1) \<le> 9"
    using b(3) by (simp_all add: numeral_2_eq_2 less_Suc_eq all_conj_distrib)
  with pt b(3) a res show ?thesis
    by (intro exI [of _ b] exI [of _ res] exI [of _ b']) (simp add: numeral_2_eq_2)
qed

text \<open>
  C15: a call that is not accepted changes nothing: no trade, no fill, the same resting orders.
  This covers \<open>PoolExhausted\<close>, which is found only after matching.
\<close>

theorem not_accepted_no_effect:
  assumes "reachable (hft_debug_tools E) b" "may_enter E b" "add_order E i ty px q s b = Some (res, b')"
    "res_reason res \<noteq> Accepted"
  shows "res_trades res = [] \<and> res_filled res = 0 \<and> book_abs b' = book_abs b"
proof (cases "ty = Cancel")
  case True
  then have "res_filled res = 0 \<and> res_trades res = [] \<and> spec_cancel (cfg_of b) i (book_abs b) = (res_reason res, book_abs b')"
    using add_cancel_type add_spec(1) [OF assms(1-3)] by blast
  then show ?thesis using assms(4) by (auto simp: spec_cancel_def split: if_splits)
next
  case False
  from add_spec(1) [OF assms(1-3)] False show ?thesis
  proof (cases rule: add_cases)
    case (rejected r)
    then show ?thesis by (simp add: mk_result_def)
  next
    case (submitted ts q' B1)
    then have q': "q' \<noteq> 0" "ty = Limit" using assms(4) False by (cases ty; auto)+
    then have r: "book_abs b' = B1" "cfg_capacity (cfg_of b) \<le> book_size B1"
      using submitted(6) rest_qty(2) [of "cfg_of b" i px q' s B1] assms(4) by auto
    have "book_size (book_abs b) \<le> cfg_capacity (cfg_of b)" using add_spec(2) [OF assms(1-3)] by (simp add: spec_inv_def)
    with match_frees(1) [OF submitted(2) q'(1)] r(2) have "length ts = 0" by linarith
    then have "ts = []" by simp
    with match_frees(2) [OF submitted(2) q'(1)] match_qty(3) [OF submitted(2)] submitted(3,4) r(1) show ?thesis
      by (simp add: unat_eq_0)
  qed
qed

theorem not_accepted_no_effect_witness:
  "\<exists>res b'. add_order E_audit 101 Limit 50 3 Buy (sample_book E_audit) = Some (res, b') \<and>
    res_reason res = OutOfBoundsOrderId \<and> res_trades res = [] \<and> book_abs b' = spec_empty"
proof -
  obtain res b' where a: "add_order E_audit 101 Limit 50 3 Buy (sample_book E_audit) = Some (res, b')"
    using add_order_refines [of E_audit "sample_book E_audit" 101 Limit 50 3 Buy]
      reachable_engine [OF sample_reachable(1,2), of E_audit] sample_reachable(2) by (auto simp: engine_inv_def)
  have "res_reason res = OutOfBoundsOrderId"
    using add_spec(1) [OF sample_reachable(1,2) a] by (auto simp: sample_cfg spec_eval)
  with not_accepted_no_effect [OF sample_reachable(1,2) a] a sample_reachable(3) show ?thesis by auto
qed

text \<open>
  C16: \<open>PoolExhausted\<close> is reported exactly for a valid limit order that crosses nothing while
  every slot of the pool holds a resting order; no other type of order gets it.
\<close>

theorem pool_exhausted_iff:
  assumes "reachable (hft_debug_tools E) b" "may_enter E b" "add_order E i ty px q s b = Some (res, b')"
  shows "res_reason res = PoolExhausted \<longleftrightarrow> ty = Limit \<and>
    spec_check (cfg_of b) i Limit px q s (book_abs b) = None \<and> book_size (book_abs b) = capacity (order_pool b) \<and>
    (\<forall>r \<in> set (resting (opposite s) (book_abs b)). \<not> crosses s px (rprice r))"
proof -
  note si = add_spec(2) [OF assms]
  have cap: "book_size (book_abs b) \<le> cfg_capacity (cfg_of b)" "cfg_capacity (cfg_of b) = capacity (order_pool b)"
    using si by (simp_all add: spec_inv_def cfg_of_def)
  consider "ty = Cancel" | "ty = Market" | "ty = Limit" by (cases ty)
  then show ?thesis
  proof cases
    case 1
    then show ?thesis
      using add_cancel_type [of "cfg_of b" i px q s "book_abs b" res "book_abs b'"] add_spec(1) [OF assms]
      by (auto simp: spec_cancel_def split: if_splits)
  next
    case 2
    then have nc: "ty \<noteq> Cancel" by simp
    from add_spec(1) [OF assms] nc show ?thesis
    proof (cases rule: add_cases)
      case (rejected r)
      then show ?thesis using 2 check_not_accepted [OF rejected(1)] by (simp add: mk_result_def)
    next
      case (submitted ts q' B1)
      then show ?thesis using 2 by simp
    qed
  next
    case 3
    show ?thesis using limit_pool_exhausted [OF add_spec(1) [OF assms, unfolded 3] si cap(1)] 3 cap(2) by simp
  qed
qed

theorem pool_exhausted_iff_witness:
  "\<exists>b res b'. add_order E_release 9 Limit 40 1 Buy b = Some (res, b') \<and> res_reason res = PoolExhausted \<and>
    book_size (book_abs b) = capacity (order_pool b)"
proof -
  obtain b where b: "reachable False b" "may_enter E_release b" "spec_asks (book_abs b) = []" "book_size (book_abs b) = 8"
    "cfg_of b = \<lparr>cfg_max_id = 100, cfg_capacity = 8, cfg_min = 1, cfg_max = 1000\<rparr>" "9 \<notin> set (book_ids (book_abs b))"
    using sample_run [of "map (\<lambda>i. Add (of_nat i) Limit 50 3 Buy) [1..<9]" _ _ E_release]
    by (auto simp: spec_eval upt_rec)
  obtain res b' where a: "add_order E_release 9 Limit 40 1 Buy b = Some (res, b')"
    using add_order_refines [of E_release b 9 Limit 40 1 Buy] reachable_engine [of E_release b] b by (auto simp: engine_inv_def)
  have "capacity (order_pool b) = 8" using b(5) by (simp add: cfg_of_def)
  with pool_exhausted_iff [OF _ b(2) a] b a show ?thesis
    by (intro exI [of _ b] exI [of _ res] exI [of _ b']) (simp add: spec_check_def)
qed

text \<open>
  C17: entering a limit order that does not trade and cancelling it again restores the book.
\<close>

theorem add_cancel_roundtrip:
  assumes "reachable (hft_debug_tools E) b" "may_enter E b" "add_order E i Limit px q s b = Some (res, b')"
    "res_reason res = Accepted" "res_filled res = 0"
  shows "\<exists>b''. cancel_order E i b' = Some (Accepted, b'') \<and> book_abs b'' = book_abs b"
proof -
  note sp = add_spec [OF assms(1-3)]
  have re: "reachable (hft_debug_tools E) b'" by (rule add_reachable [OF assms(1,3)])
  have bi: "book_inv E b'" using reachable_engine [OF re sp(4)] by (simp add: engine_inv_def)
  obtain r b'' where c: "cancel_order E i b' = Some (r, b'')" "spec_cancel (cfg_of b) i (book_abs b') = (r, book_abs b'')"
    using cancel_order_refines [OF bi sp(4), of i] sp(3) by auto
  have nc: "Limit \<noteq> Cancel" by simp
  have "book_abs b'' = book_abs b \<and> r = Accepted"
    using sp(1) nc
  proof (cases rule: add_cases)
    case (submitted ts q' B1)
    have q0: "q \<noteq> 0" "i \<noteq> 0" "unat i \<le> cfg_max_id (cfg_of b)" "i \<notin> set (book_ids (book_abs b))"
      using submitted(1) by (auto simp: spec_check_def split: if_splits)
    have qq: "q' = q" using assms(5) submitted(3) by simp
    then have "ts = []" using match_qty(3) [OF submitted(2)] spec_match_fill [OF submitted(2)]
    proof -
      obtain rs where f: "spec_fill (crosses s (limit_of Limit s px)) i q (resting (opposite s) (book_abs b)) = (ts, q', rs)"
        using submitted(2) by (rule spec_match_fill)
      have "\<forall>r \<in> set (resting (opposite s) (book_abs b)). rqty r \<noteq> 0"
        using sp(2) by (auto simp: spec_inv_side list_all_iff order_ok_def)
      note tr = spec_fill_trades [OF f this]
      have "(\<Sum>x\<leftarrow>ts. unat (trade_quantity x)) = 0" using match_qty(3) [OF submitted(2)] qq by simp
      then have "\<forall>x \<in> set ts. trade_quantity x = 0" by (auto simp: sum_list_eq_0_iff unat_eq_0)
      with tr show "ts = []" by (cases ts) auto
    qed
    then have B1: "B1 = book_abs b" using match_frees(2) [OF submitted(2)] qq q0 by simp
    let ?r = "\<lparr>rid = i, rprice = px, rqty = q\<rparr>"
    have B': "book_abs b' = set_resting s (spec_insert s ?r (resting s (book_abs b))) (book_abs b)"
      using submitted(6) qq q0 B1 assms(4) by (auto simp: spec_rest_def split: if_splits)
    obtain as bs where sp2: "resting s (book_abs b) = as @ bs" "spec_insert s ?r (resting s (book_abs b)) = as @ ?r # bs"
      using spec_insert_split by blast
    have oth: "\<forall>r \<in> set (resting t (book_abs b)). rid r \<noteq> i" for t
      using q0(4) by (cases t) (auto simp: book_ids_def)
    have "filter (\<lambda>r. rid r \<noteq> i) (resting t (book_abs b')) = resting t (book_abs b)" for t
      using oth [of t] sp2 unfolding B' by (cases "t = s") (auto simp: filter_id_conv)
    from this [of Buy] this [of Sell] have "spec_remove i (book_abs b') = book_abs b" by (simp add: spec_remove_def)
    moreover have "i \<in> set (book_ids (book_abs b'))" unfolding book_ids_side [of _ s] B' by simp
    ultimately show ?thesis using c(2) q0 by (auto simp: spec_cancel_def)
  next
    case (rejected r)
    then show ?thesis using assms(4) check_not_accepted [OF rejected(1)] by (simp add: mk_result_def)
  qed
  with c(1) show ?thesis by auto
qed

theorem add_cancel_roundtrip_witness:
  "\<exists>res b' b''. add_order E_audit 5 Limit 77 4 Sell (sample_book E_audit) = Some (res, b') \<and>
    cancel_order E_audit 5 b' = Some (Accepted, b'') \<and> book_abs b'' = spec_empty"
proof -
  obtain res b' where a: "add_order E_audit 5 Limit 77 4 Sell (sample_book E_audit) = Some (res, b')"
    using add_order_refines [of E_audit "sample_book E_audit" 5 Limit 77 4 Sell]
      reachable_engine [OF sample_reachable(1,2), of E_audit] sample_reachable(2) by (auto simp: engine_inv_def)
  have "res_reason res = Accepted" "res_filled res = 0"
    using add_spec(1) [OF sample_reachable(1,2) a] by (auto simp: sample_cfg sample_reachable(3) spec_eval)
  with add_cancel_roundtrip [OF sample_reachable(1,2) a] a sample_reachable(3) show ?thesis by auto
qed

text \<open>
  C18: a market order never rests, and one that is accepted without being filled whole has
  emptied the opposite side.
\<close>

theorem market_never_rests:
  assumes "reachable (hft_debug_tools E) b" "may_enter E b" "add_order E i Market px q s b = Some (res, b')"
  shows "resting s (book_abs b') = resting s (book_abs b) \<and>
    (res_reason res = Accepted \<and> res_filled res \<noteq> q \<longrightarrow> resting (opposite s) (book_abs b') = [])"
proof -
  have nc: "Market \<noteq> Cancel" by simp
  show ?thesis
    using add_spec(1) [OF assms] nc
  proof (cases rule: add_cases)
    case (rejected r)
    then show ?thesis using check_not_accepted [OF rejected(1)] by (auto simp: mk_result_def)
  next
    case (submitted ts q' B1)
    have B: "book_abs b' = B1" using submitted(5) by simp
    have "resting (opposite s) B1 = []" if "q' \<noteq> 0"
    proof -
      from market_crosses spec_match_left [OF add_spec(2) [OF assms] submitted(2) that] show ?thesis by auto
    qed
    with B submitted(3) spec_match_taker_side [OF submitted(2)] show ?thesis by auto
  qed
qed

theorem market_never_rests_witness:
  "\<exists>b res b'. add_order E_release 9 Market 0 5 Buy b = Some (res, b') \<and> res_filled res = 3 \<and>
    spec_bids (book_abs b') = spec_bids (book_abs b) \<and> spec_asks (book_abs b') = []"
proof -
  obtain b where b: "reachable False b" "may_enter E_release b"
    "book_abs b = \<lparr>spec_bids = [], spec_asks = [\<lparr>rid = 8, rprice = 60, rqty = 3\<rparr>]\<rparr>"
    "cfg_of b = \<lparr>cfg_max_id = 100, cfg_capacity = 8, cfg_min = 1, cfg_max = 1000\<rparr>"
    using sample_run [of "[Add 8 Limit 60 3 Sell]" _ _ E_release] by (auto simp: spec_eval)
  obtain res b' where a: "add_order E_release 9 Market 0 5 Buy b = Some (res, b')"
    using add_order_refines [of E_release b 9 Market 0 5 Buy] reachable_engine [of E_release b] b by (auto simp: engine_inv_def)
  have "res_reason res = Accepted" "res_filled res = 3"
    using add_spec(1) [OF _ b(2) a] b by (auto simp: spec_eval MARKET_BUY_PRICE_def UINT32_MAX_def)
  with market_never_rests [OF _ b(2) a] b(1) a show ?thesis by fastforce
qed

text \<open>
  C19: the build flavor is not observable. Books built with the same arguments in any two
  flavors, whatever handlers are installed, give the same outcomes for the same requests and
  end with the same resting orders.
\<close>

theorem flavors_agree:
  assumes "OrderBook_new E1 max_id max_active minp maxp = Some b1" "OrderBook_new E2 max_id max_active minp maxp = Some b2"
  shows "\<exists>rs b1' b2'. run (engine_step E1) xs b1 = Some (rs, b1') \<and> run (engine_step E2) xs b2 = Some (rs, b2') \<and>
    book_abs b1' = book_abs b2'"
  using engines_agree [OF eng.matching_engine_axioms eng.matching_engine_axioms, of E1 b1 E2 b2 xs]
    new_engine_inv [OF assms(1)] new_engine_inv [OF assms(2)] OrderBook_new_abs(1,2) [OF assms(1)] OrderBook_new_abs(1,2) [OF assms(2)]
  by simp

theorem flavors_agree_witness:
  "\<exists>rs b1' b2'. run (engine_step E_release) [Add 1 Limit 50 3 Buy, CancelId 1] (sample_book E_release) = Some (rs, b1') \<and>
    run (engine_step E_audit) [Add 1 Limit 50 3 Buy, CancelId 1] (sample_book E_audit) = Some (rs, b2') \<and> book_abs b1' = book_abs b2'"
  by (rule flavors_agree [OF sample_new sample_new])

text \<open>
  C20: in the instrumented builds a call from a foreign thread or from inside a trade callback is
  refused: the handler gets the whole message naming the call and the contract it broke, and if it
  says so the call returns \<open>ReentrancyBlocked\<close> and leaves the book as it is; otherwise, and
  without a handler, the process aborts. The book each callback finds is the one the call is
  working on, with the latch set; the latch is clear again when the call returns, and looking at
  the book does not change what the call does.
\<close>

theorem gate_blocks:
  assumes "reachable True b" "hft_debug_tools E"
  shows "(this_thread E \<noteq> owner_thread b \<longrightarrow> refuses E b) \<and>
    (this_thread E = owner_thread b \<longrightarrow>
      (\<exists>res b'. add_order_with (\<lambda>bc t. (bc, t)) E i ty px q s b = Some (res, b') \<and>
         add_order E i ty px q s b = Some (erase_result snd res, b') \<and> \<not> in_public_entry b' \<and>
         (\<forall>x \<in> set (res_trades res). in_public_entry (fst x) \<and> owner_thread (fst x) = owner_thread b \<and>
            (\<forall>E'. hft_debug_tools E' \<longrightarrow> refuses E' (fst x)))))"
proof (cases "this_thread E = owner_thread b")
  case True
  have np: "\<not> in_public_entry b" using reachable_inv(2) [OF assms(1)] .
  have "may_enter E b" "reachable (hft_debug_tools E) b" using True np assms by (simp_all add: may_enter_def)
  then have bi: "book_inv E b" using reachable_engine by (auto simp: engine_inv_def)
  have er: "erases snd (\<lambda>bc t. (bc, t))" by (simp add: erases_def)
  obtain res b' where w: "add_order_with (\<lambda>bc t. (bc, t)) E i ty px q s b = Some (res, b')"
    "add_order E i ty px q s b = Some (erase_result snd res, b')"
    using add_order_refines [OF bi \<open>may_enter E b\<close>, of i ty px q s] add_order_erase [OF er, of E i ty px q s b] by auto
  with add_order_latched [OF assms(2) np w(1)] latched_refuses True show ?thesis by blast
next
  case False
  then show ?thesis using latched_refuses [OF assms(2)] by simp
qed

theorem gate_blocks_witness:
  "\<exists>b res b' x. add_order_with (\<lambda>bc t. (bc, t)) E_audit 9 Limit 61 5 Buy b = Some (res, b') \<and> res_trades res = [x] \<and>
    snd x = \<lparr>maker_id = 8, taker_id = 9, trade_price = 60, trade_quantity = 3\<rparr> \<and>
    cancel_order E_audit 8 (fst x) = Some (ReentrancyBlocked, fst x) \<and>
    add_order E_audit 10 Limit 5 5 Sell (fst x) = Some (mk_result ReentrancyBlocked 0 [], fst x)"
proof -
  obtain b where b: "reachable True b" "may_enter E_audit b"
    "book_abs b = \<lparr>spec_bids = [], spec_asks = [\<lparr>rid = 8, rprice = 60, rqty = 3\<rparr>]\<rparr>"
    "cfg_of b = \<lparr>cfg_max_id = 100, cfg_capacity = 8, cfg_min = 1, cfg_max = 1000\<rparr>"
    using sample_run [of "[Add 8 Limit 60 3 Sell]" _ _ E_audit] by (auto simp: spec_eval)
  then have "this_thread E_audit = owner_thread b" by (simp add: may_enter_def)
  with gate_blocks [OF b(1), of E_audit 9 Limit 61 5 Buy] obtain res b' where
    w: "add_order_with (\<lambda>bc t. (bc, t)) E_audit 9 Limit 61 5 Buy b = Some (res, b')"
      "add_order E_audit 9 Limit 61 5 Buy b = Some (erase_result snd res, b')"
      "\<forall>x \<in> set (res_trades res). \<forall>E'. hft_debug_tools E' \<longrightarrow> refuses E' (fst x)"
    by auto
  have "erase_result snd res = mk_result Accepted 3 [\<lparr>maker_id = 8, taker_id = 9, trade_price = 60, trade_quantity = 3\<rparr>]"
    using add_spec(1) [OF _ b(2) w(2)] b by (simp add: spec_eval)
  then obtain x where x: "res_trades res = [x]" "snd x = \<lparr>maker_id = 8, taker_id = 9, trade_price = 60, trade_quantity = 3\<rparr>"
    by (auto simp: erase_result_def mk_result_def)
  with w(3) have "refuses E_audit (fst x)" by simp
  with w(1) x show ?thesis
    by (intro exI [of _ b] exI [of _ res] exI [of _ b'] exI [of _ x]) (simp add: refuses_def E_audit_def)
qed

text \<open>
  The cached best prices are the price of the front order of each side, and the sentinels
  when a side is empty.
\<close>

theorem best_price_cache:
  assumes "reachable D b"
  shows "(has_bids b \<longleftrightarrow> spec_bids (book_abs b) \<noteq> []) \<and> (has_asks b \<longleftrightarrow> spec_asks (book_abs b) \<noteq> []) \<and>
    best_bid b = (if has_bids b then rprice (hd (spec_bids (book_abs b))) else 0) \<and>
    best_ask b = (if has_asks b then rprice (hd (spec_asks (book_abs b))) else max_price b + 1)"
proof -
  obtain E where D: "hft_debug_tools E = D" using sample_flavor by (metis (full_types))
  show ?thesis using best_prices [OF reachable_inv(1) [OF assms D]] by auto
qed

theorem best_price_cache_witness: "\<not> has_bids (sample_book E_release) \<and> best_bid (sample_book E_release) = 0"
  using best_price_cache [OF sample_reachable(1), of E_release] by (auto simp: sample_reachable(3) spec_empty_def)

text \<open>
  C24: the accessors report the resting orders: the lookup by id, the number of orders, the number
  of distinct prices of a side, and for each price the number of orders there and, without
  wrap-around of the 64-bit accumulator, the sum of their quantities (both zero outside the
  book's range).
\<close>

theorem accessors_correct:
  assumes "reachable D b"
  shows "(order_exists k b \<longleftrightarrow> k \<in> set (book_ids (book_abs b))) \<and> unat (active_order_count b) = book_size (book_abs b) \<and>
    price_level_count s b = card (rprice ` set (resting s (book_abs b))) \<and>
    unat (level_order_count s px b) = length (filter (\<lambda>r. rprice r = px) (resting s (book_abs b))) \<and>
    unat (level_total_quantity s px b) = (\<Sum>r\<leftarrow>filter (\<lambda>r. rprice r = px) (resting s (book_abs b)). unat (rqty r))"
proof -
  obtain E where D: "hft_debug_tools E = D" using sample_flavor by (metis (full_types))
  note bi = reachable_inv(1) [OF assms D]
  show ?thesis using order_exists_abs [OF bi] active_order_count_abs [OF bi] price_level_count_abs [OF bi]
    level_order_count_abs [OF bi] level_total_quantity_abs [OF bi] by blast
qed

theorem accessors_correct_witness:
  "\<exists>b. reachable True b \<and> order_exists 7 b \<and> \<not> order_exists 9 b \<and> price_level_count Buy b = 1 \<and>
    unat (level_order_count Buy 50 b) = 2 \<and> unat (level_total_quantity Buy 50 b) = 4294967300"
proof -
  obtain b where b: "reachable True b" "book_abs b = \<lparr>spec_bids = [\<lparr>rid = 7, rprice = 50, rqty = 4294967295\<rparr>, \<lparr>rid = 8, rprice = 50, rqty = 5\<rparr>], spec_asks = []\<rparr>"
    using sample_run [of "[Add 7 Limit 50 4294967295 Buy, Add 8 Limit 50 5 Buy]" _ _ E_audit] by (auto simp: spec_eval)
  then show ?thesis
    using accessors_correct [OF b(1), of 7 Buy 50] accessors_correct [OF b(1), of 9 Buy 50] by (auto simp: book_ids_def)
qed

text \<open>
  C11: matching terminates. The loop of either side makes at most one pass per populated price
  level of the other side before the pass that stops it: any larger bound on the passes gives
  the result of \<open>match_order_direct\<close>, which always returns.
\<close>

theorem matching_terminates:
  assumes "reachable (hft_debug_tools E) b"
  shows "match_order_direct ignore_book E side t px qty b \<noteq> None \<and>
    (\<forall>n > price_level_count Sell b. match_buy_loop ignore_book n E t px qty b [] = match_order_direct ignore_book E Buy t px qty b) \<and>
    (\<forall>n > price_level_count Buy b. match_sell_loop ignore_book n E t px qty b [] = match_order_direct ignore_book E Sell t px qty b)"
  using matching_fuel [OF reachable_inv(1) [OF assms refl]] by blast

theorem matching_terminates_witness:
  "\<exists>b. reachable False b \<and> price_level_count Sell b = 2 \<and>
    match_buy_loop ignore_book 3 E_release 9 70 9 b [] = match_order_direct ignore_book E_release Buy 9 70 9 b \<and> match_order_direct ignore_book E_release Buy 9 70 9 b \<noteq> None"
proof -
  obtain b where b: "reachable False b" "book_abs b = \<lparr>spec_bids = [], spec_asks = [\<lparr>rid = 7, rprice = 50, rqty = 4\<rparr>, \<lparr>rid = 8, rprice = 60, rqty = 5\<rparr>]\<rparr>"
    using sample_run [of "[Add 7 Limit 50 4 Sell, Add 8 Limit 60 5 Sell]" _ _ E_release] by (auto simp: spec_eval)
  have inv: "book_inv E_release b" using reachable_inv(1) [of False b E_release] b(1) by simp
  have n: "price_level_count Sell b = 2" using price_level_count_abs [OF inv, of Sell] b(2) by simp
  then show ?thesis using matching_terminates [of E_release b Buy 9 70 9] b(1) by auto
qed

text \<open>
  No slot leaks: in every reachable state the free list and the resting orders together
  hold exactly the capacity of the pool.
\<close>

theorem no_slot_leaks:
  assumes "reachable D b"
  shows "free_list_depth (order_pool b) + book_size (book_abs b) = capacity (order_pool b)"
proof -
  obtain E where D: "hft_debug_tools E = D" using sample_flavor by (metis (full_types))
  show ?thesis by (rule pool_accounts [OF reachable_inv(1) [OF assms D]])
qed

theorem no_slot_leaks_witness: "free_list_depth (order_pool (sample_book E_audit)) = 8"
  using no_slot_leaks [OF sample_reachable(1), of E_audit] sample_cfg [of E_audit]
  by (simp add: sample_reachable(3) spec_empty_def book_size_def cfg_of_def)

text \<open>
  The constructor accepts exactly the documented arguments, and the book it builds is
  empty and reachable with the geometry asked for.
\<close>

theorem constructor_correct:
  "(OrderBook_new E max_id max_active minp maxp = None \<longleftrightarrow>
      minp > maxp \<or> maxp = 0xFFFFFFFF \<or> max_id > 0xFFFFFFFE \<or> unat maxp - unat minp + 1 > 2 ^ 26) \<and>
   (\<forall>b. OrderBook_new E max_id max_active minp maxp = Some b \<longrightarrow> book_abs b = spec_empty \<and> book_inv E b \<and>
      cfg_of b = \<lparr>cfg_max_id = max_id, cfg_capacity = min max_active 0xFFFFFFFE, cfg_min = minp, cfg_max = maxp\<rparr>)"
proof -
  have "OrderBook_new E max_id max_active minp maxp = None \<longleftrightarrow>
      minp > maxp \<or> maxp = 0xFFFFFFFF \<or> max_id > 0xFFFFFFFE \<or> unat maxp - unat minp + 1 > 2 ^ 26"
    by (auto simp: OrderBook_new_def UINT32_MAX_def kMaxOrderIds_def kMaxPriceRangeTicks_def Let_def)
  then show ?thesis
    using OrderBook_new_abs(1,2) [of E max_id max_active minp maxp] OrderBook_new_inv [of E max_id max_active minp maxp]
    by (auto simp: kMaxPoolCapacity_def)
qed

theorem constructor_correct_witness:
  "OrderBook_new E_release 100 8 9 3 = None \<and> book_abs (sample_book E_release) = spec_empty"
  using constructor_correct [of E_release 100 8 9 3] constructor_correct [of E_release 100 8 1 1000] sample_new [of E_release] by auto

end
