(* ===== verification/Component_Properties.thy ===== *)
theory Component_Properties
  imports Price_Level Price_Bitset Journal
begin

text \<open>
  What each data structure under the order book promises by itself: the slot pool
  (\<open>MemoryPool.h\<close>), the price level (\<open>PriceLevel.h\<close>), the price bitset (\<open>OrderBook.h\<close>) and
  the event ring (\<open>Journal.h\<close>). The book's proofs use the same facts through the
  interpretations of the interfaces \<open>lifo_pool\<close>, \<open>fifo_level\<close> and \<open>tick_set\<close>.
\<close>

section \<open>The slot pool\<close>

lemma pool_inv_rel: "pool_inv E p \<longleftrightarrow> pool_rel E p (free_slots p)"
  by (simp add: pool_inv_def)

lemma rel_pool_inv: "pool_rel E p F \<Longrightarrow> pool_inv E p \<and> free_slots p = F"
  using pool_rel_free_slots pool_inv_iff by blast

lemma new_pool: "pool_inv E (MemoryPool_new E n)"
    "free_slots (MemoryPool_new E n) = map of_nat [0..<min n kMaxPoolCapacity]"
  using rel_pool_inv [OF MemoryPool_new_rel] by auto

definition sample_env :: "bool \<Rightarrow> Env" where
  "sample_env dbg = \<lparr>ndebug = \<not> dbg, hft_audit_mode = False,
     pool_fault_handler = Some (\<lambda>_ _. SkipOperation), book_fault_handler = None,
     this_thread = 0, rdtsc = None\<rparr>"

lemma sample_env_debug [simp]: "hft_debug_tools (sample_env dbg) = dbg"
  by (simp add: sample_env_def hft_debug_tools_def)

lemma sample_pool:
  "pool_inv E (MemoryPool_new E 3)" "free_slots (MemoryPool_new E 3) = [0, 1, 2]"
  "capacity (MemoryPool_new E 3) = 3"
  using new_pool [of E 3] by (simp_all add: kMaxPoolCapacity_def upt_rec)

text \<open>
  A new pool is well formed in every build flavor, caps its capacity below the sentinel
  index, and hands out every slot: its free list holds each slot once, in ascending order, and
  the depth audit counts them all.
\<close>

theorem pool_constructor_correct:
  "pool_inv E (MemoryPool_new E n) \<and> capacity (MemoryPool_new E n) = min n kMaxPoolCapacity \<and>
   free_slots (MemoryPool_new E n) = map of_nat [0..<min n kMaxPoolCapacity] \<and>
   free_list_depth (MemoryPool_new E n) = min n kMaxPoolCapacity"
  using new_pool [of E n] free_list_depth_rel [OF MemoryPool_new_rel [of E n]] by simp

text \<open>
  C26: the pool is a stack. Allocation takes the first free slot, and freeing that slot again
  puts it back in front; both keep the pool well formed and the contents of every other slot.
\<close>

theorem pool_lifo_roundtrip:
  assumes "pool_inv E p" "free_slots p = x # F"
  shows "\<exists>p1 p2. allocate E p = Some (x, p1) \<and> pool_inv E p1 \<and> free_slots p1 = F \<and>
    deallocate E x p1 = Some p2 \<and> pool_inv E p2 \<and> free_slots p2 = x # F \<and>
    (\<forall>y. y \<noteq> x \<longrightarrow> slot (pool p2) y = slot (pool p) y)"
proof -
  have r: "pool_rel E p (x # F)" using assms by (simp add: pool_inv_rel)
  obtain p1 where 1: "allocate E p = Some (x, p1)" "pool_rel E p1 F" "capacity p1 = capacity p"
    "\<forall>y. y \<noteq> x \<longrightarrow> slot (pool p1) y = slot (pool p) y"
    using mp.alloc_pop [OF r] by blast
  have "x \<notin> set F" "unat x < capacity p1" using mp.rel_wf [OF r] 1(3) by auto
  then obtain p2 where "deallocate E x p1 = Some p2" "pool_rel E p2 (x # F)"
    "\<forall>y. y \<noteq> x \<longrightarrow> slot (pool p2) y = slot (pool p1) y"
    using mp.dealloc_push [OF 1(2)] by blast
  with 1 rel_pool_inv show ?thesis by metis
qed

theorem pool_lifo_roundtrip_witness:
  "\<exists>p1 p2. allocate (sample_env True) (MemoryPool_new (sample_env True) 3) = Some (0, p1) \<and>
     free_slots p1 = [1, 2] \<and> deallocate (sample_env True) 0 p1 = Some p2 \<and> free_slots p2 = [0, 1, 2]"
  using pool_lifo_roundtrip [OF sample_pool(1,2), of "sample_env True"] by blast

text \<open>
  A pool is exhausted only when no slot is free. Allocation returns the sentinel exactly
  then, leaving the pool as it is, and otherwise a slot of the pool that was free.
\<close>

theorem pool_exhausted_only_when_empty:
  assumes "pool_inv E p"
  shows "\<exists>i p'. allocate E p = Some (i, p') \<and> pool_inv E p' \<and> free_slots p' = tl (free_slots p) \<and>
    (i = INVALID_INDEX \<longleftrightarrow> free_list_depth p = 0) \<and>
    (i = INVALID_INDEX \<longrightarrow> p' = p) \<and> (i \<noteq> INVALID_INDEX \<longrightarrow> i \<in> set (free_slots p) \<and> unat i < capacity p)"
proof -
  have r: "pool_rel E p (free_slots p)" using assms by (simp add: pool_inv_rel)
  show ?thesis
  proof (cases "free_slots p")
    case Nil
    then show ?thesis using r assms mp.alloc_none free_list_depth_rel [OF r] by fastforce
  next
    case (Cons x F)
    then have r': "pool_rel E p (x # F)" using r by simp
    obtain p' where "allocate E p = Some (x, p')" "pool_rel E p' F" using mp.alloc_pop [OF r'] by blast
    moreover have "x \<noteq> INVALID_INDEX" "unat x < capacity p"
      using mp.free_not_invalid [OF r'] mp.rel_wf [OF r'] by auto
    ultimately show ?thesis
      using Cons free_list_depth_rel [OF r] rel_pool_inv [of E p' F] by auto
  qed
qed

theorem pool_exhausted_only_when_empty_witness:
  "\<exists>p'. allocate (sample_env False) (MemoryPool_new (sample_env False) 0) = Some (INVALID_INDEX, p')"
proof -
  have "free_slots (MemoryPool_new (sample_env False) 0) = []" using new_pool(2) [of "sample_env False" 0] by simp
  then have "free_list_depth (MemoryPool_new (sample_env False) 0) = 0"
    using free_list_depth_rel [OF MemoryPool_new_rel [of "sample_env False" 0]] by simp
  then show ?thesis using pool_exhausted_only_when_empty [OF new_pool(1), of "sample_env False" 0] by metis
qed

lemma allocate_release: "\<not> hft_debug_tools E \<Longrightarrow> allocate E p = Some (i, p') \<Longrightarrow> pool p' = pool p"
  by (auto simp: allocate_def Let_def bind_eq_Some_conv split: if_splits)

text \<open>
  \<open>deallocate_chain\<close> frees a whole chain at once. In both flavors the slots of a linked
  chain of live slots become the front of the free list, in chain order, and no slot outside
  the chain is touched.
\<close>

theorem chain_free_correct:
  assumes "pool_inv E p" "xs \<noteq> []" "linked (pool p) xs" "distinct xs"
    "\<forall>x \<in> set xs. unat x < capacity p \<and> x \<notin> set (free_slots p)"
  shows "\<exists>p'. deallocate_chain E (hd xs) (last xs) p = Some p' \<and> pool_inv E p' \<and>
    free_slots p' = xs @ free_slots p \<and> (\<forall>y. y \<notin> set xs \<longrightarrow> slot (pool p') y = slot (pool p) y)"
proof -
  have r: "pool_rel E p (free_slots p)" using assms(1) by (simp add: pool_inv_rel)
  moreover have "distinct (xs @ free_slots p)" using assms(4,5) mp.rel_wf [OF r] by auto
  ultimately show ?thesis using mp.chain_push [OF r assms(3,2)] assms(5) rel_pool_inv by metis
qed

theorem chain_free_correct_witness:
  "\<exists>p1 p2 p3. allocate (sample_env False) (MemoryPool_new (sample_env False) 3) = Some (0, p1) \<and>
     allocate (sample_env False) p1 = Some (1, p2) \<and>
     deallocate_chain (sample_env False) 0 1 p2 = Some p3 \<and> free_slots p3 = [0, 1, 2]"
proof -
  let ?E = "sample_env False" and ?p = "MemoryPool_new (sample_env False) 3"
  have r: "pool_rel ?E ?p [0, 1, 2]" using sample_pool [of ?E] by (simp add: pool_inv_rel)
  obtain p1 where p1: "allocate ?E ?p = Some (0, p1)" "pool_rel ?E p1 [1, 2]" "capacity p1 = 3"
    using mp.alloc_pop [OF r] sample_pool(3) by auto
  obtain p2 where p2: "allocate ?E p1 = Some (1, p2)" "pool_rel ?E p2 [2]" "capacity p2 = 3"
    using mp.alloc_pop [OF p1(2)] p1(3) by auto
  have "pool p2 = pool ?p"
    using allocate_release [OF _ p1(1)] allocate_release [OF _ p2(1)] by simp
  moreover have "o_next (slot (pool ?p) 0) = 1" using r by (simp add: pool_rel_def)
  ultimately have l: "linked (pool p2) [0, 1]" by simp
  have inv: "pool_inv ?E p2" "free_slots p2 = [2]" using rel_pool_inv [OF p2(2)] by auto
  from chain_free_correct [OF inv(1) _ l] p1(1) p2(1,3) inv(2) show ?thesis by auto
qed

text \<open>
  C27: the instrumented pool detects a double free and a foreign index. Freeing a slot that is
  free, or an index past the capacity, is reported to the fault handler, never to the caller:
  with a handler that skips, the pool is unchanged; with any other, the process aborts.
\<close>

theorem double_free_detected:
  assumes "hft_debug_tools E" "pool_inv E p" "unat x \<ge> capacity p \<or> x \<in> set (free_slots p)"
  shows "deallocate E x p =
    (case pool_fault_handler E of
       Some h \<Rightarrow>
         if h (if unat x \<ge> capacity p then ''MemoryPool::deallocate: index does not belong to this pool''
               else ''MemoryPool::deallocate: double free / freeing unallocated slot'') (unat x) = SkipOperation
         then Some p else None
     | None \<Rightarrow> None)"
  using deallocate_fault [OF assms(1) _ assms(3)] assms(2)
  by (auto simp: pool_inv_rel pool_fault_def split: option.splits)

theorem double_free_detected_witness:
  "deallocate (sample_env True) 2 (MemoryPool_new (sample_env True) 3) = Some (MemoryPool_new (sample_env True) 3)"
  using double_free_detected [of "sample_env True" "MemoryPool_new (sample_env True) 3" 2] sample_pool [of "sample_env True"]
  by (simp add: sample_env_def hft_debug_tools_def)

text \<open>
  The instrumented counters account for every slot. In a well-formed pool the live slots
  and the free list add up to the capacity, the live count is allocations minus frees and stays
  below the high-water mark, and \<open>is_allocated\<close> tells exactly the slots that are not free.
\<close>

theorem pool_stats_correct:
  assumes "hft_debug_tools E" "pool_inv E p"
  shows "unat (st_live_count (stats p)) + st_free_list_depth (stats p) = st_capacity (stats p) \<and>
    st_live_count (stats p) = st_total_allocs (stats p) - st_total_frees (stats p) \<and>
    st_live_count (stats p) \<le> st_high_water (stats p) \<and>
    (is_allocated E x p \<longleftrightarrow> unat x < capacity p \<and> x \<notin> set (free_slots p))"
proof -
  have r: "pool_rel E p (free_slots p)" using assms(2) by (simp add: pool_inv_rel)
  then have s: "stamps_ok p (free_slots p)" using assms(1) by (simp add: pool_rel_def)
  have le: "length (free_slots p) \<le> capacity p" using mp.free_le_cap [OF r] .
  have "capacity p < 2 ^ 64" using mp.rel_wf [OF r] by (simp add: kMaxPoolCapacity_def)
  then have "unat (live_count p) = capacity p - length (free_slots p)"
    using s le unat_of_nat_64 [of "capacity p - length (free_slots p)"] by (simp add: stamps_ok_def of_nat_diff)
  then have "unat (live_count p) + free_list_depth p = capacity p" using le free_list_depth_rel [OF r] by simp
  moreover have "live_count p = total_allocs p - total_frees p" "live_count p \<le> high_water p"
    using s by (auto simp: stamps_ok_def)
  moreover have "is_allocated E x p \<longleftrightarrow> unat x < capacity p \<and> x \<notin> set (free_slots p)"
    using s assms(1) by (auto simp: stamps_ok_def is_allocated_def)
  ultimately show ?thesis unfolding stats_def by simp
qed

theorem pool_stats_correct_witness:
  "is_allocated (sample_env True) 2 (MemoryPool_new (sample_env True) 3) = False \<and>
   unat (st_live_count (stats (MemoryPool_new (sample_env True) 3))) = 0"
proof -
  let ?E = "sample_env True" and ?p = "MemoryPool_new (sample_env True) 3"
  have "st_free_list_depth (stats ?p) = 3" "st_capacity (stats ?p) = 3"
    using free_list_depth_rel [of ?E ?p "[0, 1, 2]"] sample_pool [of ?E] by (simp_all add: stats_def pool_inv_rel)
  with pool_stats_correct [OF _ sample_pool(1), of ?E 2] sample_pool(2) [of ?E] show ?thesis
    unfolding sample_env_debug by (metis add_cancel_left_left list.set_intros)
qed

section \<open>The price level\<close>

definition append_orders :: "u32 list \<Rightarrow> PriceLevel \<times> Order list \<Rightarrow> (PriceLevel \<times> Order list) option" where
  "append_orders zs lP = foldl (\<lambda>r x. Option.bind r (\<lambda>(l, P). append_order x l P)) (Some lP) zs"

lemma slots_in_length:
  assumes "slots_in P xs"
  shows "length xs < 2 ^ 32"
proof -
  have "set xs \<subseteq> UNIV - {INVALID_INDEX}" using assms by (auto simp: slots_in_def)
  then have "card (set xs) \<le> card (UNIV - {INVALID_INDEX :: u32})" by (intro card_mono) auto
  also have "\<dots> = card (UNIV :: u32 set) - 1" by (simp add: card_Diff_subset)
  also have "card (UNIV :: u32 set) = 2 ^ 32" by (simp add: card_word)
  finally show ?thesis using assms by (simp add: slots_in_def distinct_card)
qed

text \<open>
  A price level is a first-in first-out queue. Appending any sequence of slots to a new
  level links them in arrival order, counts them, and sums their quantities (without
  wrap-around, as 64 bits hold \<open>2\<^sup>3\<^sup>2\<close> quantities of 32 bits); no order's data change.
\<close>

theorem level_fifo:
  assumes "slots_in P xs"
  shows "\<exists>l P'. append_orders xs (PriceLevel_default, P) = Some (l, P') \<and>
    head l = hd_or INVALID_INDEX xs \<and> tail l = last_or INVALID_INDEX xs \<and> linked P' xs \<and>
    unat (order_count l) = length xs \<and>
    unat (total_quantity l) = (\<Sum>x\<leftarrow>xs. unat (o_quantity (slot P x))) \<and>
    (level_is_empty l \<longleftrightarrow> xs = []) \<and> (\<forall>y. payload (slot P' y) = payload (slot P y))"
proof -
  obtain l P' where a: "append_orders xs (PriceLevel_default, P) = Some (l, P')" "queue_rel P' l xs"
    "relinked (set xs) P P'"
    using pl.append_all [OF pl.rel_fresh, of P xs] assms by (auto simp: append_orders_def)
  have len: "length xs < 2 ^ 32" using slots_in_length [OF assms] .
  have "slots_in P' xs" using assms a(3) by (simp add: slots_in_def relinked_def)
  then have e: "level_is_empty l \<longleftrightarrow> xs = []" using pl.rel_empty [OF a(2)] by simp
  have q: "total_quantity l = (\<Sum>x\<leftarrow>xs. qty64 P x)"
    using a(2) sum_qty_relinked [OF a(3)] by (simp add: queue_rel_def)
  have "unat (\<Sum>x\<leftarrow>xs. qty64 P x) = (\<Sum>x\<leftarrow>xs. unat (o_quantity (slot P x)))"
    using sum_list_u32_bound [OF len, of "\<lambda>x. o_quantity (slot P x)"] unat_sum_list_64 [of "qty64 P" xs] by simp
  with a e q len show ?thesis
    by (intro exI [of _ l] exI [of _ P']) (auto simp: queue_rel_def relinked_def unat_of_nat_32 intro: dll_linked)
qed

theorem level_fifo_witness:
  "\<exists>l P'. append_orders [2, 0] (PriceLevel_default, replicate 3 (Order_new 7 50 10 Buy)) = Some (l, P') \<and>
     head l = 2 \<and> tail l = 0 \<and> unat (order_count l) = 2 \<and> unat (total_quantity l) = 20"
  using level_fifo [of "replicate 3 (Order_new 7 50 10 Buy)" "[2, 0]"]
  by (auto simp: slots_in_def hd_or_def last_or_def slot_def Order_new_def INVALID_INDEX_def UINT32_MAX_def)

text \<open>
  Unlinking an order, wherever it stands in the queue, leaves the others in their order,
  takes its quantity and its count off the level, and leaves every order's data as it is.
\<close>

theorem level_remove_correct:
  assumes "queue_rel P l (ys @ x # zs)" "slots_in P (ys @ x # zs)"
  shows "\<exists>l' P'. remove_order x l P = Some (l', P') \<and> queue_rel P' l' (ys @ zs) \<and>
    total_quantity l' = total_quantity l - ucast (o_quantity (slot P x)) \<and>
    order_count l' = order_count l - 1 \<and> (\<forall>y. payload (slot P' y) = payload (slot P y))"
proof -
  obtain l' P' where r: "remove_order x l P = Some (l', P')" "queue_rel P' l' (ys @ zs)"
    "relinked (set (ys @ x # zs)) P P'"
    using pl.rel_remove [OF assms] by blast
  with assms(1) sum_qty_relinked [OF r(3)] show ?thesis
    by (intro exI [of _ l'] exI [of _ P']) (auto simp: queue_rel_def relinked_def)
qed

theorem level_remove_correct_witness:
  "\<exists>l P l' P'. append_orders [2, 0, 1] (PriceLevel_default, replicate 3 (Order_new 7 50 10 Buy)) = Some (l, P) \<and>
     remove_order 0 l P = Some (l', P') \<and> queue_rel P' l' [2, 1] \<and> order_count l' = 2"
proof -
  let ?P = "replicate 3 (Order_new 7 50 10 Buy)"
  have s: "slots_in ?P [2, 0, 1]" by (simp add: slots_in_def INVALID_INDEX_def UINT32_MAX_def)
  then obtain l P where a: "append_orders [2, 0, 1] (PriceLevel_default, ?P) = Some (l, P)"
    "queue_rel P l ([2] @ 0 # [1])" "relinked (set [2, 0, 1]) ?P P"
    using pl.append_all [OF pl.rel_fresh, of ?P "[2, 0, 1]"] by (auto simp: append_orders_def)
  have "slots_in P ([2] @ 0 # [1])" using s a(3) by (simp add: slots_in_def relinked_def)
  from level_remove_correct [OF a(2) this] a show ?thesis by (auto simp: queue_rel_def)
qed

section \<open>The price bitset\<close>

lemma scan_up_least:
  assumes "bits_rel R bitset summary S" "i < R"
  shows "next_above bitset summary i = Some (if \<exists>k \<in> S. i \<le> k then Some (LEAST k. k \<in> S \<and> i \<le> k) else None)"
proof -
  obtain r where r: "next_above bitset summary i = Some r" "is_next S i r" using pb.above_ok [OF assms] by blast
  show ?thesis
  proof (cases r)
    case None
    with r show ?thesis by (auto simp: is_next_def)
  next
    case (Some j)
    with r(2) have "(LEAST k. k \<in> S \<and> i \<le> k) = j" by (intro Least_equality) (auto simp: is_next_def)
    with r Some show ?thesis by (auto simp: is_next_def)
  qed
qed

lemma scan_down_greatest:
  assumes "bits_rel R bitset summary S" "i < R"
  shows "prev_below bitset summary i = Some (if \<exists>k \<in> S. k < i then Some (Max {k \<in> S. k < i}) else None)"
proof -
  obtain r where r: "prev_below bitset summary i = Some r" "is_prev S i r" using pb.below_ok [OF assms] by blast
  show ?thesis
  proof (cases r)
    case None
    with r show ?thesis by (auto simp: is_prev_def)
  next
    case (Some j)
    have "Max {k \<in> S. k < i} = j" by (rule Max_eqI) (use r(2) Some in \<open>auto simp: is_prev_def\<close>)
    with r Some show ?thesis by (auto simp: is_prev_def)
  qed
qed

lemma sample_ticks:
  "\<exists>b1 s1 b s. price_bit_set (replicate 4 0) (replicate 1 0) 3 = Some (b1, s1) \<and>
    price_bit_set b1 s1 150 = Some (b, s) \<and> bits_rel 200 b s {3, 150}"
proof -
  have "bits_rel 200 (replicate 4 0) (replicate 1 0) {}" using bits_rel_empty [of 200] by simp
  from pb.insert_ok [OF this, of 3]
  obtain b1 s1 where 1: "price_bit_set (replicate 4 0) (replicate 1 0) 3 = Some (b1, s1)" "bits_rel 200 b1 s1 {3}" by auto
  from pb.insert_ok [OF 1(2), of 150]
  obtain b s where "price_bit_set b1 s1 150 = Some (b, s)" "bits_rel 200 b s {3, 150}"
    by (auto simp: insert_commute)
  with 1 show ?thesis by blast
qed

text \<open>
  C28: the scans of the two-level bitset find the neighbouring populated tick. From any tick of the
  range the upward scan returns the least populated tick that is not below it and the downward
  scan the greatest populated tick strictly below it, or none when there is none, in every case
  without reading outside the arrays.
\<close>

theorem bitset_scans_correct:
  assumes "bits_rel R bitset summary S" "i < R"
  shows "next_above bitset summary i = Some (if \<exists>k \<in> S. i \<le> k then Some (LEAST k. k \<in> S \<and> i \<le> k) else None) \<and>
    prev_below bitset summary i = Some (if \<exists>k \<in> S. k < i then Some (Max {k \<in> S. k < i}) else None)"
  using scan_up_least [OF assms] scan_down_greatest [OF assms] by blast

theorem bitset_scans_correct_witness:
  "\<exists>b s. bits_rel 200 b s {3, 150} \<and> next_above b s 4 = Some (Some 150) \<and> next_above b s 151 = Some None \<and>
    prev_below b s 199 = Some (Some 150) \<and> prev_below b s 3 = Some None"
proof -
  obtain b s where bs: "bits_rel 200 b s {3, 150}" using sample_ticks by blast
  have "(LEAST k. k \<in> {3, 150 :: nat} \<and> 4 \<le> k) = 150" by (rule Least_equality) auto
  moreover have "{k \<in> {3, 150 :: nat}. k < 199} = {3, 150}" by auto
  ultimately show ?thesis
    using bs bitset_scans_correct [OF bs, of 4] bitset_scans_correct [OF bs, of 151]
      bitset_scans_correct [OF bs, of 199] bitset_scans_correct [OF bs, of 3]
    by auto
qed

text \<open>
  Setting and clearing a tick change the populated set by that tick alone and keep the
  summary in step with the words.
\<close>

theorem tick_update_correct:
  assumes "bits_rel R bitset summary S" "i < R"
  shows "\<exists>b1 s1 b2 s2. price_bit_set bitset summary i = Some (b1, s1) \<and> bits_rel R b1 s1 (insert i S) \<and>
    price_bit_clear bitset summary i = Some (b2, s2) \<and> bits_rel R b2 s2 (S - {i})"
  using pb.insert_ok [OF assms] pb.remove_ok [OF assms] by blast

theorem tick_update_correct_witness:
  "\<exists>b1 s1. price_bit_set (replicate 4 0) (replicate 1 0) 70 = Some (b1, s1) \<and> bits_rel 200 b1 s1 {70}"
  using tick_update_correct [of 200 "replicate 4 0" "replicate 1 0" "{}" 70] bits_rel_empty [of 200] by auto

section \<open>The event ring\<close>

text \<open>A recorded event: the arguments of one call of \<open>Journal::record\<close>.\<close>

type_synonym Event = "JournalEvent \<times> u32 \<times> u32 \<times> u32 \<times> u8 \<times> u8"

definition record_events :: "Env \<Rightarrow> Event list \<Rightarrow> Journal \<Rightarrow> Journal" where
  "record_events E = fold (\<lambda>(ev, i, px, q, s, r) j. journal_record E ev i px q s r j)"

definition entry_of :: "Event \<Rightarrow> JournalEntry \<Rightarrow> bool" where
  "entry_of = (\<lambda>(ev, i, px, q, s, r) e. e_id e = i \<and> e_price e = px \<and> e_quantity e = q \<and>
     e_event e = event_u8 ev \<and> e_reason e = r \<and> e_side e = s)"

lemma record_events_rel:
  assumes "journal_rel j es" "length es + length evs < 2 ^ 64"
  shows "\<exists>fs. journal_rel (record_events E evs j) (es @ fs) \<and> list_all2 entry_of evs fs \<and>
    length (entries (record_events E evs j)) = length (entries j)"
  using assms
proof (induction evs arbitrary: j es)
  case Nil
  then show ?case by (auto simp: record_events_def)
next
  case (Cons v evs)
  obtain ev i px q s r where v: "v = (ev, i, px, q, s, r)" by (cases v) auto
  obtain e where e: "entry_of v e" "journal_rel (journal_record E ev i px q s r j) (es @ [e])"
    using journal_record_rel [OF Cons.prems(1)] Cons.prems(2) by (fastforce simp: entry_of_def v)
  have "length (es @ [e]) + length evs < 2 ^ 64" using Cons.prems(2) by simp
  from Cons.IH [OF e(2) this] e(1) obtain fs where
    "journal_rel (record_events E evs (journal_record E ev i px q s r j)) (es @ e # fs)"
    "list_all2 entry_of (v # evs) (e # fs)"
    "length (entries (record_events E evs (journal_record E ev i px q s r j))) = length (entries j)"
    by (auto simp: journal_record_def)
  then show ?case by (auto simp: record_events_def v)
qed

text \<open>
  The ring keeps the latest events. After any sequence of fewer than \<open>2\<^sup>6\<^sup>4\<close> events it
  reports their number, retains as many of the last ones as its capacity, and \<open>at(i)\<close> reads
  them oldest first, whatever the number of wrap-arounds; the capacity is the greatest power
  of two that is not above the requested one (and 1 for a request of 0).
\<close>

theorem journal_keeps_latest:
  assumes "cap < 2 ^ 64" "length evs < 2 ^ 64" "j = record_events E evs (Journal_new cap)"
  shows "(\<exists>k. journal_capacity j = 2 ^ k) \<and> journal_capacity j \<le> max cap 1 \<and> max cap 1 < 2 * journal_capacity j \<and>
    unat (journal_total j) = length evs \<and> journal_size j = min (length evs) (journal_capacity j) \<and>
    (\<forall>i < journal_size j. entry_of (evs ! (length evs - journal_size j + i)) (journal_at j i))"
proof -
  have new: "length (entries (Journal_new cap)) = bit_floor (max cap 1)"
    by (cases cap) (simp_all add: Journal_new_def Let_def max_def)
  obtain fs where fs: "journal_rel j fs" "list_all2 entry_of evs fs" "length (entries j) = bit_floor (max cap 1)"
    using record_events_rel [OF Journal_new_ok(2) [OF assms(1)], of evs E] assms(2) unfolding assms(3) new by auto
  have len: "length fs = length evs" using fs(2) by (simp add: list_all2_lengthD)
  have pos: "unat (pos j) = length evs" using fs(1) assms(2) len by (simp add: journal_rel_def unat_of_nat_64)
  then have sz: "journal_size j = min (length evs) (journal_capacity j)"
    by (simp add: journal_size_def journal_capacity_def min_def)
  have "entry_of (evs ! (length evs - journal_size j + i)) (journal_at j i)" if "i < journal_size j" for i
  proof -
    have "length evs - journal_size j + i < length evs" using that sz by linarith
    then show ?thesis using journal_rel_at [OF fs(1) _ that] len assms(2) list_all2_nthD [OF fs(2)] by simp
  qed
  moreover obtain k where "bit_floor (max cap 1) = 2 ^ k" "bit_floor (max cap 1) \<le> max cap 1"
    "max cap 1 < 2 * bit_floor (max cap 1)"
    using bit_floor_pow2 [of "max cap 1"] by (metis less_max_iff_disj zero_less_one)
  ultimately show ?thesis using sz pos fs(3) by (auto simp: journal_capacity_def journal_total_def)
qed

theorem journal_keeps_latest_witness:
  "let j = record_events (sample_env True)
      (map (\<lambda>i. (OrderSubmitted, of_nat i, 5, 6, 0, 0)) [0..<7]) (Journal_new 5)
   in journal_size j = 4 \<and> e_id (journal_at j 0) = 3"
proof -
  define evs :: "Event list" where "evs = map (\<lambda>i. (OrderSubmitted, of_nat i, 5, 6, 0, 0)) [0..<7]"
  have l: "length evs = 7" "evs ! 3 = (OrderSubmitted, 3, 5, 6, 0, 0)" by (simp_all add: evs_def)
  define j where "j = record_events (sample_env True) evs (Journal_new 5)"
  note t = journal_keeps_latest [of 5 evs, OF _ _ j_def]
  from t l obtain k where k: "journal_capacity j = 2 ^ k" "journal_capacity j \<le> 5" "5 < 2 * journal_capacity j" by auto
  then have "k = 2"
  proof -
    have "k < 3" using k(1,2) power_increasing [of 3 k "2 :: nat"] by (cases "k < 3") auto
    then have "k = 0 \<or> k = 1 \<or> k = 2" by linarith
    with k(1,3) show ?thesis by auto
  qed
  with k(1) t l have sz: "journal_size j = 4" by simp
  have "entry_of (evs ! (length evs - journal_size j + 0)) (journal_at j 0)" using t l(1) sz by force
  with sz l have "journal_size j = 4 \<and> e_id (journal_at j 0) = 3" by (simp add: entry_of_def)
  then show ?thesis by (simp add: j_def evs_def)
qed

end
