(* ===== verification/Book_Audit.thy ===== *)
theory Book_Audit
  imports Engine_Samples
begin

text \<open>
  \<open>OrderBook::validate_book\<close> of \<open>src/src/OrderBook.cpp\<close>, the structural audit of the
  instrumented builds: the flag its failed checks clear; the lines they print are in
  \<open>Diagnostics\<close>. A result \<open>None\<close> is an audit that does not return normally: it reads outside a vector, or
  walks a cyclic level forever. Every book the engine can reach passes, and a book that passes
  has the structure the audit is meant to establish.
\<close>

section \<open>The audit\<close>

text \<open>A counting loop whose body may fail to return.\<close>

fun for_each :: "('a \<Rightarrow> 's \<Rightarrow> 's option) \<Rightarrow> 'a list \<Rightarrow> 's \<Rightarrow> 's option" where
  "for_each f [] s = Some s"
| "for_each f (x # xs) s = do {
     s' \<leftarrow> f x s;
     for_each f xs s'
   }"

text \<open>
  The walk of one level's queue. It only visits allocated slots, so one that has not ended
  after \<open>capacity + 1\<close> steps has met a slot twice and never ends.
\<close>

fun walk_queue ::
  "nat \<Rightarrow> Env \<Rightarrow> OrderBook \<Rightarrow> Side \<Rightarrow> PriceLevel \<Rightarrow> nat \<Rightarrow> u32 \<Rightarrow> u32 \<Rightarrow> u64 \<Rightarrow> u32 \<Rightarrow> bool
     \<Rightarrow> (u64 \<times> u32 \<times> bool) option" where
  "walk_queue 0 E b side level bit_idx cur prv walked_qty walked_count ok = None"
| "walk_queue (Suc fuel) E b side level bit_idx cur prv walked_qty walked_count ok =
     (if cur = INVALID_INDEX then Some (walked_qty, walked_count, ok)
      else if \<not> is_allocated E cur (order_pool b) then Some (walked_qty, walked_count, False)
      else do {
        ord \<leftarrow> vec_get (pool (order_pool b)) (unat cur);
        let ok = (ok \<and> o_prev ord = prv);
        let nxt = o_next ord;
        let ok = (ok \<and> \<not> (\<not> is_allocated E nxt (order_pool b) \<and> nxt \<noteq> INVALID_INDEX));
        mapped \<leftarrow> vec_get (order_map b) (unat (o_id ord));
        let ok = (ok \<and> mapped = cur);
        let ok = (ok \<and> o_price ord = min_price b + of_nat bit_idx);
        let ok = (ok \<and> o_side ord = side_u8 side);
        let ok = (ok \<and> \<not> (nxt = INVALID_INDEX \<and> tail level \<noteq> cur));
        walk_queue fuel E b side level bit_idx nxt cur
          (walked_qty + ucast (o_quantity ord)) (walked_count + 1) ok
      })"

fun bitset_of :: "Side \<Rightarrow> OrderBook \<Rightarrow> u64 list" where
  "bitset_of Buy b = bids_bitset b"
| "bitset_of Sell b = asks_bitset b"

fun summary_of :: "Side \<Rightarrow> OrderBook \<Rightarrow> u64 list" where
  "summary_of Buy b = bids_summary b"
| "summary_of Sell b = asks_summary b"

definition head_prev_ok :: "Env \<Rightarrow> OrderBook \<Rightarrow> PriceLevel \<Rightarrow> bool option" where
  "head_prev_ok E b level =
     (if head level \<noteq> INVALID_INDEX \<and> unat (head level) < capacity (order_pool b) \<and>
         is_allocated E (head level) (order_pool b) then do {
        ord \<leftarrow> vec_get (pool (order_pool b)) (unat (head level));
        Some (o_prev ord = INVALID_INDEX)
      } else Some True)"

definition validate_level :: "Env \<Rightarrow> OrderBook \<Rightarrow> Side \<Rightarrow> nat \<Rightarrow> nat \<times> bool \<Rightarrow> (nat \<times> bool) option" where
  "validate_level E b side bit_idx = (\<lambda>(resting_count, ok). do {
     level \<leftarrow> vec_get (levels side b) bit_idx;
     let ok = (ok \<and> canary_intact level);
     (walked_qty, walked_count, ok) \<leftarrow>
       walk_queue (Suc (capacity (order_pool b))) E b side level bit_idx (head level) INVALID_INDEX 0 0 ok;
     head_ok \<leftarrow> head_prev_ok E b level;
     let ok = (ok \<and> head_ok);
     let ok = (ok \<and> total_quantity level = walked_qty);
     let ok = (ok \<and> order_count level = walked_count);
     let resting_count = resting_count + unat walked_count;
     word \<leftarrow> vec_get (bitset_of side b) (bit_idx div kWordBits);
     let bit_set = (drop_bit (bit_idx mod kWordBits) word AND 1 \<noteq> 0);
     Some (resting_count, ok \<and> bit_set = (\<not> level_is_empty level))
   })"

definition validate_summary :: "OrderBook \<Rightarrow> Side \<Rightarrow> nat \<Rightarrow> bool \<Rightarrow> bool option" where
  "validate_summary b side w ok = do {
     s \<leftarrow> vec_get (summary_of side b) (w div kWordBits);
     word \<leftarrow> vec_get (bitset_of side b) w;
     let sum_set = (drop_bit (w mod kWordBits) s AND 1 \<noteq> 0);
     Some (ok \<and> sum_set = (word \<noteq> 0))
   }"

text \<open>One pass of the outer loop; the range is that of the ask levels on both sides.\<close>

definition validate_side :: "Env \<Rightarrow> OrderBook \<Rightarrow> Side \<Rightarrow> nat \<times> bool \<Rightarrow> (nat \<times> bool) option" where
  "validate_side E b side st = do {
     (resting_count, ok) \<leftarrow> for_each (validate_level E b side) [0..<length (asks_levels b)] st;
     ok \<leftarrow> for_each (validate_summary b side) [0..<length (bitset_of side b)] ok;
     Some (resting_count, ok)
   }"

definition validate_map_entry :: "Env \<Rightarrow> OrderBook \<Rightarrow> nat \<Rightarrow> nat \<times> bool \<Rightarrow> (nat \<times> bool) option" where
  "validate_map_entry E b i = (\<lambda>(map_count, ok). do {
     idx \<leftarrow> vec_get (order_map b) i;
     if idx = INVALID_INDEX then Some (map_count, ok)
     else do {
       let ok = (ok \<and> is_allocated E idx (order_pool b));
       ord \<leftarrow> vec_get (pool (order_pool b)) (unat idx);
       Some (map_count + 1, ok \<and> unat (o_id ord) = i)
     }
   })"

text \<open>The first non-empty level below \<open>n\<close>, from the top, and the first one from \<open>i\<close> upwards.\<close>

fun highest_level :: "PriceLevel list \<Rightarrow> nat \<Rightarrow> nat option option" where
  "highest_level ls 0 = Some None"
| "highest_level ls (Suc i) = do {
     l \<leftarrow> vec_get ls i;
     if \<not> level_is_empty l then Some (Some i) else highest_level ls i
   }"

function lowest_level :: "PriceLevel list \<Rightarrow> nat \<Rightarrow> nat option" where
  "lowest_level ls i =
     (if i < length ls then if \<not> level_is_empty (ls ! i) then Some i else lowest_level ls (Suc i)
      else None)"
  by pat_completeness auto
termination
  by (relation "measure (\<lambda>(ls, i). length ls - i)") auto

declare lowest_level.simps [simp del]

definition validate_best_bid :: "OrderBook \<Rightarrow> bool option" where
  "validate_best_bid b =
     (if has_bids b then do {
        found \<leftarrow> highest_level (bids_levels b) (length (asks_levels b));
        Some (case found of
           Some i \<Rightarrow> unat (best_bid b) = unat (min_price b) + i \<and> best_bid_idx b = i
         | None \<Rightarrow> False)
      } else Some (best_bid_idx b < length (bids_levels b)))"

definition validate_best_ask :: "OrderBook \<Rightarrow> bool" where
  "validate_best_ask b =
     (if has_asks b then
        (case lowest_level (asks_levels b) 0 of
           Some i \<Rightarrow> unat (best_ask b) = unat (min_price b) + i \<and> best_ask_idx b = i
         | None \<Rightarrow> False)
      else best_ask_idx b < length (asks_levels b))"

definition validate_counts :: "OrderBook \<Rightarrow> nat \<Rightarrow> nat \<Rightarrow> bool" where
  "validate_counts b map_count resting_count =
     (let st = stats (order_pool b)
      in active_count b = st_live_count st \<and> of_nat map_count = st_live_count st \<and>
         of_nat resting_count = st_live_count st \<and>
         of_nat (st_free_list_depth st) = of_nat (st_capacity st) - st_live_count st)"

definition validate_book :: "Env \<Rightarrow> OrderBook \<Rightarrow> bool option" where
  "validate_book E b = do {
     st \<leftarrow> validate_side E b Buy (0, True);
     (resting_count, ok) \<leftarrow> validate_side E b Sell st;
     (map_count, ok) \<leftarrow> for_each (validate_map_entry E b) [1..<Suc (max_order_id b)] (0, ok);
     bid_ok \<leftarrow> validate_best_bid b;
     let ask_ok = validate_best_ask b;
     Some (ok \<and> bid_ok \<and> ask_ok \<and> validate_counts b map_count resting_count)
   }"

section \<open>A passing audit means a sound structure\<close>

text \<open>\<open>xs\<close> is the queue of the level at tick \<open>i\<close>, as far as the audit looks at it.\<close>

definition audited_level :: "Env \<Rightarrow> OrderBook \<Rightarrow> Side \<Rightarrow> nat \<Rightarrow> u32 list \<Rightarrow> bool" where
  "audited_level E b s i xs \<longleftrightarrow> (\<exists>l. vec_get (levels s b) i = Some l \<and> canary_intact l \<and>
     head l = hd_or INVALID_INDEX xs \<and> (xs \<noteq> [] \<longrightarrow> tail l = last xs) \<and>
     dll (pool (order_pool b)) INVALID_INDEX xs INVALID_INDEX \<and>
     total_quantity l = (\<Sum>x\<leftarrow>xs. qty64 (pool (order_pool b)) x) \<and> order_count l = of_nat (length xs) \<and>
     (\<forall>x \<in> set xs. is_allocated E x (order_pool b) \<and>
        vec_get (order_map b) (unat (o_id (slot (pool (order_pool b)) x))) = Some x \<and>
        o_price (slot (pool (order_pool b)) x) = min_price b + of_nat i \<and>
        o_side (slot (pool (order_pool b)) x) = side_u8 s) \<and>
     (\<exists>w. vec_get (bitset_of s b) (i div 64) = Some w \<and> (bit w (i mod 64) \<longleftrightarrow> xs \<noteq> [])))"

lemma bit_test: "drop_bit n (w :: u64) AND 1 \<noteq> 0 \<longleftrightarrow> bit w n"
  by (simp add: and_one_eq bit_iff_odd_drop_bit odd_iff_mod_2_eq_one)

lemma vec_get_slot_iff: "vec_get P (unat x) = Some v \<longleftrightarrow> unat x < length P \<and> v = slot P x"
  by (auto simp: vec_get_def slot_def)

lemma walk_queue_sound:
  assumes "walk_queue fuel E b s l i cur prv qty cnt ok = Some (qty', cnt', True)"
  shows "ok \<and> (\<exists>xs. cur = hd_or INVALID_INDEX xs \<and> INVALID_INDEX \<notin> set xs \<and> (xs \<noteq> [] \<longrightarrow> tail l = last xs) \<and>
    dll (pool (order_pool b)) prv xs INVALID_INDEX \<and>
    qty' = qty + (\<Sum>x\<leftarrow>xs. qty64 (pool (order_pool b)) x) \<and> cnt' = cnt + of_nat (length xs) \<and>
    (\<forall>x \<in> set xs. is_allocated E x (order_pool b) \<and>
        vec_get (order_map b) (unat (o_id (slot (pool (order_pool b)) x))) = Some x \<and>
        o_price (slot (pool (order_pool b)) x) = min_price b + of_nat i \<and>
        o_side (slot (pool (order_pool b)) x) = side_u8 s))"
  using assms
proof (induction fuel arbitrary: cur prv qty cnt ok)
  case (Suc fuel)
  let ?P = "pool (order_pool b)"
  show ?case
  proof (cases "cur = INVALID_INDEX")
    case True
    with Suc.prems show ?thesis by (auto intro!: exI [of _ "[]"])
  next
    case False
    let ?o = "slot ?P cur"
    define ok2 where "ok2 \<longleftrightarrow> ok \<and> o_prev ?o = prv \<and>
      \<not> (\<not> is_allocated E (o_next ?o) (order_pool b) \<and> o_next ?o \<noteq> INVALID_INDEX) \<and>
      vec_get (order_map b) (unat (o_id ?o)) = Some cur \<and> o_price ?o = min_price b + of_nat i \<and>
      o_side ?o = side_u8 s \<and> \<not> (o_next ?o = INVALID_INDEX \<and> tail l \<noteq> cur)"
    have al: "is_allocated E cur (order_pool b)" using Suc.prems False by (auto split: if_splits)
    have "walk_queue fuel E b s l i (o_next ?o) cur (qty + qty64 ?P cur) (cnt + 1) ok2 = Some (qty', cnt', True)"
      using Suc.prems False al unfolding ok2_def
      by (auto simp: Let_def bind_eq_Some_conv vec_get_slot_iff conj_assoc)
    from Suc.IH [OF this] obtain xs where ok2: ok2 and xs: "o_next ?o = hd_or INVALID_INDEX xs"
      "INVALID_INDEX \<notin> set xs" "xs \<noteq> [] \<longrightarrow> tail l = last xs" "dll ?P cur xs INVALID_INDEX"
      "qty' = qty + qty64 ?P cur + (\<Sum>x\<leftarrow>xs. qty64 ?P x)" "cnt' = cnt + 1 + of_nat (length xs)"
      "\<forall>x \<in> set xs. is_allocated E x (order_pool b) \<and> vec_get (order_map b) (unat (o_id (slot ?P x))) = Some x \<and>
        o_price (slot ?P x) = min_price b + of_nat i \<and> o_side (slot ?P x) = side_u8 s"
      by blast
    have "tail l = last (cur # xs)" using xs(1,3) ok2 unfolding ok2_def by (cases xs) auto
    with False al ok2 xs show ?thesis
      unfolding ok2_def by (intro conjI exI [of _ "cur # xs"]) (auto simp: add.assoc)
  qed
qed simp

lemma validate_level_sound:
  assumes "validate_level E b s i st = Some st'" "snd st'"
  shows "snd st \<and> (\<exists>xs. audited_level E b s i xs \<and> fst st' = fst st + unat (of_nat (length xs) :: u32))"
proof -
  obtain rc ok where st: "st = (rc, ok)" by (cases st)
  obtain l qty cnt ok1 ho w where l: "vec_get (levels s b) i = Some l"
    and wq: "walk_queue (Suc (capacity (order_pool b))) E b s l i (head l) INVALID_INDEX 0 0 (ok \<and> canary_intact l) = Some (qty, cnt, ok1)"
    and w: "vec_get (bitset_of s b) (i div kWordBits) = Some w"
    and st': "st' = (rc + unat cnt, (((ok1 \<and> ho) \<and> total_quantity l = qty) \<and> order_count l = cnt) \<and>
        (drop_bit (i mod kWordBits) w AND 1 \<noteq> 0) = (\<not> level_is_empty l))"
    using assms(1) unfolding validate_level_def st prod.case Let_def bind_eq_Some_conv split_paired_Ex by blast
  from assms(2) st' have ok: "ok1" "total_quantity l = qty" "order_count l = cnt" "bit w (i mod 64) = (\<not> level_is_empty l)"
    by (simp_all add: bit_test)
  from walk_queue_sound [of "Suc (capacity (order_pool b))" E b s l i "head l" INVALID_INDEX 0 0 "ok \<and> canary_intact l" qty cnt] wq ok(1)
  obtain xs where k: "ok" "canary_intact l" and xs: "head l = hd_or INVALID_INDEX xs" "INVALID_INDEX \<notin> set xs"
    "xs \<noteq> [] \<longrightarrow> tail l = last xs" "dll (pool (order_pool b)) INVALID_INDEX xs INVALID_INDEX"
    "qty = (\<Sum>x\<leftarrow>xs. qty64 (pool (order_pool b)) x)" "cnt = of_nat (length xs)"
    "\<forall>x \<in> set xs. is_allocated E x (order_pool b) \<and>
        vec_get (order_map b) (unat (o_id (slot (pool (order_pool b)) x))) = Some x \<and>
        o_price (slot (pool (order_pool b)) x) = min_price b + of_nat i \<and>
        o_side (slot (pool (order_pool b)) x) = side_u8 s"
    by auto
  have "level_is_empty l \<longleftrightarrow> xs = []" using xs(1,2) by (cases xs) (auto simp: level_is_empty_def)
  with l k xs ok w have "audited_level E b s i xs" unfolding audited_level_def by auto
  with k xs(6) st st' show ?thesis by auto
qed

text \<open>A loop whose flag is still up has passed every check.\<close>

lemma for_each_passed:
  assumes "for_each f xs s = Some s'" "snd s'"
    and "\<And>x s s'. x \<in> set xs \<Longrightarrow> f x s = Some s' \<Longrightarrow> snd s' \<Longrightarrow> snd s \<and> P x"
  shows "snd s \<and> (\<forall>x \<in> set xs. P x)"
  using assms
proof (induction xs arbitrary: s)
  case (Cons x xs)
  then obtain s1 where 1: "f x s = Some s1" "for_each f xs s1 = Some s'" by (auto simp: bind_eq_Some_conv)
  have "snd s1 \<and> (\<forall>x \<in> set xs. P x)" by (rule Cons.IH [OF 1(2) Cons.prems(2) Cons.prems(3)]) simp_all
  with Cons.prems(3) [OF _ 1(1)] show ?case by auto
qed simp

lemma for_each_flag:
  assumes "for_each f xs ok = Some True" and "\<And>x ok. x \<in> set xs \<Longrightarrow> f x ok = Some True \<Longrightarrow> ok \<and> P x"
  shows "ok \<and> (\<forall>x \<in> set xs. P x)"
  using assms
proof (induction xs arbitrary: ok)
  case (Cons x xs)
  then obtain ok1 where 1: "f x ok = Some ok1" "for_each f xs ok1 = Some True" by (auto simp: bind_eq_Some_conv)
  have "ok1 \<and> (\<forall>x \<in> set xs. P x)" by (rule Cons.IH [OF 1(2) Cons.prems(2)]) simp_all
  with Cons.prems(2) [of x ok] 1(1) show ?case by auto
qed simp

lemma validate_side_sound:
  assumes "validate_side E b s st = Some st'" "snd st'"
  shows "snd st \<and> (\<forall>i < length (asks_levels b). \<exists>xs. audited_level E b s i xs) \<and>
    (\<forall>w < length (bitset_of s b). \<exists>v. vec_get (summary_of s b) (w div 64) = Some v \<and>
       (bit v (w mod 64) \<longleftrightarrow> bitset_of s b ! w \<noteq> 0))"
proof -
  obtain st1 where 1: "for_each (validate_level E b s) [0..<length (asks_levels b)] st = Some st1"
    "for_each (validate_summary b s) [0..<length (bitset_of s b)] (snd st1) = Some True"
    using assms by (auto simp: validate_side_def bind_eq_Some_conv)
  have "snd st1 \<and> (\<forall>w \<in> set [0..<length (bitset_of s b)]. \<exists>v. vec_get (summary_of s b) (w div 64) = Some v \<and>
       (bit v (w mod 64) \<longleftrightarrow> bitset_of s b ! w \<noteq> 0))"
    by (rule for_each_flag [OF 1(2)]) (auto simp: validate_summary_def bind_eq_Some_conv Let_def bit_test vec_get_def split: if_splits)
  moreover from this have "snd st \<and> (\<forall>i \<in> set [0..<length (asks_levels b)]. \<exists>xs. audited_level E b s i xs)"
    by (intro for_each_passed [OF 1(1)]) (use validate_level_sound in blast)+
  ultimately show ?thesis by auto
qed

text \<open>\<open>i\<close> is the tick the cached best price of a side stands for.\<close>

definition audited_best :: "OrderBook \<Rightarrow> PriceLevel list \<Rightarrow> Price \<Rightarrow> nat \<Rightarrow> (nat \<Rightarrow> nat \<Rightarrow> bool) \<Rightarrow> bool" where
  "audited_best b ls px i better \<longleftrightarrow> i < length (asks_levels b) \<and> \<not> level_is_empty (ls ! i) \<and>
     unat px = unat (min_price b) + i \<and>
     (\<forall>j < length (asks_levels b). better j i \<longrightarrow> level_is_empty (ls ! j))"

lemma highest_level_sound:
  "highest_level ls n = Some (Some i) \<Longrightarrow>
   i < n \<and> \<not> level_is_empty (ls ! i) \<and> (\<forall>j < n. i < j \<longrightarrow> level_is_empty (ls ! j))"
  by (induction n) (auto simp: bind_eq_Some_conv vec_get_def less_Suc_eq split: if_splits)

lemma lowest_level_sound:
  "lowest_level ls k = Some i \<Longrightarrow>
   k \<le> i \<and> i < length ls \<and> \<not> level_is_empty (ls ! i) \<and> (\<forall>j. k \<le> j \<and> j < i \<longrightarrow> level_is_empty (ls ! j))"
proof (induction ls k rule: lowest_level.induct)
  case (1 ls k)
  show ?case
  proof (cases "k < length ls \<and> level_is_empty (ls ! k)")
    case True
    then have "lowest_level ls (Suc k) = Some i" using "1.prems" by (simp add: lowest_level.simps [of ls k])
    with "1.IH" True have *: "Suc k \<le> i \<and> i < length ls \<and> \<not> level_is_empty (ls ! i) \<and>
        (\<forall>j. Suc k \<le> j \<and> j < i \<longrightarrow> level_is_empty (ls ! j))" by blast
    have "level_is_empty (ls ! j)" if "k \<le> j" "j < i" for j
      using that * True by (cases "j = k") auto
    with * show ?thesis by auto
  next
    case False
    then show ?thesis using "1.prems" by (auto simp: lowest_level.simps [of ls k] split: if_splits)
  qed
qed

lemma validate_best_sound:
  shows "validate_best_bid b = Some True \<Longrightarrow> has_bids b \<Longrightarrow>
      audited_best b (bids_levels b) (best_bid b) (best_bid_idx b) (\<lambda>j i. i < j)"
    and "validate_best_ask b \<Longrightarrow> has_asks b \<Longrightarrow>
      audited_best b (asks_levels b) (best_ask b) (best_ask_idx b) (\<lambda>j i. j < i)"
  using highest_level_sound [of "bids_levels b" "length (asks_levels b)"] lowest_level_sound [of "asks_levels b" 0]
  by (auto simp: validate_best_bid_def validate_best_ask_def audited_best_def bind_eq_Some_conv split: option.splits)

text \<open>What a passing audit establishes.\<close>

definition audited :: "Env \<Rightarrow> OrderBook \<Rightarrow> bool" where
  "audited E b \<longleftrightarrow>
     (\<forall>s. (\<forall>i < length (asks_levels b). \<exists>xs. audited_level E b s i xs) \<and>
        (\<forall>w < length (bitset_of s b). \<exists>v. vec_get (summary_of s b) (w div 64) = Some v \<and>
           (bit v (w mod 64) \<longleftrightarrow> bitset_of s b ! w \<noteq> 0))) \<and>
     (\<forall>k. 0 < k \<and> k \<le> max_order_id b \<and> order_map b ! k \<noteq> INVALID_INDEX \<longrightarrow>
        is_allocated E (order_map b ! k) (order_pool b) \<and>
        unat (o_id (slot (pool (order_pool b)) (order_map b ! k))) = k) \<and>
     (has_bids b \<longrightarrow> audited_best b (bids_levels b) (best_bid b) (best_bid_idx b) (\<lambda>j i. i < j)) \<and>
     (has_asks b \<longrightarrow> audited_best b (asks_levels b) (best_ask b) (best_ask_idx b) (\<lambda>j i. j < i)) \<and>
     active_count b = live_count (order_pool b) \<and>
     of_nat (free_list_depth (order_pool b)) = of_nat (capacity (order_pool b)) - live_count (order_pool b)"

text \<open>
  C8: an audit that passes is meaningful, for any book, reachable or not. Every level is a
  doubly linked queue of allocated slots with the level's price and side, mapped by their ids,
  with exact aggregates and an intact canary; the bitset and its summary agree with the
  levels; the cached best prices are the extrema; the counters and the free list agree.
\<close>

theorem audit_sound:
  assumes "validate_book E b = Some True"
  shows "audited E b"
proof -
  obtain st1 rc ok mc ok2 y where a: "validate_side E b Buy (0, True) = Some st1" "validate_side E b Sell st1 = Some (rc, ok)"
    "for_each (validate_map_entry E b) [1..<Suc (max_order_id b)] (0, ok) = Some (mc, ok2)"
    "validate_best_bid b = Some y" "validate_best_ask b" "validate_counts b mc rc" ok2 y
    using assms unfolding validate_book_def Let_def bind_eq_Some_conv split_paired_Ex prod.case option.inject eq_True by blast
  let ?P = "\<lambda>k. order_map b ! k \<noteq> INVALID_INDEX \<longrightarrow> is_allocated E (order_map b ! k) (order_pool b) \<and>
      unat (o_id (slot (pool (order_pool b)) (order_map b ! k))) = k"
  have entry: "snd s \<and> ?P k" if "validate_map_entry E b k s = Some s'" "snd s'" for k s s'
    using that by (cases s) (auto simp: validate_map_entry_def bind_eq_Some_conv Let_def vec_get_def slot_def split: if_splits)
  have map: "snd (0 :: nat, ok) \<and> (\<forall>k \<in> set [1..<Suc (max_order_id b)]. ?P k)"
    by (rule for_each_passed [OF a(3)]) (use a(7) entry in \<open>simp, blast\<close>)
  then have "ok" by simp
  then have sell: "snd st1 \<and> (\<forall>i < length (asks_levels b). \<exists>xs. audited_level E b Sell i xs) \<and>
      (\<forall>w < length (bitset_of Sell b). \<exists>v. vec_get (summary_of Sell b) (w div 64) = Some v \<and>
       (bit v (w mod 64) \<longleftrightarrow> bitset_of Sell b ! w \<noteq> 0))"
    using validate_side_sound [OF a(2)] by simp
  then have buy: "(\<forall>i < length (asks_levels b). \<exists>xs. audited_level E b Buy i xs) \<and>
      (\<forall>w < length (bitset_of Buy b). \<exists>v. vec_get (summary_of Buy b) (w div 64) = Some v \<and>
       (bit v (w mod 64) \<longleftrightarrow> bitset_of Buy b ! w \<noteq> 0))"
    using validate_side_sound [OF a(1)] by blast
  have sides: "(\<forall>i < length (asks_levels b). \<exists>xs. audited_level E b s i xs) \<and>
      (\<forall>w < length (bitset_of s b). \<exists>v. vec_get (summary_of s b) (w div 64) = Some v \<and>
       (bit v (w mod 64) \<longleftrightarrow> bitset_of s b ! w \<noteq> 0))" for s
    using buy sell by (cases s) blast+
  have entries: "?P k" if "0 < k" "k \<le> max_order_id b" for k
    using map that by (simp only: set_upt) (simp add: less_Suc_eq_le)
  have counts: "active_count b = live_count (order_pool b)"
    "of_nat (free_list_depth (order_pool b)) = of_nat (capacity (order_pool b)) - live_count (order_pool b)"
    using a(6) by (simp_all add: validate_counts_def stats_def Let_def)
  have best: "has_bids b \<longrightarrow> audited_best b (bids_levels b) (best_bid b) (best_bid_idx b) (\<lambda>j i. i < j)"
    "has_asks b \<longrightarrow> audited_best b (asks_levels b) (best_ask b) (best_ask_idx b) (\<lambda>j i. j < i)"
    using validate_best_sound a(4,5,8) by simp_all
  show ?thesis
    unfolding audited_def by (intro conjI allI impI) (use sides entries best counts in simp_all)
qed

section \<open>A book that satisfies the invariant passes\<close>

lemma walk_queue_complete:
  assumes "dll (pool (order_pool b)) prv xs INVALID_INDEX" "INVALID_INDEX \<notin> set xs" "xs \<noteq> [] \<longrightarrow> tail l = last xs"
    "length xs < fuel"
    "\<forall>x \<in> set xs. unat x < length (pool (order_pool b)) \<and> is_allocated E x (order_pool b) \<and>
        vec_get (order_map b) (unat (o_id (slot (pool (order_pool b)) x))) = Some x \<and>
        o_price (slot (pool (order_pool b)) x) = min_price b + of_nat i \<and>
        o_side (slot (pool (order_pool b)) x) = side_u8 s"
  shows "walk_queue fuel E b s l i (hd_or INVALID_INDEX xs) prv qty cnt ok =
    Some (qty + (\<Sum>x\<leftarrow>xs. qty64 (pool (order_pool b)) x), cnt + of_nat (length xs), ok)"
  using assms
proof (induction xs arbitrary: prv qty cnt fuel)
  case Nil
  then show ?case by (cases fuel) simp_all
next
  case (Cons x xs)
  let ?P = "pool (order_pool b)"
  obtain f where f: "fuel = Suc f" using Cons.prems(4) by (cases fuel) auto
  have x: "x \<noteq> INVALID_INDEX" "o_prev (slot ?P x) = prv" "o_next (slot ?P x) = hd_or INVALID_INDEX xs"
    using Cons.prems(1,2) by auto
  have nxt: "is_allocated E (hd_or INVALID_INDEX xs) (order_pool b) \<or> hd_or INVALID_INDEX xs = INVALID_INDEX"
    using Cons.prems(5) by (cases xs) auto
  have tl: "hd_or INVALID_INDEX xs = INVALID_INDEX \<longrightarrow> tail l = x"
    using Cons.prems(2,3) by (cases xs) auto
  have "walk_queue fuel E b s l i x prv qty cnt ok =
      walk_queue f E b s l i (hd_or INVALID_INDEX xs) x (qty + qty64 ?P x) (cnt + 1) ok"
    using Cons.prems(5) x nxt tl by (auto simp: f Let_def vec_get_slot)
  also have "\<dots> = Some (qty + qty64 ?P x + (\<Sum>x\<leftarrow>xs. qty64 ?P x), cnt + 1 + of_nat (length xs), ok)"
    using Cons.prems by (intro Cons.IH) (auto simp: f split: if_splits)
  finally show ?case by (simp add: add.assoc)
qed

lemma core_allocated:
  assumes "hft_debug_tools E" "core E b q F" "unat x < capacity (order_pool b)"
  shows "is_allocated E x (order_pool b) \<longleftrightarrow> x \<notin> set F"
  using assms by (auto simp: core_def pool_rel_def stamps_ok_def is_allocated_def)

lemma side_top_bits: "side_top s b S \<Longrightarrow> bits_rel (range_of b) (bitset_of s b) (summary_of s b) S"
  by (cases s) simp_all

lemma validate_level_complete:
  assumes "hft_debug_tools E" "book_rel E b q F" "i < range_of b"
  shows "validate_level E b s i (rc, ok) = Some (rc + length (q s ! i), ok)"
proof -
  note c = book_relE(1) [OF assms(2)]
  note cs = core_slots [OF c assms(3), of s]
  let ?l = "levels s b ! i" and ?P = "slab b" and ?xs = "q s ! i"
  have P: "length ?P = capacity (order_pool b)" using c by (simp add: core_def pool_rel_def)
  have sq: "side_queues b s (q s)" and m: "map_rel (order_map b) ?P (set (live q))" using c by (simp_all add: core_def)
  have inv: "INVALID_INDEX \<notin> set ?xs" using cs(1) by (simp add: slots_in_def)
  have len: "length ?xs < Suc (capacity (order_pool b))" "length ?xs < 2 ^ 32"
    using cs(1) distinct_slots_length [of ?xs "capacity (order_pool b)"] core_queue_length(1) [OF c assms(3)] P
    by (simp_all add: slots_in_def)
  have al: "is_allocated E x (order_pool b)" if "x \<in> set ?xs" for x
    using core_allocated [OF assms(1) c] core_live [OF c] cs(2) that by blast
  have good: "\<forall>x \<in> set ?xs. unat x < length ?P \<and> is_allocated E x (order_pool b) \<and>
      vec_get (order_map b) (unat (o_id (slot ?P x))) = Some x \<and>
      o_price (slot ?P x) = min_price b + of_nat i \<and> o_side (slot ?P x) = side_u8 s"
  proof
    fix x assume x: "x \<in> set ?xs"
    have "order_at b s i x" using sq assms(3) x by (simp add: side_queues_def)
    moreover have "o_price (slot ?P x) = of_nat (unat (min_price b) + i)"
      using \<open>order_at b s i x\<close> index_price [OF book_relE(3) [OF assms(2)] assms(3)]
      by (simp add: order_at_def word_unat_eq_iff)
    ultimately show "unat x < length ?P \<and> is_allocated E x (order_pool b) \<and>
      vec_get (order_map b) (unat (o_id (slot ?P x))) = Some x \<and>
      o_price (slot ?P x) = min_price b + of_nat i \<and> o_side (slot ?P x) = side_u8 s"
      using al [OF x] core_live(1) [OF c] cs(2) x P m by (auto simp: map_rel_def vec_get_def order_at_def)
  qed
  have ql: "head ?l = hd_or INVALID_INDEX ?xs" "?xs \<noteq> [] \<longrightarrow> tail ?l = last ?xs" "canary_intact ?l"
    "dll ?P INVALID_INDEX ?xs INVALID_INDEX" "total_quantity ?l = (\<Sum>x\<leftarrow>?xs. qty64 ?P x)"
    "order_count ?l = of_nat (length ?xs)"
    using cs(3) by (auto simp: queue_rel_def last_or_def split: list.splits)
  have walk: "walk_queue (Suc (capacity (order_pool b))) E b s ?l i (head ?l) INVALID_INDEX 0 0 ok =
      Some (total_quantity ?l, order_count ?l, ok)"
    using walk_queue_complete [OF ql(4) inv ql(2) len(1) good, of 0 0 ok] ql by simp
  have hp: "head_prev_ok E b ?l = Some True"
    using ql(1,4) inv P al by (cases ?xs) (auto simp: head_prev_ok_def vec_get_slot)
  have bits: "bits_rel (range_of b) (bitset_of s b) (summary_of s b) (occ (q s))"
    using side_top_bits book_relE(2) [OF assms(2)] by blast
  then have w: "i div 64 < length (bitset_of s b)" "bit (bitset_of s b ! (i div 64)) (i mod 64) \<longleftrightarrow> ?xs \<noteq> []"
    using assms(3) cs(4) bitset_mem [of i "bitset_of s b"] by (auto simp: bits_rel_def occ_def bitset_set_def)
  have e: "level_is_empty ?l \<longleftrightarrow> ?xs = []" using queue_rel_empty [OF cs(3) inv] .
  have "vec_get (levels s b) i = Some ?l" using assms(3) cs(5) by (simp add: vec_get_def)
  with walk hp w e ql(3,6) len(2) show ?thesis
    by (simp add: validate_level_def Let_def bit_test vec_get_def unat_of_nat_32 del: walk_queue.simps)
qed

lemma for_each_count:
  assumes "\<And>x c. x \<in> set xs \<Longrightarrow> f x (c, ok) = Some (c + g x, ok)"
  shows "for_each f xs (c, ok) = Some (c + (\<Sum>x\<leftarrow>xs. g x), ok)"
  using assms by (induction xs arbitrary: c) (simp_all add: add.assoc)

lemma for_each_keeps: "(\<And>x. x \<in> set xs \<Longrightarrow> f x s = Some s) \<Longrightarrow> for_each f xs s = Some s"
  by (induction xs) simp_all

lemma validate_side_complete:
  assumes "hft_debug_tools E" "book_rel E b q F"
  shows "validate_side E b s (rc, ok) = Some (rc + length (concat (q s)), ok)"
proof -
  note c = book_relE(1) [OF assms(2)]
  have sq: "side_queues b t (q t)" for t using c by (simp add: core_def)
  have len: "length (asks_levels b) = range_of b" "length (q s) = range_of b"
    using sq [of Sell] sq [of s] by (simp_all add: side_queues_def)
  have "(\<Sum>i\<leftarrow>[0..<range_of b]. length (q s ! i)) = length (concat (q s))"
  proof -
    have "map (\<lambda>i. length (q s ! i)) [0..<range_of b] = map length (q s)"
      by (rule nth_equalityI) (simp_all add: len(2))
    then show ?thesis by (simp add: length_concat)
  qed
  then have 1: "for_each (validate_level E b s) [0..<length (asks_levels b)] (rc, ok) = Some (rc + length (concat (q s)), ok)"
    using for_each_count [of "[0..<range_of b]" "validate_level E b s" ok "\<lambda>i. length (q s ! i)" rc]
      validate_level_complete [OF assms] len(1) by simp
  have bits: "bits_rel (range_of b) (bitset_of s b) (summary_of s b) (occ (q s))"
    using side_top_bits book_relE(2) [OF assms(2)] by blast
  have "validate_summary b s w ok = Some ok" if "w \<in> set [0..<length (bitset_of s b)]" for w
  proof -
    have w: "w < length (bitset_of s b)" "w div 64 < length (summary_of s b)" using that bits by (auto simp: bits_rel_def)
    have "w \<in> bitset_set (summary_of s b) \<longleftrightarrow> bitset_of s b ! w \<noteq> 0" using bits w(1) by (auto simp: bits_rel_def)
    then have "bit (summary_of s b ! (w div 64)) (w mod 64) \<longleftrightarrow> bitset_of s b ! w \<noteq> 0"
      using bitset_mem [OF w(2), of "w mod 64"] by simp
    with w show ?thesis by (simp add: validate_summary_def vec_get_def bit_test)
  qed
  then have "for_each (validate_summary b s) [0..<length (bitset_of s b)] ok = Some ok" by (rule for_each_keeps)
  with 1 show ?thesis by (simp add: validate_side_def)
qed

lemma sum_list_count_filter: "length (filter P xs) = (\<Sum>x\<leftarrow>xs. if P x then 1 else 0)"
  by (induction xs) simp_all

text \<open>The id map has as many entries as there are resting orders.\<close>

lemma mapped_count:
  assumes "core E b q F"
  shows "(\<Sum>k\<leftarrow>[1..<Suc (max_order_id b)]. if order_map b ! k \<noteq> INVALID_INDEX then 1 else 0) = length (live q)"
proof -
  let ?M = "{k. k < length (order_map b) \<and> order_map b ! k \<noteq> INVALID_INDEX}"
  let ?f = "\<lambda>x. unat (o_id (slot (slab b) x))"
  have m: "map_rel (order_map b) (slab b) (set (live q))" and len: "length (order_map b) = Suc (max_order_id b)"
    using assms by (simp_all add: core_def geometry_def)
  have "bij_betw ?f (set (live q)) ?M"
  proof (rule bij_betw_byWitness [where f' = "\<lambda>k. order_map b ! k"])
    show "?f ` set (live q) \<subseteq> ?M" using m core_live(2) [OF assms] by (auto simp: map_rel_def)
  qed (use m in \<open>auto simp: map_rel_def\<close>)
  then have "card ?M = card (set (live q))" using bij_betw_same_card by fastforce
  also have "\<dots> = length (live q)" using assms by (simp add: core_def distinct_card)
  finally have c: "card ?M = length (live q)" .
  have z: "order_map b ! 0 = INVALID_INDEX" using m len by (auto simp: map_rel_def unat_eq_0)
  have "?M = {k \<in> set [1..<Suc (max_order_id b)]. order_map b ! k \<noteq> INVALID_INDEX}"
    using len z by (auto simp: Suc_le_eq intro: gr0I)
  then have "card ?M = length (filter (\<lambda>k. order_map b ! k \<noteq> INVALID_INDEX) [1..<Suc (max_order_id b)])"
    by (simp add: distinct_card [symmetric] del: upt_Suc)
  also have "\<dots> = (\<Sum>k\<leftarrow>[1..<Suc (max_order_id b)]. if order_map b ! k \<noteq> INVALID_INDEX then 1 else 0)"
    by (simp only: sum_list_count_filter)
  finally show ?thesis using c by simp
qed

lemma validate_map_complete:
  assumes "hft_debug_tools E" "core E b q F"
  shows "for_each (validate_map_entry E b) [1..<Suc (max_order_id b)] (0, ok) = Some (length (live q), ok)"
proof -
  have m: "map_rel (order_map b) (slab b) (set (live q))" and len: "length (order_map b) = Suc (max_order_id b)"
    and P: "length (slab b) = capacity (order_pool b)"
    using assms(2) by (simp_all add: core_def geometry_def pool_rel_def)
  have "validate_map_entry E b k (c, ok) = Some (c + (if order_map b ! k \<noteq> INVALID_INDEX then 1 else 0), ok)"
    if "k \<in> set [1..<Suc (max_order_id b)]" for k c
  proof -
  have k: "k < Suc (max_order_id b)" using that by (simp only: set_upt atLeastLessThan_iff)
  show ?thesis
  proof (cases "order_map b ! k = INVALID_INDEX")
    case False
    then have x: "order_map b ! k \<in> set (live q)" "unat (o_id (slot (slab b) (order_map b ! k))) = k"
      using m k len by (auto simp: map_rel_def)
    then have "is_allocated E (order_map b ! k) (order_pool b)" "unat (order_map b ! k) < length (slab b)"
      using core_allocated [OF assms] core_live [OF assms(2)] P by auto
    with x k len False show ?thesis by (simp add: validate_map_entry_def vec_get_def slot_def)
  qed (use k len in \<open>simp add: validate_map_entry_def vec_get_def\<close>)
  qed
  then show ?thesis
    using for_each_count [of "[1..<Suc (max_order_id b)]" "validate_map_entry E b" ok] mapped_count [OF assms(2)]
    by (simp del: upt_Suc)
qed

lemma highest_level_max:
  "\<lbrakk>i < n; n \<le> length ls; \<not> level_is_empty (ls ! i); \<forall>j. i < j \<and> j < n \<longrightarrow> level_is_empty (ls ! j)\<rbrakk> \<Longrightarrow>
   highest_level ls n = Some (Some i)"
  by (induction n) (auto simp: vec_get_def less_Suc_eq)

lemma lowest_level_min:
  "\<lbrakk>k \<le> i; i < length ls; \<not> level_is_empty (ls ! i); \<forall>j. k \<le> j \<and> j < i \<longrightarrow> level_is_empty (ls ! j)\<rbrakk> \<Longrightarrow>
   lowest_level ls k = Some i"
proof (induction ls k rule: lowest_level.induct)
  case (1 ls k)
  then show ?case by (cases "k = i") (simp_all add: lowest_level.simps [of ls k] lowest_level.simps [of ls i])
qed

lemma validate_best_complete:
  assumes "book_rel E b q F"
  shows "validate_best_bid b = Some True" "validate_best_ask b"
proof -
  note c = book_relE(1) [OF assms]
  have e: "level_is_empty (levels s b ! i) \<longleftrightarrow> i \<notin> occ (q s)" if "i < range_of b" for i s
    using level_empty_occ [OF c that] .
  have len: "length (bids_levels b) = range_of b" "length (asks_levels b) = range_of b" "0 < range_of b"
    using core_levels [OF c, of Buy] core_levels [OF c, of Sell] by (simp_all add: range_of_def)
  have occ: "i < range_of b" if "i \<in> occ (q s)" for i s
    using that c by (auto simp: occ_def core_def side_queues_def)
  show "validate_best_bid b = Some True"
  proof (cases "has_bids b")
    case True
    then have t: "best_bid_idx b \<in> occ (q Buy)" "\<forall>k \<in> occ (q Buy). k \<le> best_bid_idx b"
      "unat (best_bid b) = unat (min_price b) + best_bid_idx b"
      using book_relE(2) [OF assms, of Buy] by simp_all
    have "highest_level (bids_levels b) (range_of b) = Some (Some (best_bid_idx b))"
    proof (rule highest_level_max)
      show "\<forall>j. best_bid_idx b < j \<and> j < range_of b \<longrightarrow> level_is_empty (bids_levels b ! j)"
        using t(2) e [of _ Buy] by (auto simp: leD)
    qed (use t(1) occ [of _ Buy] e [of _ Buy] len in auto)
    with True t(3) len show ?thesis by (simp add: validate_best_bid_def)
  next
    case False
    then show ?thesis using book_relE(2) [OF assms, of Buy] len by (simp add: validate_best_bid_def)
  qed
  show "validate_best_ask b"
  proof (cases "has_asks b")
    case True
    then have t: "best_ask_idx b \<in> occ (q Sell)" "\<forall>k \<in> occ (q Sell). best_ask_idx b \<le> k"
      "unat (best_ask b) = unat (min_price b) + best_ask_idx b"
      using book_relE(2) [OF assms, of Sell] by simp_all
    have "lowest_level (asks_levels b) 0 = Some (best_ask_idx b)"
    proof (rule lowest_level_min)
      have "j < range_of b \<and> j \<notin> occ (q Sell)" if "j < best_ask_idx b" for j
        using that t(1,2) occ [of "best_ask_idx b" Sell] by fastforce
      then show "\<forall>j. 0 \<le> j \<and> j < best_ask_idx b \<longrightarrow> level_is_empty (asks_levels b ! j)"
        using e [of _ Sell] by simp
    qed (use t(1) occ [of _ Sell] e [of _ Sell] len in auto)
    with True t(3) show ?thesis by (simp add: validate_best_ask_def)
  next
    case False
    then show ?thesis using book_relE(2) [OF assms, of Sell] len by (simp add: validate_best_ask_def)
  qed
qed

lemma validate_book_complete:
  assumes "hft_debug_tools E" "book_rel E b q F"
  shows "validate_book E b = Some True"
proof -
  note c = book_relE(1) [OF assms(2)]
  have pr: "pool_rel E (order_pool b) F" and len: "length (live q) + length F = capacity (order_pool b)"
    and ac: "active_count b = of_nat (length (live q))"
    using c by (simp_all add: core_def)
  have lc: "live_count (order_pool b) = of_nat (length (live q))"
    using pr assms(1) len [symmetric] by (auto simp: pool_rel_def stamps_ok_def)
  then have "validate_counts b (length (live q)) (length (concat (q Buy)) + length (concat (q Sell)))"
    using ac len [symmetric] free_list_depth_rel [OF pr]
    by (simp add: validate_counts_def stats_def live_def Let_def)
  then show ?thesis
    using validate_side_complete [OF assms, of Buy 0 True] validate_side_complete [OF assms, of Sell _ True]
      validate_map_complete [OF assms(1) c, of True] validate_best_complete [OF assms(2)]
    by (simp add: validate_book_def del: upt_Suc)
qed

section \<open>Properties\<close>

text \<open>
  C7: every book the engine can reach passes its own audit: whatever the calls, the threads
  and the fault handlers were, \<open>validate_book\<close> returns and answers true.
\<close>

theorem reachable_passes_audit:
  assumes "hft_debug_tools E" "reachable True b"
  shows "validate_book E b = Some True"
proof -
  obtain q F where "book_rel E b q F"
    using reachable_inv(1) [OF assms(2), of E] assms(1) by (auto simp: book_inv_def)
  then show ?thesis by (rule validate_book_complete [OF assms(1)])
qed

theorem reachable_passes_audit_witness: "validate_book E_audit (sample_book E_audit) = Some True"
  using reachable_passes_audit [of E_audit "sample_book E_audit"] sample_reachable(1) [of E_audit] by simp

theorem audit_sound_witness: "audited E_audit (sample_book E_audit)"
proof -
  obtain q F where "book_rel E_audit (sample_book E_audit) q F"
    using OrderBook_new_rel [OF sample_new] by blast
  then show ?thesis using audit_sound validate_book_complete [of E_audit] by simp
qed

end
