(* ===== verification/Binary64.thy ===== *)
theory Binary64
  imports HFT_Prelude "HOL-Library.Log_Nat"
begin

text \<open>
  The \<open>double\<close> arithmetic the programs use to report their timings: IEEE binary64, rounding to
  nearest with ties to even. Every value is 0 or a positive number well inside the normal range
  (counts, cycles, seconds and their quotients), so a value is its rational, an operation is the
  exact one followed by \<open>fl\<close>, and neither overflow nor underflow occurs.
\<close>

section \<open>Rounding\<close>

type_synonym double = rat

text \<open>To the nearest integer, ties to even.\<close>

definition rne :: "rat \<Rightarrow> int" where
  "rne x = (let n = \<lfloor>x\<rfloor>; r = x - of_int n in if r < 1 / 2 \<or> r = 1 / 2 \<and> even n then n else n + 1)"

text \<open>The exponent of the leading bit.\<close>

definition exponent :: "rat \<Rightarrow> int" where
  "exponent x = (if 1 \<le> x then int (floorlog 2 (nat \<lfloor>x\<rfloor>)) - 1 else - int (floorlog 2 (nat \<lceil>1 / x\<rceil> - 1)))"

text \<open>The unit in the last of the 53 places.\<close>

definition ulp :: "rat \<Rightarrow> rat" where
  "ulp x = 2 powi (exponent x - 52)"

definition fl :: "rat \<Rightarrow> double" where
  "fl x = (if x \<le> 0 then 0 else of_int (rne (x / ulp x)) * ulp x)"

section \<open>Operations\<close>

definition double_of :: "nat \<Rightarrow> double" where
  "double_of n = fl (of_nat n)"

definition add_d :: "double \<Rightarrow> double \<Rightarrow> double" where
  "add_d a b = fl (a + b)"

definition mul_d :: "double \<Rightarrow> double \<Rightarrow> double" where
  "mul_d a b = fl (a * b)"

definition div_d :: "double \<Rightarrow> double \<Rightarrow> double" where
  "div_d a b = fl (a / b)"

text \<open>\<open>static_cast<size_t>\<close>: towards zero.\<close>

definition trunc_d :: "double \<Rightarrow> nat" where
  "trunc_d a = nat \<lfloor>a\<rfloor>"

section \<open>Rounding to an integer\<close>

lemma rne_of_int [simp]: "rne (of_int n) = n"
  by (simp add: rne_def)

lemma rne_bounds: "\<lfloor>x\<rfloor> \<le> rne x" "rne x \<le> \<lfloor>x\<rfloor> + 1"
  by (auto simp: rne_def Let_def)

lemma rne_mono: "x \<le> y \<Longrightarrow> rne x \<le> rne y"
proof -
  assume xy: "x \<le> y"
  then have le: "\<lfloor>x\<rfloor> \<le> \<lfloor>y\<rfloor>" by (rule floor_mono)
  show ?thesis
  proof (cases "\<lfloor>x\<rfloor> = \<lfloor>y\<rfloor>")
    case True
    with xy show ?thesis by (auto simp: rne_def Let_def)
  next
    case False
    with le rne_bounds(2) [of x] rne_bounds(1) [of y] show ?thesis by linarith
  qed
qed

lemma rne_ge: "of_int n \<le> x \<Longrightarrow> n \<le> rne x"
  using rne_mono [of "of_int n" x] by simp

lemma rne_le: "x \<le> of_int n \<Longrightarrow> rne x \<le> n"
  using rne_mono [of x "of_int n"] by simp

lemma rne_near: "\<bar>of_int (rne x) - x\<bar> \<le> 1 / 2"
proof -
  have "of_int \<lfloor>x\<rfloor> \<le> x" "x < of_int \<lfloor>x\<rfloor> + 1" by linarith+
  then show ?thesis by (auto simp: rne_def Let_def abs_le_iff)
qed

section \<open>The exponent\<close>

lemma floorlog_pow: "0 < n \<Longrightarrow> 2 ^ (floorlog 2 n - 1) \<le> n \<and> n < 2 ^ floorlog 2 n"
  using floorlog_bounds [of n 2] by simp

lemma exponent_bounds:
  assumes "0 < x"
  shows "2 powi exponent x \<le> x" "x < 2 powi (exponent x + 1)"
proof -
  have "2 powi exponent x \<le> x \<and> x < 2 powi (exponent x + 1)"
  proof (cases "1 \<le> x")
    case True
    define n where "n = nat \<lfloor>x\<rfloor>"
    have n: "0 < n" "of_nat n \<le> x" "x < of_nat n + 1" using True by (simp_all add: n_def le_nat_iff) linarith+
    obtain k where k: "floorlog 2 n = Suc k" using n(1) by (cases "floorlog 2 n") (auto simp: floorlog_eq_zero_iff)
    have e: "exponent x = int k" using True k by (simp add: exponent_def n_def)
    have p: "2 ^ k \<le> n" "Suc n \<le> 2 ^ Suc k" using floorlog_pow [OF n(1)] k by simp_all
    have "(2 :: rat) ^ k \<le> of_nat n" "of_nat (Suc n) \<le> (2 :: rat) ^ Suc k"
      using p by (metis of_nat_le_iff of_nat_numeral of_nat_power)+
    then have "2 ^ k \<le> x" "x < 2 ^ Suc k" using n by linarith+
    then show ?thesis by (simp add: e power_int_add)
  next
    case False
    define m where "m = nat \<lceil>1 / x\<rceil> - 1"
    have x1: "1 < 1 / x" using assms False by simp
    then have m: "0 < m" "of_nat m < 1 / x" "1 / x \<le> of_nat m + 1" by (simp_all add: m_def) linarith+
    obtain k where k: "floorlog 2 m = Suc k" using m(1) by (cases "floorlog 2 m") (auto simp: floorlog_eq_zero_iff)
    have e: "exponent x = - int (Suc k)" using False k by (simp add: exponent_def m_def)
    have p: "2 ^ k \<le> m" "Suc m \<le> 2 ^ Suc k" using floorlog_pow [OF m(1)] k by simp_all
    have "(2 :: rat) ^ k \<le> of_nat m" "of_nat (Suc m) \<le> (2 :: rat) ^ Suc k"
      using p by (metis of_nat_le_iff of_nat_numeral of_nat_power)+
    then have "2 ^ k < 1 / x" "1 / x \<le> 2 ^ Suc k" using m by linarith+
    then have "x < 1 / 2 ^ k" "1 / 2 ^ Suc k \<le> x" using assms by (auto simp: field_simps)
    moreover have "2 powi exponent x = 1 / (2 :: rat) ^ Suc k" "exponent x + 1 = - int k"
      unfolding e power_int_minus power_int_of_nat by (simp_all add: divide_simps)
    moreover have "(2 :: rat) powi (- int k) = 1 / 2 ^ k" unfolding power_int_minus power_int_of_nat by (simp add: divide_simps)
    ultimately show ?thesis by (simp only:)
  qed
  then show "2 powi exponent x \<le> x" "x < 2 powi (exponent x + 1)" by simp_all
qed

lemma exponent_mono:
  assumes "0 < x" "x \<le> y"
  shows "exponent x \<le> exponent y"
proof (rule ccontr)
  assume "\<not> exponent x \<le> exponent y"
  then have "2 powi (exponent y + 1) \<le> (2 powi exponent x :: rat)" by (intro power_int_increasing) simp_all
  with exponent_bounds [of x] exponent_bounds [of y] assms show False by linarith
qed

lemma ulp_pos [simp]: "0 < ulp x" "ulp x \<noteq> 0"
  by (simp_all add: ulp_def)

text \<open>A positive number is between \<open>2^52\<close> and \<open>2^53\<close> units of its last place.\<close>

lemma ulp_scale:
  assumes "0 < x"
  shows "of_int (2 ^ 52) * ulp x = 2 powi exponent x" "of_int (2 ^ 53) * ulp x = 2 powi (exponent x + 1)"
    "of_int (2 ^ 52) \<le> x / ulp x" "x / ulp x \<le> of_int (2 ^ 53)"
proof -
  have p: "(2 :: rat) powi (exponent x - 52) * 2 ^ 52 = 2 powi exponent x"
    using power_int_add [of "2 :: rat" "exponent x - 52" 52] by simp
  show 1: "of_int (2 ^ 52) * ulp x = 2 powi exponent x" using p by (simp add: ulp_def mult.commute)
  show 2: "of_int (2 ^ 53) * ulp x = 2 powi (exponent x + 1)" using 1 by (simp add: power_int_add)
  show "of_int (2 ^ 52) \<le> x / ulp x" using exponent_bounds(1) [OF assms] 1 by (simp only: pos_le_divide_eq [OF ulp_pos(1)])
  show "x / ulp x \<le> of_int (2 ^ 53)" using exponent_bounds(2) [OF assms] 2 by (simp only: pos_divide_le_eq [OF ulp_pos(1)] less_imp_le)
qed

section \<open>Rounding to 53 places\<close>

lemma fl_zero [simp]: "fl 0 = 0"
  by (simp add: fl_def)

text \<open>Rounding stays in the binade.\<close>

lemma fl_binade:
  assumes "0 < x"
  shows "2 powi exponent x \<le> fl x" "fl x \<le> 2 powi (exponent x + 1)"
proof -
  note s = ulp_scale [OF assms]
  have "2 ^ 52 \<le> rne (x / ulp x)" "rne (x / ulp x) \<le> 2 ^ 53" using rne_ge [OF s(3)] rne_le [OF s(4)] .
  then have "of_int (2 ^ 52) \<le> (of_int (rne (x / ulp x)) :: rat)" "(of_int (rne (x / ulp x)) :: rat) \<le> of_int (2 ^ 53)"
    by (simp_all only: of_int_le_iff)
  then show "2 powi exponent x \<le> fl x" "fl x \<le> 2 powi (exponent x + 1)"
    unfolding s(1,2) [symmetric] using assms by (simp_all add: fl_def del: of_int_power of_int_numeral)
qed

lemma fl_nonneg [simp]: "0 \<le> fl x"
proof (cases "x \<le> 0")
  case False
  have "0 \<le> (2 :: rat) powi exponent x" by simp
  also have "\<dots> \<le> fl x" using False by (intro fl_binade(1)) simp
  finally show ?thesis .
qed (simp add: fl_def)

lemma fl_mono:
  assumes "x \<le> y"
  shows "fl x \<le> fl y"
proof (cases "0 < x")
  case True
  show ?thesis
  proof (cases "exponent x = exponent y")
    case True
    then have "x / ulp x \<le> y / ulp y" using assms by (simp add: ulp_def divide_right_mono)
    then have "(of_int (rne (x / ulp x)) :: rat) * ulp x \<le> of_int (rne (y / ulp y)) * ulp y"
      using True rne_mono by (simp add: ulp_def)
    then show ?thesis using \<open>0 < x\<close> assms by (simp add: fl_def)
  next
    case False
    then have "exponent x + 1 \<le> exponent y" using exponent_mono [OF \<open>0 < x\<close> assms] by simp
    then have "2 powi (exponent x + 1) \<le> (2 powi exponent y :: rat)" by (intro power_int_increasing) simp_all
    with fl_binade(2) [OF \<open>0 < x\<close>] fl_binade(1) [of y] \<open>0 < x\<close> assms show ?thesis by simp
  qed
qed (simp add: fl_def [of x])

text \<open>The relative error is at most \<open>2^-53\<close>.\<close>

lemma fl_error:
  assumes "0 \<le> x"
  shows "\<bar>fl x - x\<bar> \<le> x / 2 ^ 53"
proof (cases "x = 0")
  case False
  with assms have x: "0 < x" by simp
  have "fl x - x = (of_int (rne (x / ulp x)) - x / ulp x) * ulp x"
    using x by (simp add: fl_def left_diff_distrib)
  then have "\<bar>fl x - x\<bar> = \<bar>of_int (rne (x / ulp x)) - x / ulp x\<bar> * ulp x" by (simp add: abs_mult less_imp_le)
  also have "\<dots> \<le> 1 / 2 * ulp x" by (rule mult_right_mono [OF rne_near]) (simp add: less_imp_le)
  finally have "\<bar>fl x - x\<bar> \<le> 1 / 2 * ulp x" .
  moreover have "2 ^ 52 * ulp x \<le> x" using ulp_scale(1) [OF x] exponent_bounds(1) [OF x] by simp
  ultimately show ?thesis by simp
qed simp

lemma fl_relative:
  assumes "0 \<le> x"
  shows "x * (1 - 1 / 2 ^ 53) \<le> fl x" "fl x \<le> x * (1 + 1 / 2 ^ 53)"
  using fl_error [OF assms] unfolding abs_le_iff by (simp_all add: algebra_simps)

text \<open>Four roundings, two of them in the divisor.\<close>

lemma quotient_relative:
  assumes "0 \<le> x" "0 < y" "0 < k"
  shows "\<bar>fl (fl x / fl (fl y / k)) - x * k / y\<bar> \<le> x * k / y / 2 ^ 50"
proof -
  let ?u = "1 / 2 ^ 53 :: rat" and ?q = "x * k / y"
  define s where "s = fl (fl y / k)"
  note y = fl_relative [of y] and s' = fl_relative [of "fl y / k"] and x' = fl_relative [of x]
  have "y / k * (1 - ?u) * (1 - ?u) \<le> fl y / k * (1 - ?u)"
    using y(1) assms by (intro mult_right_mono) (simp_all add: pos_le_divide_eq)
  then have lo: "y / k * (1 - ?u) * (1 - ?u) \<le> s" using s'(1) assms(3) unfolding s_def by simp
  have "fl y / k * (1 + ?u) \<le> y / k * (1 + ?u) * (1 + ?u)"
    using y(2) assms by (intro mult_right_mono) (simp_all add: pos_divide_le_eq)
  then have hi: "s \<le> y / k * (1 + ?u) * (1 + ?u)" using s'(2) assms(3) unfolding s_def by simp
  have pos: "0 < y / k * (1 - ?u) * (1 - ?u)" using assms by simp
  then have s0: "0 < s" using lo by linarith
  have up: "fl x / s \<le> x * (1 + ?u) / (y / k * (1 - ?u) * (1 - ?u))"
    using x'(2) assms(1) lo pos by (intro frac_le) simp_all
  have down: "x * (1 - ?u) / (y / k * (1 + ?u) * (1 + ?u)) \<le> fl x / s"
    using x'(1) assms(1) hi s0 by (intro frac_le) simp_all
  have e: "x * (1 + ?u) / (y / k * (1 - ?u) * (1 - ?u)) * (1 + ?u) = ?q * ((1 + ?u) * (1 + ?u) / ((1 - ?u) * (1 - ?u)))"
    "x * (1 - ?u) / (y / k * (1 + ?u) * (1 + ?u)) * (1 - ?u) = ?q * ((1 - ?u) * (1 - ?u) / ((1 + ?u) * (1 + ?u)))"
    using assms by (simp_all add: field_simps)
  have c: "(1 + ?u) * (1 + ?u) / ((1 - ?u) * (1 - ?u)) \<le> 1 + 1 / 2 ^ 50" "1 - 1 / 2 ^ 50 \<le> (1 - ?u) * (1 - ?u) / ((1 + ?u) * (1 + ?u))"
    by simp_all
  have q: "0 \<le> ?q" using assms by simp
  have "fl (fl x / s) \<le> fl x / s * (1 + ?u)" using s0 by (intro fl_relative(2)) simp
  also have "\<dots> \<le> ?q * ((1 + ?u) * (1 + ?u) / ((1 - ?u) * (1 - ?u)))" unfolding e(1) [symmetric] using up by (intro mult_right_mono) simp_all
  also have "\<dots> \<le> ?q * (1 + 1 / 2 ^ 50)" by (rule mult_left_mono [OF c(1) q])
  finally have 1: "fl (fl x / s) \<le> ?q * (1 + 1 / 2 ^ 50)" .
  have "?q * (1 - 1 / 2 ^ 50) \<le> ?q * ((1 - ?u) * (1 - ?u) / ((1 + ?u) * (1 + ?u)))" by (rule mult_left_mono [OF c(2) q])
  also have "\<dots> \<le> fl x / s * (1 - ?u)" unfolding e(2) [symmetric] using down by (intro mult_right_mono) simp_all
  also have "\<dots> \<le> fl (fl x / s)" using s0 by (intro fl_relative(1)) simp
  finally have 2: "?q * (1 - 1 / 2 ^ 50) \<le> fl (fl x / s)" .
  show ?thesis using 1 2 unfolding s_def abs_le_iff by (simp add: algebra_simps)
qed

text \<open>Integers up to \<open>2^53\<close> are exact.\<close>

lemma fl_of_nat:
  assumes "n \<le> 2 ^ 53"
  shows "fl (of_nat n) = of_nat n"
proof (cases "n = 0")
  case False
  let ?x = "of_nat n :: rat"
  have x: "0 < ?x" using False by simp
  have up: "?x \<le> 2 ^ 53" using assms by (metis of_nat_le_iff of_nat_numeral of_nat_power)
  have "\<exists>m :: int. ?x / ulp ?x = of_int m"
  proof (cases "exponent ?x \<le> 52")
    case True
    then obtain k where k: "52 - exponent ?x = int k" using zero_le_imp_eq_int by fastforce
    have "1 / ulp ?x = 2 powi (52 - exponent ?x)" by (simp add: ulp_def power_int_diff)
    then have "?x * (1 / ulp ?x) = ?x * 2 ^ k" by (simp only: k power_int_of_nat)
    then have "?x / ulp ?x = ?x * 2 ^ k" by simp
    then show ?thesis by (intro exI [of _ "int n * 2 ^ k"]) simp
  next
    case False
    then have "2 powi 53 \<le> (2 powi exponent ?x :: rat)" by (intro power_int_increasing) simp_all
    then have "2 ^ 53 \<le> ?x" "(2 :: rat) powi exponent ?x = 2 ^ 53" using exponent_bounds(1) [OF x] up by simp_all
    then have "?x / ulp ?x = of_int (2 ^ 52)" using up ulp_scale(1) [OF x] by (simp add: field_simps)
    then show ?thesis by blast
  qed
  then obtain m :: int where m: "?x / ulp ?x = of_int m" ..
  then have "fl ?x = of_int m * ulp ?x" using x by (simp add: fl_def)
  with m show ?thesis by (simp add: m [symmetric])
qed simp

lemma double_of_exact: "n \<le> 2 ^ 53 \<Longrightarrow> double_of n = of_nat n"
  by (simp add: double_of_def fl_of_nat)

lemma double_of_mono: "m \<le> n \<Longrightarrow> double_of m \<le> double_of n"
  by (simp add: double_of_def fl_mono)

end
