(* ===== verification/Text_Format.thy ===== *)
theory Text_Format
  imports Binary64
begin

text \<open>
  The conversions of \<open>printf\<close> the programs and the journal use, as functions to strings:
  \<open>%u\<close>, \<open>%0wu\<close>, \<open>%-ws\<close> and \<open>%w.pf\<close>.
\<close>

section \<open>Conversions\<close>

definition digit_char :: "nat \<Rightarrow> char" where
  "digit_char d = char_of (48 + d)"

text \<open>\<open>%u\<close> and \<open>%llu\<close>: decimal, without leading zeros.\<close>

fun dec :: "nat \<Rightarrow> string" where
  "dec n = (if n < 10 then [digit_char n] else dec (n div 10) @ [digit_char (n mod 10)])"

declare dec.simps [simp del]

text \<open>\<open>%0wu\<close> pads with zeros on the left, \<open>%-wu\<close> and \<open>%-ws\<close> with spaces on the right; a longer field is kept.\<close>

definition zero_pad :: "nat \<Rightarrow> string \<Rightarrow> string" where
  "zero_pad w s = replicate (w - length s) (CHR ''0'') @ s"

definition left_justify :: "nat \<Rightarrow> string \<Rightarrow> string" where
  "left_justify w s = s @ replicate (w - length s) (CHR '' '')"

definition right_justify :: "nat \<Rightarrow> string \<Rightarrow> string" where
  "right_justify w s = replicate (w - length s) (CHR '' '') @ s"

text \<open>\<open>%.pf\<close>: \<open>p\<close> places after the point, the exact value rounded to nearest, ties to even.\<close>

definition fixed_point :: "nat \<Rightarrow> double \<Rightarrow> string" where
  "fixed_point p x = (let n = nat (rne (x * 10 ^ p)) in dec (n div 10 ^ p) @ ''.'' @ zero_pad p (dec (n mod 10 ^ p)))"

abbreviation newline :: string where
  "newline \<equiv> [CHR 0x0A]"

section \<open>Reading a number\<close>

definition is_digit :: "char \<Rightarrow> bool" where
  "is_digit c \<longleftrightarrow> 48 \<le> (of_char c :: nat) \<and> (of_char c :: nat) \<le> 57"

definition dec_value :: "string \<Rightarrow> nat" where
  "dec_value s = foldl (\<lambda>n c. 10 * n + (of_char c - 48)) 0 s"

section \<open>Decimal numbers\<close>

lemma digit_char_value: "d < 10 \<Longrightarrow> (of_char (digit_char d) :: nat) = 48 + d"
  by (simp add: digit_char_def)

lemma dec_digits: "c \<in> set (dec n) \<Longrightarrow> is_digit c"
proof (induction n rule: dec.induct)
  case (1 n)
  have "is_digit (digit_char d)" if "d < 10" for d
    using digit_char_value [OF that] that by (simp add: is_digit_def)
  with 1 show ?case by (auto simp: dec.simps [of n] split: if_splits)
qed

lemma dec_nonempty [simp]: "dec n \<noteq> []"
  by (simp add: dec.simps)

lemma dec_value_snoc: "dec_value (s @ [c]) = 10 * dec_value s + (of_char c - 48)"
  by (simp add: dec_value_def)

lemma dec_value_dec: "dec_value (dec n) = n"
proof (induction n rule: dec.induct)
  case (1 n)
  show ?case
  proof (cases "n < 10")
    case True
    then show ?thesis using digit_char_value [OF True] by (simp add: dec.simps [of n] dec_value_def)
  next
    case False
    have "dec_value (dec n) = 10 * (n div 10) + n mod 10"
      using 1 [OF False] False digit_char_value [of "n mod 10"] by (subst dec.simps) (simp add: dec_value_snoc)
    then show ?thesis by simp
  qed
qed

lemma dec_value_zero_pad: "dec_value (zero_pad w s) = dec_value s"
proof -
  have "dec_value (replicate k (CHR ''0'') @ s) = dec_value s" for k
    by (induction k) (simp_all add: dec_value_def)
  then show ?thesis by (simp add: zero_pad_def)
qed

lemma zero_pad_digits: "c \<in> set (zero_pad w (dec n)) \<Longrightarrow> is_digit c"
  using dec_digits by (auto simp: zero_pad_def is_digit_def)

section \<open>A number with places\<close>

text \<open>The number shown is the value to half a unit of the last place.\<close>

lemma fixed_point_near:
  assumes "0 \<le> x"
  obtains n where "fixed_point p x = dec (n div 10 ^ p) @ ''.'' @ zero_pad p (dec (n mod 10 ^ p))" "\<bar>of_nat n / 10 ^ p - x\<bar> \<le> 1 / 2 / 10 ^ p"
proof (rule that)
  let ?n = "nat (rne (x * 10 ^ p))"
  show "fixed_point p x = dec (?n div 10 ^ p) @ ''.'' @ zero_pad p (dec (?n mod 10 ^ p))" by (simp add: fixed_point_def Let_def)
  have "0 \<le> rne (x * 10 ^ p)" using rne_ge [of 0 "x * 10 ^ p"] assms by simp
  then have "of_nat ?n - x * 10 ^ p = of_int (rne (x * 10 ^ p)) - x * 10 ^ p" by simp
  then have "\<bar>of_nat ?n - x * 10 ^ p\<bar> / 10 ^ p \<le> 1 / 2 / 10 ^ p" using rne_near [of "x * 10 ^ p"] by (intro divide_right_mono) simp_all
  moreover have "of_nat ?n / 10 ^ p - x = (of_nat ?n - x * 10 ^ p) / 10 ^ p" by (simp add: diff_divide_distrib)
  ultimately show "\<bar>of_nat ?n / 10 ^ p - x\<bar> \<le> 1 / 2 / 10 ^ p" by (simp add: abs_divide)
qed

end
