(* ===== verification/Order_Layout.thy ===== *)
theory Order_Layout
  imports Memory_Pool
begin

unbundle bit_operations_syntax

text \<open>
  The bytes of an order slot. \<open>MemoryPool\<close> reads and writes its free-list link with \<open>memcpy\<close> over
  the first bytes of a slot and poisons the rest with \<open>memset\<close>; \<open>Memory_Pool\<close> models these as
  updates of the fields of an \<open>Order\<close>. Here the slot is the 24 bytes the static assertions of
  \<open>Order.h\<close> demand, little endian with three bytes of padding at the end, and the byte operations
  are shown to be the field updates.
\<close>

section \<open>Integers in memory\<close>

definition store_u32 :: "u32 \<Rightarrow> u8 list" where
  "store_u32 w = [ucast w, ucast (drop_bit 8 w), ucast (drop_bit 16 w), ucast (drop_bit 24 w)]"

fun load_u32 :: "u8 list \<Rightarrow> u32" where
  "load_u32 (a # b # c # d # bs) = ucast a OR push_bit 8 (ucast b) OR push_bit 16 (ucast c) OR push_bit 24 (ucast d)"
| "load_u32 _ = 0"

text \<open>\<open>memcpy\<close> from \<open>src\<close> to the bytes at \<open>off\<close>, and \<open>memset\<close> of \<open>n\<close> bytes there.\<close>

definition memcpy_to :: "nat \<Rightarrow> u8 list \<Rightarrow> u8 list \<Rightarrow> u8 list" where
  "memcpy_to off src bs = take off bs @ src @ drop (off + length src) bs"

definition memset_at :: "nat \<Rightarrow> u8 \<Rightarrow> nat \<Rightarrow> u8 list \<Rightarrow> u8 list" where
  "memset_at off b n bs = memcpy_to off (replicate n b) bs"

section \<open>The slot\<close>

definition ORDER_BYTES :: nat where "ORDER_BYTES = 24"

text \<open>The members at the offsets of the standard-layout struct; \<open>pad\<close> are the bytes after \<open>side\<close>.\<close>

definition order_bytes :: "Order \<Rightarrow> u8 list \<Rightarrow> u8 list" where
  "order_bytes s pad = store_u32 (o_next s) @ store_u32 (o_prev s) @ store_u32 (o_id s) @ store_u32 (o_price s) @
     store_u32 (o_quantity s) @ [o_side s] @ pad"

definition order_of :: "u8 list \<Rightarrow> Order" where
  "order_of bs = \<lparr>o_next = load_u32 bs, o_prev = load_u32 (drop 4 bs), o_id = load_u32 (drop 8 bs),
     o_price = load_u32 (drop 12 bs), o_quantity = load_u32 (drop 16 bs), o_side = bs ! 20\<rparr>"

definition padding :: "u8 list \<Rightarrow> u8 list" where
  "padding bs = drop 21 bs"

definition overlay_link_bytes :: "u8 list \<Rightarrow> u32" where
  "overlay_link_bytes bs = load_u32 (take 4 bs)"

definition set_overlay_link_bytes :: "u8 list \<Rightarrow> u32 \<Rightarrow> u8 list" where
  "set_overlay_link_bytes bs link = memcpy_to 0 (store_u32 link) bs"

definition poison_payload_bytes :: "u8 \<Rightarrow> u8 list \<Rightarrow> u8 list" where
  "poison_payload_bytes pattern bs =
     (if ORDER_BYTES > 4 then memset_at 4 pattern (ORDER_BYTES - 4) bs else bs)"

text \<open>The canary loop over the bytes from 4 to the size of a slot.\<close>

fun canary_loop :: "nat \<Rightarrow> nat \<Rightarrow> u8 list \<Rightarrow> bool" where
  "canary_loop 0 i bs = True"
| "canary_loop (Suc n) i bs = (if bs ! i \<noteq> POISON_BYTE_FREED then False else canary_loop n (Suc i) bs)"

section \<open>Loads and stores\<close>

lemma store_u32_length [simp]: "length (store_u32 w) = 4"
  by (simp add: store_u32_def)

lemma load_store [simp]: "load_u32 (store_u32 w @ bs) = w"
proof (rule bit_word_eqI)
  fix n assume n: "n < LENGTH(32)"
  then consider "n < 8" | "8 \<le> n" "n < 16" | "16 \<le> n" "n < 24" | "24 \<le> n" "n < 32" by fastforce
  then show "bit (load_u32 (store_u32 w @ bs)) n = bit w n"
    using n by cases (auto simp: store_u32_def bit_simps)
qed

lemma store_load:
  assumes "length bs = 4"
  shows "store_u32 (load_u32 bs) = bs"
proof -
  obtain a b c d where bs: "bs = [a, b, c, d]" using assms by (auto simp: length_Suc_conv numeral_eq_Suc)
  have "ucast (load_u32 bs) = a" "ucast (drop_bit 8 (load_u32 bs)) = b" "ucast (drop_bit 16 (load_u32 bs)) = c"
    "ucast (drop_bit 24 (load_u32 bs)) = d"
    unfolding bs by (rule bit_word_eqI; auto simp: bit_simps dest: bit_imp_le_length)+
  then show ?thesis by (simp add: store_u32_def bs)
qed

lemma load_u32_take: "4 \<le> length bs \<Longrightarrow> load_u32 (take 4 bs) = load_u32 bs"
  by (cases bs rule: load_u32.cases) (simp_all add: numeral_eq_Suc)

lemma load_u32_const: "load_u32 (b # b # b # b # bs) = poison_u32 b"
proof -
  have "ucast b OR push_bit 8 (ucast b) OR push_bit 16 (ucast b) OR push_bit 24 (ucast b) = (ucast b * 0x01010101 :: u32)"
  proof -
    let ?b = "ucast b :: u32"
    have d: "x OR push_bit k ?b = x + push_bit k ?b" if "\<And>n. bit x n \<Longrightarrow> n < k" for x k
      by (rule disjunctive_add [symmetric]) (use that in \<open>auto simp: bit_simps dest: leD\<close>)
    have lt: "bit ?b n \<Longrightarrow> n < 8" for n by (auto simp: bit_simps dest: bit_imp_le_length)
    have "?b OR push_bit 8 ?b OR push_bit 16 ?b OR push_bit 24 ?b = ((?b OR push_bit 8 ?b) OR push_bit 16 ?b) OR push_bit 24 ?b"
      by (simp only: or.assoc)
    also have "\<dots> = ?b + push_bit 8 ?b + push_bit 16 ?b + push_bit 24 ?b"
      using lt by (subst d, auto simp: bit_simps dest: bit_imp_le_length)+
    finally show ?thesis by (simp add: push_bit_eq_mult)
  qed
  then show ?thesis by (simp add: poison_u32_def)
qed

section \<open>The byte operations are the field updates\<close>

lemma slot_split:
  fixes bs :: "u8 list"
  assumes "length bs = ORDER_BYTES"
  obtains a b c d e x p where "bs = a @ b @ c @ d @ e @ x # p" "length a = 4" "length b = 4" "length c = 4" "length d = 4" "length e = 4"
    "length p = 3"
proof -
  have four: "\<exists>a r. xs = a @ r \<and> length a = 4 \<and> length r = n" if "length xs = n + 4" for xs :: "u8 list" and n
    using that by (intro exI [of _ "take 4 xs"] exI [of _ "drop 4 xs"]) simp
  obtain a r where 1: "bs = a @ r" "length a = 4" "length r = 20" using four [of bs 20] assms by (auto simp: ORDER_BYTES_def)
  obtain b r1 where 2: "r = b @ r1" "length b = 4" "length r1 = 16" using four [of r 16] 1 by auto
  obtain c r2 where 3: "r1 = c @ r2" "length c = 4" "length r2 = 12" using four [of r1 12] 2 by auto
  obtain d r3 where 4: "r2 = d @ r3" "length d = 4" "length r3 = 8" using four [of r2 8] 3 by auto
  obtain e r4 where 5: "r3 = e @ r4" "length e = 4" "length r4 = 4" using four [of r3 4] 4 by auto
  obtain x p where "r4 = x # p" "length p = 3" using 5(3) by (cases r4) auto
  with 1 2 3 4 5 show thesis using that [of a b c d e x p] by simp
qed

lemma load_u32_append: "length a = 4 \<Longrightarrow> load_u32 (a @ r) = load_u32 a"
  using load_u32_take [of "a @ r"] by simp

lemma order_of_parts:
  assumes "length a = 4" "length b = 4" "length c = 4" "length d = 4" "length e = 4"
  shows "order_of (a @ b @ c @ d @ e @ x # p) = \<lparr>o_next = load_u32 a, o_prev = load_u32 b, o_id = load_u32 c,
     o_price = load_u32 d, o_quantity = load_u32 e, o_side = x\<rparr>" "padding (a @ b @ c @ d @ e @ x # p) = p"
  using assms by (simp_all add: order_of_def padding_def load_u32_append nth_append)

text \<open>A slot and its padding are the 24 bytes, and the other way round.\<close>

lemma order_bytes_roundtrip:
  assumes "length pad = 3"
  shows "length (order_bytes s pad) = ORDER_BYTES" "order_of (order_bytes s pad) = s" "padding (order_bytes s pad) = pad"
  using assms load_store [of _ "[]"] by (simp_all add: order_bytes_def order_of_parts ORDER_BYTES_def)

lemma order_of_roundtrip:
  assumes "length bs = ORDER_BYTES"
  shows "order_bytes (order_of bs) (padding bs) = bs"
  by (rule slot_split [OF assms]) (simp add: order_of_parts order_bytes_def store_load)

lemma overlay_bytes:
  assumes "length bs = ORDER_BYTES"
  shows "overlay_link_bytes bs = overlay_link (order_of bs)"
    "order_of (set_overlay_link_bytes bs l) = set_overlay_link (order_of bs) l"
    "padding (set_overlay_link_bytes bs l) = padding bs" "length (set_overlay_link_bytes bs l) = ORDER_BYTES"
proof -
  obtain a b c d e x p where bs: "bs = a @ b @ c @ d @ e @ x # p" and len: "length a = 4" "length b = 4" "length c = 4" "length d = 4"
    "length e = 4" "length p = 3" by (rule slot_split [OF assms])
  have s: "set_overlay_link_bytes bs l = store_u32 l @ b @ c @ d @ e @ x # p"
    using len by (simp add: set_overlay_link_bytes_def memcpy_to_def bs)
  show "overlay_link_bytes bs = overlay_link (order_of bs)" using len by (simp add: overlay_link_bytes_def bs order_of_parts)
  show "order_of (set_overlay_link_bytes bs l) = set_overlay_link (order_of bs) l"
    using len load_store [of l "[]"] unfolding s unfolding bs by (simp add: order_of_parts set_overlay_link_def)
  show "padding (set_overlay_link_bytes bs l) = padding bs" "length (set_overlay_link_bytes bs l) = ORDER_BYTES"
    using len unfolding s unfolding bs by (simp_all add: order_of_parts ORDER_BYTES_def)
qed

lemma poison_bytes:
  assumes "length bs = ORDER_BYTES"
  shows "order_of (poison_payload_bytes q bs) = poison_payload q (order_of bs)"
    "padding (poison_payload_bytes q bs) = replicate 3 q" "length (poison_payload_bytes q bs) = ORDER_BYTES"
proof -
  obtain a b c d e x p where bs: "bs = a @ b @ c @ d @ e @ x # p" and len: "length a = 4" "length b = 4" "length c = 4" "length d = 4"
    "length e = 4" "length p = 3" by (rule slot_split [OF assms])
  let ?q = "replicate 4 q"
  have "replicate 20 q = ?q @ ?q @ ?q @ ?q @ q # replicate 3 q" by (simp add: numeral_eq_Suc)
  then have s: "poison_payload_bytes q bs = a @ ?q @ ?q @ ?q @ ?q @ q # replicate 3 q"
    using len by (simp add: poison_payload_bytes_def memset_at_def memcpy_to_def bs ORDER_BYTES_def)
  have l: "load_u32 ?q = poison_u32 q" using load_u32_const [of q "[]"] by (simp add: numeral_eq_Suc)
  show "order_of (poison_payload_bytes q bs) = poison_payload q (order_of bs)"
    using len unfolding s unfolding bs by (simp add: order_of_parts poison_payload_def l)
  show "padding (poison_payload_bytes q bs) = replicate 3 q" "length (poison_payload_bytes q bs) = ORDER_BYTES"
    using len unfolding s by (simp_all add: order_of_parts ORDER_BYTES_def)
qed

lemma canary_loop_all: "canary_loop n i bs \<longleftrightarrow> (\<forall>k < n. bs ! (i + k) = POISON_BYTE_FREED)"
proof (induction n arbitrary: i)
  case (Suc n)
  show ?case unfolding canary_loop.simps Suc.IH by (auto simp: less_Suc_eq_0_disj)
qed simp

text \<open>The canary inspects the padding too: it holds when every field and every padding byte is poisoned.\<close>

lemma canary_bytes:
  assumes "length bs = ORDER_BYTES"
  shows "canary_loop (ORDER_BYTES - 4) 4 bs \<longleftrightarrow>
    poison_payload POISON_BYTE_FREED (order_of bs) = order_of bs \<and> padding bs = replicate 3 POISON_BYTE_FREED"
proof -
  let ?q = POISON_BYTE_FREED
  have "canary_loop (ORDER_BYTES - 4) 4 bs \<longleftrightarrow> drop 4 bs = replicate 20 ?q"
    using assms by (auto simp: canary_loop_all ORDER_BYTES_def list_eq_iff_nth_eq)
  also have "\<dots> \<longleftrightarrow> poison_payload_bytes ?q bs = bs"
  proof -
    have "poison_payload_bytes ?q bs = take 4 bs @ replicate 20 ?q"
      using assms by (simp add: poison_payload_bytes_def memset_at_def memcpy_to_def ORDER_BYTES_def)
    then show ?thesis by (metis append_take_drop_id same_append_eq)
  qed
  also have "\<dots> \<longleftrightarrow> order_of (poison_payload_bytes ?q bs) = order_of bs \<and> padding (poison_payload_bytes ?q bs) = padding bs"
    using order_of_roundtrip [OF assms] order_of_roundtrip [OF poison_bytes(3) [OF assms]] by metis
  finally show ?thesis by (auto simp: poison_bytes [OF assms])
qed

text \<open>
  C23: what the pool does to the bytes of a slot is what the model does to its fields. For any 24
  bytes: the \<open>memcpy\<close> of the first four bytes reads and writes exactly the member \<open>next\<close>; the \<open>memset\<close>
  behind them gives every other member its poison value and touches nothing else; the
  byte-by-byte canary accepts a slot exactly when all members and the padding are poisoned, and
  so accepts a slot that was poisoned and then linked into the free list.
\<close>

theorem slot_bytes_refine:
  assumes "length bs = ORDER_BYTES"
  shows "overlay_link_bytes bs = overlay_link (order_of bs) \<and>
    order_of (set_overlay_link_bytes bs l) = set_overlay_link (order_of bs) l \<and>
    order_of (poison_payload_bytes q bs) = poison_payload q (order_of bs) \<and>
    overlay_link_bytes (poison_payload_bytes q bs) = overlay_link_bytes bs \<and>
    (canary_loop (ORDER_BYTES - 4) 4 bs \<longleftrightarrow>
      poison_payload POISON_BYTE_FREED (order_of bs) = order_of bs \<and> padding bs = replicate 3 POISON_BYTE_FREED) \<and>
    canary_loop (ORDER_BYTES - 4) 4 (set_overlay_link_bytes (poison_payload_bytes POISON_BYTE_FREED bs) l)"
proof -
  note p = poison_bytes [OF assms] and o = overlay_bytes [OF assms]
  note po = overlay_bytes [OF poison_bytes(3) [OF assms]]
  have "canary_loop (ORDER_BYTES - 4) 4 (set_overlay_link_bytes (poison_payload_bytes POISON_BYTE_FREED bs) l)"
    unfolding canary_bytes [OF po(4)] by (simp add: po p poison_payload_def set_overlay_link_def)
  with p o po canary_bytes [OF assms] show ?thesis by simp
qed

theorem slot_bytes_refine_witness:
  "order_of (set_overlay_link_bytes (order_bytes Order_default [1, 2, 3]) 7) = Order_default\<lparr>o_next := 7\<rparr> \<and>
   overlay_link_bytes (set_overlay_link_bytes (order_bytes Order_default [1, 2, 3]) 7) = 7"
proof -
  let ?bs = "order_bytes Order_default [1, 2, 3]"
  have bs: "length ?bs = ORDER_BYTES" "order_of ?bs = Order_default" using order_bytes_roundtrip [of "[1, 2, 3]" Order_default] by simp_all
  have "overlay_link_bytes (set_overlay_link_bytes ?bs 7) = 7" using overlay_bytes(2,4) [OF bs(1), of 7] overlay_bytes(1) [of "set_overlay_link_bytes ?bs 7"] by simp
  with slot_bytes_refine [OF bs(1), of 7] show ?thesis by (simp add: bs(2) set_overlay_link_def)
qed

end
