(* ===== verification/Lifecycle.thy ===== *)
theory Lifecycle
  imports Book_Access Order_Layout
begin

text \<open>
  What construction and destruction do besides setting up the state: the page pre-touch of the
  pool and of the book's arrays, the fault-handler registries, and the leak report of the pool's
  destructor. The kernel calls of the pre-touch are parameters: they only report success.
\<close>

section \<open>Touching pages\<close>

definition kPageSize :: nat where "kPageSize = 4096"

text \<open>
  The read loop over a buffer at an address: the addresses read, in order, and the final value
  of \<open>sink\<close>. Memory is not written.
\<close>

function touch_loop :: "(nat \<Rightarrow> u8) \<Rightarrow> nat \<Rightarrow> nat \<Rightarrow> nat \<Rightarrow> u8 \<Rightarrow> nat list \<times> u8" where
  "touch_loop mem base bytes offset sink =
     (if offset < bytes then
        let (rs, s) = touch_loop mem base bytes (offset + kPageSize) (sink XOR mem (base + offset))
        in ((base + offset) # rs, s)
      else ([], sink))"
  by pat_completeness auto
termination
  by (relation "measure (\<lambda>(mem, base, bytes, offset, sink). bytes - offset)") (auto simp: kPageSize_def)

declare touch_loop.simps [simp del]

definition touch_fallback :: "(nat \<Rightarrow> u8) \<Rightarrow> nat \<Rightarrow> nat \<Rightarrow> nat list" where
  "touch_fallback mem base bytes = fst (touch_loop mem base bytes 0 0)"

definition touch_pages_fallback :: "(nat \<Rightarrow> u8) \<Rightarrow> nat \<Rightarrow> nat \<Rightarrow> nat list" where
  "touch_pages_fallback mem base bytes = fst (touch_loop mem base bytes 0 0)"

definition page_of :: "nat \<Rightarrow> nat" where
  "page_of a = a div kPageSize"

section \<open>The pre-touch of pool and book\<close>

text \<open>
  The three ways the sources are compiled; a kernel call takes an address and a length and
  tells whether it succeeded.
\<close>

datatype Platform = LinuxPopulate | Windows | OtherPlatform

definition kPriceLevelBytes :: nat where "kPriceLevelBytes = 32"

text \<open>The addresses read by the pool's constructor, for a slab at \<open>base\<close>.\<close>

definition pool_pretouch :: "Platform \<Rightarrow> (nat \<Rightarrow> nat \<Rightarrow> bool) \<Rightarrow> (nat \<Rightarrow> u8) \<Rightarrow> nat \<Rightarrow> MemoryPool \<Rightarrow> nat list" where
  "pool_pretouch plat advise mem base p =
     (let pool_bytes = capacity p * ORDER_BYTES in
      case plat of
        OtherPlatform \<Rightarrow> touch_pages_fallback mem base pool_bytes
      | _ \<Rightarrow> if pool_bytes > 0 \<and> \<not> advise base pool_bytes then touch_pages_fallback mem base pool_bytes else [])"

text \<open>The arrays of the book, with their sizes in bytes.\<close>

datatype Region = OrderMap | BidsLevels | AsksLevels | BidsBitset | AsksBitset | BidsSummary | AsksSummary

fun region_bytes :: "OrderBook \<Rightarrow> Region \<Rightarrow> nat" where
  "region_bytes b OrderMap = length (order_map b) * 4"
| "region_bytes b BidsLevels = length (bids_levels b) * kPriceLevelBytes"
| "region_bytes b AsksLevels = length (bids_levels b) * kPriceLevelBytes"
| "region_bytes b BidsBitset = length (bids_bitset b) * 8"
| "region_bytes b AsksBitset = length (bids_bitset b) * 8"
| "region_bytes b BidsSummary = length (bids_summary b) * 8"
| "region_bytes b AsksSummary = length (bids_summary b) * 8"

text \<open>
  The regions the constructor reads through \<open>touch_fallback\<close>. On Linux one failed
  \<open>madvise\<close> (the calls stop there) sends all of them to the fallback; on Windows each region
  that cannot be locked.
\<close>

definition book_pretouch :: "Platform \<Rightarrow> (nat \<Rightarrow> nat \<Rightarrow> bool) \<Rightarrow> (Region \<Rightarrow> nat) \<Rightarrow> OrderBook \<Rightarrow> Region list" where
  "book_pretouch plat advise base b =
     (case plat of
        LinuxPopulate \<Rightarrow>
          let all = [OrderMap, BidsLevels, AsksLevels, BidsBitset, AsksBitset, BidsSummary, AsksSummary]
          in if list_ex (\<lambda>r. \<not> advise (base r) (region_bytes b r)) all then all else []
      | Windows \<Rightarrow> filter (\<lambda>r. \<not> advise (base r) (region_bytes b r)) [OrderMap, BidsLevels, AsksLevels, BidsBitset, AsksBitset]
      | OtherPlatform \<Rightarrow> [OrderMap, BidsLevels, AsksLevels, BidsBitset, AsksBitset])"

section \<open>Registries\<close>

text \<open>Installing a handler returns the one before it.\<close>

definition set_pool_fault_handler :: "(string \<Rightarrow> nat \<Rightarrow> FaultAction) option \<Rightarrow> Env \<Rightarrow> (string \<Rightarrow> nat \<Rightarrow> FaultAction) option \<times> Env" where
  "set_pool_fault_handler h E = (pool_fault_handler E, E\<lparr>pool_fault_handler := h\<rparr>)"

definition set_book_fault_handler :: "(string \<Rightarrow> FaultAction) option \<Rightarrow> Env \<Rightarrow> (string \<Rightarrow> FaultAction) option \<times> Env" where
  "set_book_fault_handler h E = (book_fault_handler E, E\<lparr>book_fault_handler := h\<rparr>)"

section \<open>Facts\<close>

lemma touch_loop_set:
  "set (fst (touch_loop mem base bytes offset sink)) = {base + offset + k * kPageSize | k. offset + k * kPageSize < bytes}"
proof (induction mem base bytes offset sink rule: touch_loop.induct)
  case (1 mem base bytes offset sink)
  show ?case
  proof (cases "offset < bytes")
    case True
    have "set (fst (touch_loop mem base bytes offset sink)) =
        insert (base + offset) {base + (offset + kPageSize) + k * kPageSize | k. offset + kPageSize + k * kPageSize < bytes}"
      using 1 True by (subst touch_loop.simps) (simp add: case_prod_beta Let_def)
    also have "\<dots> = {base + offset + k * kPageSize | k. offset + k * kPageSize < bytes}"
    proof (intro equalityI subsetI)
      fix a assume "a \<in> insert (base + offset) {base + (offset + kPageSize) + k * kPageSize | k. offset + kPageSize + k * kPageSize < bytes}"
      then consider "a = base + offset" | k where "a = base + (offset + kPageSize) + k * kPageSize" "offset + kPageSize + k * kPageSize < bytes" by blast
      then show "a \<in> {base + offset + k * kPageSize | k. offset + k * kPageSize < bytes}"
      proof cases
        case 1
        then show ?thesis using True by (intro CollectI exI [of _ 0]) simp
      next
        case (2 k)
        then show ?thesis by (intro CollectI exI [of _ "Suc k"]) simp
      qed
    next
      fix a assume "a \<in> {base + offset + k * kPageSize | k. offset + k * kPageSize < bytes}"
      then obtain k where "a = base + offset + k * kPageSize" "offset + k * kPageSize < bytes" by blast
      then show "a \<in> insert (base + offset) {base + (offset + kPageSize) + k * kPageSize | k. offset + kPageSize + k * kPageSize < bytes}"
        by (cases k) auto
    qed
    finally show ?thesis .
  next
    case False
    then show ?thesis by (subst touch_loop.simps) auto
  qed
qed

lemma page_pos: "0 < kPageSize"
  by (simp add: kPageSize_def)

text \<open>The pages read are consecutive, from the first page of the buffer on.\<close>

lemma touched_pages:
  assumes "0 < bytes"
  shows "page_of ` set (touch_fallback mem base bytes) = {page_of base..page_of base + (bytes - 1) div kPageSize}"
proof -
  have lt: "k * kPageSize < bytes \<longleftrightarrow> k \<le> (bytes - 1) div kPageSize" for k
    using assms page_pos by (simp add: less_eq_div_iff_mult_less_eq) linarith
  have "page_of ` set (touch_fallback mem base bytes) = (\<lambda>k. page_of base + k) ` {k. k * kPageSize < bytes}"
  proof -
    have "set (touch_fallback mem base bytes) = (\<lambda>k. base + k * kPageSize) ` {k. k * kPageSize < bytes}"
      unfolding touch_fallback_def touch_loop_set by auto
    moreover have "page_of (base + k * kPageSize) = page_of base + k" for k using page_pos by (simp add: page_of_def)
    ultimately show ?thesis by (simp add: image_image)
  qed
  also have "\<dots> = (\<lambda>k. page_of base + k) ` {0..(bytes - 1) div kPageSize}"
    by (rule arg_cong [where f = "image _"]) (auto simp: lt)
  finally show ?thesis by (simp add: image_add_atLeastAtMost)
qed

lemma buffer_pages:
  assumes "0 < bytes"
  shows "page_of ` {base..<base + bytes} = {page_of base..page_of (base + (bytes - 1))}"
proof (intro equalityI subsetI)
  fix p assume "p \<in> page_of ` {base..<base + bytes}"
  then show "p \<in> {page_of base..page_of (base + (bytes - 1))}" using assms by (auto simp: page_of_def intro!: div_le_mono)
next
  fix p assume p: "p \<in> {page_of base..page_of (base + (bytes - 1))}"
  let ?a = "max base (p * kPageSize)"
  have "p * kPageSize \<le> base + (bytes - 1)" using p page_pos by (simp add: page_of_def less_eq_div_iff_mult_less_eq)
  then have "?a \<in> {base..<base + bytes}" using assms by auto
  moreover have "page_of ?a = p"
  proof (cases "base \<le> p * kPageSize")
    case True
    then show ?thesis using page_pos by (simp add: page_of_def max_def)
  next
    case False
    then have "p \<le> page_of base" using page_pos by (simp add: page_of_def less_eq_div_iff_mult_less_eq)
    then show ?thesis using p False by (simp add: max_def)
  qed
  ultimately show "p \<in> page_of ` {base..<base + bytes}" by (metis imageI)
qed

text \<open>
  C40: the page-touch loop reads only inside its buffer, and reaches every page the buffer lies on
  exactly when the buffer does not straddle one page more than its length needs. A buffer that
  starts on a page boundary is covered; one that does not may have its last page left out.
\<close>

theorem touch_fallback_pages:
  assumes "0 < bytes"
  shows "set (touch_fallback mem base bytes) \<subseteq> {base..<base + bytes} \<and>
    (page_of ` set (touch_fallback mem base bytes) = page_of ` {base..<base + bytes} \<longleftrightarrow>
      base mod kPageSize + (bytes - 1) mod kPageSize < kPageSize)"
proof
  show "set (touch_fallback mem base bytes) \<subseteq> {base..<base + bytes}"
    unfolding touch_fallback_def touch_loop_set by auto
  have "page_of (base + (bytes - 1)) = page_of base + (bytes - 1) div kPageSize + (base mod kPageSize + (bytes - 1) mod kPageSize) div kPageSize"
    unfolding page_of_def by (rule div_add1_eq)
  then have "page_of (base + (bytes - 1)) = page_of base + (bytes - 1) div kPageSize \<longleftrightarrow> base mod kPageSize + (bytes - 1) mod kPageSize < kPageSize"
    using div_eq_0_iff [of "base mod kPageSize + (bytes - 1) mod kPageSize" kPageSize] page_pos by linarith
  moreover have "page_of base \<le> page_of (base + (bytes - 1))" by (simp add: page_of_def div_le_mono)
  then have "{page_of base..page_of base + (bytes - 1) div kPageSize} = {page_of base..page_of (base + (bytes - 1))} \<longleftrightarrow>
      page_of (base + (bytes - 1)) = page_of base + (bytes - 1) div kPageSize"
    by (subst Icc_eq_Icc) auto
  ultimately show "page_of ` set (touch_fallback mem base bytes) = page_of ` {base..<base + bytes} \<longleftrightarrow>
      base mod kPageSize + (bytes - 1) mod kPageSize < kPageSize"
    unfolding touched_pages [OF assms] buffer_pages [OF assms] by blast
qed

theorem touch_fallback_pages_witness:
  "page_of ` set (touch_fallback (\<lambda>_. 0) 8192 12000) = page_of ` {8192..<8192 + 12000} \<and>
   page_of ` set (touch_fallback (\<lambda>_. 0) 8208 4096) \<noteq> page_of ` {8208..<8208 + 4096}"
  using touch_fallback_pages [of 12000 "\<lambda>_. 0" 8192] touch_fallback_pages [of 4096 "\<lambda>_. 0" 8208] by (simp add: kPageSize_def)

text \<open>
  On Linux every array of the book is either populated by the kernel or read page by page; the
  other builds leave out the two summary arrays.
\<close>

lemma book_pretouch_regions:
  "r \<in> set (book_pretouch LinuxPopulate advise base b) \<or> advise (base r) (region_bytes b r)"
  "BidsSummary \<notin> set (book_pretouch OtherPlatform advise base b)" "AsksSummary \<notin> set (book_pretouch OtherPlatform advise base b)"
  "BidsSummary \<notin> set (book_pretouch Windows advise base b)" "AsksSummary \<notin> set (book_pretouch Windows advise base b)"
  by (cases r) (auto simp: book_pretouch_def Let_def)

text \<open>Fetching a handler by the swap of \<open>pool_fault\<close> leaves the registry as it was.\<close>

lemma handler_refetch:
  "set_pool_fault_handler h E = (h0, E') \<Longrightarrow> snd (set_pool_fault_handler h0 E') = E \<and> h0 = pool_fault_handler E"
  "set_book_fault_handler g E = (g0, E') \<Longrightarrow> snd (set_book_fault_handler g0 E') = E \<and> g0 = book_fault_handler E"
  by (auto simp: set_pool_fault_handler_def set_book_fault_handler_def)

text \<open>The flag of the leak report, off at start; setting it overwrites it.\<close>

definition set_pool_leak_report :: "bool \<Rightarrow> bool \<Rightarrow> bool" where
  "set_pool_leak_report enable flag = enable"

text \<open>With the flag on, an instrumented book reports a leak exactly when orders are still resting.\<close>

lemma live_count_size:
  assumes "book_inv E b" "hft_debug_tools E"
  shows "unat (live_count (order_pool b)) = book_size (book_abs b)" "total_allocs (order_pool b) - total_frees (order_pool b) = live_count (order_pool b)"
proof -
  obtain q F where br: "book_rel E b q F" using assms(1) by (auto simp: book_inv_def)
  have pr: "pool_rel E (order_pool b) F" using book_relE(1) [OF br] by (auto simp: core_def)
  then have st: "stamps_ok (order_pool b) F" and cap: "capacity (order_pool b) < 2 ^ 64"
    using assms(2) by (auto simp: pool_rel_def kMaxPoolCapacity_def)
  have sz: "length F + book_size (book_abs b) = capacity (order_pool b)"
    using pool_accounts [OF assms(1)] free_list_depth_rel [OF pr] by simp
  have "live_count (order_pool b) = of_nat (capacity (order_pool b)) - of_nat (length F)" using st by (simp add: stamps_ok_def)
  then have "live_count (order_pool b) = of_nat (book_size (book_abs b))" unfolding sz [symmetric] by simp
  moreover have "unat (of_nat (book_size (book_abs b)) :: u64) = book_size (book_abs b)"
    using cap sz by (intro unat_of_nat_64) linarith
  ultimately show "unat (live_count (order_pool b)) = book_size (book_abs b)" by simp
  show "total_allocs (order_pool b) - total_frees (order_pool b) = live_count (order_pool b)" using st by (simp add: stamps_ok_def)
qed

lemma leak_report_iff:
  assumes "book_inv E b" "hft_debug_tools E"
  shows "leak_reported E True (order_pool b) \<longleftrightarrow> book_size (book_abs b) \<noteq> 0"
  using live_count_size(1) [OF assms, symmetric] assms(2) by (simp add: leak_reported_def unat_eq_0)

lemma leak_report_switched:
  "book_inv E b \<Longrightarrow> hft_debug_tools E \<Longrightarrow>
     leak_reported E (set_pool_leak_report on flag) (order_pool b) \<longleftrightarrow> on \<and> book_size (book_abs b) \<noteq> 0"
  using leak_report_iff [of E b] by (cases on) (simp_all add: set_pool_leak_report_def leak_reported_def)

end
