(* ===== verification/Diagnostics.thy ===== *)
theory Diagnostics
  imports Book_Audit Text_Format Lifecycle
begin

text \<open>
  What the engine writes to \<open>stderr\<close>: the diagnostics of the constructor's validation and of
  \<open>validate_book\<close> (\<open>src/src/OrderBook.cpp\<close>), and the leak report of \<open>~MemoryPool\<close>
  (\<open>src/src/MemoryPool.h\<close>). The text is printed exactly when the operation of the model fails, and it says why.
\<close>

section \<open>The report of the audit\<close>

text \<open>One call of the lambda \<open>fail\<close>: its arguments, the numbers as \<open>size_t\<close>, and its line.\<close>

type_synonym Report = "(string \<times> u64 \<times> u64) list"

fun audit_line :: "string \<times> u64 \<times> u64 \<Rightarrow> string" where
  "audit_line (what, a, b) = ''[HFT_VALIDATE] invariant violated: '' @ what @ '' ('' @ dec (unat a) @ '' vs '' @ dec (unat b) @ '')'' @ newline"

definition fail_unless :: "bool \<Rightarrow> string \<Rightarrow> u64 \<Rightarrow> u64 \<Rightarrow> Report \<Rightarrow> Report" where
  "fail_unless ok what a b fs = (if ok then fs else fs @ [(what, a, b)])"

fun report_queue ::
  "nat \<Rightarrow> Env \<Rightarrow> OrderBook \<Rightarrow> Side \<Rightarrow> PriceLevel \<Rightarrow> nat \<Rightarrow> u32 \<Rightarrow> u32 \<Rightarrow> u64 \<Rightarrow> u32 \<Rightarrow> Report
     \<Rightarrow> (u64 \<times> u32 \<times> Report) option" where
  "report_queue 0 E b side level bit_idx cur prv walked_qty walked_count fs = None"
| "report_queue (Suc fuel) E b side level bit_idx cur prv walked_qty walked_count fs =
     (if cur = INVALID_INDEX then Some (walked_qty, walked_count, fs)
      else if \<not> is_allocated E cur (order_pool b) then
        Some (walked_qty, walked_count, fs @ [(''level references a non-live pool slot'', of_nat bit_idx, ucast cur)])
      else do {
        ord \<leftarrow> vec_get (pool (order_pool b)) (unat cur);
        let fs = fail_unless (o_prev ord = prv) ''intrusive prev link broken at price index'' (of_nat bit_idx) (ucast cur) fs;
        let nxt = o_next ord;
        let fs = fail_unless (\<not> (\<not> is_allocated E nxt (order_pool b) \<and> nxt \<noteq> INVALID_INDEX))
          ''intrusive next link points to a non-live slot'' (of_nat bit_idx) (ucast nxt) fs;
        mapped \<leftarrow> vec_get (order_map b) (unat (o_id ord));
        let fs = fail_unless (mapped = cur) ''order_map does not back-resolve to the level's slot'' (ucast (o_id ord)) (ucast cur) fs;
        let fs = fail_unless (o_price ord = min_price b + of_nat bit_idx)
          ''order price does not match its level index'' (ucast (o_price ord)) (of_nat bit_idx) fs;
        let fs = fail_unless (o_side ord = side_u8 side)
          ''order side does not match its level side'' (of_nat bit_idx) (ucast (o_side ord)) fs;
        let fs = fail_unless (\<not> (nxt = INVALID_INDEX \<and> tail level \<noteq> cur))
          ''walk end does not match level.tail'' (ucast cur) (ucast (tail level)) fs;
        report_queue fuel E b side level bit_idx nxt cur
          (walked_qty + ucast (o_quantity ord)) (walked_count + 1) fs
      })"

definition report_level :: "Env \<Rightarrow> OrderBook \<Rightarrow> Side \<Rightarrow> nat \<Rightarrow> nat \<times> Report \<Rightarrow> (nat \<times> Report) option" where
  "report_level E b side bit_idx = (\<lambda>(resting_count, fs). do {
     level \<leftarrow> vec_get (levels side b) bit_idx;
     let fs = fail_unless (canary_intact level) ''level canary corrupted at price index'' (of_nat bit_idx) 0 fs;
     (walked_qty, walked_count, fs) \<leftarrow>
       report_queue (Suc (capacity (order_pool b))) E b side level bit_idx (head level) INVALID_INDEX 0 0 fs;
     head_ok \<leftarrow> head_prev_ok E b level;
     let fs = fail_unless head_ok ''head->prev is not INVALID_INDEX'' (ucast (head level)) 0 fs;
     let fs = fail_unless (total_quantity level = walked_qty) ''level.total_quantity != walked sum'' (total_quantity level) walked_qty fs;
     let fs = fail_unless (order_count level = walked_count)
       ''level.order_count != walked count'' (ucast (order_count level)) (ucast walked_count) fs;
     let resting_count = resting_count + unat walked_count;
     word \<leftarrow> vec_get (bitset_of side b) (bit_idx div kWordBits);
     let bit_set = (drop_bit (bit_idx mod kWordBits) word AND 1 \<noteq> 0);
     Some (resting_count, fail_unless (bit_set = (\<not> level_is_empty level))
       ''bitset bit does not match level emptiness'' (of_nat bit_idx) (of_bool bit_set) fs)
   })"

definition report_summary :: "OrderBook \<Rightarrow> Side \<Rightarrow> nat \<Rightarrow> Report \<Rightarrow> Report option" where
  "report_summary b side w fs = do {
     s \<leftarrow> vec_get (summary_of side b) (w div kWordBits);
     word \<leftarrow> vec_get (bitset_of side b) w;
     let sum_set = (drop_bit (w mod kWordBits) s AND 1 \<noteq> 0);
     Some (fail_unless (sum_set = (word \<noteq> 0)) ''summary bit does not match bitset word'' (of_nat w) (of_bool sum_set) fs)
   }"

definition report_side :: "Env \<Rightarrow> OrderBook \<Rightarrow> Side \<Rightarrow> nat \<times> Report \<Rightarrow> (nat \<times> Report) option" where
  "report_side E b side st = do {
     (resting_count, fs) \<leftarrow> for_each (report_level E b side) [0..<length (asks_levels b)] st;
     fs \<leftarrow> for_each (report_summary b side) [0..<length (bitset_of side b)] fs;
     Some (resting_count, fs)
   }"

definition report_map_entry :: "Env \<Rightarrow> OrderBook \<Rightarrow> nat \<Rightarrow> nat \<times> Report \<Rightarrow> (nat \<times> Report) option" where
  "report_map_entry E b i = (\<lambda>(map_count, fs). do {
     idx \<leftarrow> vec_get (order_map b) i;
     if idx = INVALID_INDEX then Some (map_count, fs)
     else do {
       let fs = fail_unless (is_allocated E idx (order_pool b)) ''order_map entry points to a non-live slot'' (of_nat i) (ucast idx) fs;
       ord \<leftarrow> vec_get (pool (order_pool b)) (unat idx);
       Some (map_count + 1, fail_unless (unat (o_id ord) = i) ''slot id does not match order_map key'' (ucast (o_id ord)) (of_nat i) fs)
     }
   })"

definition report_best_bid :: "OrderBook \<Rightarrow> Report \<Rightarrow> Report option" where
  "report_best_bid b fs =
     (if has_bids b then do {
        found \<leftarrow> highest_level (bids_levels b) (length (asks_levels b));
        Some (case found of
           Some i \<Rightarrow> fail_unless (unat (best_bid b) = unat (min_price b) + i \<and> best_bid_idx b = i)
             ''best_bid_ is not the true maximum'' (ucast (best_bid b)) (of_nat i) fs
         | None \<Rightarrow> fs @ [(''has_bids_ true but no bid level is non-empty'', 1, 0)])
      } else Some (fail_unless (best_bid_idx b < length (bids_levels b))
        ''empty-side best_bid_idx_ out of range'' (of_nat (best_bid_idx b)) (of_nat (length (bids_levels b))) fs))"

definition report_best_ask :: "OrderBook \<Rightarrow> Report \<Rightarrow> Report" where
  "report_best_ask b fs =
     (if has_asks b then
        (case lowest_level (asks_levels b) 0 of
           Some i \<Rightarrow> fail_unless (unat (best_ask b) = unat (min_price b) + i \<and> best_ask_idx b = i)
             ''best_ask_ is not the true minimum'' (ucast (best_ask b)) (of_nat i) fs
         | None \<Rightarrow> fs @ [(''has_asks_ true but no ask level is non-empty'', 1, 0)])
      else fail_unless (best_ask_idx b < length (asks_levels b))
        ''empty-side best_ask_idx_ out of range'' (of_nat (best_ask_idx b)) (of_nat (length (asks_levels b))) fs)"

definition report_counts :: "OrderBook \<Rightarrow> nat \<Rightarrow> nat \<Rightarrow> Report \<Rightarrow> Report" where
  "report_counts b map_count resting_count fs =
     (let st = stats (order_pool b);
          fs = fail_unless (active_count b = st_live_count st) ''active_count_ != pool live count'' (active_count b) (st_live_count st) fs;
          fs = fail_unless (of_nat map_count = st_live_count st)
            ''order_map live entries != pool live count'' (of_nat map_count) (st_live_count st) fs;
          fs = fail_unless (of_nat resting_count = st_live_count st)
            ''level-walked resting orders != pool live count'' (of_nat resting_count) (st_live_count st) fs
      in fail_unless (of_nat (st_free_list_depth st) = of_nat (st_capacity st) - st_live_count st)
        ''pool free-list depth != capacity - live (SIZE_MAX = cycle/wild link)'' (of_nat (st_free_list_depth st))
        (of_nat (st_capacity st) - st_live_count st) fs)"

text \<open>The failures \<open>validate_book\<close> reports, in order, and what it prints; \<open>None\<close> when it does not return normally.\<close>

definition audit_report :: "Env \<Rightarrow> OrderBook \<Rightarrow> Report option" where
  "audit_report E b = do {
     st \<leftarrow> report_side E b Buy (0, []);
     (resting_count, fs) \<leftarrow> report_side E b Sell st;
     (map_count, fs) \<leftarrow> for_each (report_map_entry E b) [1..<Suc (max_order_id b)] (0, fs);
     fs \<leftarrow> report_best_bid b fs;
     let fs = report_best_ask b fs;
     Some (report_counts b map_count resting_count fs)
   }"

definition audit_text :: "Env \<Rightarrow> OrderBook \<Rightarrow> string option" where
  "audit_text E b = map_option (\<lambda>fs. concat (map audit_line fs)) (audit_report E b)"

section \<open>The diagnostics of the constructor\<close>

text \<open>
  The line each failed validation of the constructor prints before it aborts, in the order of
  the checks. The figures in MB are computed in \<open>size_t\<close>; the id limit is not bounded where its figure is.
\<close>

definition kBytesPerMiB :: u64 where "kBytesPerMiB = 2 ^ 20"

definition order_map_mb :: "u64 \<Rightarrow> u64" where
  "order_map_mb max_id = (max_id * 4) div kBytesPerMiB"

definition level_mb :: "u64 \<Rightarrow> u64" where
  "level_mb price_range = (price_range * of_nat kPriceLevelBytes) div kBytesPerMiB"

definition OrderBook_fatal :: "u64 \<Rightarrow> Price \<Rightarrow> Price \<Rightarrow> string option" where
  "OrderBook_fatal max_id minp maxp =
     (if minp > maxp then
        Some (''OrderBook: fatal - min_price ('' @ dec (unat minp) @ '') > max_price ('' @ dec (unat maxp) @ '')'' @ newline)
      else if maxp = UINT32_MAX then
        Some (''OrderBook: fatal - max_price saturates the Price type (UINT32_MAX is reserved for the empty-ask sentinel)'' @ newline)
      else if max_id > of_nat kMaxOrderIds then
        Some (''OrderBook: fatal - max_order_id ('' @ dec (unat max_id) @
          '') exceeds the uint32 id-space cap (0xFFFF'FFFE); order_map would need ~'' @ dec (unat (order_map_mb max_id)) @ '' MB'' @ newline)
      else let price_range = ucast maxp - ucast minp + 1 :: u64 in
        if price_range > of_nat kMaxPriceRangeTicks then
          Some (''OrderBook: fatal - price range '' @ dec (unat price_range) @
            '' ticks exceeds the sanity cap (2^26); refusing to allocate ~'' @ dec (unat (level_mb price_range)) @ '' MB of levels'' @ newline)
        else None)"

datatype FatalCheck = ReversedPrices | SaturatedPrice | IdSpace | PriceRange

definition first_violation :: "nat \<Rightarrow> Price \<Rightarrow> Price \<Rightarrow> FatalCheck option" where
  "first_violation max_id minp maxp =
     (if minp > maxp then Some ReversedPrices else if maxp = 0xFFFFFFFF then Some SaturatedPrice
      else if max_id > 0xFFFFFFFE then Some IdSpace else if unat maxp - unat minp \<ge> 2 ^ 26 then Some PriceRange else None)"

section \<open>The leak report\<close>

definition leak_text :: "Env \<Rightarrow> bool \<Rightarrow> MemoryPool \<Rightarrow> string" where
  "leak_text E leak_report_flag p =
     (if leak_reported E leak_report_flag p then
        ''[HFT_POOL_LEAK] ~MemoryPool: '' @ dec (unat (live_count p)) @ '' slot(s) still live after '' @ dec (unat (total_allocs p)) @
        '' allocs / '' @ dec (unat (total_frees p)) @ '' frees (high-water mark '' @ dec (unat (high_water p)) @ '', capacity '' @
        dec (capacity p) @ '')'' @ newline
      else [])"

section \<open>The flag and the report\<close>

lemma fail_unless_Nil [simp]: "fail_unless ok what a b fs = [] \<longleftrightarrow> fs = [] \<and> ok"
  by (simp add: fail_unless_def)

lemma map_bind:
  "map_option h m = m' \<Longrightarrow> (\<And>x. map_option k (f x) = g (h x)) \<Longrightarrow> map_option k (m \<bind> f) = m' \<bind> g"
  by (cases m) auto

lemma for_each_map:
  assumes "\<And>x s. x \<in> set xs \<Longrightarrow> map_option h (f x s) = g x (h s)"
  shows "map_option h (for_each f xs s) = for_each g xs (h s)"
  using assms
proof (induction xs arbitrary: s)
  case (Cons x xs)
  from Cons.prems [of x s] have "g x (h s) = map_option h (f x s)" by simp
  then show ?case using Cons by (cases "f x s") simp_all
qed simp

abbreviation flag :: "'a \<times> Report \<Rightarrow> 'a \<times> bool" where
  "flag \<equiv> map_prod id (\<lambda>fs. fs = [])"

lemma report_queue_flag:
  "map_option (\<lambda>(q, c, fs). (q, c, fs = [])) (report_queue fuel E b s l i cur prv q c fs) =
     walk_queue fuel E b s l i cur prv q c (fs = [])"
proof (induction fuel arbitrary: cur prv q c fs)
  case (Suc fuel)
  show ?case
    by (cases "vec_get (pool (order_pool b)) (unat cur)"; cases "vec_get (order_map b) (unat (o_id (the (vec_get (pool (order_pool b)) (unat cur)))))")
      (simp_all add: Let_def Suc.IH)
qed simp

lemma report_level_flag: "map_option flag (report_level E b s i st) = validate_level E b s i (flag st)"
proof (cases st)
  case (Pair rc fs)
  show ?thesis
  proof (cases "vec_get (levels s b) i")
    case (Some l)
    note w = report_queue_flag [of "Suc (capacity (order_pool b))" E b s l i "head l" INVALID_INDEX 0 0
        "fail_unless (canary_intact l) ''level canary corrupted at price index'' (of_nat i) 0 fs", symmetric, unfolded fail_unless_Nil]
    show ?thesis
      unfolding Pair report_level_def validate_level_def
      by (simp add: Some Let_def w split: Option.bind_splits option.splits prod.splits del: report_queue.simps walk_queue.simps)
  qed (simp add: Pair report_level_def validate_level_def)
qed

lemma report_summary_flag: "map_option (\<lambda>fs. fs = []) (report_summary b s w fs) = validate_summary b s w (fs = [])"
  by (auto simp: report_summary_def validate_summary_def Let_def split: Option.bind_splits)

lemma report_side_flag: "map_option flag (report_side E b s st) = validate_side E b s (flag st)"
  unfolding report_side_def validate_side_def
proof (rule map_bind)
  show "map_option flag (for_each (report_level E b s) xs st) = for_each (validate_level E b s) xs (flag st)" for xs
    by (rule for_each_map) (rule report_level_flag)
  have "map_option (\<lambda>fs. fs = []) (for_each (report_summary b s) ws fs) = for_each (validate_summary b s) ws (fs = [])" for ws fs
    by (rule for_each_map) (rule report_summary_flag)
  then show "map_option flag (case st of (rc, fs) \<Rightarrow> for_each (report_summary b s) ws fs \<bind> (\<lambda>fs. Some (rc, fs))) =
    (case flag st of (rc, ok) \<Rightarrow> for_each (validate_summary b s) ws ok \<bind> (\<lambda>ok. Some (rc, ok)))" for st ws
    by (cases st) (auto intro!: map_bind)
qed

lemma report_map_entry_flag: "map_option flag (report_map_entry E b i st) = validate_map_entry E b i (flag st)"
  by (cases st) (auto simp: report_map_entry_def validate_map_entry_def Let_def split: Option.bind_splits)

lemma report_best_flag:
  "map_option (\<lambda>fs. fs = []) (report_best_bid b fs) = map_option (\<lambda>ok. fs = [] \<and> ok) (validate_best_bid b)"
  "report_best_ask b fs = [] \<longleftrightarrow> fs = [] \<and> validate_best_ask b"
  "report_counts b m r fs = [] \<longleftrightarrow> fs = [] \<and> validate_counts b m r"
  by (auto simp: report_best_bid_def validate_best_bid_def report_best_ask_def validate_best_ask_def
      report_counts_def validate_counts_def Let_def split: Option.bind_splits option.splits)

lemma report_end_flag:
  "map_option (\<lambda>fs. fs = []) (report_best_bid b fs \<bind> (\<lambda>fs. Some (report_counts b m r (report_best_ask b fs)))) =
   validate_best_bid b \<bind> (\<lambda>ok. Some (fs = [] \<and> ok \<and> validate_best_ask b \<and> validate_counts b m r))"
  using report_best_flag(1) [of b fs] by (cases "report_best_bid b fs"; cases "validate_best_bid b") (auto simp: report_best_flag(2,3))

text \<open>The audit answers true exactly when it reports nothing.\<close>

lemma audit_report_flag: "map_option (\<lambda>fs. fs = []) (audit_report E b) = validate_book E b"
  unfolding audit_report_def validate_book_def Let_def
proof (rule map_bind)
  show "map_option flag (report_side E b Buy (0, [])) = validate_side E b Buy (0, True)"
    using report_side_flag [of E b Buy "(0, [])"] by simp
next
  fix st :: "nat \<times> Report"
  have m: "map_option flag (for_each (report_map_entry E b) xs st) = for_each (validate_map_entry E b) xs (flag st)" for xs st
    by (rule for_each_map) (rule report_map_entry_flag)
  have "map_option (\<lambda>fs. fs = [])
      (for_each (report_map_entry E b) xs (0, fs) \<bind> (\<lambda>(m, fs). report_best_bid b fs \<bind> (\<lambda>fs. Some (report_counts b m r (report_best_ask b fs))))) =
    for_each (validate_map_entry E b) xs (0, fs = []) \<bind>
      (\<lambda>(m, ok). validate_best_bid b \<bind> (\<lambda>bid_ok. Some (ok \<and> bid_ok \<and> validate_best_ask b \<and> validate_counts b m r)))" for xs r fs
    by (rule map_bind [where h = flag]) (use m [of xs "(0, fs)"] in \<open>auto simp: report_end_flag\<close>)
  then show "map_option (\<lambda>fs. fs = []) (report_side E b Sell st \<bind> (\<lambda>(r, fs). for_each (report_map_entry E b) xs (0, fs) \<bind>
      (\<lambda>(m, fs). report_best_bid b fs \<bind> (\<lambda>fs. Some (report_counts b m r (report_best_ask b fs)))))) =
    validate_side E b Sell (flag st) \<bind> (\<lambda>(r, ok). for_each (validate_map_entry E b) xs (0, ok) \<bind>
      (\<lambda>(m, ok). validate_best_bid b \<bind> (\<lambda>bid_ok. Some (ok \<and> bid_ok \<and> validate_best_ask b \<and> validate_counts b m r))))" for xs
    by (intro map_bind [where h = flag] report_side_flag) auto
qed

section \<open>Damaged canaries\<close>

text \<open>A book whose level canaries were overwritten with \<open>c\<close>, by a stray write for instance.\<close>

definition damage :: "(nat \<Rightarrow> u32) \<Rightarrow> PriceLevel list \<Rightarrow> PriceLevel list" where
  "damage c ls = map (\<lambda>i. (ls ! i)\<lparr>debug_canary := c i\<rparr>) [0..<length ls]"

definition damaged :: "(Side \<Rightarrow> nat \<Rightarrow> u32) \<Rightarrow> OrderBook \<Rightarrow> OrderBook" where
  "damaged c b = b\<lparr>bids_levels := damage (c Buy) (bids_levels b), asks_levels := damage (c Sell) (asks_levels b)\<rparr>"

definition canary_reports :: "(nat \<Rightarrow> u32) \<Rightarrow> nat list \<Rightarrow> Report" where
  "canary_reports c is = map (\<lambda>i. (''level canary corrupted at price index'', of_nat i, 0)) (filter (\<lambda>i. c i \<noteq> PRICE_LEVEL_CANARY) is)"

lemma canary_reports_simps [simp]:
  "canary_reports c [] = []"
  "canary_reports c (i # is) = fail_unless (c i = PRICE_LEVEL_CANARY) ''level canary corrupted at price index'' (of_nat i) 0 [] @ canary_reports c is"
  by (simp_all add: canary_reports_def fail_unless_def)

lemma damaged_simps [simp]:
  "order_pool (damaged c b) = order_pool b" "order_map (damaged c b) = order_map b" "min_price (damaged c b) = min_price b"
  "max_order_id (damaged c b) = max_order_id b" "active_count (damaged c b) = active_count b"
  "bitset_of s (damaged c b) = bitset_of s b" "summary_of s (damaged c b) = summary_of s b"
  "has_bids (damaged c b) = has_bids b" "has_asks (damaged c b) = has_asks b"
  "best_bid (damaged c b) = best_bid b" "best_ask (damaged c b) = best_ask b"
  "best_bid_idx (damaged c b) = best_bid_idx b" "best_ask_idx (damaged c b) = best_ask_idx b"
  "levels s (damaged c b) = damage (c s) (levels s b)" "bids_levels (damaged c b) = damage (c Buy) (bids_levels b)"
  "asks_levels (damaged c b) = damage (c Sell) (asks_levels b)" "length (damage d ls) = length ls"
  by (cases s; simp add: damaged_def damage_def)+

lemma damage_get: "vec_get (damage d ls) i = map_option (\<lambda>l. l\<lparr>debug_canary := d i\<rparr>) (vec_get ls i)"
  by (simp add: vec_get_def damage_def)

lemma damage_empty: "i < length ls \<Longrightarrow> level_is_empty (damage d ls ! i) = level_is_empty (ls ! i)"
  by (simp add: damage_def level_is_empty_def)

lemma damage_scans: "highest_level (damage d ls) n = highest_level ls n" "lowest_level (damage d ls) i = lowest_level ls i"
proof -
  show "highest_level (damage d ls) n = highest_level ls n"
    by (induction n) (auto simp: damage_get level_is_empty_def split: Option.bind_splits)
  show "lowest_level (damage d ls) i = lowest_level ls i"
    by (induction ls i rule: lowest_level.induct)
      (subst (1 2) lowest_level.simps, simp add: damage_empty)
qed

lemma fail_unless_append: "fail_unless ok w x y (gs @ fs) = gs @ fail_unless ok w x y fs"
  by (simp add: fail_unless_def)

lemma report_queue_append:
  "report_queue fuel E b s l i cur prv q c (gs @ fs) =
   map_option (\<lambda>(q, c, fs). (q, c, gs @ fs)) (report_queue fuel E b s l i cur prv q c fs)"
proof (induction fuel arbitrary: cur prv q c fs)
  case (Suc fuel)
  show ?case by (auto simp: Let_def fail_unless_append Suc.IH split: Option.bind_splits)
qed simp

lemma report_queue_damaged:
  "report_queue fuel E (damaged d b) s (l\<lparr>debug_canary := x\<rparr>) i cur prv q c fs = report_queue fuel E b s l i cur prv q c fs"
  by (induction fuel arbitrary: cur prv q c fs) simp_all

lemma report_queue_clean:
  assumes "walk_queue fuel E b s l i cur prv q c True = Some (q', c', True)"
  shows "report_queue fuel E b s l i cur prv q c fs = Some (q', c', fs)"
proof -
  have "report_queue fuel E b s l i cur prv q c [] = Some (q', c', [])"
    using report_queue_flag [of fuel E b s l i cur prv q c "[]"] assms by auto
  then show ?thesis using report_queue_append [of fuel E b s l i cur prv q c fs "[]"] by simp
qed

lemma validate_level_true:
  assumes "validate_level E b s i (rc, True) = Some (rc', True)"
  obtains l q c w where "vec_get (levels s b) i = Some l"
    "walk_queue (Suc (capacity (order_pool b))) E b s l i (head l) INVALID_INDEX 0 0 True = Some (q, c, True)"
    "head_prev_ok E b l = Some True" "total_quantity l = q" "order_count l = c" "rc' = rc + unat c"
    "vec_get (bitset_of s b) (i div kWordBits) = Some w" "(drop_bit (i mod kWordBits) w AND 1 \<noteq> 0) = (\<not> level_is_empty l)"
proof -
  obtain l q c ok ho w where *: "vec_get (levels s b) i = Some l"
    "walk_queue (Suc (capacity (order_pool b))) E b s l i (head l) INVALID_INDEX 0 0 (canary_intact l) = Some (q, c, ok)"
    "head_prev_ok E b l = Some ho" "vec_get (bitset_of s b) (i div kWordBits) = Some w" "rc' = rc + unat c"
    "ok" "ho" "total_quantity l = q" "order_count l = c" "(drop_bit (i mod kWordBits) w AND 1 \<noteq> 0) = (\<not> level_is_empty l)"
    using assms by (auto simp: validate_level_def Let_def bind_eq_Some_conv simp del: walk_queue.simps)
  have "walk_queue (Suc (capacity (order_pool b))) E b s l i (head l) INVALID_INDEX 0 0 (canary_intact l) = Some (q, c, True)"
    using *(2,6) by (simp only: eqTrueI)
  then have "canary_intact l" using walk_queue_sound by blast
  with * show thesis using that by simp
qed

lemma report_level_damaged:
  assumes "validate_level E b s i (rc, True) = Some (rc', True)"
  shows "report_level E (damaged d b) s i (rc, fs) = Some (rc', fs @ canary_reports (d s) [i])"
proof -
  obtain l q c w where l: "vec_get (levels s b) i = Some l"
    "walk_queue (Suc (capacity (order_pool b))) E b s l i (head l) INVALID_INDEX 0 0 True = Some (q, c, True)"
    "head_prev_ok E b l = Some True" "total_quantity l = q" "order_count l = c" "rc' = rc + unat c"
    "vec_get (bitset_of s b) (i div kWordBits) = Some w" "(drop_bit (i mod kWordBits) w AND 1 \<noteq> 0) = (\<not> level_is_empty l)"
    using assms by (rule validate_level_true)
  have "head_prev_ok E (damaged d b) (l\<lparr>debug_canary := d s i\<rparr>) = head_prev_ok E b l" by (simp add: head_prev_ok_def)
  moreover have "level_is_empty (l\<lparr>debug_canary := d s i\<rparr>) = level_is_empty l" by (simp add: level_is_empty_def)
  ultimately show ?thesis using l
    by (simp add: report_level_def Let_def damage_get report_queue_damaged report_queue_clean canary_intact_def fail_unless_def
        del: report_queue.simps walk_queue.simps)
qed

text \<open>A loop that reports nothing, behind what was reported before.\<close>

lemma for_each_clean:
  assumes "\<And>x s. map_option h (f x s) = g x (h s)" "\<And>x s. map_option k (f x s) = f x (k s)"
    and "for_each g xs (h s) = Some t" "\<And>s'. h s' = t \<Longrightarrow> s' = s0"
  shows "for_each f xs (k s) = Some (k s0)"
proof -
  have "map_option h (for_each f xs s) = Some t" using for_each_map [of xs h f g s] assms(1,3) by simp
  then have "for_each f xs s = Some s0" using assms(4) by auto
  then show ?thesis using for_each_map [of xs k f f s] assms(2) by simp
qed

lemma report_summary_append: "map_option ((@) gs) (report_summary b s w fs) = report_summary b s w (gs @ fs)"
  by (auto simp: report_summary_def Let_def fail_unless_append split: Option.bind_splits)

lemma report_map_entry_append:
  "map_option (map_prod id ((@) gs)) (report_map_entry E b i st) = report_map_entry E b i (map_prod id ((@) gs) st)"
  by (cases st) (auto simp: report_map_entry_def Let_def fail_unless_append split: Option.bind_splits)

lemma report_side_damaged:
  assumes "hft_debug_tools E" "book_rel E b q F"
  shows "report_side E (damaged d b) s (rc, fs) =
    Some (rc + length (concat (q s)), fs @ canary_reports (d s) [0..<length (asks_levels b)])"
proof -
  have len: "length (asks_levels b) = range_of b"
    using core_levels [OF book_relE(1) [OF assms(2)], of Sell] by (simp add: range_of_def)
  have v: "validate_level E b s i (rc, True) = Some (rc + length (q s ! i), True)" if "i < range_of b" for i rc
    by (rule validate_level_complete [OF assms that])
  have levels: "for_each (report_level E (damaged d b) s) is (rc, fs) = Some (rc + (\<Sum>i\<leftarrow>is. length (q s ! i)), fs @ canary_reports (d s) is)"
    if "\<forall>i \<in> set is. i < range_of b" for "is" rc fs
    using that by (induction "is" arbitrary: rc fs) (simp_all add: report_level_damaged [OF v] add.assoc)
  obtain rc' ok where f: "for_each (validate_level E b s) [0..<range_of b] (rc, True) = Some (rc', ok)"
    "for_each (validate_summary b s) [0..<length (bitset_of s b)] ok = Some True" "rc' = rc + length (concat (q s))"
    using validate_side_complete [OF assms, of s rc True] by (auto simp: validate_side_def bind_eq_Some_conv len)
  moreover have "for_each (validate_level E b s) [0..<range_of b] (rc, True) = Some (rc + (\<Sum>i\<leftarrow>[0..<range_of b]. length (q s ! i)), True)"
    by (rule for_each_count) (simp add: v)
  ultimately have *: "(\<Sum>i\<leftarrow>[0..<range_of b]. length (q s ! i)) = length (concat (q s))"
    "for_each (validate_summary b s) [0..<length (bitset_of s b)] True = Some True" by auto
  have "report_summary (damaged d b) s = report_summary b s" by (intro ext) (simp add: report_summary_def)
  moreover have "for_each (report_summary b s) [0..<length (bitset_of s b)] (gs @ []) = Some (gs @ [])" for gs
    by (rule for_each_clean [where h = "\<lambda>fs. fs = []" and g = "validate_summary b s" and t = True])
      (simp_all add: report_summary_flag report_summary_append *(2))
  ultimately have "for_each (report_summary (damaged d b) s) [0..<length (bitset_of s b)] gs = Some gs" for gs by simp
  with levels [of "[0..<range_of b]" rc fs] *(1) show ?thesis by (simp add: report_side_def len)
qed

lemma report_best_append:
  "report_best_bid b (gs @ fs) = map_option ((@) gs) (report_best_bid b fs)"
  "report_best_ask b (gs @ fs) = gs @ report_best_ask b fs"
  "report_counts b m r (gs @ fs) = gs @ report_counts b m r fs"
  by (auto simp: report_best_bid_def report_best_ask_def report_counts_def Let_def fail_unless_append
      split: Option.bind_splits option.splits)

lemma report_damaged:
  "report_map_entry E (damaged d b) = report_map_entry E b" "report_best_bid (damaged d b) = report_best_bid b"
  "report_best_ask (damaged d b) = report_best_ask b" "report_counts (damaged d b) = report_counts b"
  by (intro ext; simp only: report_map_entry_def report_best_bid_def report_best_ask_def report_counts_def damaged_simps damage_scans)+

lemma audit_damaged:
  assumes "hft_debug_tools E" "book_rel E b q F"
  shows "audit_report E (damaged d b) =
    Some (canary_reports (d Buy) [0..<length (asks_levels b)] @ canary_reports (d Sell) [0..<length (asks_levels b)])"
proof -
  let ?gs = "canary_reports (d Buy) [0..<length (asks_levels b)] @ canary_reports (d Sell) [0..<length (asks_levels b)]"
  let ?n = "length (live q)" and ?r = "length (concat (q Buy)) + length (concat (q Sell))"
  note c = book_relE(1) [OF assms(2)]
  have "for_each (report_map_entry E b) [1..<Suc (max_order_id b)] (map_prod id ((@) ?gs) (0, [])) = Some (map_prod id ((@) ?gs) (?n, []))"
    by (rule for_each_clean [where h = flag and g = "validate_map_entry E b" and t = "(?n, True)" and k = "map_prod id ((@) ?gs)"])
      (use validate_map_complete [OF assms(1) c, of True] in
        \<open>simp_all add: report_map_entry_flag report_map_entry_append prod_eq_iff del: upt_Suc\<close>)
  moreover have "report_best_bid b [] = Some []"
    using report_best_flag(1) [of b "[]"] validate_best_complete(1) [OF assms(2)] by simp
  then have "report_best_bid b ?gs = Some ?gs" using report_best_append(1) [of b ?gs "[]"] by simp
  moreover have "report_best_ask b ?gs = ?gs"
    using report_best_append(2) [of b ?gs "[]"] report_best_flag(2) [of b "[]"] validate_best_complete(2) [OF assms(2)] by simp
  moreover have "validate_counts b ?n ?r"
    using validate_book_complete [OF assms] validate_side_complete [OF assms, of Buy 0 True] validate_side_complete [OF assms, of Sell _ True]
      validate_map_complete [OF assms(1) c, of True] validate_best_complete [OF assms(2)]
    by (simp add: validate_book_def del: upt_Suc)
  then have "report_counts b ?n ?r ?gs = ?gs" using report_best_append(3) [of b ?n ?r ?gs "[]"] report_best_flag(3) [of b ?n ?r "[]"] by simp
  ultimately show ?thesis
    by (simp add: audit_report_def report_side_damaged [OF assms] report_damaged del: upt_Suc)
qed

text \<open>A pool destroyed with the book says how many orders were still resting, and nothing when there are none.\<close>

lemma leak_text_correct:
  assumes "book_inv E b" "hft_debug_tools E"
  shows "leak_text E on (order_pool b) = [] \<longleftrightarrow> \<not> on \<or> book_size (book_abs b) = 0"
    "leak_text E on (order_pool b) \<noteq> [] \<Longrightarrow>
      \<exists>rest. leak_text E on (order_pool b) = ''[HFT_POOL_LEAK] ~MemoryPool: '' @ dec (book_size (book_abs b)) @ '' slot(s) still live after '' @ rest"
  using leak_report_iff [OF assms] live_count_size(1) [OF assms] by (cases on; auto simp: leak_text_def leak_reported_def)+

section \<open>An entry out of range\<close>

lemma for_each_stuck: "x \<in> set xs \<Longrightarrow> (\<And>s. f x s = None) \<Longrightarrow> for_each f xs s = None"
proof (induction xs arbitrary: s)
  case (Cons y xs)
  then show ?case by (cases "f y s") auto
qed simp

text \<open>
  The audit reports an order-map entry that is no live slot and then reads the slot all the same: for an
  entry beyond the pool it reads outside the pool's storage.
\<close>

lemma audit_wild_slot:
  assumes "0 < i" "i \<le> max_order_id b" "vec_get (order_map b) i = Some x" "x \<noteq> INVALID_INDEX" "length (pool (order_pool b)) \<le> unat x"
  shows "validate_book E b = None"
proof -
  have "validate_map_entry E b i st = None" for st
    using assms(3-5) by (cases st) (simp add: validate_map_entry_def vec_get_def)
  then have "for_each (validate_map_entry E b) [1..<Suc (max_order_id b)] st = None" for st
    using assms(1,2) by (intro for_each_stuck [of i]) auto
  then show ?thesis by (simp add: validate_book_def split: Option.bind_splits prod.splits del: upt_Suc)
qed

section \<open>The constructor\<close>

lemma price_range_word:
  assumes "minp \<le> (maxp :: Price)"
  shows "unat (ucast maxp - ucast minp + 1 :: u64) = unat maxp - unat minp + 1"
proof -
  have "unat (ucast maxp - ucast minp :: u64) = unat maxp - unat minp"
    using assms by (subst unat_sub) (simp_all add: word_le_nat_alt)
  moreover have "unat maxp - unat minp + 1 < 2 ^ 64" using unat_max_less [of maxp] by simp
  ultimately show ?thesis by (simp add: unat_plus_if')
qed

lemma fatal_iff: "OrderBook_fatal max_id minp maxp = None \<longleftrightarrow> first_violation (unat max_id) minp maxp = None"
  using price_range_word [of minp maxp]
  by (cases "minp \<le> maxp") (auto simp: not_le OrderBook_fatal_def first_violation_def Let_def UINT32_MAX_def kMaxOrderIds_def kMaxPriceRangeTicks_def word_less_nat_alt)

lemma order_map_mb_exact:
  assumes "unat max_id < 2 ^ 62"
  shows "unat (order_map_mb max_id) = 4 * unat max_id div 2 ^ 20"
proof -
  have "unat (max_id * 4) = unat max_id * unat (4 :: u64)" by (rule iffD1 [OF unat_mult_lem]) (use assms in simp)
  then show ?thesis by (simp add: order_map_mb_def kBytesPerMiB_def unat_div mult.commute)
qed

lemma audit_text_flag: "validate_book E b = map_option (\<lambda>text. text = []) (audit_text E b)"
proof -
  have "concat (map audit_line fs) = [] \<longleftrightarrow> fs = []" for fs by (cases fs rule: list.exhaust) auto
  then show ?thesis by (simp add: audit_text_def audit_report_flag [symmetric] option.map_comp comp_def)
qed

lemma fatal_message:
  "OrderBook_fatal max_id minp maxp = Some msg \<Longrightarrow> \<exists>rest. msg = (case the (first_violation (unat max_id) minp maxp) of
     ReversedPrices \<Rightarrow> ''OrderBook: fatal - min_price '' | SaturatedPrice \<Rightarrow> ''OrderBook: fatal - max_price ''
   | IdSpace \<Rightarrow> ''OrderBook: fatal - max_order_id '' | PriceRange \<Rightarrow> ''OrderBook: fatal - price '') @ rest"
  using price_range_word [of minp maxp]
  by (cases "minp \<le> maxp") (auto simp: not_le OrderBook_fatal_def first_violation_def Let_def UINT32_MAX_def kMaxOrderIds_def
      kMaxPriceRangeTicks_def word_less_nat_alt split: if_splits)

section \<open>Properties\<close>

text \<open>
  C9: the audit says what it finds. On any book, \<open>validate_book\<close> answers true exactly when it returns and has
  printed nothing; and on a reachable book whose level canaries were overwritten it returns and prints one line for
  each damaged level, bids before asks and in the order of the prices, and no other line.
\<close>

theorem audit_diagnostics:
  assumes "hft_debug_tools E" "reachable True b"
  shows "(\<forall>b. validate_book E b = map_option (\<lambda>text. text = []) (audit_text E b)) \<and>
    audit_text E (damaged d b) = Some (concat (map audit_line
      (canary_reports (d Buy) [0..<length (asks_levels b)] @ canary_reports (d Sell) [0..<length (asks_levels b)])))"
proof -
  obtain q F where "book_rel E b q F"
    using reachable_inv(1) [OF assms(2), of E] assms(1) by (auto simp: book_inv_def)
  from audit_damaged [OF assms(1) this] show ?thesis using audit_text_flag by (simp add: audit_text_def)
qed

theorem audit_diagnostics_witness:
  "audit_text E_audit (damaged (\<lambda>s i. if s = Buy \<and> i = 30 then 7 else PRICE_LEVEL_CANARY) (sample_book E_audit)) =
     Some (''[HFT_VALIDATE] invariant violated: level canary corrupted at price index (30 vs 0)'' @ newline)"
proof -
  have len: "length (asks_levels (sample_book E_audit)) = 1000"
    by (simp add: sample_book_def OrderBook_new_def UINT32_MAX_def kMaxOrderIds_def kMaxPriceRangeTicks_def Let_def)
  have f: "filter (\<lambda>i. i = k) [0..<n] = (if k < n then [k] else [])" for k n :: nat by (induction n) auto
  have c: "canary_reports (\<lambda>i. if i = 30 then 7 else PRICE_LEVEL_CANARY) [0..<1000] = [(''level canary corrupted at price index'', 30, 0)]"
    "canary_reports (\<lambda>i. PRICE_LEVEL_CANARY) [0..<1000] = []"
    by (simp_all add: canary_reports_def f PRICE_LEVEL_CANARY_def if_distrib [of "\<lambda>x. x \<noteq> _"] cong: if_cong)
  show ?thesis
    using conjunct2 [OF audit_diagnostics [of E_audit "sample_book E_audit" "\<lambda>s i. if s = Buy \<and> i = 30 then 7 else PRICE_LEVEL_CANARY"]]
      sample_reachable(1) [of E_audit]
    by (simp add: len c dec.simps digit_char_def char_of_def bit_iff_odd)
qed

text \<open>
  C25: the constructor builds a book exactly when it prints no diagnostic, that is when the prices are in order and
  below the reserved one, the id limit is addressable and the range is within the cap. Two diagnostics that are
  the same text come from the same check. The size of the order map shown for a refused id limit is the true one below
  \<open>2 ^ 62\<close> ids and wraps beyond: for \<open>SIZE_MAX\<close> it is a quarter of it.
\<close>

theorem constructor_diagnostics:
  "(OrderBook_new E (unat max_id) cap minp maxp = None \<longleftrightarrow> OrderBook_fatal max_id minp maxp \<noteq> None) \<and>
   (OrderBook_fatal max_id minp maxp = None \<longleftrightarrow> minp \<le> maxp \<and> maxp \<noteq> 0xFFFFFFFF \<and> unat max_id \<le> 0xFFFFFFFE \<and> unat maxp - unat minp < 2 ^ 26) \<and>
   (OrderBook_fatal max_id minp maxp = OrderBook_fatal max_id' minp' maxp' \<longrightarrow>
      first_violation (unat max_id) minp maxp = first_violation (unat max_id') minp' maxp') \<and>
   (unat max_id < 2 ^ 62 \<longrightarrow> unat (order_map_mb max_id) = 4 * unat max_id div 2 ^ 20) \<and>
   OrderBook_fatal (of_nat SIZE_MAX) 0 100 = Some (''OrderBook: fatal - max_order_id (18446744073709551615) exceeds the uint32 id-space cap (0xFFFF'FFFE); '' @
     ''order_map would need ~17592186044415 MB'' @ newline) \<and>
   4 * SIZE_MAX div 2 ^ 20 = 70368744177663"
proof (intro conjI)
  show "OrderBook_fatal max_id minp maxp = None \<longleftrightarrow> minp \<le> maxp \<and> maxp \<noteq> 0xFFFFFFFF \<and> unat max_id \<le> 0xFFFFFFFE \<and> unat maxp - unat minp < 2 ^ 26"
    unfolding fatal_iff first_violation_def by (auto simp: not_less not_le)
  then show "OrderBook_new E (unat max_id) cap minp maxp = None \<longleftrightarrow> OrderBook_fatal max_id minp maxp \<noteq> None"
    by (auto simp: OrderBook_new_def UINT32_MAX_def kMaxOrderIds_def kMaxPriceRangeTicks_def Let_def not_less not_le)
  show "OrderBook_fatal max_id minp maxp = OrderBook_fatal max_id' minp' maxp' \<longrightarrow>
      first_violation (unat max_id) minp maxp = first_violation (unat max_id') minp' maxp'"
  proof
    assume e: "OrderBook_fatal max_id minp maxp = OrderBook_fatal max_id' minp' maxp'"
    show "first_violation (unat max_id) minp maxp = first_violation (unat max_id') minp' maxp'"
    proof (cases "OrderBook_fatal max_id minp maxp")
      case None
      then show ?thesis using e fatal_iff by metis
    next
      case (Some msg)
      then have "first_violation (unat max_id) minp maxp \<noteq> None" "first_violation (unat max_id') minp' maxp' \<noteq> None"
        using e fatal_iff by (metis option.distinct(1))+
      then show ?thesis using fatal_message [OF Some] fatal_message [of max_id' minp' maxp' msg] e Some
        by (auto split: FatalCheck.splits)
    qed
  qed
  show "unat max_id < 2 ^ 62 \<longrightarrow> unat (order_map_mb max_id) = 4 * unat max_id div 2 ^ 20" using order_map_mb_exact by blast
  show "4 * SIZE_MAX div 2 ^ 20 = 70368744177663" by (simp add: SIZE_MAX_def)
  show "OrderBook_fatal (of_nat SIZE_MAX) 0 100 = Some (''OrderBook: fatal - max_order_id (18446744073709551615) exceeds the uint32 id-space cap (0xFFFF'FFFE); '' @
     ''order_map would need ~17592186044415 MB'' @ newline)"
    by (simp add: OrderBook_fatal_def UINT32_MAX_def kMaxOrderIds_def SIZE_MAX_def order_map_mb_def kBytesPerMiB_def dec.simps digit_char_def char_of_def bit_iff_odd)
qed

theorem constructor_diagnostics_witness:
  "OrderBook_new E_release 0xFFFFFFFF 8 1 10 = None \<and> unat (order_map_mb 0xFFFFFFFF) = 16383"
  using constructor_diagnostics [of E_release 4294967295 8 1 10 4294967295 1 10] by auto

end
