(* ===== verification/Std_Order_Book.thy ===== *)
theory Std_Order_Book
  imports Engine_Samples
begin

text \<open>
  \<open>src/tests/StdOrderBook.h\<close>, the order book on standard containers that the repository uses
  as differential-testing oracle. A \<open>std::map\<close> is the list of its entries in the order of its
  comparator, a \<open>std::list\<close> is the list of its nodes, and an iterator into a list is the
  address of the node it points to, a number the allocator hands out once. A result \<open>None\<close> is
  a use of an iterator that points to no node.
\<close>

section \<open>State\<close>

record StdOrder =
  so_id :: OrderId
  so_price :: Price
  so_quantity :: Quantity
  so_side :: Side
  so_type :: OrderType
  so_timestamp :: u64

type_synonym node = "nat \<times> StdOrder"
type_synonym tree = "(Price \<times> node list) list"

record StdOrderBook =
  std_bids :: tree
  std_asks :: tree
  std_order_map :: "OrderId \<Rightarrow> nat option"
  std_side_map :: "OrderId \<Rightarrow> Side option"
  std_min_price :: Price
  std_max_price :: Price
  std_max_order_id :: nat
  std_max_active_orders :: nat
  std_live_count :: u64
  std_next_timestamp :: u64
  std_next_node :: nat

definition StdOrderBook_new :: "nat \<Rightarrow> nat \<Rightarrow> Price \<Rightarrow> Price \<Rightarrow> StdOrderBook" where
  "StdOrderBook_new max_id max_active minp maxp =
     \<lparr>std_bids = [], std_asks = [], std_order_map = (\<lambda>_. None), std_side_map = (\<lambda>_. None),
      std_min_price = minp, std_max_price = maxp, std_max_order_id = max_id,
      std_max_active_orders = max_active, std_live_count = 0, std_next_timestamp = 0, std_next_node = 0\<rparr>"

section \<open>Containers\<close>

text \<open>The comparators: \<open>std::greater\<close> for the bids, the default for the asks.\<close>

fun precedes :: "Side \<Rightarrow> Price \<Rightarrow> Price \<Rightarrow> bool" where
  "precedes Buy p q = (p > q)"
| "precedes Sell p q = (p < q)"

fun std_tree :: "Side \<Rightarrow> StdOrderBook \<Rightarrow> tree" where
  "std_tree Buy b = std_bids b"
| "std_tree Sell b = std_asks b"

fun set_std_tree :: "Side \<Rightarrow> tree \<Rightarrow> StdOrderBook \<Rightarrow> StdOrderBook" where
  "set_std_tree Buy m b = b\<lparr>std_bids := m\<rparr>"
| "set_std_tree Sell m b = b\<lparr>std_asks := m\<rparr>"

text \<open>\<open>m[k].push_back(n)\<close>: \<open>operator[]\<close> inserts an empty list when the key is not there.\<close>

fun push_at :: "Side \<Rightarrow> Price \<Rightarrow> node \<Rightarrow> tree \<Rightarrow> tree" where
  "push_at s k n [] = [(k, [n])]"
| "push_at s k n ((p, l) # m) =
     (if precedes s k p then (k, [n]) # (p, l) # m
      else if k = p then (p, l @ [n]) # m
      else (p, l) # push_at s k n m)"

text \<open>\<open>level.erase(it)\<close>, then \<open>m.erase(level)\<close> when the level is empty.\<close>

fun erase_at :: "Price \<Rightarrow> nat \<Rightarrow> tree \<Rightarrow> tree" where
  "erase_at k a [] = []"
| "erase_at k a ((p, l) # m) =
     (if p = k then
        let l' = filter (\<lambda>n. fst n \<noteq> a) l
        in if l' = [] then m else (p, l') # m
      else (p, l) # erase_at k a m)"

definition tree_nodes :: "tree \<Rightarrow> node list" where
  "tree_nodes m = concat (map snd m)"

text \<open>Dereferencing an iterator.\<close>

definition std_deref :: "nat \<Rightarrow> StdOrderBook \<Rightarrow> StdOrder option" where
  "std_deref a b = map_of (tree_nodes (std_bids b) @ tree_nodes (std_asks b)) a"

section \<open>Matching\<close>

definition std_erase_id :: "OrderId \<Rightarrow> StdOrderBook \<Rightarrow> StdOrderBook" where
  "std_erase_id i b = b\<lparr>std_order_map := (std_order_map b)(i := None),
     std_side_map := (std_side_map b)(i := None), std_live_count := std_live_count b - 1\<rparr>"

text \<open>The inner loop, from the iterator to the end of the level.\<close>

fun std_fill_level ::
  "OrderId \<Rightarrow> Quantity \<Rightarrow> node list \<Rightarrow> StdOrderBook \<Rightarrow> Trade list \<times> Quantity \<times> node list \<times> StdOrderBook" where
  "std_fill_level taker qty [] b = ([], qty, [], b)"
| "std_fill_level taker qty ((a, it) # rest) b =
     (if qty > 0 then
        let trade_qty = min qty (so_quantity it);
            t = \<lparr>maker_id = so_id it, taker_id = taker, trade_price = so_price it, trade_quantity = trade_qty\<rparr>;
            qty = qty - trade_qty;
            it = it\<lparr>so_quantity := so_quantity it - trade_qty\<rparr>
        in if so_quantity it = 0 then
             let (ts, qty, l, b) = std_fill_level taker qty rest (std_erase_id (so_id it) b)
             in (t # ts, qty, l, b)
           else
             let (ts, qty, l, b) = std_fill_level taker qty rest b
             in (t # ts, qty, (a, it) # l, b)
      else ([], qty, (a, it) # rest, b))"

lemma std_fill_level_qty:
  "std_fill_level taker qty l b = (ts, qty', l', b') \<Longrightarrow> qty' \<le> qty \<and> (l' \<noteq> [] \<longrightarrow> qty' = 0)"
proof (induction taker qty l b arbitrary: ts qty' l' b' rule: std_fill_level.induct)
  case (2 taker qty a it rest b)
  let ?t = "min qty (so_quantity it)"
  have le: "qty - ?t \<le> qty" by (simp add: word_sub_le)
  show ?case
  proof (cases "qty > 0")
    case True
    show ?thesis
    proof (cases "so_quantity it - ?t = 0")
      case True
      with \<open>qty > 0\<close> "2.prems" "2.IH"(1) [OF \<open>qty > 0\<close> refl refl refl refl] le show ?thesis
        by (auto simp: Let_def split: prod.splits)
    next
      case False
      then have "?t = qty" by (auto simp: min_def split: if_splits)
      then have z: "qty - ?t = 0" by simp
      obtain ts1 q1 l1 b1 where r: "std_fill_level taker 0 rest b = (ts1, q1, l1, b1)" by (metis prod_cases4)
      have "q1 = 0" using r by (cases rest) auto
      with \<open>qty > 0\<close> False z r "2.prems" show ?thesis by (auto simp: Let_def)
    qed
  next
    case False
    then show ?thesis using "2.prems" by (auto simp: word_gt_0)
  qed
qed simp

lemma std_erase_id_trees [simp]: "std_tree s (std_erase_id i b) = std_tree s b"
  by (cases s) (simp_all add: std_erase_id_def)

lemma std_fill_level_trees:
  "std_fill_level taker qty l b = (ts, qty', l', b') \<Longrightarrow> std_tree s b' = std_tree s b"
  by (induction taker qty l b arbitrary: ts qty' l' b' rule: std_fill_level.induct)
    (auto simp: Let_def split: if_splits prod.splits)

lemma std_tree_set [simp]: "std_tree s (set_std_tree t m b) = (if s = t then m else std_tree s b)"
  by (cases s; cases t) simp_all

text \<open>
  The outer loop over the best levels. It ends: an iteration either erases a level or leaves
  no quantity.
\<close>

function std_match :: "Side \<Rightarrow> OrderId \<Rightarrow> Price \<Rightarrow> Quantity \<Rightarrow> StdOrderBook \<Rightarrow> Trade list \<times> Quantity \<times> StdOrderBook" where
  "std_match side taker px qty b =
     (case std_tree (opposite side) b of
        [] \<Rightarrow> ([], qty, b)
      | (p, level) # rest \<Rightarrow>
          if qty > 0 \<and> \<not> (if side = Buy then p > px else p < px) then
            let (ts, qty', l, b1) = std_fill_level taker qty level b;
                b2 = set_std_tree (opposite side) (if l = [] then rest else (p, l) # rest) b1;
                (ts', qty'', b3) = std_match side taker px qty' b2
            in (ts @ ts', qty'', b3)
          else ([], qty, b))"
  by pat_completeness auto
termination
proof (relation "measures [\<lambda>(side, taker, px, qty, b). unat qty, \<lambda>(side, taker, px, qty, b). length (std_tree (opposite side) b)]", goal_cases)
  case 1
  then show ?case by simp
next
  case (2 side taker px qty b x rest p level r ts y qty' z l b1 b2)
  then have f: "std_fill_level taker qty level b = (ts, qty', l, b1)" and t: "std_tree (opposite side) b = (p, level) # rest"
    and q: "qty > 0" and b2: "b2 = set_std_tree (opposite side) (if l = [] then rest else (p, l) # rest) b1"
    by auto
  have "qty' \<le> qty" "l \<noteq> [] \<longrightarrow> qty' = 0" using std_fill_level_qty [OF f] by auto
  moreover have "std_tree (opposite side) b2 = (if l = [] then rest else (p, l) # rest)" using b2 by simp
  ultimately show ?case using q t by (cases "l = []") (auto simp: word_le_nat_alt word_less_nat_alt)
qed

declare std_match.simps [simp del]

section \<open>Order entry and cancellation\<close>

definition std_cancel_order :: "OrderId \<Rightarrow> StdOrderBook \<Rightarrow> (RejectReason \<times> StdOrderBook) option" where
  "std_cancel_order i b =
     (case std_order_map b i of
        None \<Rightarrow> Some (CancelFailed, b)
      | Some list_it \<Rightarrow> do {
          ord \<leftarrow> std_deref list_it b;
          let price = so_price ord;
          (case std_side_map b i of
             None \<Rightarrow> Some (CancelFailed, b)
           | Some side \<Rightarrow> do {
               b \<leftarrow> (case map_of (std_tree side b) price of
                      Some level \<Rightarrow>
                        if list_it \<in> fst ` set level
                        then Some (set_std_tree side (erase_at price list_it (std_tree side b)) b)
                        else None
                    | None \<Rightarrow> Some b);
               Some (Accepted, std_erase_id i b)
             })
        })"

text \<open>\<open>std::prev(m[k].end())\<close>: the last node of the level just pushed to.\<close>

definition last_node :: "Price \<Rightarrow> tree \<Rightarrow> nat option" where
  "last_node k m = do {
     level \<leftarrow> map_of m k;
     if level = [] then None else Some (fst (last level))
   }"

definition std_rest :: "StdOrder \<Rightarrow> StdOrderBook \<Rightarrow> StdOrderBook option" where
  "std_rest ord b = do {
     let side = so_side ord;
     let m = push_at side (so_price ord) (std_next_node b, ord) (std_tree side b);
     let b = set_std_tree side m (b\<lparr>std_next_node := Suc (std_next_node b)\<rparr>);
     it \<leftarrow> last_node (so_price ord) m;
     Some (b\<lparr>std_order_map := (std_order_map b)(so_id ord \<mapsto> it),
             std_side_map := (std_side_map b)(so_id ord \<mapsto> side),
             std_live_count := std_live_count b + 1\<rparr>)
   }"

text \<open>What remains after matching: rested, refused for want of room, or dropped.\<close>

definition std_finish :: "OrderType \<Rightarrow> Quantity \<Rightarrow> Trade list \<Rightarrow> StdOrder \<Rightarrow> StdOrderBook \<Rightarrow> (Trade AddResult \<times> StdOrderBook) option" where
  "std_finish type quantity ts ord b =
     (if so_quantity ord > 0 \<and> type = Limit then
        if unat (std_live_count b + 1) > std_max_active_orders b then Some (mk_result PoolExhausted 0 ts, b)
        else do {
          b \<leftarrow> std_rest ord b;
          Some (mk_result Accepted (quantity - so_quantity ord) ts, b)
        }
      else Some (mk_result Accepted (quantity - so_quantity ord) ts, b))"

definition std_add_order ::
  "OrderId \<Rightarrow> OrderType \<Rightarrow> Price \<Rightarrow> Quantity \<Rightarrow> Side \<Rightarrow> StdOrderBook \<Rightarrow> (Trade AddResult \<times> StdOrderBook) option" where
  "std_add_order i type price quantity side b =
     (if type = Cancel then do {
        (r, b) \<leftarrow> std_cancel_order i b;
        Some (mk_result r 0 [], b)
      }
      else if quantity = 0 then Some (mk_result InvalidQuantity 0 [], b)
      else if i = 0 \<or> unat i > std_max_order_id b then Some (mk_result OutOfBoundsOrderId 0 [], b)
      else if std_order_map b i \<noteq> None then Some (mk_result DuplicateOrderId 0 [], b)
      else if type = Limit \<and> (price < std_min_price b \<or> price > std_max_price b) then
        Some (mk_result OutOfBoundsPrice 0 [], b)
      else if type = Market \<and> (if side = Buy then std_asks b = [] else std_bids b = []) then
        Some (mk_result MarketOnEmptyBook 0 [], b)
      else do {
        let ord = \<lparr>so_id = i, so_price = (if type = Market
               then (if side = Buy then MARKET_BUY_PRICE else MARKET_SELL_PRICE) else price),
             so_quantity = quantity, so_side = side, so_type = type, so_timestamp = std_next_timestamp b\<rparr>;
        let b = b\<lparr>std_next_timestamp := std_next_timestamp b + 1\<rparr>;
        let (ts, qty, b) = std_match side i (so_price ord) quantity b;
        std_finish type quantity ts (ord\<lparr>so_quantity := qty\<rparr>) b
      })"

section \<open>Introspection\<close>

definition std_active_order_count :: "StdOrderBook \<Rightarrow> u64" where
  "std_active_order_count b = std_live_count b"

definition std_order_exists :: "OrderId \<Rightarrow> StdOrderBook \<Rightarrow> bool" where
  "std_order_exists i b = (std_order_map b i \<noteq> None)"

definition std_side_map_size :: "StdOrderBook \<Rightarrow> nat" where
  "std_side_map_size b = card (dom (std_side_map b))"

definition std_price_level_count :: "Side \<Rightarrow> StdOrderBook \<Rightarrow> nat" where
  "std_price_level_count side b = (if side = Buy then length (std_bids b) else length (std_asks b))"

section \<open>The invariant and the abstraction\<close>

text \<open>What a node keeps while it is in a book: its address, id and price.\<close>

definition tag :: "node \<Rightarrow> nat \<times> OrderId \<times> Price" where
  "tag n = (fst n, so_id (snd n), so_price (snd n))"

definition std_nodes :: "Side \<Rightarrow> StdOrderBook \<Rightarrow> node list" where
  "std_nodes s b = tree_nodes (std_tree s b)"

definition rest_node :: "node \<Rightarrow> Resting" where
  "rest_node n = \<lparr>rid = so_id (snd n), rprice = so_price (snd n), rqty = so_quantity (snd n)\<rparr>"

definition std_abs :: "StdOrderBook \<Rightarrow> SpecBook" where
  "std_abs b = \<lparr>spec_bids = map rest_node (std_nodes Buy b), spec_asks = map rest_node (std_nodes Sell b)\<rparr>"

definition std_cfg :: "StdOrderBook \<Rightarrow> Config" where
  "std_cfg b = \<lparr>cfg_max_id = std_max_order_id b, cfg_capacity = std_max_active_orders b,
     cfg_min = std_min_price b, cfg_max = std_max_price b\<rparr>"

definition tree_ok :: "Side \<Rightarrow> tree \<Rightarrow> bool" where
  "tree_ok s m \<longleftrightarrow> sorted_wrt (precedes s) (map fst m) \<and>
     (\<forall>(p, l) \<in> set m. l \<noteq> [] \<and> (\<forall>n \<in> set l. so_price (snd n) = p))"

text \<open>The two hash tables and the counter agree with the nodes.\<close>

definition index_ok :: "StdOrderBook \<Rightarrow> bool" where
  "index_ok b \<longleftrightarrow>
     (\<forall>i a. std_order_map b i = Some a \<longleftrightarrow> (\<exists>s p. (a, i, p) \<in> tag ` set (std_nodes s b))) \<and>
     (\<forall>i s. std_side_map b i = Some s \<longleftrightarrow> (\<exists>a p. (a, i, p) \<in> tag ` set (std_nodes s b))) \<and>
     std_live_count b = of_nat (length (std_nodes Buy b) + length (std_nodes Sell b)) \<and>
     distinct (map fst (std_nodes Buy b @ std_nodes Sell b)) \<and>
     (\<forall>s. \<forall>n \<in> set (std_nodes s b). fst n < std_next_node b)"

definition std_inv :: "StdOrderBook \<Rightarrow> bool" where
  "std_inv b \<longleftrightarrow> (\<forall>s. tree_ok s (std_tree s b)) \<and> index_ok b \<and> spec_inv (std_cfg b) (std_abs b) \<and>
     std_max_active_orders b < 2 ^ 64 - 1"

end
