(* ===== verification/Std_Refine.thy ===== *)
theory Std_Refine
  imports Std_Order_Book
begin

text \<open>
  The reference book implements the specification of \<open>Book_Spec\<close>, hence agrees with the engine
  on every session in which the cancelled ids are in range.
\<close>

section \<open>Containers\<close>

lemma tree_nodes_simps [simp]: "tree_nodes [] = []" "tree_nodes ((p, l) # m) = l @ tree_nodes m"
  by (simp_all add: tree_nodes_def)

lemma tree_ok_Cons [simp]:
  "tree_ok s ((p, l) # m) \<longleftrightarrow> (\<forall>q \<in> fst ` set m. precedes s p q) \<and> l \<noteq> [] \<and>
     (\<forall>n \<in> set l. so_price (snd n) = p) \<and> tree_ok s m"
  by (auto simp: tree_ok_def)

lemma tree_ok_Nil [simp]: "tree_ok s []"
  by (simp add: tree_ok_def)

lemma tree_node_price: "tree_ok s m \<Longrightarrow> n \<in> set (tree_nodes m) \<Longrightarrow> so_price (snd n) \<in> fst ` set m"
  by (induction m) auto

lemma precedes_worse: "precedes s p q \<Longrightarrow> \<not> no_worse s q p"
  by (cases s) auto

lemma precedes_trans: "precedes s p q \<Longrightarrow> precedes s q r \<Longrightarrow> precedes s p r"
  by (cases s) auto

lemma precedes_total: "p \<noteq> q \<Longrightarrow> \<not> precedes s p q \<Longrightarrow> precedes s q p"
  by (cases s) auto

lemma precedes_no_worse: "precedes s p q \<Longrightarrow> no_worse s p q"
  by (cases s) auto

lemma dropWhile_all_false: "\<forall>x \<in> set xs. \<not> P x \<Longrightarrow> takeWhile P xs = [] \<and> dropWhile P xs = xs"
  by (cases xs) auto

lemma spec_insert_front:
  "\<forall>x \<in> set rs. \<not> no_worse s (rprice x) (rprice r) \<Longrightarrow> spec_insert s r rs = r # rs"
  using dropWhile_all_false [of rs "\<lambda>x. no_worse s (rprice x) (rprice r)"] by (simp add: spec_insert_def)

lemma spec_insert_skip:
  "\<forall>x \<in> set as. no_worse s (rprice x) (rprice r) \<Longrightarrow> spec_insert s r (as @ bs) = as @ spec_insert s r bs"
  by (simp add: spec_insert_def)

lemma push_at_insert:
  assumes "tree_ok s m" "so_price (snd n) = k"
  shows "map rest_node (tree_nodes (push_at s k n m)) = spec_insert s (rest_node n) (map rest_node (tree_nodes m))"
  using assms
proof (induction s k n m rule: push_at.induct)
  case (1 s k n)
  then show ?case by (simp add: spec_insert_def)
next
  case (2 s k n p l m)
  have l: "\<forall>x \<in> set (map rest_node l). rprice x = p" using "2.prems" by (auto simp: rest_node_def)
  have m: "\<forall>x \<in> set (map rest_node (tree_nodes m)). precedes s p (rprice x)"
    using "2.prems"(1) tree_node_price [of s m] by (fastforce simp: rest_node_def)
  have rn: "rprice (rest_node n) = k" using "2.prems" by (simp add: rest_node_def)
  show ?case
  proof (cases "precedes s k p")
    case True
    have w: "\<not> no_worse s p k" "precedes s p q \<Longrightarrow> \<not> no_worse s q k" for q
      using True precedes_worse [of s k] precedes_trans [OF True] by blast+
    have "\<forall>x \<in> set (map rest_node (tree_nodes ((p, l) # m))). \<not> no_worse s (rprice x) (rprice (rest_node n))"
    proof
      fix x assume "x \<in> set (map rest_node (tree_nodes ((p, l) # m)))"
      then have "rprice x = p \<or> precedes s p (rprice x)" using l m by auto
      then show "\<not> no_worse s (rprice x) (rprice (rest_node n))" using w rn by auto
    qed
    from spec_insert_front [OF this] True show ?thesis by simp
  next
    case False
    have skip: "spec_insert s (rest_node n) (map rest_node l @ R) = map rest_node l @ spec_insert s (rest_node n) R" for R
      using l rn False precedes_total [of k p s] precedes_no_worse [of s p k] by (intro spec_insert_skip) (cases "k = p"; auto)
    show ?thesis
    proof (cases "k = p")
      case True
      have "\<forall>x \<in> set (map rest_node (tree_nodes m)). \<not> no_worse s (rprice x) (rprice (rest_node n))"
        using m rn True precedes_worse by auto
      from spec_insert_front [OF this] True False skip show ?thesis by simp
    next
      case False
      with \<open>\<not> precedes s k p\<close> "2.IH" "2.prems" skip show ?thesis by simp
    qed
  qed
qed

lemma push_at_keys: "fst ` set (push_at s k n m) = insert k (fst ` set m)"
  by (induction s k n m rule: push_at.induct) auto

lemma push_at_ok: "tree_ok s m \<Longrightarrow> so_price (snd n) = k \<Longrightarrow> tree_ok s (push_at s k n m)"
proof (induction s k n m rule: push_at.induct)
  case (2 s k n p l m)
  then show ?case
    using precedes_trans [of s k p] precedes_total [of k p s] push_at_keys [of s k n m] by auto
qed simp

lemma push_at_split: "\<exists>as bs. tree_nodes m = as @ bs \<and> tree_nodes (push_at s k n m) = as @ n # bs"
proof (induction s k n m rule: push_at.induct)
  case (2 s k n p l m)
  show ?case
  proof (cases "precedes s k p")
    case True
    then show ?thesis by (intro exI [of _ "[]"] exI [of _ "l @ tree_nodes m"]) simp
  next
    case False
    show ?thesis
    proof (cases "k = p")
      case True
      with False show ?thesis by (intro exI [of _ l] exI [of _ "tree_nodes m"]) simp
    next
      case kp: False
      with 2 False obtain as bs where "tree_nodes m = as @ bs" "tree_nodes (push_at s k n m) = as @ n # bs" by blast
      with kp False show ?thesis by (intro exI [of _ "l @ as"] exI [of _ bs]) simp
    qed
  qed
qed simp

lemma last_node_push:
  "tree_ok s m \<Longrightarrow> last_node k (push_at s k n m) = Some (fst n)"
proof (induction s k n m rule: push_at.induct)
  case (2 s k n p l m)
  have "p \<noteq> k" if "precedes s k p" using that by (cases s) auto
  with 2 show ?case by (auto simp: last_node_def)
qed (simp add: last_node_def)

lemma erase_at_nodes:
  assumes "tree_ok s m" "\<forall>n \<in> set (tree_nodes m). fst n = a \<longrightarrow> so_price (snd n) = k"
  shows "tree_nodes (erase_at k a m) = filter (\<lambda>n. fst n \<noteq> a) (tree_nodes m)"
  using assms
proof (induction k a m rule: erase_at.induct)
  case (2 k a p l m)
  show ?case
  proof (cases "p = k")
    case True
    have "n \<in> set (tree_nodes m) \<Longrightarrow> fst n \<noteq> a" for n
      using "2.prems" True tree_node_price [of s m n] by (cases s) auto
    then have "filter (\<lambda>n. fst n \<noteq> a) (tree_nodes m) = tree_nodes m" by (simp add: filter_id_conv)
    with True show ?thesis by (auto simp: Let_def)
  next
    case False
    then have "filter (\<lambda>n. fst n \<noteq> a) l = l" using "2.prems" by (auto simp: filter_id_conv)
    with False 2 show ?thesis by simp
  qed
qed simp

lemma erase_at_ok: "tree_ok s m \<Longrightarrow> tree_ok s (erase_at k a m)"
proof (induction k a m rule: erase_at.induct)
  case (2 k a p l m)
  have "fst ` set (erase_at k a m) \<subseteq> fst ` set m"
    by (induction k a m rule: erase_at.induct) (auto simp: Let_def)
  then have "\<forall>q \<in> fst ` set (erase_at k a m). precedes s p q" if "\<forall>q \<in> fst ` set m. precedes s p q"
    using that by blast
  with 2 show ?case by (auto simp: Let_def simp del: ball_simps)
qed simp

section \<open>Matching\<close>

abbreviation node_id :: "node \<Rightarrow> OrderId" where
  "node_id n \<equiv> so_id (snd n)"

lemma std_fill_level_zero [simp]: "std_fill_level t 0 l b = ([], 0, l, b)"
  by (cases l) auto

lemma rest_node_simps [simp]: "rid (rest_node n) = node_id n" "rprice (rest_node n) = so_price (snd n)"
  "rqty (rest_node n) = so_quantity (snd n)"
  by (simp_all add: rest_node_def)

lemma rest_node_reduced: "rest_node (a, it\<lparr>so_quantity := x\<rparr>) = (rest_node (a, it))\<lparr>rqty := x\<rparr>"
  by (simp add: rest_node_def)

lemma std_fill_level_spec:
  assumes "std_fill_level t q l b = (ts, q', l', b')" "\<forall>n \<in> set l. c (so_price (snd n))"
  shows "spec_fill c t q (map rest_node l) = (ts, q', map rest_node l') \<and>
    (\<exists>k \<le> length l. map tag l' = drop k (map tag l) \<and> b' = fold std_erase_id (take k (map node_id l)) b)"
  using assms
proof (induction l arbitrary: q b ts)
  case (Cons n l)
  obtain a it where n: "n = (a, it)" by (cases n)
  show ?case
  proof (cases "q = 0")
    case True
    then show ?thesis using Cons.prems by (auto simp: n intro!: exI [of _ 0])
  next
    case q: False
    show ?thesis
    proof (cases "so_quantity it \<le> q")
      case True
      then have m: "min q (so_quantity it) = so_quantity it" by (simp add: min_def)
      obtain ts1 where r: "std_fill_level t (q - so_quantity it) l (std_erase_id (so_id it) b) = (ts1, q', l', b')"
        "ts = \<lparr>maker_id = so_id it, taker_id = t, trade_price = so_price it, trade_quantity = so_quantity it\<rparr> # ts1"
        using Cons.prems(1) q m by (auto simp: n Let_def word_gt_0 split: prod.splits)
      from Cons.IH [OF r(1)] Cons.prems(2) obtain k where
        "spec_fill c t (q - so_quantity it) (map rest_node l) = (ts1, q', map rest_node l')" "k \<le> length l"
        "map tag l' = drop k (map tag l)" "b' = fold std_erase_id (take k (map node_id l)) (std_erase_id (so_id it) b)"
        by auto
      with q True r(2) Cons.prems(2) show ?thesis
        by (auto simp: n spec_trade_def intro!: exI [of _ "Suc k"])
    next
      case False
      then have m: "min q (so_quantity it) = q" "so_quantity it - q \<noteq> 0" by (auto simp: min_def)
      then have "ts = [\<lparr>maker_id = so_id it, taker_id = t, trade_price = so_price it, trade_quantity = q\<rparr>]"
        "q' = 0" "l' = (a, it\<lparr>so_quantity := so_quantity it - q\<rparr>) # l" "b' = b"
        using Cons.prems(1) q by (auto simp: n Let_def word_gt_0)
      with q False Cons.prems(2) show ?thesis
        by (auto simp: n rest_node_reduced spec_trade_def tag_def intro!: exI [of _ 0])
    qed
  qed
qed (auto intro!: exI [of _ 0])

lemma std_match_stop:
  "qty = 0 \<or> std_tree (opposite side) b = [] \<or> \<not> crosses side px (fst (hd (std_tree (opposite side) b))) \<Longrightarrow>
   std_match side t px qty b = ([], qty, b)"
  by (subst std_match.simps) (cases side; auto simp: crosses_def split: list.splits)

lemma std_match_step:
  assumes "std_tree (opposite side) b = (p, level) # rest" "q \<noteq> 0" "crosses side px p"
    "std_fill_level t q level b = (ts, q1, l, b1)"
    "std_match side t px q1 (set_std_tree (opposite side) (if l = [] then rest else (p, l) # rest) b1) = (ts2, q2, b2)"
  shows "std_match side t px q b = (ts @ ts2, q2, b2)"
proof -
  have "q > 0 \<and> \<not> (if side = Buy then p > px else p < px)"
    using assms(2,3) by (cases side) (auto simp: crosses_def word_gt_0)
  with assms show ?thesis by (simp add: std_match.simps [of side t px q b] Let_def)
qed

lemma erase_ids_fields:
  "std_order_map (fold std_erase_id is b) i = (if i \<in> set is then None else std_order_map b i)"
  "std_side_map (fold std_erase_id is b) i = (if i \<in> set is then None else std_side_map b i)"
  "std_live_count (fold std_erase_id is b) = std_live_count b - of_nat (length is)"
  "std_cfg (fold std_erase_id is b) = std_cfg b"
  "std_next_node (fold std_erase_id is b) = std_next_node b"
  by (induction "is" arbitrary: b) (simp_all add: std_erase_id_def std_cfg_def)

lemma erase_ids_trees [simp]: "std_tree s (fold std_erase_id is b) = std_tree s b"
  by (induction "is" arbitrary: b) simp_all

lemma erase_id_tree: "std_erase_id i (set_std_tree s m b) = set_std_tree s m (std_erase_id i b)"
  by (cases s) (simp_all add: std_erase_id_def)

lemma erase_ids_tree: "fold std_erase_id is (set_std_tree s m b) = set_std_tree s m (fold std_erase_id is b)"
  by (induction "is" arbitrary: b) (simp_all add: erase_id_tree)

lemma set_std_tree_twice [simp]: "set_std_tree s m (set_std_tree s m' b) = set_std_tree s m b"
  "set_std_tree s (std_tree s b) b = b"
  by (cases s; simp)+

text \<open>Matching fills from the front and drops the filled makers from tree and hash tables.\<close>

definition std_matched ::
  "Side \<Rightarrow> Price \<Rightarrow> OrderId \<Rightarrow> Quantity \<Rightarrow> StdOrderBook \<Rightarrow> Trade list \<Rightarrow> Quantity \<Rightarrow> StdOrderBook \<Rightarrow> bool" where
  "std_matched side px t q b ts q' b' \<longleftrightarrow>
     spec_fill (crosses side px) t q (map rest_node (std_nodes (opposite side) b)) =
       (ts, q', map rest_node (std_nodes (opposite side) b')) \<and>
     tree_ok (opposite side) (std_tree (opposite side) b') \<and>
     (\<exists>k \<le> length (std_nodes (opposite side) b).
       map tag (std_nodes (opposite side) b') = drop k (map tag (std_nodes (opposite side) b)) \<and>
       b' = set_std_tree (opposite side) (std_tree (opposite side) b')
         (fold std_erase_id (take k (map node_id (std_nodes (opposite side) b))) b))"

lemma std_matched_nothing:
  assumes "tree_ok (opposite side) (std_tree (opposite side) b)"
    "q = 0 \<or> std_tree (opposite side) b = [] \<or> \<not> crosses side px (fst (hd (std_tree (opposite side) b)))"
  shows "std_matched side px t q b [] q b"
proof -
  have "spec_fill (crosses side px) t q (map rest_node (std_nodes (opposite side) b)) =
      ([], q, map rest_node (std_nodes (opposite side) b))"
  proof (cases "std_tree (opposite side) b")
    case (Cons e m)
    then obtain p n l where "e = (p, n # l)" "so_price (snd n) = p"
      using assms(1) by (cases e; cases "snd e") auto
    with Cons assms(2) show ?thesis by (auto simp: std_nodes_def)
  qed (simp add: std_nodes_def)
  with assms(1) show ?thesis by (auto simp: std_matched_def intro!: exI [of _ 0])
qed

text \<open>The best level is emptied, and matching goes on with the next one.\<close>

lemma std_matched_emptied:
  assumes f: "std_fill_level t q level b = (ts1, q1, [], b1)" and c: "crosses side px p"
    and tr: "std_tree (opposite side) b = (p, level) # rest" "tree_ok (opposite side) ((p, level) # rest)"
    and m: "std_matched side px t q1 (set_std_tree (opposite side) rest b1) ts2 q2 b3"
  shows "std_matched side px t q b (ts1 @ ts2) q2 b3"
proof -
  let ?o = "opposite side" and ?c = "crosses side px"
  define b2 where "b2 = set_std_tree ?o rest b1"
  have cl: "\<forall>n \<in> set level. ?c (so_price (snd n))" using tr(2) c by simp
  have s1: "spec_fill ?c t q (map rest_node level) = (ts1, q1, map rest_node [])"
    "b1 = fold std_erase_id (map node_id level) b"
    using std_fill_level_spec [OF f cl] by auto
  have nb2: "std_nodes ?o b2 = tree_nodes rest" by (simp add: std_nodes_def b2_def)
  from m obtain k where
    s2: "spec_fill ?c t q1 (map rest_node (tree_nodes rest)) = (ts2, q2, map rest_node (std_nodes ?o b3))"
    "tree_ok ?o (std_tree ?o b3)" "k \<le> length (tree_nodes rest)"
    "map tag (std_nodes ?o b3) = drop k (map tag (tree_nodes rest))"
    "b3 = set_std_tree ?o (std_tree ?o b3) (fold std_erase_id (take k (map node_id (tree_nodes rest))) b2)"
    unfolding std_matched_def b2_def [symmetric] nb2 by blast
  have "spec_fill ?c t q (map rest_node level @ map rest_node (tree_nodes rest)) =
      (ts1 @ ts2, q2, map rest_node [] @ map rest_node (std_nodes ?o b3))"
    by (rule spec_fill_append [OF _ s1(1) s2(1)]) (use cl in simp_all)
  moreover have "b3 = set_std_tree ?o (std_tree ?o b3)
      (fold std_erase_id (take (length level + k) (map node_id (level @ tree_nodes rest))) b)"
    by (subst s2(5)) (simp add: b2_def s1(2) erase_ids_tree)
  moreover have "map tag (std_nodes ?o b3) = drop (length level + k) (map tag (level @ tree_nodes rest))"
    using s2(4) by simp
  ultimately show ?thesis
    unfolding std_matched_def using s2(2,3) tr(1)
    by (intro conjI exI [of _ "length level + k"]) (simp_all add: std_nodes_def)
qed

text \<open>The taker is filled within the best level.\<close>

lemma std_matched_within:
  assumes f: "std_fill_level t q level b = (ts1, q1, l, b1)" "l \<noteq> []" and c: "crosses side px p"
    and tr: "std_tree (opposite side) b = (p, level) # rest" "tree_ok (opposite side) ((p, level) # rest)"
  shows "std_matched side px t q b ts1 0 (set_std_tree (opposite side) ((p, l) # rest) b1)"
proof -
  let ?o = "opposite side" and ?c = "crosses side px"
  have cl: "\<forall>n \<in> set level. ?c (so_price (snd n))" using tr(2) c by simp
  obtain k where s1: "spec_fill ?c t q (map rest_node level) = (ts1, q1, map rest_node l)" "k \<le> length level"
    "map tag l = drop k (map tag level)" "b1 = fold std_erase_id (take k (map node_id level)) b"
    using std_fill_level_spec [OF f(1) cl] by blast
  have q1: "q1 = 0" using std_fill_level_qty [OF f(1)] f(2) by blast
  have "tag n \<in> set (map tag level)" if "n \<in> set l" for n
    using that s1(3) by (metis imageI in_set_dropD list.set_map)
  then have "\<forall>n \<in> set l. so_price (snd n) = p" using tr(2) by (fastforce simp: tag_def)
  then have "tree_ok ?o ((p, l) # rest)" using tr(2) f(2) by simp
  moreover have "spec_fill ?c t q (map rest_node level @ map rest_node (tree_nodes rest)) =
      (ts1 @ [], 0, map rest_node l @ map rest_node (tree_nodes rest))"
    by (rule spec_fill_append [OF _ s1(1)]) (use cl in \<open>simp_all add: q1\<close>)
  moreover have "map tag (l @ tree_nodes rest) = drop k (map tag (level @ tree_nodes rest))" using s1(2,3) by simp
  moreover have "take k (map node_id (level @ tree_nodes rest)) = take k (map node_id level)" using s1(2) by simp
  ultimately show ?thesis
    unfolding std_matched_def using tr(1) s1(2)
    by (intro conjI exI [of _ k]) (simp_all add: std_nodes_def s1(4))
qed

lemma std_match_spec:
  assumes "std_match side t px q b = (ts, q', b')" "tree_ok (opposite side) (std_tree (opposite side) b)"
  shows "std_matched side px t q b ts q' b'"
  using assms
proof (induction "std_tree (opposite side) b" arbitrary: q b ts q' b')
  case Nil
  then show ?case using std_match_stop [of q side b px t] std_matched_nothing [of side b q px t] by simp
next
  case (Cons e rest)
  let ?o = "opposite side"
  obtain p level where t: "std_tree ?o b = (p, level) # rest" using Cons.hyps(2) by (metis surj_pair)
  have ok: "tree_ok ?o ((p, level) # rest)" using Cons.prems(2) t by simp
  show ?case
  proof (cases "q = 0 \<or> \<not> crosses side px p")
    case True
    then show ?thesis
      using std_match_stop [of q side b px t] std_matched_nothing [of side b q px t] Cons.prems t by auto
  next
    case False
    then have c: "crosses side px p" and q: "q \<noteq> 0" by auto
    obtain ts1 q1 l b1 where f: "std_fill_level t q level b = (ts1, q1, l, b1)" by (metis prod_cases4)
    obtain ts2 q2 b3 where m: "std_match side t px q1 (set_std_tree ?o (if l = [] then rest else (p, l) # rest) b1) = (ts2, q2, b3)"
      by (metis prod_cases3)
    have r: "ts = ts1 @ ts2" "q' = q2" "b' = b3" using std_match_step [OF t q c f m] Cons.prems(1) by auto
    show ?thesis
    proof (cases "l = []")
      case True
      then have "std_matched side px t q1 (set_std_tree ?o rest b1) ts2 q2 b3"
        using Cons.hyps(1) [of "set_std_tree ?o rest b1" q1 ts2 q2 b3] m ok by simp
      with std_matched_emptied [OF _ c t ok] f True r show ?thesis by simp
    next
      case False
      then have "q1 = 0" using std_fill_level_qty [OF f] by blast
      with m False have "ts2 = []" "q2 = 0" "b3 = set_std_tree ?o ((p, l) # rest) b1"
        using std_match_stop [of 0 side _ px t] by auto
      with std_matched_within [OF f False c t ok] r show ?thesis by simp
    qed
  qed
qed

section \<open>The hash tables\<close>

lemma set_drop_iff:
  assumes "distinct (map f xs)"
  shows "x \<in> set (drop k xs) \<longleftrightarrow> x \<in> set xs \<and> f x \<notin> f ` set (take k xs)"
proof -
  have "distinct (map f (take k xs @ drop k xs))" using assms by simp
  then have "f ` set (take k xs) \<inter> f ` set (drop k xs) = {}" unfolding map_append distinct_append by simp
  moreover have "set xs = set (take k xs) \<union> set (drop k xs)" by (metis append_take_drop_id set_append)
  ultimately show ?thesis by blast
qed

text \<open>The ids resting on the two sides.\<close>

definition std_ids :: "StdOrderBook \<Rightarrow> OrderId list" where
  "std_ids b = map node_id (std_nodes Buy b @ std_nodes Sell b)"

lemma std_ids_abs: "std_ids b = book_ids (std_abs b)"
  by (simp add: std_ids_def book_ids_def std_abs_def)

lemma std_ids_sides:
  "distinct (std_ids b) \<Longrightarrow> distinct (map node_id (std_nodes s b)) \<and>
    node_id ` set (std_nodes s b) \<inter> node_id ` set (std_nodes (opposite s) b) = {}"
  by (cases s) (auto simp: std_ids_def)

lemma index_ok_side:
  "index_ok b \<longleftrightarrow>
     (\<forall>i a. std_order_map b i = Some a \<longleftrightarrow> (\<exists>s p. (a, i, p) \<in> tag ` set (std_nodes s b))) \<and>
     (\<forall>i s. std_side_map b i = Some s \<longleftrightarrow> (\<exists>a p. (a, i, p) \<in> tag ` set (std_nodes s b))) \<and>
     std_live_count b = of_nat (length (std_nodes t b) + length (std_nodes (opposite t) b)) \<and>
     distinct (map fst (std_nodes t b @ std_nodes (opposite t) b)) \<and>
     (\<forall>s. \<forall>n \<in> set (std_nodes s b). fst n < std_next_node b)"
  unfolding index_ok_def by (cases t) (auto simp: add.commute)

lemma index_ok_dropped:
  assumes ix: "index_ok b" and d: "distinct (std_ids b)" and k: "k \<le> length (std_nodes t b)"
    and tg: "map tag (std_nodes t b') = drop k (map tag (std_nodes t b))"
    and other: "std_nodes (opposite t) b' = std_nodes (opposite t) b"
    and om: "\<And>i. std_order_map b' i = (if i \<in> set (take k (map node_id (std_nodes t b))) then None else std_order_map b i)"
    and sm: "\<And>i. std_side_map b' i = (if i \<in> set (take k (map node_id (std_nodes t b))) then None else std_side_map b i)"
    and lc: "std_live_count b' = std_live_count b - of_nat k" and nn: "std_next_node b' = std_next_node b"
  shows "index_ok b'"
proof -
  let ?G = "set (take k (map node_id (std_nodes t b)))"
  note ds = std_ids_sides [OF d, of t]
  have mem: "(a, i, p) \<in> tag ` set (std_nodes s b') \<longleftrightarrow> (a, i, p) \<in> tag ` set (std_nodes s b) \<and> i \<notin> ?G" for a i p s
  proof (cases "s = t")
    case True
    have dt: "distinct (map (\<lambda>x. fst (snd x)) (map tag (std_nodes t b)))" using ds by (simp add: tag_def comp_def)
    have "(\<lambda>x. fst (snd x)) ` set (take k (map tag (std_nodes t b))) = ?G" by (simp add: tag_def take_map image_image)
    then have "(a, i, p) \<in> set (map tag (std_nodes t b')) \<longleftrightarrow> (a, i, p) \<in> set (map tag (std_nodes t b)) \<and> i \<notin> ?G"
      using set_drop_iff [OF dt, of "(a, i, p)" k] unfolding tg by (simp del: set_map)
    then show ?thesis unfolding True set_map .
  next
    case False
    then have s: "s = opposite t" using not_side by blast
    have "?G \<subseteq> node_id ` set (std_nodes t b)" by (auto simp: take_map dest: in_set_takeD)
    then have "i \<notin> ?G" if "(a, i, p) \<in> tag ` set (std_nodes s b)" using that ds s by (auto simp: tag_def)
    with other s show ?thesis by auto
  qed
  have len: "length (std_nodes t b') = length (std_nodes t b) - k" using tg by (metis length_drop length_map)
  have fsts: "map fst (std_nodes t b') = drop k (map fst (std_nodes t b))"
    using arg_cong [OF tg, of "map fst"] by (simp add: tag_def comp_def drop_map)
  have "\<forall>n \<in> set (std_nodes s b'). fst n < std_next_node b'" for s
  proof
    fix n assume "n \<in> set (std_nodes s b')"
    then have "(fst n, node_id n, so_price (snd n)) \<in> tag ` set (std_nodes s b)"
      using mem [of "fst n" "node_id n" "so_price (snd n)" s] by (metis imageI tag_def)
    then obtain n' where "n' \<in> set (std_nodes s b)" "fst n' = fst n" by (auto simp: tag_def)
    with ix nn show "fst n < std_next_node b'" unfolding index_ok_def by metis
  qed
  moreover have "distinct (map fst (std_nodes t b' @ std_nodes (opposite t) b'))"
  proof -
    have "distinct (map fst (std_nodes t b) @ map fst (std_nodes (opposite t) b))"
      using ix unfolding index_ok_side [of b t] map_append by blast
    then show ?thesis
      using set_drop_subset [of k "map fst (std_nodes t b)"] unfolding map_append fsts other distinct_append
      by (auto simp del: set_map)
  qed
  moreover have "std_live_count b' = of_nat (length (std_nodes t b') + length (std_nodes (opposite t) b'))"
    using ix k lc len other unfolding index_ok_side [of b t] by (simp add: of_nat_diff)
  moreover have "std_order_map b' i = Some a \<longleftrightarrow> (\<exists>s p. (a, i, p) \<in> tag ` set (std_nodes s b'))" for i a
    using ix unfolding index_ok_def mem om by (simp del: set_map)
  moreover have "std_side_map b' i = Some s \<longleftrightarrow> (\<exists>a p. (a, i, p) \<in> tag ` set (std_nodes s b'))" for i s
    using ix unfolding index_ok_def mem sm by (simp del: set_map)
  ultimately show ?thesis unfolding index_ok_side [of b' t] by blast
qed

lemma set_std_tree_fields [simp]:
  "std_order_map (set_std_tree s m b) = std_order_map b" "std_side_map (set_std_tree s m b) = std_side_map b"
  "std_live_count (set_std_tree s m b) = std_live_count b" "std_next_node (set_std_tree s m b) = std_next_node b"
  "std_cfg (set_std_tree s m b) = std_cfg b" "std_next_timestamp (set_std_tree s m b) = std_next_timestamp b"
  "std_max_active_orders (set_std_tree s m b) = std_max_active_orders b"
  by (cases s; simp add: std_cfg_def)+

lemma resting_std_abs [simp]: "resting s (std_abs b) = map rest_node (std_nodes s b)"
  by (cases s) (simp_all add: std_abs_def)

lemma spec_book_eqI: "(\<And>s. resting s A = resting s B) \<Longrightarrow> A = (B :: SpecBook)"
  by (metis (full_types) SpecBook.equality old.unit.exhaust resting.simps)

lemma std_inv_parts:
  assumes "std_inv b"
  shows "tree_ok s (std_tree s b)" "index_ok b" "spec_inv (std_cfg b) (std_abs b)"
    "std_max_active_orders b < 2 ^ 64 - 1" "distinct (std_ids b)"
  using assms by (auto simp: std_inv_def std_ids_abs spec_inv_def)

section \<open>Operations\<close>

lemma std_match_rel:
  assumes "std_inv b" "std_match s i px q b = (ts, q', b')"
  shows "spec_match i px q s (std_abs b) = (ts, q', std_abs b')" "std_inv b'" "std_cfg b' = std_cfg b"
proof -
  let ?o = "opposite s"
  note inv = std_inv_parts [OF assms(1)]
  obtain k where f: "spec_fill (crosses s px) i q (map rest_node (std_nodes ?o b)) = (ts, q', map rest_node (std_nodes ?o b'))"
    and ok: "tree_ok ?o (std_tree ?o b')" and k: "k \<le> length (std_nodes ?o b)"
    and tg: "map tag (std_nodes ?o b') = drop k (map tag (std_nodes ?o b))"
    and b': "b' = set_std_tree ?o (std_tree ?o b') (fold std_erase_id (take k (map node_id (std_nodes ?o b))) b)"
    using std_match_spec [OF assms(2) inv(1)] unfolding std_matched_def by blast
  have tr: "std_tree s b' = std_tree s b" by (subst b') simp
  have fields: "std_cfg b' = std_cfg b" "std_next_node b' = std_next_node b" "std_live_count b' = std_live_count b - of_nat k"
    "std_order_map b' x = (if x \<in> set (take k (map node_id (std_nodes ?o b))) then None else std_order_map b x)"
    "std_side_map b' x = (if x \<in> set (take k (map node_id (std_nodes ?o b))) then None else std_side_map b x)" for x
    by (subst b', use k in \<open>simp add: erase_ids_fields\<close>)+
  show cfg: "std_cfg b' = std_cfg b" by (rule fields)
  have other: "std_nodes s b' = std_nodes s b" using tr by (simp add: std_nodes_def)
  have "index_ok b'"
    by (rule index_ok_dropped [OF inv(2,5) k tg _ fields(4,5,3,2)]) (simp add: other)
  moreover have "std_abs b' = set_resting ?o (map rest_node (std_nodes ?o b')) (std_abs b)"
    by (rule spec_book_eqI) (use other not_side in \<open>auto simp del: resting.simps\<close>)
  with f show m: "spec_match i px q s (std_abs b) = (ts, q', std_abs b')" by (simp add: spec_match_def)
  moreover have "tree_ok t (std_tree t b')" for t
    using ok tr inv(1) [of s] not_side [of t s] by (cases "t = s") auto
  moreover have "std_max_active_orders b' = std_max_active_orders b" using cfg by (simp add: std_cfg_def)
  ultimately show "std_inv b'" using spec_match_inv [OF inv(3) m] cfg inv(4) by (simp add: std_inv_def)
qed

text \<open>A node pushed to a level.\<close>

lemma index_ok_pushed:
  assumes ix: "index_ok b" and fresh: "so_id ord \<notin> set (std_ids b)"
    and nd: "std_nodes t b = as @ bs" "std_nodes t b' = as @ (std_next_node b, ord) # bs"
      "std_nodes (opposite t) b' = std_nodes (opposite t) b"
    and om: "std_order_map b' = (std_order_map b)(so_id ord \<mapsto> std_next_node b)"
    and sm: "std_side_map b' = (std_side_map b)(so_id ord \<mapsto> t)"
    and lc: "std_live_count b' = std_live_count b + 1" and nn: "std_next_node b' = Suc (std_next_node b)"
  shows "index_ok b'"
proof -
  let ?n = "(std_next_node b, ord)"
  have mem: "x \<in> tag ` set (std_nodes s b') \<longleftrightarrow> x \<in> tag ` set (std_nodes s b) \<or> (s = t \<and> x = tag ?n)" for x s
    using nd not_side [of s t] by (cases "s = t") auto
  have new: "(a, so_id ord, p) \<notin> tag ` set (std_nodes s b)" for a p s
    using fresh by (cases s) (auto simp: std_ids_def tag_def)
  have lt: "\<forall>n \<in> set (std_nodes s b). fst n < std_next_node b" for s using ix by (simp add: index_ok_def)
  have set: "set (std_nodes s b') = set (std_nodes s b) \<union> (if s = t then {?n} else {})" for s
    using nd not_side [of s t] by (cases "s = t") auto
  have "\<forall>n \<in> set (std_nodes s b'). fst n < std_next_node b'" for s
    using lt [of s] nn unfolding set by (auto simp: less_Suc_eq)
  moreover have "distinct (map fst (std_nodes t b' @ std_nodes (opposite t) b'))"
  proof -
    have "std_next_node b \<notin> fst ` set (std_nodes s b)" for s using lt [of s] by auto
    from this [of t] this [of "opposite t"] show ?thesis
      using ix unfolding index_ok_side [of b t] nd by auto
  qed
  moreover have "std_live_count b' = of_nat (length (std_nodes t b') + length (std_nodes (opposite t) b'))"
    using ix lc unfolding index_ok_side [of b t] nd by simp
  moreover have "std_order_map b' i = Some a \<longleftrightarrow> (\<exists>s p. (a, i, p) \<in> tag ` set (std_nodes s b'))" for i a
    using ix new unfolding index_ok_def mem om by (auto simp: tag_def simp del: set_map)
  moreover have "std_side_map b' i = Some s \<longleftrightarrow> (\<exists>a p. (a, i, p) \<in> tag ` set (std_nodes s b'))" for i s
    using ix new unfolding index_ok_def mem sm by (auto simp: tag_def simp del: set_map)
  ultimately show ?thesis unfolding index_ok_side [of b' t] by blast
qed

lemma std_rest_rel:
  assumes "std_inv b" "so_id ord \<notin> set (std_ids b)"
  shows "\<exists>b'. std_rest ord b = Some b' \<and> (\<forall>s. tree_ok s (std_tree s b')) \<and> index_ok b' \<and> std_cfg b' = std_cfg b \<and>
    std_abs b' = set_resting (so_side ord) (spec_insert (so_side ord)
      \<lparr>rid = so_id ord, rprice = so_price ord, rqty = so_quantity ord\<rparr> (resting (so_side ord) (std_abs b))) (std_abs b)"
proof -
  let ?s = "so_side ord" and ?n = "(std_next_node b, ord)"
  note inv = std_inv_parts [OF assms(1)]
  define m where "m = push_at ?s (so_price ord) ?n (std_tree ?s b)"
  have pr: "so_price (snd ?n) = so_price ord" by simp
  have it: "last_node (so_price ord) m = Some (std_next_node b)" using last_node_push [OF inv(1)] by (simp add: m_def)
  define b' where "b' = (set_std_tree ?s m (b\<lparr>std_next_node := Suc (std_next_node b)\<rparr>))
    \<lparr>std_order_map := (std_order_map b)(so_id ord \<mapsto> std_next_node b),
     std_side_map := (std_side_map b)(so_id ord \<mapsto> ?s), std_live_count := std_live_count b + 1\<rparr>"
  have r: "std_rest ord b = Some b'" using it by (cases ?s) (simp_all add: std_rest_def m_def b'_def Let_def)
  have tr: "std_tree t b' = (if t = ?s then m else std_tree t b)" for t
    by (cases t; cases ?s) (simp_all add: b'_def)
  have ok: "tree_ok t (std_tree t b')" for t
    using inv(1) [of t] push_at_ok [OF inv(1) [of ?s] pr] by (simp add: tr m_def)
  obtain as bs where sp: "std_nodes ?s b = as @ bs" "std_nodes ?s b' = as @ ?n # bs"
    using push_at_split [of "std_tree ?s b" ?s "so_price ord" ?n] by (auto simp: std_nodes_def tr m_def)
  have other: "std_nodes t b' = std_nodes t b" if "t \<noteq> ?s" for t using that by (simp add: std_nodes_def tr)
  have f: "std_order_map b' = (std_order_map b)(so_id ord \<mapsto> std_next_node b)"
    "std_side_map b' = (std_side_map b)(so_id ord \<mapsto> ?s)" "std_live_count b' = std_live_count b + 1"
    by (simp_all add: b'_def)
  have nn: "std_next_node b' = Suc (std_next_node b)" by (cases ?s) (simp_all add: b'_def)
  have ix: "index_ok b'"
    by (rule index_ok_pushed [OF inv(2) assms(2) sp _ f nn]) (rule other, simp)
  have cfg: "std_cfg b' = std_cfg b" by (cases ?s) (simp_all add: b'_def std_cfg_def)
  have "map rest_node (std_nodes ?s b') = spec_insert ?s (rest_node ?n) (map rest_node (std_nodes ?s b))"
    using push_at_insert [OF inv(1) [of ?s] pr] by (simp add: std_nodes_def tr m_def)
  then have "std_abs b' = set_resting ?s (spec_insert ?s (rest_node ?n) (resting ?s (std_abs b))) (std_abs b)"
    using other by (intro spec_book_eqI) simp
  moreover have "rest_node ?n = \<lparr>rid = so_id ord, rprice = so_price ord, rqty = so_quantity ord\<rparr>" by (simp add: rest_node_def)
  ultimately show ?thesis using r ok ix cfg by (intro exI [of _ b']) simp
qed

text \<open>A node erased from its level.\<close>

lemma index_ok_erased:
  assumes ix: "index_ok b" and d: "distinct (std_ids b)" and x: "x \<in> set (std_nodes t b)"
    and nd: "std_nodes t b' = filter (\<lambda>n. fst n \<noteq> fst x) (std_nodes t b)"
      "std_nodes (opposite t) b' = std_nodes (opposite t) b"
    and om: "std_order_map b' = (std_order_map b)(node_id x := None)"
    and sm: "std_side_map b' = (std_side_map b)(node_id x := None)"
    and lc: "std_live_count b' = std_live_count b - 1" and nn: "std_next_node b' = std_next_node b"
  shows "index_ok b'" "std_nodes s b' = filter (\<lambda>n. node_id n \<noteq> node_id x) (std_nodes s b)"
proof -
  note ds = std_ids_sides [OF d, of t]
  have df: "distinct (map fst (std_nodes t b))" "fst x \<notin> fst ` set (std_nodes (opposite t) b)"
    using ix x unfolding index_ok_side [of b t] by auto
  have same: "n = x" if "n \<in> set (std_nodes t b)" "fst n = fst x \<or> node_id n = node_id x" for n
    using that x df(1) ds by (auto simp: distinct_map dest: inj_onD)
  have t: "std_nodes t b' = filter (\<lambda>n. node_id n \<noteq> node_id x) (std_nodes t b)"
    unfolding nd(1) by (rule filter_cong) (use same in auto)
  have o: "std_nodes (opposite t) b' = filter (\<lambda>n. node_id n \<noteq> node_id x) (std_nodes (opposite t) b)"
    unfolding nd(2) using ds x by (intro filter_True [symmetric]) auto
  show nodes: "std_nodes s b' = filter (\<lambda>n. node_id n \<noteq> node_id x) (std_nodes s b)" for s
    using t o not_side [of s t] by (cases "s = t") auto
  have mem: "(a, i, p) \<in> tag ` set (std_nodes s b') \<longleftrightarrow> (a, i, p) \<in> tag ` set (std_nodes s b) \<and> i \<noteq> node_id x" for a i p s
    unfolding nodes by (auto simp: tag_def)
  obtain as bs where sp: "std_nodes t b = as @ x # bs" using x by (metis split_list)
  have "fst x \<notin> fst ` set as" "fst x \<notin> fst ` set bs" using df(1) unfolding sp by auto
  then have "filter (\<lambda>n. fst n \<noteq> fst x) as = as" "filter (\<lambda>n. fst n \<noteq> fst x) bs = bs"
    by (metis (mono_tags, lifting) filter_id_conv imageI)+
  then have "std_nodes t b' = as @ bs" unfolding nd(1) sp by simp
  then have len: "Suc (length (std_nodes t b')) = length (std_nodes t b)" by (simp add: sp)
  have "std_live_count b' = of_nat (length (std_nodes t b') + length (std_nodes (opposite t) b'))"
    using ix lc unfolding index_ok_side [of b t] nd(2) len [symmetric] by simp
  moreover have "distinct (map fst (std_nodes t b' @ std_nodes (opposite t) b'))"
    using ix unfolding index_ok_side [of b t] nd by (auto simp: distinct_map_filter)
  moreover have "\<forall>n \<in> set (std_nodes s b'). fst n < std_next_node b'" for s
    using ix unfolding nodes nn index_ok_def set_filter by blast
  moreover have "std_order_map b' i = Some a \<longleftrightarrow> (\<exists>s p. (a, i, p) \<in> tag ` set (std_nodes s b'))" for i a
    using ix unfolding index_ok_def mem om by auto
  moreover have "std_side_map b' i = Some s \<longleftrightarrow> (\<exists>a p. (a, i, p) \<in> tag ` set (std_nodes s b'))" for i s
    using ix unfolding index_ok_def mem sm by auto
  ultimately show "index_ok b'" unfolding index_ok_side [of b' t] by blast
qed

lemma std_deref_node:
  assumes "index_ok b" "x \<in> set (std_nodes s b)"
  shows "std_deref (fst x) b = Some (snd x)"
proof -
  have "distinct (map fst (std_nodes Buy b @ std_nodes Sell b))" using assms(1) by (simp add: index_ok_def)
  moreover have "x \<in> set (std_nodes Buy b @ std_nodes Sell b)" using assms(2) by (cases s) auto
  ultimately show ?thesis unfolding std_deref_def std_nodes_def std_tree.simps by (metis map_of_eq_Some_iff prod.collapse)
qed

lemma level_of_node:
  assumes "tree_ok s m" "x \<in> set (tree_nodes m)"
  shows "\<exists>l. map_of m (so_price (snd x)) = Some l \<and> x \<in> set l"
  using assms
proof (induction m)
  case (Cons e m)
  obtain p l where e: "e = (p, l)" by (cases e)
  show ?case
  proof (cases "x \<in> set l")
    case True
    then show ?thesis using Cons.prems(1) e by auto
  next
    case False
    then have x: "x \<in> set (tree_nodes m)" using Cons.prems(2) e by simp
    then have "precedes s p (so_price (snd x))" using tree_node_price [of s m x] Cons.prems(1) e by auto
    then have "so_price (snd x) \<noteq> p" by (cases s) auto
    with Cons.IH Cons.prems(1) x e show ?thesis by auto
  qed
qed simp

lemma std_known_id:
  assumes "index_ok b"
  shows "std_order_map b i \<noteq> None \<longleftrightarrow> i \<in> set (book_ids (std_abs b))"
proof
  assume "std_order_map b i \<noteq> None"
  then obtain a s p where "(a, i, p) \<in> tag ` set (std_nodes s b)" using assms unfolding index_ok_def by blast
  then show "i \<in> set (book_ids (std_abs b))" unfolding std_ids_abs [symmetric] std_ids_def by (cases s) (auto simp: tag_def)
next
  assume "i \<in> set (book_ids (std_abs b))"
  then obtain s x where "x \<in> set (std_nodes s b)" "node_id x = i" unfolding std_ids_abs [symmetric] std_ids_def by auto
  then have "(fst x, i, so_price (snd x)) \<in> tag ` set (std_nodes s b)" by (auto simp: tag_def)
  with assms show "std_order_map b i \<noteq> None" unfolding index_ok_def by (metis option.distinct(1))
qed

lemma std_cancel_rel:
  assumes "std_inv b" "i \<noteq> 0" "unat i \<le> std_max_order_id b"
  shows "\<exists>r b'. std_cancel_order i b = Some (r, b') \<and> spec_cancel (std_cfg b) i (std_abs b) = (r, std_abs b') \<and>
    std_inv b' \<and> std_cfg b' = std_cfg b"
proof (cases "std_order_map b i")
  case None
  note inv = std_inv_parts [OF assms(1)]
  have "i \<notin> set (book_ids (std_abs b))" using std_known_id [OF inv(2), of i] None by simp
  with None assms show ?thesis by (simp add: std_cancel_order_def spec_cancel_def std_cfg_def)
next
  case (Some a)
  note inv = std_inv_parts [OF assms(1)]
  obtain s p where at: "(a, i, p) \<in> tag ` set (std_nodes s b)" using inv(2) Some unfolding index_ok_def by blast
  then obtain x where x: "x \<in> set (std_nodes s b)" "fst x = a" "node_id x = i" by (auto simp: tag_def)
  have sm: "std_side_map b i = Some s" using inv(2) at unfolding index_ok_def by blast
  obtain l where l: "map_of (std_tree s b) (so_price (snd x)) = Some l" "x \<in> set l"
    using level_of_node [OF inv(1) [of s], of x] x(1) unfolding std_nodes_def by blast
  define b' where "b' = std_erase_id i (set_std_tree s (erase_at (so_price (snd x)) a (std_tree s b)) b)"
  have c: "std_cancel_order i b = Some (Accepted, b')"
    using Some std_deref_node [OF inv(2) x(1)] x(2) sm l by (simp add: std_cancel_order_def b'_def image_iff) blast
  have tr: "std_tree t b' = (if t = s then erase_at (so_price (snd x)) a (std_tree s b) else std_tree t b)" for t
    by (simp add: b'_def)
  have uniq: "\<forall>n \<in> set (tree_nodes (std_tree s b)). fst n = a \<longrightarrow> so_price (snd n) = so_price (snd x)"
  proof (intro ballI impI)
    fix n assume "n \<in> set (tree_nodes (std_tree s b))" "fst n = a"
    then show "so_price (snd n) = so_price (snd x)"
      using std_deref_node [OF inv(2), of n s] std_deref_node [OF inv(2) x(1)] x(2) by (simp add: std_nodes_def)
  qed
  have nd: "std_nodes s b' = filter (\<lambda>n. fst n \<noteq> fst x) (std_nodes s b)" "std_nodes (opposite s) b' = std_nodes (opposite s) b"
    using erase_at_nodes [OF inv(1) uniq] x(2) by (simp_all add: std_nodes_def tr)
  have f: "std_order_map b' = (std_order_map b)(node_id x := None)" "std_side_map b' = (std_side_map b)(node_id x := None)"
    "std_live_count b' = std_live_count b - 1" "std_next_node b' = std_next_node b"
    and cfg: "std_cfg b' = std_cfg b"
    using x(3) by (simp_all add: b'_def std_erase_id_def std_cfg_def) (cases s; simp)+
  note er = index_ok_erased [OF inv(2,5) x(1) nd f]
  have abs: "std_abs b' = spec_remove i (std_abs b)"
    by (simp add: std_abs_def er(2) x(3) spec_remove_def filter_map comp_def)
  have "i \<in> set (book_ids (std_abs b))"
    using x unfolding std_ids_abs [symmetric] std_ids_def by (cases s) auto
  then have sc: "spec_cancel (std_cfg b) i (std_abs b) = (Accepted, std_abs b')"
    using assms(2,3) by (simp add: spec_cancel_def abs std_cfg_def)
  moreover have "tree_ok t (std_tree t b')" for t using inv(1) [of t] erase_at_ok [OF inv(1) [of s]] by (simp add: tr)
  moreover have "spec_inv (std_cfg b') (std_abs b')" using spec_cancel_inv [OF inv(3), of i] sc cfg by simp
  moreover have "std_max_active_orders b' = std_max_active_orders b" using cfg by (simp add: std_cfg_def)
  ultimately show ?thesis using c er(1) cfg inv(4) by (simp add: std_inv_def)
qed

text \<open>The capacity test, on a 64-bit counter, is a comparison with the number of orders.\<close>

lemma std_full:
  assumes "std_inv b"
  shows "unat (std_live_count b + 1) > std_max_active_orders b \<longleftrightarrow> cfg_capacity (std_cfg b) \<le> book_size (std_abs b)"
proof -
  note inv = std_inv_parts [OF assms]
  have n: "book_size (std_abs b) = length (std_nodes Buy b) + length (std_nodes Sell b)" by (simp add: book_size_def std_abs_def)
  then have "std_live_count b + 1 = of_nat (book_size (std_abs b) + 1)" using inv(2) by (simp add: index_ok_def)
  moreover have "book_size (std_abs b) \<le> std_max_active_orders b" using inv(3) by (simp add: spec_inv_def std_cfg_def)
  ultimately have "unat (std_live_count b + 1) = book_size (std_abs b) + 1"
    using inv(4) by (simp add: unat_of_nat del: of_nat_add of_nat_Suc)
  then show ?thesis by (auto simp: std_cfg_def)
qed

lemma std_clock:
  "std_inv (b\<lparr>std_next_timestamp := x\<rparr>) = std_inv b" "std_abs (b\<lparr>std_next_timestamp := x\<rparr>) = std_abs b"
  "std_cfg (b\<lparr>std_next_timestamp := x\<rparr>) = std_cfg b"
proof -
  have t: "std_tree s (b\<lparr>std_next_timestamp := x\<rparr>) = std_tree s b" for s by (cases s) simp_all
  then have n: "std_nodes s (b\<lparr>std_next_timestamp := x\<rparr>) = std_nodes s b" for s by (simp add: std_nodes_def)
  show abs: "std_abs (b\<lparr>std_next_timestamp := x\<rparr>) = std_abs b" and "std_cfg (b\<lparr>std_next_timestamp := x\<rparr>) = std_cfg b"
    by (simp_all add: std_abs_def n std_cfg_def)
  then show "std_inv (b\<lparr>std_next_timestamp := x\<rparr>) = std_inv b" by (simp add: std_inv_def index_ok_def n t)
qed

lemma std_rest_inv:
  assumes "std_inv b" "cfg_capacity (std_cfg b) > book_size (std_abs b)"
    and "spec_rest (std_cfg b) (so_id ord) (so_price ord) (so_quantity ord) (so_side ord) (std_abs b) = (Accepted, B)"
    and "spec_inv (std_cfg b) B" "so_id ord \<notin> set (book_ids (std_abs b))"
  shows "\<exists>b'. std_rest ord b = Some b' \<and> std_abs b' = B \<and> std_inv b' \<and> std_cfg b' = std_cfg b"
proof -
  obtain b' where b': "std_rest ord b = Some b'" "\<forall>s. tree_ok s (std_tree s b')" "index_ok b'" "std_cfg b' = std_cfg b"
    "std_abs b' = set_resting (so_side ord) (spec_insert (so_side ord)
      \<lparr>rid = so_id ord, rprice = so_price ord, rqty = so_quantity ord\<rparr> (resting (so_side ord) (std_abs b))) (std_abs b)"
    using std_rest_rel [OF assms(1), of ord] assms(5) std_ids_abs by metis
  then have "std_abs b' = B" using assms(2,3) by (simp add: spec_rest_def)
  moreover have "std_max_active_orders b' = std_max_active_orders b" using b'(4) by (simp add: std_cfg_def)
  ultimately show ?thesis using b'(1,2,3,4) assms(4) std_inv_parts(4) [OF assms(1)] by (simp add: std_inv_def)
qed

lemma std_submit_rel:
  assumes inv: "std_inv b" and chk: "spec_check (std_cfg b) i type px q s (std_abs b) = None" "type \<noteq> Cancel"
    and m: "std_match s i (limit_of type s px) q b = (ts, q', b1)"
    and ord: "so_id ord = i" "so_price ord = limit_of type s px" "so_quantity ord = q'" "so_side ord = s"
  shows "\<exists>r b'. std_finish type q ts ord b1 = Some (r, b') \<and> spec_submit (std_cfg b) i type px q s (std_abs b) = (r, std_abs b') \<and>
    std_inv b' \<and> std_cfg b' = std_cfg b"
proof -
  note rel = std_match_rel [OF inv m]
  have si: "spec_inv (std_cfg b) (snd (spec_submit (std_cfg b) i type px q s (std_abs b)))"
    using spec_add_inv [OF std_inv_parts(3) [OF inv], of i type px q s] chk by (simp add: spec_add_def)
  show ?thesis
  proof (cases "q' = 0 \<or> type = Market")
    case True
    then have "\<not> (so_quantity ord > 0 \<and> type = Limit)" using ord by auto
    with True rel ord show ?thesis by (auto simp: std_finish_def spec_submit_def)
  next
    case False
    then have lim: "type = Limit" "q' > 0" "limit_of type s px = px" using chk(2) by (cases type; simp add: limit_of_def word_gt_0)+
    show ?thesis
    proof (cases "cfg_capacity (std_cfg b) \<le> book_size (std_abs b1)")
      case True
      have "book_size (std_abs b1) + length ts = book_size (std_abs b)" using match_frees(1) [OF rel(1)] False by blast
      moreover have "book_size (std_abs b) \<le> cfg_capacity (std_cfg b)" using std_inv_parts(3) [OF inv] by (simp add: spec_inv_def)
      ultimately have "length ts = 0" using True by linarith
      then have ts: "ts = []" by simp
      then have "q' = q" using rel(1) spec_fill_conserves by (fastforce elim!: spec_match_fill simp: unat_arith_simps)
      with True False lim ord rel ts std_full [OF rel(2)] show ?thesis
        by (auto simp: std_finish_def spec_submit_def spec_rest_def)
    next
      case nf: False
      then obtain B where B: "spec_rest (std_cfg b) i px q' s (std_abs b1) = (Accepted, B)" by (simp add: spec_rest_def)
      then have sub: "spec_submit (std_cfg b) i type px q s (std_abs b) = (mk_result Accepted (q - q') ts, B)"
        using rel(1) False by (simp add: spec_submit_def)
      have "i \<notin> set (book_ids (std_abs b1))"
        using chk(1) spec_match_ids [OF rel(1)] by (auto simp: spec_check_def split: if_splits)
      then obtain b' where "std_rest ord b1 = Some b'" "std_abs b' = B" "std_inv b'" "std_cfg b' = std_cfg b1"
        using std_rest_inv [OF rel(2), of ord B] nf B si sub ord lim(3) rel(3) by auto
      with nf lim ord rel(3) sub std_full [OF rel(2)] show ?thesis by (auto simp: std_finish_def)
    qed
  qed
qed

lemma std_add_rel:
  assumes inv: "std_inv b" and ids: "type = Cancel \<longrightarrow> i \<noteq> 0 \<and> unat i \<le> std_max_order_id b"
  shows "\<exists>r b'. std_add_order i type px q s b = Some (r, b') \<and> spec_add (std_cfg b) i type px q s (std_abs b) = (r, std_abs b') \<and>
    std_inv b' \<and> std_cfg b' = std_cfg b"
proof (cases "type = Cancel")
  case True
  with std_cancel_rel [OF inv, of i] ids show ?thesis by (auto simp: std_add_order_def spec_add_def)
next
  case nc: False
  have emp: "(if s = Buy then std_asks b = [] else std_bids b = []) \<longleftrightarrow> resting (opposite s) (std_abs b) = []"
  proof -
    have "std_tree t b = [] \<longleftrightarrow> std_nodes t b = []" for t
      using std_inv_parts(1) [OF inv, of t] by (cases "std_tree t b") (auto simp: std_nodes_def)
    from this [of Buy] this [of Sell] show ?thesis by (cases s) auto
  qed
  note known = std_known_id [OF std_inv_parts(2) [OF inv], of i]
  show ?thesis
  proof (cases "spec_check (std_cfg b) i type px q s (std_abs b)")
    case (Some r)
    then have "std_add_order i type px q s b = Some (mk_result r 0 [], b)"
      unfolding std_add_order_def spec_check_def emp known using nc by (auto simp: std_cfg_def split: if_splits)
    with Some nc inv show ?thesis by (simp add: spec_add_def)
  next
    case None
    define b0 where "b0 = b\<lparr>std_next_timestamp := std_next_timestamp b + 1\<rparr>"
    define ord where "ord = \<lparr>so_id = i, so_price = limit_of type s px, so_quantity = q, so_side = s, so_type = type,
      so_timestamp = std_next_timestamp b\<rparr>"
    obtain ts q' b1 where m: "std_match s i (limit_of type s px) q b0 = (ts, q', b1)" by (metis prod_cases3)
    have add: "std_add_order i type px q s b = std_finish type q ts (ord\<lparr>so_quantity := q'\<rparr>) b1"
      unfolding std_add_order_def emp known using None nc m
      by (auto simp: spec_check_def std_cfg_def limit_of_def ord_def b0_def Let_def split: if_splits)
    have b0: "std_inv b0" "std_abs b0 = std_abs b" "std_cfg b0 = std_cfg b" using inv by (simp_all add: b0_def std_clock)
    have "\<exists>r b'. std_finish type q ts (ord\<lparr>so_quantity := q'\<rparr>) b1 = Some (r, b') \<and>
        spec_submit (std_cfg b0) i type px q s (std_abs b0) = (r, std_abs b') \<and> std_inv b' \<and> std_cfg b' = std_cfg b0"
      by (rule std_submit_rel [OF b0(1) _ nc m]) (use None b0 in \<open>simp_all add: ord_def\<close>)
    with None nc add b0 show ?thesis by (simp add: spec_add_def)
  qed
qed

section \<open>The reference book as an engine\<close>

fun std_step :: "Request \<Rightarrow> StdOrderBook \<Rightarrow> (Outcome \<times> StdOrderBook) option" where
  "std_step (Add i ty px q s) b = do {
     (r, b') \<leftarrow> std_add_order i ty px q s b;
     Some (Added r, b')
   }"
| "std_step (CancelId i) b = do {
     (r, b') \<leftarrow> std_cancel_order i b;
     Some (Cancelled r, b')
   }"

text \<open>
  The reference book has no range check on cancelled ids: it answers \<open>CancelFailed\<close> where the
  engine answers \<open>OutOfBoundsOrderId\<close>. The contract covers the requests that stay in range.
\<close>

fun cancels_in_range :: "Config \<Rightarrow> Request \<Rightarrow> bool" where
  "cancels_in_range c (Add i ty px q s) = (ty = Cancel \<longrightarrow> i \<noteq> 0 \<and> unat i \<le> cfg_max_id c)"
| "cancels_in_range c (CancelId i) = (i \<noteq> 0 \<and> unat i \<le> cfg_max_id c)"

lemma std_max_id: "cfg_max_id (std_cfg b) = std_max_order_id b"
  by (simp add: std_cfg_def)

interpretation std: matching_engine std_step std_inv std_abs std_cfg cancels_in_range
proof
  show "\<exists>r b'. std_step x b = Some (r, b') \<and> spec_step (std_cfg b) x (std_abs b) = (r, std_abs b') \<and> std_inv b' \<and> std_cfg b' = std_cfg b"
    if "std_inv b" "cancels_in_range (std_cfg b) x" for b x
  proof (cases x)
    case (Add i ty px q s)
    with std_add_rel [OF that(1), of ty i px q s] that(2) std_max_id show ?thesis by auto
  next
    case (CancelId i)
    with std_cancel_rel [OF that(1), of i] that(2) std_max_id show ?thesis by auto
  qed
qed (rule std_inv_parts(3))

lemma std_new_inv:
  assumes "max_active < 2 ^ 64 - 1"
  shows "std_inv (StdOrderBook_new max_id max_active minp maxp)"
    "std_abs (StdOrderBook_new max_id max_active minp maxp) = spec_empty"
    "std_cfg (StdOrderBook_new max_id max_active minp maxp) =
      \<lparr>cfg_max_id = max_id, cfg_capacity = max_active, cfg_min = minp, cfg_max = maxp\<rparr>"
proof -
  let ?b = "StdOrderBook_new max_id max_active minp maxp"
  have t: "std_tree s ?b = []" for s by (cases s) (simp_all add: StdOrderBook_new_def)
  then have n: "std_nodes s ?b = []" for s by (simp add: std_nodes_def)
  show a: "std_abs ?b = spec_empty" by (simp add: std_abs_def n spec_empty_def)
  show "std_cfg ?b = \<lparr>cfg_max_id = max_id, cfg_capacity = max_active, cfg_min = minp, cfg_max = maxp\<rparr>"
    by (simp add: std_cfg_def StdOrderBook_new_def)
  have "index_ok ?b" by (simp add: index_ok_def n) (simp add: StdOrderBook_new_def)
  with assms show "std_inv ?b" by (simp add: std_inv_def t a spec_inv_empty) (simp add: StdOrderBook_new_def)
qed

section \<open>Introspection\<close>

lemma std_count_abs:
  assumes "std_inv b"
  shows "unat (std_active_order_count b) = book_size (std_abs b)"
proof -
  note inv = std_inv_parts [OF assms]
  have "std_live_count b = of_nat (book_size (std_abs b))" using inv(2) by (simp add: index_ok_def book_size_def std_abs_def)
  moreover have "book_size (std_abs b) < 2 ^ 64" using inv(3,4) by (simp add: spec_inv_def std_cfg_def)
  ultimately show ?thesis by (simp add: std_active_order_count_def unat_of_nat)
qed

lemma std_exists_abs: "std_inv b \<Longrightarrow> std_order_exists i b \<longleftrightarrow> i \<in> set (book_ids (std_abs b))"
  using std_known_id [OF std_inv_parts(2)] by (simp add: std_order_exists_def)

lemma std_side_map_abs:
  assumes "std_inv b"
  shows "std_side_map_size b = book_size (std_abs b)"
proof -
  note inv = std_inv_parts [OF assms]
  have "std_side_map b i \<noteq> None \<longleftrightarrow> (\<exists>s a p. (a, i, p) \<in> tag ` set (std_nodes s b))" for i
    using inv(2) unfolding index_ok_def by blast
  moreover have "std_order_map b i \<noteq> None \<longleftrightarrow> (\<exists>s a p. (a, i, p) \<in> tag ` set (std_nodes s b))" for i
    using inv(2) unfolding index_ok_def by blast
  ultimately have "dom (std_side_map b) = set (book_ids (std_abs b))" using std_known_id [OF inv(2)] by (simp add: dom_def)
  then show ?thesis
    using inv(5) distinct_card [of "std_ids b"] by (simp add: std_side_map_size_def std_ids_abs book_ids_def book_size_def)
qed

lemma tree_prices: "tree_ok s m \<Longrightarrow> (\<lambda>n. so_price (snd n)) ` set (tree_nodes m) = fst ` set m"
proof (induction m)
  case (Cons e m)
  obtain p l where e: "e = (p, l)" by (cases e)
  then have "l \<noteq> []" "\<forall>n \<in> set l. so_price (snd n) = p" using Cons.prems by auto
  then have "(\<lambda>n. so_price (snd n)) ` set l = {p}" by (cases l) auto
  with Cons e show ?case by (simp add: image_Un)
qed simp

lemma std_levels_abs:
  assumes "std_inv b"
  shows "std_price_level_count s b = card (rprice ` set (resting s (std_abs b)))"
proof -
  have ok: "tree_ok s (std_tree s b)" using std_inv_parts(1) [OF assms] .
  have "distinct xs" if "sorted_wrt (precedes s) xs" for xs
    using that by (induction xs; cases s) auto
  then have "distinct (map fst (std_tree s b))" using ok by (simp add: tree_ok_def)
  then have "card (fst ` set (std_tree s b)) = length (std_tree s b)" by (metis distinct_card length_map list.set_map)
  moreover have "rprice ` set (resting s (std_abs b)) = (\<lambda>n. so_price (snd n)) ` set (std_nodes s b)" by (simp add: image_image)
  ultimately show ?thesis
    using tree_prices [OF ok] by (cases s) (simp_all add: std_price_level_count_def std_nodes_def)
qed

end
