(* ===== verification/Fuzz_Driver.thy ===== *)
theory Fuzz_Driver
  imports Std_Refine Book_Access
begin

text \<open>
  Differential testing: the engine and the reference book agree on every session in which the
  cancelled ids are in range, and the driver of \<open>src/tools/fuzz_driver.cpp\<close>, which turns a
  byte string into such a session and traps on the first difference, never traps.
\<close>

section \<open>Agreement of the two books\<close>

definition agree :: "Env \<Rightarrow> OrderBook \<Rightarrow> StdOrderBook \<Rightarrow> bool" where
  "agree E b r \<longleftrightarrow> engine_inv E b \<and> std_inv r \<and> cfg_of b = std_cfg r \<and> book_abs b = std_abs r"

lemma agree_new:
  assumes "OrderBook_new E max_id max_active minp maxp = Some b" "max_active \<le> kMaxPoolCapacity"
  shows "agree E b (StdOrderBook_new max_id max_active minp maxp)"
proof -
  have "max_active < 2 ^ 64 - 1" using assms(2) by (simp add: kMaxPoolCapacity_def)
  note n = std_new_inv [OF this, of max_id minp maxp]
  show ?thesis using n new_engine_inv [OF assms(1)] OrderBook_new_abs(1,2) [OF assms(1)] assms(2)
    by (simp add: agree_def min_def)
qed

lemma agree_run:
  assumes "agree E b r" "\<forall>x \<in> set xs. cancels_in_range (cfg_of b) x"
  shows "\<exists>rs b' r'. run (engine_step E) xs b = Some (rs, b') \<and> run std_step xs r = Some (rs, r') \<and>
    agree E b' r' \<and> cfg_of b' = cfg_of b"
proof -
  have a: "engine_inv E b" "std_inv r" "cfg_of b = std_cfg r" "book_abs b = std_abs r" using assms(1) by (simp_all add: agree_def)
  obtain rs b' where 1: "run (engine_step E) xs b = Some (rs, b')" "spec_run (cfg_of b) xs (book_abs b) = (rs, book_abs b')"
    "engine_inv E b'" "cfg_of b' = cfg_of b"
    using eng.run_refines [OF a(1), of xs] by auto
  obtain rs' r' where 2: "run std_step xs r = Some (rs', r')" "spec_run (std_cfg r) xs (std_abs r) = (rs', std_abs r')"
    "std_inv r'" "std_cfg r' = std_cfg r"
    using std.run_refines [OF a(2), of xs] assms(2) a(3) by auto
  from 1 2 a(3,4) show ?thesis by (auto simp: agree_def)
qed

lemma agree_step:
  assumes "agree E b r" "cancels_in_range (cfg_of b) x"
  shows "\<exists>y b' r'. engine_step E x b = Some (y, b') \<and> std_step x r = Some (y, r') \<and> agree E b' r' \<and> cfg_of b' = cfg_of b"
  using agree_run [OF assms(1), of "[x]"] assms(2) by (auto split: Option.bind_splits)

text \<open>Every query the two books share has the same answer.\<close>

lemma agree_queries:
  assumes "agree E b r"
  shows "active_order_count b = std_active_order_count r" "order_exists i b = std_order_exists i r"
    "price_level_count s b = std_price_level_count s r" "std_side_map_size r = unat (active_order_count b)"
proof -
  have bi: "book_inv E b" and ri: "std_inv r" and ab: "book_abs b = std_abs r" using assms by (simp_all add: agree_def engine_inv_def)
  show "active_order_count b = std_active_order_count r"
    using active_order_count_abs [OF bi] std_count_abs [OF ri] ab by (metis unat_inj_iff)
  show "order_exists i b = std_order_exists i r" using order_exists_abs [OF bi] std_exists_abs [OF ri] ab by simp
  show "price_level_count s b = std_price_level_count s r" using price_level_count_abs [OF bi] std_levels_abs [OF ri] ab by simp
  show "std_side_map_size r = unat (active_order_count b)" using active_order_count_abs [OF bi] std_side_map_abs [OF ri] ab by simp
qed

section \<open>The driver\<close>

text \<open>
  The script over the input bytes. A buffer has fewer than \<open>2\<^sup>6\<^sup>3\<close> bytes, so positions are
  natural numbers. Past the end every byte is the low byte of the position, which stays put.
\<close>

record Script =
  script_data :: "u8 list"
  script_pos :: nat

definition script_size :: "Script \<Rightarrow> nat" where
  "script_size s = length (script_data s)"

definition script_byte :: "Script \<Rightarrow> u32 \<times> Script" where
  "script_byte s =
     (if script_pos s < script_size s
      then (ucast (script_data s ! script_pos s), s\<lparr>script_pos := script_pos s + 1\<rparr>)
      else (of_nat (script_pos s) AND 0xFF, s))"

fun script_shift :: "nat \<Rightarrow> u32 \<Rightarrow> Script \<Rightarrow> u32 \<times> Script" where
  "script_shift 0 v s = (v, s)"
| "script_shift (Suc n) v s = (let (x, s) = script_byte s in script_shift n (push_bit 8 v OR x) s)"

definition script_next :: "Script \<Rightarrow> u32 \<times> Script" where
  "script_next s = script_shift 4 0 s"

text \<open>A failed comparison traps: the tag and the number of the operation.\<close>

definition AssertEq64 :: "u64 \<Rightarrow> u64 \<Rightarrow> string \<Rightarrow> nat \<Rightarrow> (string \<times> nat) option" where
  "AssertEq64 a b what op = (if a \<noteq> b then Some (what, op) else None)"

fun first_trap :: "(string \<times> nat) option list \<Rightarrow> (string \<times> nat) option" where
  "first_trap [] = None"
| "first_trap (None # xs) = first_trap xs"
| "first_trap (Some t # xs) = Some t"

definition MIN_P :: Price where "MIN_P = 500"
definition MAX_P :: Price where "MAX_P = 2500"
definition ID_SPAN :: u32 where "ID_SPAN = 400"
definition POOL :: nat where "POOL = 500"
definition max_ops :: nat where "max_ops = 512"

definition script_op :: "Script \<Rightarrow> Request \<times> Script" where
  "script_op s =
     (let (chunk, s) = script_next s;
          kind = chunk mod 10;
          (x, s) = script_next s;
          id = 1 + x mod ID_SPAN;
          (y, s) = script_next s;
          qty = 1 + y mod 50;
          (z, s) = script_next s;
          price = MIN_P + z mod (MAX_P - MIN_P + 1);
          side = (if chunk AND 0x8000 \<noteq> 0 then Buy else Sell);
          type = (if kind = 9 then Cancel else if kind = 8 then Market else Limit)
      in (case type of
            Cancel \<Rightarrow> CancelId id
          | Market \<Rightarrow> Add id Market 0 qty side
          | Limit \<Rightarrow> Add id Limit price qty side, s))"

text \<open>The code, the fill and the trades of a call; a cancellation leaves \<open>ef\<close> and \<open>et\<close> as reset.\<close>

fun outcome_parts :: "Outcome \<Rightarrow> RejectReason \<times> Quantity \<times> Trade list" where
  "outcome_parts (Added r) = (res_reason r, res_filled r, res_trades r)"
| "outcome_parts (Cancelled r) = (r, 0, [])"

definition compare_op :: "nat \<Rightarrow> Outcome \<Rightarrow> Outcome \<Rightarrow> OrderBook \<Rightarrow> StdOrderBook \<Rightarrow> (string \<times> nat) option" where
  "compare_op op e r engine ref =
     (let (er, ef, et) = outcome_parts e; (rr, rf, rt) = outcome_parts r in
      first_trap
        ([AssertEq64 (ucast (reason_u8 er)) (ucast (reason_u8 rr)) ''reject code'' op,
          AssertEq64 (ucast ef) (ucast rf) ''filled qty'' op,
          AssertEq64 (of_nat (length et)) (of_nat (length rt)) ''trade count'' op] @
         concat (map (\<lambda>(t, u).
           [AssertEq64 (ucast (maker_id t)) (ucast (maker_id u)) ''maker'' op,
            AssertEq64 (ucast (trade_price t)) (ucast (trade_price u)) ''price'' op,
            AssertEq64 (ucast (trade_quantity t)) (ucast (trade_quantity u)) ''qty'' op]) (zip et rt)) @
         [AssertEq64 (active_order_count engine) (std_active_order_count ref) ''resting count'' op]))"

datatype FuzzEnd = Trapped string nat | Returned nat

text \<open>
  The loop, with the number of operations still allowed. The value \<open>Returned n\<close> carries the
  number of operations made; \<open>None\<close> is a call that does not return.
\<close>

fun fuzz_loop :: "Env \<Rightarrow> nat \<Rightarrow> nat \<Rightarrow> Script \<Rightarrow> OrderBook \<Rightarrow> StdOrderBook \<Rightarrow> FuzzEnd option" where
  "fuzz_loop E 0 op s engine ref = Some (Returned op)"
| "fuzz_loop E (Suc n) op s engine ref =
     (if script_pos s + 4 \<le> script_size s + 4 then do {
        let (x, s) = script_op s;
        (e, engine) \<leftarrow> engine_step E x engine;
        (r, ref) \<leftarrow> std_step x ref;
        (case compare_op op e r engine ref of
           Some (what, k) \<Rightarrow> Some (Trapped what k)
         | None \<Rightarrow> fuzz_loop E n (Suc op) s engine ref)
      }
      else Some (Returned op))"

definition LLVMFuzzerTestOneInput :: "Env \<Rightarrow> u8 list \<Rightarrow> FuzzEnd option" where
  "LLVMFuzzerTestOneInput E data =
     (if length data < 16 then Some (Returned 0)
      else do {
        engine \<leftarrow> OrderBook_new E (unat ID_SPAN) POOL MIN_P MAX_P;
        let ref = StdOrderBook_new (unat ID_SPAN) POOL MIN_P MAX_P;
        fuzz_loop E max_ops 0 \<lparr>script_data = data, script_pos = 0\<rparr> engine ref
      })"

section \<open>The driver never traps\<close>

lemma script_shift_pos:
  "script_shift n v s = (w, s') \<Longrightarrow> script_pos s \<le> script_size s \<Longrightarrow>
   script_pos s' \<le> script_size s'"
  by (induction n arbitrary: v s) (auto simp: script_byte_def script_size_def split: if_splits)

lemma script_shift_full:
  "script_shift n v s = (w, s') \<Longrightarrow> script_pos s + n \<le> script_size s \<Longrightarrow>
   script_pos s' = script_pos s + n \<and> script_size s' = script_size s"
  by (induction n arbitrary: v s) (auto simp: script_byte_def script_size_def split: if_splits)

lemma script_op_split:
  assumes "script_op s = (x, s')"
  obtains chunk s1 i s2 q s3 p where "script_next s = (chunk, s1)" "script_next s1 = (i, s2)" "script_next s2 = (q, s3)"
    "script_next s3 = (p, s')"
    "x = CancelId (1 + i mod ID_SPAN) \<or> (\<exists>side. x = Add (1 + i mod ID_SPAN) Market 0 (1 + q mod 50) side \<or>
       x = Add (1 + i mod ID_SPAN) Limit (MIN_P + p mod (MAX_P - MIN_P + 1)) (1 + q mod 50) side)"
proof -
  obtain v1 s1 where 1: "script_next s = (v1, s1)" by fastforce
  obtain v2 s2 where 2: "script_next s1 = (v2, s2)" by fastforce
  obtain v3 s3 where 3: "script_next s2 = (v3, s3)" by fastforce
  obtain v4 s4 where 4: "script_next s3 = (v4, s4)" by fastforce
  have "s' = s4" using assms 1 2 3 4 by (simp add: script_op_def Let_def)
  moreover have "x = CancelId (1 + v2 mod ID_SPAN) \<or> (\<exists>side. x = Add (1 + v2 mod ID_SPAN) Market 0 (1 + v3 mod 50) side \<or>
      x = Add (1 + v2 mod ID_SPAN) Limit (MIN_P + v4 mod (MAX_P - MIN_P + 1)) (1 + v3 mod 50) side)"
    using assms 1 2 3 4 by (cases "v1 mod 10 = 9"; cases "v1 mod 10 = 8") (auto simp: script_op_def Let_def)
  ultimately show thesis using that 1 2 3 4 by blast
qed

lemma script_op_pos:
  assumes "script_op s = (x, s')" "script_pos s \<le> script_size s"
  shows "script_pos s' \<le> script_size s'"
  using assms(1) by (rule script_op_split) (use assms(2) script_shift_pos in \<open>metis script_next_def\<close>)

text \<open>Every request of a script is in range.\<close>

lemma plus_mod_bounds:
  assumes "unat b + n \<le> 2 ^ 32" "0 < n"
  shows "unat (b + v mod word_of_nat n :: u32) \<in> {unat b..<unat b + n}"
proof -
  have n: "n \<le> 2 ^ 32" using assms(1) by simp
  show ?thesis
  proof (cases "n = 2 ^ 32")
    case True
    then show ?thesis using assms(1) unat_max_less [of "b + v mod word_of_nat n"] by simp
  next
    case False
    then have "unat (v mod word_of_nat n) = unat v mod n" using n by (simp add: unat_mod unat_of_nat)
    moreover have "unat v mod n < n" using assms(2) by simp
    ultimately have m: "unat (v mod word_of_nat n) < n" by simp
    then have "unat (b + v mod word_of_nat n) = unat b + unat (v mod word_of_nat n)"
      using assms(1) by (subst unat_add_lem [THEN iffD1]) simp_all
    with m show ?thesis by simp
  qed
qed

lemma script_id: "unat (1 + v mod ID_SPAN) \<in> {1..400}"
  using plus_mod_bounds [of 1 400 v] by (auto simp: ID_SPAN_def)

lemma script_op_range:
  assumes "script_op s = (x, s')"
  shows "cancels_in_range \<lparr>cfg_max_id = unat ID_SPAN, cfg_capacity = c, cfg_min = lo, cfg_max = hi\<rparr> x"
proof -
  have "1 + v mod ID_SPAN \<noteq> 0 \<and> unat (1 + v mod ID_SPAN) \<le> unat ID_SPAN" for v :: u32
    using script_id [of v] by (auto simp: ID_SPAN_def word_unat_eq_iff)
  with assms show ?thesis by (auto elim!: script_op_split)
qed

lemma first_trap_None: "\<forall>x \<in> set xs. x = None \<Longrightarrow> first_trap xs = None"
  by (induction xs rule: first_trap.induct) auto

lemma compare_same:
  assumes "active_order_count b = std_active_order_count r"
  shows "compare_op op y y b r = None"
proof -
  obtain er ef et where "outcome_parts y = (er, ef, et)" by (metis prod_cases3)
  then show ?thesis using assms by (auto simp: compare_op_def AssertEq64_def in_set_zip intro!: first_trap_None)
qed

lemma fuzz_loop_ok:
  assumes "agree E b r" "cfg_of b = \<lparr>cfg_max_id = unat ID_SPAN, cfg_capacity = c, cfg_min = lo, cfg_max = hi\<rparr>"
    "script_pos s \<le> script_size s"
  shows "fuzz_loop E n op s b r = Some (Returned (op + n))"
  using assms
proof (induction n arbitrary: op s b r)
  case (Suc n)
  obtain x s' where x: "script_op s = (x, s')" by fastforce
  have "cancels_in_range (cfg_of b) x" using script_op_range [OF x] Suc.prems(2) by simp
  from agree_step [OF Suc.prems(1) this] obtain y b' r' where
    st: "engine_step E x b = Some (y, b')" "std_step x r = Some (y, r')" "agree E b' r'" "cfg_of b' = cfg_of b"
    by blast
  have "fuzz_loop E n (Suc op) s' b' r' = Some (Returned (Suc op + n))"
    using Suc.IH [OF st(3)] Suc.prems(2) st(4) script_op_pos [OF x Suc.prems(3)] by simp
  with Suc.prems(3) x st(1,2) compare_same [OF agree_queries(1) [OF st(3)]] show ?case by simp
qed simp

section \<open>Properties\<close>

text \<open>
  C4: the engine and the reference book, built with the same limits, give the same results (code,
  fill and trades, in order) in every session whose cancellations name ids in range, whatever
  the build flavor; afterwards every query the two share has the same answer and the side index
  of the reference book has one entry per resting order.
\<close>

theorem std_engine_agree:
  assumes "OrderBook_new E max_id max_active minp maxp = Some b" "max_active \<le> kMaxPoolCapacity"
    and "\<forall>x \<in> set xs. cancels_in_range (cfg_of b) x"
  shows "\<exists>rs b' r'. run (engine_step E) xs b = Some (rs, b') \<and>
    run std_step xs (StdOrderBook_new max_id max_active minp maxp) = Some (rs, r') \<and>
    active_order_count b' = std_active_order_count r' \<and> (\<forall>i. order_exists i b' = std_order_exists i r') \<and>
    (\<forall>s. price_level_count s b' = std_price_level_count s r') \<and> std_side_map_size r' = unat (active_order_count b')"
proof -
  obtain rs b' r' where *: "run (engine_step E) xs b = Some (rs, b')"
    "run std_step xs (StdOrderBook_new max_id max_active minp maxp) = Some (rs, r')" "agree E b' r'"
    using agree_run [OF agree_new [OF assms(1,2)] assms(3)] by blast
  with agree_queries [OF *(3)] show ?thesis by blast
qed

theorem std_engine_agree_witness:
  "\<exists>rs b' r'. run (engine_step E_audit) [Add 1 Limit 10 5 Sell, Add 2 Limit 12 7 Buy, CancelId 2] (sample_book E_audit) = Some (rs, b') \<and>
    run std_step [Add 1 Limit 10 5 Sell, Add 2 Limit 12 7 Buy, CancelId 2] (StdOrderBook_new 100 8 1 1000) = Some (rs, r') \<and>
    active_order_count b' = std_active_order_count r'"
  using std_engine_agree [OF sample_new [of E_audit], of "[Add 1 Limit 10 5 Sell, Add 2 Limit 12 7 Buy, CancelId 2]"]
  by (auto simp: sample_cfg kMaxPoolCapacity_def)

text \<open>
  C29: the differential fuzz driver never traps. Whatever the input bytes and the build flavor, an
  input of at least 16 bytes makes 512 operations on which engine and reference agree; a
  shorter one makes none.
\<close>

theorem fuzz_driver_never_traps:
  "LLVMFuzzerTestOneInput E data = Some (Returned (if length data < 16 then 0 else 512))"
proof -
  obtain b where b: "OrderBook_new E (unat ID_SPAN) POOL MIN_P MAX_P = Some b"
    by (simp add: OrderBook_new_def UINT32_MAX_def kMaxOrderIds_def kMaxPriceRangeTicks_def Let_def ID_SPAN_def POOL_def MIN_P_def MAX_P_def)
  have "agree E b (StdOrderBook_new (unat ID_SPAN) POOL MIN_P MAX_P)"
    by (rule agree_new [OF b]) (simp add: POOL_def kMaxPoolCapacity_def)
  then have "fuzz_loop E max_ops 0 \<lparr>script_data = data, script_pos = 0\<rparr> b (StdOrderBook_new (unat ID_SPAN) POOL MIN_P MAX_P) =
      Some (Returned (0 + max_ops))"
    by (rule fuzz_loop_ok [OF _ OrderBook_new_abs(2) [OF b]]) simp
  with b show ?thesis by (simp add: LLVMFuzzerTestOneInput_def max_ops_def Let_def)
qed

text \<open>
  The requests of a script are well-formed: ids 1 to 400, quantities 1 to 50, limit prices
  500 to 2500, no cancellation through \<open>add_order\<close>; each takes 16 bytes of input while there are any.
\<close>

theorem script_op_bounds:
  assumes "script_op s = (x, s')" "script_pos s + 16 \<le> script_size s"
  shows "script_pos s' = script_pos s + 16 \<and>
    (case x of
       CancelId i \<Rightarrow> unat i \<in> {1..400}
     | Add i ty px q _ \<Rightarrow> unat i \<in> {1..400} \<and> unat q \<in> {1..50} \<and>
         (ty = Limit \<and> unat px \<in> {500..2500} \<or> ty = Market \<and> px = 0))"
  using assms(1)
proof (rule script_op_split)
  fix chunk s1 i s2 q s3 p
  assume n: "script_next s = (chunk, s1)" "script_next s1 = (i, s2)" "script_next s2 = (q, s3)" "script_next s3 = (p, s')"
    and x: "x = CancelId (1 + i mod ID_SPAN) \<or> (\<exists>side. x = Add (1 + i mod ID_SPAN) Market 0 (1 + q mod 50) side \<or>
      x = Add (1 + i mod ID_SPAN) Limit (MIN_P + p mod (MAX_P - MIN_P + 1)) (1 + q mod 50) side)"
  have "script_pos s1 = script_pos s + 4" "script_size s1 = script_size s"
    using script_shift_full [OF n(1) [unfolded script_next_def]] assms(2) by simp_all
  moreover from this have "script_pos s2 = script_pos s + 8" "script_size s2 = script_size s"
    using script_shift_full [OF n(2) [unfolded script_next_def]] assms(2) by simp_all
  moreover from this have "script_pos s3 = script_pos s + 12" "script_size s3 = script_size s"
    using script_shift_full [OF n(3) [unfolded script_next_def]] assms(2) by simp_all
  moreover from this have "script_pos s' = script_pos s + 16"
    using script_shift_full [OF n(4) [unfolded script_next_def]] assms(2) by simp
  moreover have "unat (1 + q mod 50) \<in> {1..50}" using plus_mod_bounds [of 1 50 q] by auto
  moreover have "unat (MIN_P + p mod (MAX_P - MIN_P + 1)) \<in> {500..2500}"
    using plus_mod_bounds [of 500 2001 p] by (auto simp: MIN_P_def MAX_P_def)
  ultimately show ?thesis using x script_id [of i] by auto
qed

theorem script_op_bounds_witness:
  "\<exists>x s'. script_op \<lparr>script_data = replicate 16 0x80, script_pos = 0\<rparr> = (x, s') \<and> x = Add 353 Limit 2239 3 Buy \<and> script_pos s' = 16"
proof -
  have four: "script_next s = script_shift (Suc (Suc (Suc (Suc 0)))) 0 s" for s by (simp add: script_next_def numeral_eq_Suc)
  have "script_op \<lparr>script_data = replicate 16 0x80, script_pos = 0\<rparr> =
      (Add 353 Limit 2239 3 Buy, \<lparr>script_data = replicate 16 0x80, script_pos = 16\<rparr>)"
    by (simp add: script_op_def four script_byte_def script_size_def Let_def ID_SPAN_def MIN_P_def MAX_P_def)
  from this script_op_bounds [OF this] show ?thesis by (simp add: script_size_def)
qed

end
