(* ===== verification/Unit_Tests.thy ===== *)
theory Unit_Tests
  imports Fuzz_Driver Book_Audit Book_Access
begin

text \<open>
  The scripted tests of the order book, \<open>src/tests/test_orderbook_correctness.cpp\<close> and \<open>src/tests/test_ob.cpp\<close>,
  as data: the calls each test makes and what it expects. The engine passes every one of them, in every
  build flavor: a script gives on the engine what it gives on the specification, where it is computed. (The randomized
  test of the first file, the tests of the pool alone and the test of the move are not scripts of this form.)
\<close>

section \<open>Scripts\<close>

text \<open>
  A call whose result is dropped, a call whose code is expected, one that also writes the variable \<open>filled\<close>, a
  fresh vector for the trades, an expectation, and \<open>validate_book\<close> in the builds that have it.
\<close>

datatype Probe =
    TradeCount nat | TradeMaker nat OrderId | TradeTaker nat OrderId | TradePrice nat Price | TradeQty nat Quantity
  | Filled Quantity | BestAsk Price | BestBid Price | HasAsks bool | HasBids bool
  | LevelQty Side Price nat | LevelCount Side Price nat | LevelsOn Side nat | Active nat | Exists OrderId bool

datatype TestStep = Call Request | Code Request RejectReason | CodeOut Request RejectReason | Clear | Check Probe | Audit

type_synonym TestCase = "nat \<times> nat \<times> Price \<times> Price \<times> TestStep list"

text \<open>An expectation on the trades collected and the filled quantity; reading past the vector is undefined.\<close>

fun probe_trades :: "Probe \<Rightarrow> Trade list \<Rightarrow> Quantity \<Rightarrow> bool option" where
  "probe_trades (TradeCount n) ts f = Some (length ts = n)"
| "probe_trades (TradeMaker i x) ts f = map_option (\<lambda>t. maker_id t = x) (vec_get ts i)"
| "probe_trades (TradeTaker i x) ts f = map_option (\<lambda>t. taker_id t = x) (vec_get ts i)"
| "probe_trades (TradePrice i x) ts f = map_option (\<lambda>t. trade_price t = x) (vec_get ts i)"
| "probe_trades (TradeQty i x) ts f = map_option (\<lambda>t. trade_quantity t = x) (vec_get ts i)"
| "probe_trades (Filled x) ts f = Some (f = x)"
| "probe_trades _ ts f = None"

fun probe :: "Probe \<Rightarrow> OrderBook \<Rightarrow> Trade list \<Rightarrow> Quantity \<Rightarrow> bool option" where
  "probe (BestAsk x) b ts f = Some (best_ask b = x)"
| "probe (BestBid x) b ts f = Some (best_bid b = x)"
| "probe (HasAsks x) b ts f = Some (has_asks b = x)"
| "probe (HasBids x) b ts f = Some (has_bids b = x)"
| "probe (LevelQty s px x) b ts f = Some (unat (level_total_quantity s px b) = x)"
| "probe (LevelCount s px x) b ts f = Some (unat (level_order_count s px b) = x)"
| "probe (LevelsOn s x) b ts f = Some (price_level_count s b = x)"
| "probe (Active x) b ts f = Some (unat (active_order_count b) = x)"
| "probe (Exists i x) b ts f = Some (order_exists i b = x)"
| "probe p b ts f = probe_trades p ts f"

text \<open>Whether the script passes; the first failed expectation decides. \<open>None\<close>: a call does not return.\<close>

fun run_script :: "Env \<Rightarrow> TestStep list \<Rightarrow> OrderBook \<Rightarrow> Trade list \<Rightarrow> Quantity \<Rightarrow> bool option" where
  "run_script E [] b ts f = Some True"
| "run_script E (Call x # steps) b ts f = do {
     (y, b) \<leftarrow> engine_step E x b;
     let (r, filled, trades) = outcome_parts y;
     run_script E steps b (ts @ trades) f
   }"
| "run_script E (Code x r' # steps) b ts f = do {
     (y, b) \<leftarrow> engine_step E x b;
     let (r, filled, trades) = outcome_parts y;
     if r = r' then run_script E steps b (ts @ trades) f else Some False
   }"
| "run_script E (CodeOut x r' # steps) b ts f = do {
     (y, b) \<leftarrow> engine_step E x b;
     let (r, filled, trades) = outcome_parts y;
     if r = r' then run_script E steps b (ts @ trades) filled else Some False
   }"
| "run_script E (Clear # steps) b ts f = run_script E steps b [] f"
| "run_script E (Check p # steps) b ts f = do {
     ok \<leftarrow> probe p b ts f;
     if ok then run_script E steps b ts f else Some False
   }"
| "run_script E (Audit # steps) b ts f = do {
     ok \<leftarrow> (if hft_debug_tools E then validate_book E b else Some True);
     if ok then run_script E steps b ts f else Some False
   }"

fun run_test :: "Env \<Rightarrow> TestCase \<Rightarrow> bool option" where
  "run_test E (max_id, cap, lo, hi, steps) = do {
     b \<leftarrow> OrderBook_new E max_id cap lo hi;
     run_script E steps b [] 0
   }"

section \<open>The tests of \<open>test_orderbook_correctness.cpp\<close>\<close>

definition test_NonzeroMin_MatchAndSweep :: TestCase where
  "test_NonzeroMin_MatchAndSweep = (100, 100, 5000, 15000,
    [Code (Add 1 Limit 5100 10 Sell) Accepted, Code (Add 2 Limit 6000 5 Sell) Accepted, Code (Add 3 Limit 5200 7 Sell) Accepted,
     Clear, Call (Add 4 Limit 5200 3 Buy), Check (TradeCount 1), Check (TradeMaker 0 1), Check (TradePrice 0 5100),
     Check (TradeQty 0 3), Clear, Call (Add 5 Limit 6500 50 Buy), Check (TradeCount 3), Check (TradePrice 0 5100),
     Check (TradePrice 1 5200), Check (TradePrice 2 6000), Check (LevelQty Buy 6500 31)])"

definition test_NonzeroMin_BoundsEnforcedAgainstShiftedRange :: TestCase where
  "test_NonzeroMin_BoundsEnforcedAgainstShiftedRange = (100, 100, 5000, 15000,
    [Code (Add 6 Limit 4999 1 Buy) OutOfBoundsPrice, Code (Add 7 Limit 15001 1 Buy) OutOfBoundsPrice,
     Code (Add 8 Limit 5000 1 Buy) Accepted, Code (Add 9 Limit 15000 1 Sell) Accepted, Check (BestAsk 15000),
     Check (BestBid 5000)])"

definition test_NonzeroMin_CancelThenReAdd :: TestCase where
  "test_NonzeroMin_CancelThenReAdd = (100, 100, 7000, 9000,
    [Call (Add 1 Limit 8000 10 Sell), Call (Add 2 Limit 8100 10 Sell), Check (BestAsk 8000), Code (CancelId 1) Accepted,
     Check (BestAsk 8100), Code (Add 3 Limit 7900 4 Sell) Accepted, Check (BestAsk 7900)])"

definition test_NonzeroMin_MarketOrderSweeps :: TestCase where
  "test_NonzeroMin_MarketOrderSweeps = (100, 100, 5000, 15000,
    [Call (Add 1 Limit 5100 10 Sell), Call (Add 2 Limit 5200 10 Sell), Clear, CodeOut (Add 3 Market 0 20 Buy) Accepted,
     Check (TradeCount 2), Check (TradePrice 0 5100), Check (TradePrice 1 5200), Check (Filled 20), Check (Active 0),
     Code (Add 4 Market 0 5 Buy) MarketOnEmptyBook])"

definition test_CancelBest_BestAskEmptiedFallsToNextAskAcrossGap :: TestCase where
  "test_CancelBest_BestAskEmptiedFallsToNextAskAcrossGap = (100, 100, 0, 2000,
    [Call (Add 1 Limit 100 5 Sell), Call (Add 2 Limit 130 5 Sell), Call (Add 3 Limit 200 5 Sell), Check (BestAsk 100),
     Code (CancelId 1) Accepted, Check (BestAsk 130), Clear, Call (Add 4 Limit 130 5 Buy), Check (TradeCount 1),
     Check (TradeMaker 0 2), Check (TradePrice 0 130)])"

definition test_CancelBest_BestBidEmptiedFallsToNextBidAcrossGap :: TestCase where
  "test_CancelBest_BestBidEmptiedFallsToNextBidAcrossGap = (100, 100, 0, 2000,
    [Call (Add 1 Limit 100 5 Buy), Call (Add 2 Limit 90 5 Buy), Call (Add 3 Limit 80 5 Buy), Call (Add 4 Limit 50 3 Sell),
     Clear, Code (CancelId 1) Accepted, Call (Add 5 Limit 50 4 Sell), Check (TradeCount 1), Check (TradeMaker 0 2),
     Check (TradePrice 0 90)])"

definition test_CancelBest_CancelDrainsEntireSide :: TestCase where
  "test_CancelBest_CancelDrainsEntireSide = (100, 100, 0, 2000,
    [Call (Add 1 Limit 100 5 Buy), Call (Add 2 Limit 90 5 Buy), Code (CancelId 1) Accepted, Code (CancelId 2) Accepted,
     Check (HasBids False), Call (Add 3 Limit 80 5 Sell), Check (TradeCount 0), Check (HasAsks True), Check (BestAsk 80)])"

definition test_QueuePosition_CancelHeadMiddleTailPreservesFifo :: TestCase where
  "test_QueuePosition_CancelHeadMiddleTailPreservesFifo = (100, 100, 0, 2000,
    [Call (Add 1 Limit 100 10 Sell), Call (Add 2 Limit 100 10 Sell), Call (Add 3 Limit 100 10 Sell),
     Call (Add 4 Limit 100 10 Sell), Call (Add 5 Limit 100 10 Sell), Code (CancelId 3) Accepted, Code (CancelId 1) Accepted,
     Code (CancelId 5) Accepted, Check (LevelCount Sell 100 2), Check (LevelQty Sell 100 20), Clear,
     Call (Add 10 Limit 100 25 Buy), Check (TradeCount 2), Check (TradeMaker 0 2), Check (TradeMaker 1 4),
     Check (LevelQty Buy 100 5)])"

definition test_PartialFills_FiveMakerQueuePartiallyConsumed :: TestCase where
  "test_PartialFills_FiveMakerQueuePartiallyConsumed = (100, 100, 0, 2000,
    [Call (Add 1 Limit 100 10 Sell), Call (Add 2 Limit 100 10 Sell), Call (Add 3 Limit 100 10 Sell),
     Call (Add 4 Limit 100 10 Sell), Call (Add 5 Limit 100 10 Sell), Clear, CodeOut (Add 6 Limit 100 35 Buy) Accepted,
     Check (TradeCount 4), Check (TradeMaker 0 1), Check (TradeQty 0 10), Check (TradeMaker 1 2), Check (TradeQty 1 10),
     Check (TradeMaker 2 3), Check (TradeQty 2 10), Check (TradeMaker 3 4), Check (TradeQty 3 5), Check (Filled 35),
     Check (LevelQty Sell 100 15), Check (LevelCount Sell 100 2), Check (Exists 4 True), Check (Exists 5 True),
     Check (Active 2)])"

definition test_PartialFills_PartialFillThenCancelRemainingThenReuseId :: TestCase where
  "test_PartialFills_PartialFillThenCancelRemainingThenReuseId = (100, 100, 0, 2000,
    [Call (Add 1 Limit 100 10 Sell), Call (Add 2 Limit 100 5 Buy), Check (TradeCount 1), Check (TradeQty 0 5), Clear,
     Code (CancelId 1) Accepted, Call (Add 1 Limit 150 3 Sell), Clear, Call (Add 3 Limit 150 2 Buy), Check (TradeCount 1),
     Check (TradeMaker 0 1), Check (TradePrice 0 150)])"

definition test_WideRange_ExtremesViaSummaryScan :: TestCase where
  "test_WideRange_ExtremesViaSummaryScan = (1000, 1000, 0, 20000,
    [Call (Add 1 Limit 100 5 Sell), Call (Add 2 Limit 19800 5 Sell), Check (BestAsk 100), Code (CancelId 1) Accepted,
     Check (BestAsk 19800), Code (CancelId 2) Accepted, Check (HasAsks False), Call (Add 3 Limit 500 5 Buy),
     Call (Add 4 Limit 19500 5 Buy), Check (BestBid 19500), Code (CancelId 4) Accepted, Check (BestBid 500)])"

definition test_WideRange_NonzeroMinWideRange :: TestCase where
  "test_WideRange_NonzeroMinWideRange = (1000, 1000, 7000, 40000,
    [Call (Add 1 Limit 7100 5 Sell), Call (Add 2 Limit 39900 5 Sell), Check (BestAsk 7100), Code (CancelId 1) Accepted,
     Check (BestAsk 39900), Clear, Call (Add 3 Limit 40000 10 Buy), Check (TradeCount 1), Check (TradePrice 0 39900)])"

definition test_WideRange_MultiLevelSweepAcrossWords :: TestCase where
  "test_WideRange_MultiLevelSweepAcrossWords = (1000, 1000, 0, 20000,
    [Call (Add 1 Limit 4095 10 Sell), Call (Add 2 Limit 4096 10 Sell), Call (Add 3 Limit 4097 10 Sell),
     Call (Add 4 Limit 12000 10 Sell), Clear, Call (Add 5 Limit 12000 40 Buy), Check (TradeCount 4),
     Check (TradePrice 0 4095), Check (TradePrice 1 4096), Check (TradePrice 2 4097), Check (TradePrice 3 12000),
     Check (Active 0)])"

definition test_WordBoundary_StraddleAtSixtyThreeSixtyFive :: TestCase where
  "test_WordBoundary_StraddleAtSixtyThreeSixtyFive = (200, 200, 0, 500,
    [Call (Add 63 Limit 63 5 Sell), Call (Add 64 Limit 64 5 Sell), Call (Add 65 Limit 65 5 Sell), Check (BestAsk 63),
     Code (CancelId 63) Accepted, Check (BestAsk 64), Code (CancelId 64) Accepted, Check (BestAsk 65),
     Code (CancelId 65) Accepted, Check (HasAsks False)])"

definition test_WordBoundary_NonzeroMinOffsetStraddle :: TestCase where
  "test_WordBoundary_NonzeroMinOffsetStraddle = (200, 200, 60, 500,
    [Call (Add 1 Limit 123 5 Sell), Call (Add 2 Limit 124 5 Sell), Check (BestAsk 123), Code (CancelId 1) Accepted,
     Check (BestAsk 124), Clear, Call (Add 3 Limit 124 5 Buy), Check (TradeCount 1), Check (TradePrice 0 124)])"

definition test_Recovery_SweepEmptiesEntireBookThenRecovers :: TestCase where
  "test_Recovery_SweepEmptiesEntireBookThenRecovers = (100, 100, 0, 2000,
    [Call (Add 1 Limit 100 5 Sell), Call (Add 2 Limit 200 5 Sell), Call (Add 3 Limit 300 5 Sell), Clear,
     Call (Add 4 Market 0 100 Buy), Check (TradeCount 3), Check (HasAsks False), Clear, Call (Add 5 Limit 400 5 Sell),
     Call (Add 6 Limit 450 5 Buy), Check (TradeCount 1), Check (TradePrice 0 400), Check (TradeMaker 0 5)])"

definition test_PoolInvariant_SweepFreesPoolCapacityForTakerRemainder :: TestCase where
  "test_PoolInvariant_SweepFreesPoolCapacityForTakerRemainder = (100, 5, 0, 2000,
    [Code (Add 1 Limit 101 10 Sell) Accepted, Code (Add 2 Limit 102 10 Sell) Accepted, Code (Add 3 Limit 103 10 Sell) Accepted,
     Code (Add 4 Limit 104 10 Sell) Accepted, Code (Add 5 Limit 105 10 Sell) Accepted,
     Code (Add 9 Limit 1500 10 Sell) PoolExhausted, Clear, CodeOut (Add 10 Limit 105 55 Buy) Accepted, Check (TradeCount 5),
     Check (Filled 50), Check (Active 1), Check (LevelQty Buy 105 5)])"

definition test_PoolInvariant_PoolFullNonCrossingRejectedNoSideEffects :: TestCase where
  "test_PoolInvariant_PoolFullNonCrossingRejectedNoSideEffects = (100, 2, 0, 2000,
    [Call (Add 1 Limit 100 10 Sell), Call (Add 2 Limit 110 10 Sell), Code (Add 3 Limit 120 10 Sell) PoolExhausted,
     Check (Exists 3 False), Check (Active 2)])"

definition test_Resting_TakerRemainderRestsAtOwnPriceNotMakerPrice :: TestCase where
  "test_Resting_TakerRemainderRestsAtOwnPriceNotMakerPrice = (100, 100, 0, 2000,
    [Call (Add 1 Limit 100 10 Sell), Clear, Call (Add 2 Limit 150 30 Buy), Check (TradeCount 1), Check (LevelQty Buy 150 20),
     Check (BestBid 150), Clear, Call (Add 3 Limit 140 20 Sell), Check (TradeCount 1), Check (TradePrice 0 150),
     Check (TradeQty 0 20)])"

definition test_Validation_DuplicateAcrossSidesAndEntryPaths :: TestCase where
  "test_Validation_DuplicateAcrossSidesAndEntryPaths = (100, 100, 0, 2000,
    [Call (Add 1 Limit 100 10 Buy), Code (Add 1 Limit 200 10 Sell) DuplicateOrderId,
     Code (Add 1 Market 0 5 Sell) DuplicateOrderId, Code (Add 1 Cancel 0 0 Buy) Accepted,
     Code (Add 1 Limit 200 10 Sell) Accepted])"

definition test_Validation_CancelPathIdBounds :: TestCase where
  "test_Validation_CancelPathIdBounds = (100, 100, 0, 2000,
    [Code (CancelId 0) OutOfBoundsOrderId, Code (CancelId 101) OutOfBoundsOrderId, Code (CancelId 1) CancelFailed])"

definition test_Validation_DoubleCancelIsFailedCancel :: TestCase where
  "test_Validation_DoubleCancelIsFailedCancel = (100, 100, 0, 2000,
    [Call (Add 1 Limit 100 10 Sell), Code (CancelId 1) Accepted, Code (CancelId 1) CancelFailed])"

definition test_Validation_IdReuseAfterRejection :: TestCase where
  "test_Validation_IdReuseAfterRejection = (100, 100, 0, 2000,
    [Code (Add 1 Limit 9999 10 Sell) OutOfBoundsPrice, Code (Add 1 Limit 100 10 Sell) Accepted])"

definition correctness_tests :: "TestCase list" where
  "correctness_tests = [test_NonzeroMin_MatchAndSweep,
     test_NonzeroMin_BoundsEnforcedAgainstShiftedRange,
     test_NonzeroMin_CancelThenReAdd,
     test_NonzeroMin_MarketOrderSweeps,
     test_CancelBest_BestAskEmptiedFallsToNextAskAcrossGap,
     test_CancelBest_BestBidEmptiedFallsToNextBidAcrossGap,
     test_CancelBest_CancelDrainsEntireSide,
     test_QueuePosition_CancelHeadMiddleTailPreservesFifo,
     test_PartialFills_FiveMakerQueuePartiallyConsumed,
     test_PartialFills_PartialFillThenCancelRemainingThenReuseId,
     test_WideRange_ExtremesViaSummaryScan,
     test_WideRange_NonzeroMinWideRange,
     test_WideRange_MultiLevelSweepAcrossWords,
     test_WordBoundary_StraddleAtSixtyThreeSixtyFive,
     test_WordBoundary_NonzeroMinOffsetStraddle,
     test_Recovery_SweepEmptiesEntireBookThenRecovers,
     test_PoolInvariant_SweepFreesPoolCapacityForTakerRemainder,
     test_PoolInvariant_PoolFullNonCrossingRejectedNoSideEffects,
     test_Resting_TakerRemainderRestsAtOwnPriceNotMakerPrice,
     test_Validation_DuplicateAcrossSidesAndEntryPaths,
     test_Validation_CancelPathIdBounds,
     test_Validation_DoubleCancelIsFailedCancel,
     test_Validation_IdReuseAfterRejection]"

section \<open>The tests of \<open>test_ob.cpp\<close>\<close>

definition test_ob_SingleMatch :: TestCase where
  "test_ob_SingleMatch = (100, 100, 0, 1000,
    [Call (Add 1 Limit 100 10 Sell), Clear, Call (Add 2 Limit 100 10 Buy), Check (TradeCount 1), Check (TradeMaker 0 1),
     Check (TradeTaker 0 2), Check (TradePrice 0 100), Check (TradeQty 0 10)])"

definition test_ob_PartialFill :: TestCase where
  "test_ob_PartialFill = (100, 100, 0, 1000,
    [Call (Add 1 Limit 100 10 Sell), Clear, Call (Add 2 Limit 100 5 Buy), Check (TradeCount 1), Check (TradeQty 0 5), Clear,
     Call (Add 3 Limit 100 10 Buy), Check (TradeCount 1), Check (TradeQty 0 5)])"

definition test_ob_PriceTimePriority :: TestCase where
  "test_ob_PriceTimePriority = (100, 100, 0, 1000,
    [Call (Add 1 Limit 100 10 Sell), Call (Add 2 Limit 100 10 Sell), Call (Add 3 Limit 99 10 Sell), Clear,
     Call (Add 4 Limit 100 15 Buy), Check (TradeCount 2), Check (TradeMaker 0 3), Check (TradeQty 0 10),
     Check (TradePrice 0 99), Check (TradeMaker 1 1), Check (TradeQty 1 5), Check (TradePrice 1 100)])"

definition test_ob_SweepAcrossMultipleLevels :: TestCase where
  "test_ob_SweepAcrossMultipleLevels = (100, 100, 0, 1000,
    [Call (Add 1 Limit 100 10 Sell), Call (Add 2 Limit 101 10 Sell), Call (Add 3 Limit 102 10 Sell), Clear,
     Call (Add 4 Limit 105 30 Buy), Check (TradeCount 3), Check (TradePrice 0 100), Check (TradePrice 1 101),
     Check (TradePrice 2 102)])"

definition test_ob_NoMatchWhenPriceDontCross :: TestCase where
  "test_ob_NoMatchWhenPriceDontCross = (100, 100, 0, 1000,
    [Call (Add 1 Limit 100 10 Sell), Clear, Call (Add 2 Limit 99 10 Buy), Check (TradeCount 0), Check (Exists 2 True),
     Check (Active 2)])"

definition test_ob_SellTakerMatchesBids :: TestCase where
  "test_ob_SellTakerMatchesBids = (100, 100, 0, 1000,
    [Call (Add 1 Limit 100 10 Buy), Call (Add 2 Limit 101 10 Buy), Clear, Call (Add 3 Limit 99 15 Sell), Check (TradeCount 2),
     Check (TradeMaker 0 2), Check (TradePrice 0 101), Check (TradeMaker 1 1), Check (TradePrice 1 100)])"

definition test_ob_MarketBuyOrder :: TestCase where
  "test_ob_MarketBuyOrder = (100, 100, 0, 1000,
    [Call (Add 1 Limit 100 10 Sell), Call (Add 2 Limit 101 10 Sell), Clear, Call (Add 3 Market 0 15 Buy), Check (TradeCount 2),
     Check (TradeMaker 0 1), Check (TradeQty 0 10), Check (TradeMaker 1 2), Check (TradeQty 1 5)])"

definition test_ob_MarketSellOrder :: TestCase where
  "test_ob_MarketSellOrder = (100, 100, 0, 1000,
    [Call (Add 1 Limit 100 10 Buy), Call (Add 2 Limit 99 10 Buy), Clear, Call (Add 3 Market 0 15 Sell), Check (TradeCount 2),
     Check (TradeMaker 0 1), Check (TradePrice 0 100), Check (TradeQty 0 10), Check (TradeMaker 1 2),
     Check (TradePrice 1 99), Check (TradeQty 1 5)])"

definition test_ob_MarketOrderDoesNotRestInBook :: TestCase where
  "test_ob_MarketOrderDoesNotRestInBook = (100, 100, 0, 1000,
    [Clear, Code (Add 1 Market 0 10 Buy) MarketOnEmptyBook, Check (TradeCount 0), Check (Exists 1 False), Check (Active 0),
     Clear, Call (Add 2 Limit 100 10 Sell), Check (TradeCount 0)])"

definition test_ob_MarketPartialFillSurfacesFilledQuantity :: TestCase where
  "test_ob_MarketPartialFillSurfacesFilledQuantity = (100, 100, 0, 1000,
    [Call (Add 1 Limit 100 10 Sell), Clear, CodeOut (Add 2 Market 0 100 Buy) Accepted, Check (TradeCount 1), Check (Filled 10)])"

definition test_ob_CancelExistingOrder :: TestCase where
  "test_ob_CancelExistingOrder = (100, 100, 0, 1000,
    [Call (Add 1 Limit 100 10 Sell), Call (Add 1 Cancel 0 0 Buy), Check (Exists 1 False), Check (Active 0), Clear,
     Call (Add 3 Limit 100 10 Buy), Check (TradeCount 0)])"

definition test_ob_CancelNonExistentOrder :: TestCase where
  "test_ob_CancelNonExistentOrder = (100, 100, 0, 1000,
    [Call (Add 99 Cancel 0 0 Buy), Clear, Call (Add 1 Limit 100 10 Buy), Check (TradeCount 0), Check (Exists 1 True)])"

definition test_ob_CancelThenReAdd :: TestCase where
  "test_ob_CancelThenReAdd = (100, 100, 0, 1000,
    [Call (Add 1 Limit 100 10 Sell), Call (Add 1 Cancel 0 0 Buy), Clear, Call (Add 1 Limit 105 20 Sell), Clear,
     Call (Add 2 Limit 110 20 Buy), Check (TradeCount 1), Check (TradePrice 0 105), Check (TradeQty 0 20)])"

definition test_ob_CancelPartiallyFilledOrder :: TestCase where
  "test_ob_CancelPartiallyFilledOrder = (100, 100, 0, 1000,
    [Call (Add 1 Limit 100 10 Sell), Clear, Call (Add 2 Limit 100 3 Buy), Check (TradeCount 1), Check (TradeQty 0 3),
     Call (Add 1 Cancel 0 0 Buy), Clear, Call (Add 3 Limit 100 10 Buy), Check (TradeCount 0)])"

definition test_ob_DuplicateOrderIdRejected :: TestCase where
  "test_ob_DuplicateOrderIdRejected = (100, 100, 0, 1000,
    [Clear, Call (Add 1 Limit 100 10 Sell), Clear, Code (Add 1 Limit 200 20 Sell) DuplicateOrderId, Check (TradeCount 0), Clear,
     Call (Add 2 Limit 100 10 Buy), Check (TradePrice 0 100), Check (TradeQty 0 10)])"

definition test_ob_DuplicateIdAfterFullFill :: TestCase where
  "test_ob_DuplicateIdAfterFullFill = (100, 100, 0, 1000,
    [Call (Add 1 Limit 100 10 Sell), Clear, Call (Add 2 Limit 100 10 Buy), Check (TradeCount 1), Clear,
     Code (Add 1 Limit 200 5 Sell) Accepted, Check (Exists 1 True), Code (CancelId 1) Accepted, Clear,
     Code (Add 1 Limit 300 7 Sell) Accepted, Check (LevelQty Sell 300 7)])"

definition test_ob_ZeroQuantityRejected :: TestCase where
  "test_ob_ZeroQuantityRejected = (100, 100, 0, 1000,
    [Clear, Code (Add 1 Limit 100 0 Sell) InvalidQuantity, Check (TradeCount 0)])"

definition test_ob_ZeroQuantityMarketRejected :: TestCase where
  "test_ob_ZeroQuantityMarketRejected = (100, 100, 0, 1000,
    [Clear, Code (Add 1 Market 0 0 Buy) InvalidQuantity, Check (TradeCount 0)])"

definition test_ob_OrderResultAcceptedOnRest :: TestCase where
  "test_ob_OrderResultAcceptedOnRest = (100, 100, 0, 1000,
    [Clear, Code (Add 1 Limit 100 10 Sell) Accepted, Check (Exists 1 True)])"

definition test_ob_OrderResultAcceptedOnMatch :: TestCase where
  "test_ob_OrderResultAcceptedOnMatch = (100, 100, 0, 1000,
    [Call (Add 1 Limit 100 10 Sell), Clear, Code (Add 2 Limit 100 10 Buy) Accepted, Check (TradeCount 1)])"

definition test_ob_OrderResultCancelSuccess :: TestCase where
  "test_ob_OrderResultCancelSuccess = (100, 100, 0, 1000,
    [Call (Add 1 Limit 100 10 Sell), Code (Add 1 Cancel 0 0 Buy) Accepted])"

definition test_ob_OrderResultCancelFailure :: TestCase where
  "test_ob_OrderResultCancelFailure = (100, 100, 0, 1000,
    [Code (Add 99 Cancel 0 0 Buy) CancelFailed])"

definition test_ob_MatchingOnEmptyBook :: TestCase where
  "test_ob_MatchingOnEmptyBook = (100, 100, 0, 1000,
    [Clear, Call (Add 1 Limit 100 10 Buy), Check (TradeCount 0)])"

definition test_ob_ExhaustPoolSilentDrop :: TestCase where
  "test_ob_ExhaustPoolSilentDrop = (10, 3, 0, 1000,
    [Call (Add 1 Limit 100 10 Sell), Call (Add 2 Limit 101 10 Sell), Call (Add 3 Limit 102 10 Sell),
     Code (Add 4 Limit 99 10 Buy) PoolExhausted, Clear, Call (Add 5 Limit 99 10 Sell), Check (TradeCount 0)])"

definition test_ob_AllocDeallocCycleStress :: TestCase where
  "test_ob_AllocDeallocCycleStress = (10, 10, 0, 1000,
    concat (replicate 1000000 [Call (Add 1 Limit 100 10 Sell), Call (Add 1 Cancel 0 0 Buy)]) @
    [Check (Active 0), Check (Exists 1 False), Check (LevelCount Sell 100 0), Check (LevelsOn Sell 0), Clear,
     Code (Add 2 Limit 100 10 Sell) Accepted, Check (Active 1), Audit])"

definition test_ob_PoolExhaustionRecovery :: TestCase where
  "test_ob_PoolExhaustionRecovery = (10, 3, 0, 1000,
    [Code (Add 1 Limit 101 10 Sell) Accepted, Code (Add 2 Limit 102 10 Sell) Accepted, Code (Add 3 Limit 103 10 Sell) Accepted,
     Code (Add 4 Limit 50 10 Sell) PoolExhausted, Code (CancelId 2) Accepted, Code (Add 4 Limit 50 10 Sell) Accepted,
     Check (Active 3)])"

definition test_ob_OutOfRangeOrderIdRejected :: TestCase where
  "test_ob_OutOfRangeOrderIdRejected = (100, 100, 0, 1000,
    [Clear, Code (Add 105 Limit 100 10 Sell) OutOfBoundsOrderId, Check (TradeCount 0),
     Code (Add 100 Limit 100 10 Sell) Accepted, Code (Add 0 Limit 100 10 Sell) OutOfBoundsOrderId])"

definition test_ob_OutOfRangePriceRejected :: TestCase where
  "test_ob_OutOfRangePriceRejected = (100, 100, 0, 1000,
    [Clear, Code (Add 1 Limit 1005 10 Sell) OutOfBoundsPrice, Check (TradeCount 0)])"

definition test_ob_BoundaryPricesAccepted :: TestCase where
  "test_ob_BoundaryPricesAccepted = (100, 100, 0, 1000,
    [Code (Add 1 Limit 0 10 Sell) Accepted, Code (Add 2 Limit 1000 10 Sell) Accepted, Check (TradeCount 0),
     Check (TradeCount 0), Check (Exists 1 True), Check (Exists 2 True), Check (BestAsk 0), Check (LevelsOn Sell 2),
     Check (LevelCount Sell 0 1), Check (LevelCount Sell 1000 1)])"

definition order_book_tests :: "TestCase list" where
  "order_book_tests = [test_ob_SingleMatch,
     test_ob_PartialFill,
     test_ob_PriceTimePriority,
     test_ob_SweepAcrossMultipleLevels,
     test_ob_NoMatchWhenPriceDontCross,
     test_ob_SellTakerMatchesBids,
     test_ob_MarketBuyOrder,
     test_ob_MarketSellOrder,
     test_ob_MarketOrderDoesNotRestInBook,
     test_ob_MarketPartialFillSurfacesFilledQuantity,
     test_ob_CancelExistingOrder,
     test_ob_CancelNonExistentOrder,
     test_ob_CancelThenReAdd,
     test_ob_CancelPartiallyFilledOrder,
     test_ob_DuplicateOrderIdRejected,
     test_ob_DuplicateIdAfterFullFill,
     test_ob_ZeroQuantityRejected,
     test_ob_ZeroQuantityMarketRejected,
     test_ob_OrderResultAcceptedOnRest,
     test_ob_OrderResultAcceptedOnMatch,
     test_ob_OrderResultCancelSuccess,
     test_ob_OrderResultCancelFailure,
     test_ob_MatchingOnEmptyBook,
     test_ob_ExhaustPoolSilentDrop,
     test_ob_AllocDeallocCycleStress,
     test_ob_PoolExhaustionRecovery,
     test_ob_OutOfRangeOrderIdRejected,
     test_ob_OutOfRangePriceRejected,
     test_ob_BoundaryPricesAccepted]"

section \<open>Scripts on the specification\<close>

fun spec_probe :: "Config \<Rightarrow> Probe \<Rightarrow> SpecBook \<Rightarrow> Trade list \<Rightarrow> Quantity \<Rightarrow> bool option" where
  "spec_probe cfg (BestAsk x) B ts f = Some ((if spec_asks B = [] then cfg_max cfg + 1 else rprice (hd (spec_asks B))) = x)"
| "spec_probe cfg (BestBid x) B ts f = Some ((if spec_bids B = [] then 0 else rprice (hd (spec_bids B))) = x)"
| "spec_probe cfg (HasAsks x) B ts f = Some ((spec_asks B \<noteq> []) = x)"
| "spec_probe cfg (HasBids x) B ts f = Some ((spec_bids B \<noteq> []) = x)"
| "spec_probe cfg (LevelQty s px x) B ts f = Some ((\<Sum>r\<leftarrow>filter (\<lambda>r. rprice r = px) (resting s B). unat (rqty r)) = x)"
| "spec_probe cfg (LevelCount s px x) B ts f = Some (length (filter (\<lambda>r. rprice r = px) (resting s B)) = x)"
| "spec_probe cfg (LevelsOn s x) B ts f = Some (length (remdups (map rprice (resting s B))) = x)"
| "spec_probe cfg (Active x) B ts f = Some (book_size B = x)"
| "spec_probe cfg (Exists i x) B ts f = Some ((i \<in> set (book_ids B)) = x)"
| "spec_probe cfg p B ts f = probe_trades p ts f"

fun spec_script :: "Config \<Rightarrow> TestStep list \<Rightarrow> SpecBook \<Rightarrow> Trade list \<Rightarrow> Quantity \<Rightarrow> bool option" where
  "spec_script cfg [] B ts f = Some True"
| "spec_script cfg (Call x # steps) B ts f =
     (let (y, B) = spec_step cfg x B; (r, filled, trades) = outcome_parts y in spec_script cfg steps B (ts @ trades) f)"
| "spec_script cfg (Code x r' # steps) B ts f =
     (let (y, B) = spec_step cfg x B; (r, filled, trades) = outcome_parts y
      in if r = r' then spec_script cfg steps B (ts @ trades) f else Some False)"
| "spec_script cfg (CodeOut x r' # steps) B ts f =
     (let (y, B) = spec_step cfg x B; (r, filled, trades) = outcome_parts y
      in if r = r' then spec_script cfg steps B (ts @ trades) filled else Some False)"
| "spec_script cfg (Clear # steps) B ts f = spec_script cfg steps B [] f"
| "spec_script cfg (Check p # steps) B ts f = do {
     ok \<leftarrow> spec_probe cfg p B ts f;
     if ok then spec_script cfg steps B ts f else Some False
   }"
| "spec_script cfg (Audit # steps) B ts f = spec_script cfg steps B ts f"

fun spec_test :: "TestCase \<Rightarrow> bool option" where
  "spec_test (max_id, cap, lo, hi, steps) =
     spec_script \<lparr>cfg_max_id = max_id, cfg_capacity = cap, cfg_min = lo, cfg_max = hi\<rparr> steps spec_empty [] 0"

lemma probe_abs:
  assumes "book_inv E b"
  shows "probe p b ts f = spec_probe (cfg_of b) p (book_abs b) ts f"
  using best_prices [OF assms] order_exists_abs [OF assms] active_order_count_abs [OF assms] price_level_count_abs [OF assms]
    level_order_count_abs [OF assms] level_total_quantity_abs [OF assms]
  by (cases p) (auto simp: cfg_of_def length_remdups_card_conv)

lemma script_refines:
  assumes "engine_inv E b"
  shows "run_script E steps b ts f = spec_script (cfg_of b) steps (book_abs b) ts f"
  using assms
proof (induction steps arbitrary: b ts f)
  case (Cons st steps)
  have step: "\<exists>y b'. engine_step E x b = Some (y, b') \<and> spec_step (cfg_of b) x (book_abs b) = (y, book_abs b') \<and>
      engine_inv E b' \<and> cfg_of b' = cfg_of b" for x
    using engine_step_refines [OF Cons.prems, of x] static_cfg by blast
  show ?case
  proof (cases st)
    case (Check p)
    have "probe p b ts f = spec_probe (cfg_of b) p (book_abs b) ts f" using probe_abs Cons.prems engine_inv_def by blast
    then show ?thesis using Check Cons.IH [OF Cons.prems] by (cases "spec_probe (cfg_of b) p (book_abs b) ts f") simp_all
  next
    case Audit
    have "hft_debug_tools E \<Longrightarrow> validate_book E b = Some True"
      using Cons.prems validate_book_complete by (auto simp: engine_inv_def book_inv_def)
    then show ?thesis using Audit Cons by simp
  next
    case (Call x)
    then show ?thesis using step [of x] Cons.IH by (auto split: prod.splits)
  next
    case (Code x r)
    then show ?thesis using step [of x] Cons.IH by (auto split: prod.splits)
  next
    case (CodeOut x r)
    then show ?thesis using step [of x] Cons.IH by (auto split: prod.splits)
  qed (use Cons in simp)
qed simp

fun valid_geometry :: "TestCase \<Rightarrow> bool" where
  "valid_geometry (max_id, cap, lo, hi, steps) \<longleftrightarrow>
     lo \<le> hi \<and> hi \<noteq> UINT32_MAX \<and> max_id \<le> kMaxOrderIds \<and> unat hi - unat lo < kMaxPriceRangeTicks \<and> cap \<le> kMaxPoolCapacity"

lemma test_refines:
  assumes "valid_geometry t"
  shows "run_test E t = spec_test t"
proof -
  obtain max_id cap lo hi steps where t: "t = (max_id, cap, lo, hi, steps)" by (metis prod_cases5)
  obtain b where b: "OrderBook_new E max_id cap lo hi = Some b"
    using assms by (auto simp: t OrderBook_new_def Let_def not_less not_le)
  show ?thesis
    using script_refines [OF new_engine_inv [OF b]] OrderBook_new_abs(1,2) [OF b] b assms by (simp add: t min_def)
qed

lemmas correctness_scripts =
  test_NonzeroMin_MatchAndSweep_def test_NonzeroMin_BoundsEnforcedAgainstShiftedRange_def test_NonzeroMin_CancelThenReAdd_def
  test_NonzeroMin_MarketOrderSweeps_def test_CancelBest_BestAskEmptiedFallsToNextAskAcrossGap_def
  test_CancelBest_BestBidEmptiedFallsToNextBidAcrossGap_def test_CancelBest_CancelDrainsEntireSide_def
  test_QueuePosition_CancelHeadMiddleTailPreservesFifo_def test_PartialFills_FiveMakerQueuePartiallyConsumed_def
  test_PartialFills_PartialFillThenCancelRemainingThenReuseId_def test_WideRange_ExtremesViaSummaryScan_def
  test_WideRange_NonzeroMinWideRange_def test_WideRange_MultiLevelSweepAcrossWords_def
  test_WordBoundary_StraddleAtSixtyThreeSixtyFive_def test_WordBoundary_NonzeroMinOffsetStraddle_def
  test_Recovery_SweepEmptiesEntireBookThenRecovers_def test_PoolInvariant_SweepFreesPoolCapacityForTakerRemainder_def
  test_PoolInvariant_PoolFullNonCrossingRejectedNoSideEffects_def test_Resting_TakerRemainderRestsAtOwnPriceNotMakerPrice_def
  test_Validation_DuplicateAcrossSidesAndEntryPaths_def test_Validation_CancelPathIdBounds_def
  test_Validation_DoubleCancelIsFailedCancel_def test_Validation_IdReuseAfterRejection_def

lemma correctness_geometry: "list_all valid_geometry correctness_tests"
  by (simp add: correctness_tests_def correctness_scripts UINT32_MAX_def kMaxOrderIds_def kMaxPriceRangeTicks_def kMaxPoolCapacity_def)

lemma correctness_spec: "list_all (\<lambda>t. spec_test t = Some True) correctness_tests"
  by (simp add: correctness_tests_def correctness_scripts spec_eval vec_get_def MARKET_BUY_PRICE_def MARKET_SELL_PRICE_def UINT32_MAX_def)

text \<open>The cycle of a million orders: each round leaves the empty book it found.\<close>

lemma script_cycle:
  assumes "\<And>steps. spec_script cfg (xs @ steps) B ts f = spec_script cfg steps B ts f"
  shows "spec_script cfg (concat (replicate n xs) @ steps) B ts f = spec_script cfg steps B ts f"
  using assms by (induction n) simp_all

lemma stress_spec: "spec_test test_ob_AllocDeallocCycleStress = Some True"
proof -
  let ?cfg = "\<lparr>cfg_max_id = 10, cfg_capacity = 10, cfg_min = 0, cfg_max = 1000\<rparr>"
  have "spec_script ?cfg ([Call (Add 1 Limit 100 10 Sell), Call (Add 1 Cancel 0 0 Buy)] @ steps) spec_empty [] 0 =
      spec_script ?cfg steps spec_empty [] 0" for steps by (simp add: spec_eval)
  from script_cycle [of ?cfg, OF this] show ?thesis
    by (simp add: test_ob_AllocDeallocCycleStress_def spec_eval)
qed

lemmas order_book_scripts =
  test_ob_SingleMatch_def test_ob_PartialFill_def test_ob_PriceTimePriority_def test_ob_SweepAcrossMultipleLevels_def
  test_ob_NoMatchWhenPriceDontCross_def test_ob_SellTakerMatchesBids_def test_ob_MarketBuyOrder_def test_ob_MarketSellOrder_def
  test_ob_MarketOrderDoesNotRestInBook_def test_ob_MarketPartialFillSurfacesFilledQuantity_def test_ob_CancelExistingOrder_def
  test_ob_CancelNonExistentOrder_def test_ob_CancelThenReAdd_def test_ob_CancelPartiallyFilledOrder_def
  test_ob_DuplicateOrderIdRejected_def test_ob_DuplicateIdAfterFullFill_def test_ob_ZeroQuantityRejected_def
  test_ob_ZeroQuantityMarketRejected_def test_ob_OrderResultAcceptedOnRest_def test_ob_OrderResultAcceptedOnMatch_def
  test_ob_OrderResultCancelSuccess_def test_ob_OrderResultCancelFailure_def test_ob_MatchingOnEmptyBook_def
  test_ob_ExhaustPoolSilentDrop_def test_ob_PoolExhaustionRecovery_def test_ob_OutOfRangeOrderIdRejected_def
  test_ob_OutOfRangePriceRejected_def test_ob_BoundaryPricesAccepted_def

lemma order_book_geometry: "list_all valid_geometry order_book_tests"
  by (simp add: order_book_tests_def order_book_scripts test_ob_AllocDeallocCycleStress_def UINT32_MAX_def kMaxOrderIds_def
      kMaxPriceRangeTicks_def kMaxPoolCapacity_def)

lemma order_book_spec: "list_all (\<lambda>t. spec_test t = Some True) order_book_tests"
  by (simp add: order_book_tests_def stress_spec) (simp add: order_book_scripts spec_eval vec_get_def MARKET_BUY_PRICE_def MARKET_SELL_PRICE_def UINT32_MAX_def)

lemma tests_pass:
  assumes "list_all valid_geometry ts" "list_all (\<lambda>t. spec_test t = Some True) ts"
  shows "map (run_test E) ts = replicate (length ts) (Some True)"
  using assms by (induction ts) (simp_all add: test_refines)

section \<open>Properties\<close>

text \<open>
  C31: the engine passes the scripted tests of the repository, whatever the build flavor: the 23 of
  \<open>test_orderbook_correctness.cpp\<close> and the 29 of \<open>test_ob.cpp\<close> all end with every expectation met.
\<close>

theorem unit_tests_pass:
  "map (run_test E) correctness_tests = replicate 23 (Some True) \<and> map (run_test E) order_book_tests = replicate 29 (Some True)"
proof -
  have "length correctness_tests = 23" "length order_book_tests = 29" by (simp_all add: correctness_tests_def order_book_tests_def)
  with tests_pass [OF correctness_geometry correctness_spec, of E] tests_pass [OF order_book_geometry order_book_spec, of E]
  show ?thesis by (simp)
qed

end
