(* ===== verification/Session_Laws.thy ===== *)
theory Session_Laws
  imports Engine_Samples "HOL-Library.Multiset"
begin

text \<open>
  What the specification does on the workloads of the demo program and the latency harness:
  sessions of fresh orders, of resting sells, of cancellations and of takers that meet makers of
  their own size. The engine inherits each law through \<open>eng.run_refines\<close>.
\<close>

section \<open>Sessions\<close>

fun outcome_reason :: "Outcome \<Rightarrow> RejectReason" where
  "outcome_reason (Added r) = res_reason r"
| "outcome_reason (Cancelled r) = r"

lemma spec_run_append:
  "spec_run cfg (xs @ ys) B = (let (rs, B1) = spec_run cfg xs B; (us, B2) = spec_run cfg ys B1 in (rs @ us, B2))"
  by (induction xs arbitrary: B) (auto split: prod.splits)

lemma spec_run_length: "spec_run cfg xs B = (rs, B') \<Longrightarrow> length rs = length xs"
  by (induction xs arbitrary: B rs) (auto split: prod.splits)

lemma spec_step_inv: "spec_inv cfg B \<Longrightarrow> spec_step cfg x B = (r, B') \<Longrightarrow> spec_inv cfg B'"
  by (cases x) (auto split: prod.splits, (metis snd_conv spec_add_inv spec_cancel_inv)+)

lemma spec_run_inv: "spec_inv cfg B \<Longrightarrow> spec_run cfg xs B = (rs, B') \<Longrightarrow> spec_inv cfg B'"
proof (induction xs arbitrary: B rs)
  case (Cons x xs)
  then obtain r B1 rs1 where "spec_step cfg x B = (r, B1)" "spec_run cfg xs B1 = (rs1, B')" by (auto split: prod.splits)
  with Cons.IH [of B1 rs1] spec_step_inv [of cfg B x r B1] Cons.prems(1) show ?case by blast
qed simp

text \<open>A step repeated over a list of arguments keeps what each step keeps.\<close>

lemma spec_run_map:
  assumes "P 0 B" "\<And>k A. k < length is \<Longrightarrow> P k A \<Longrightarrow> \<exists>r A'. spec_step cfg (f (is ! k)) A = (r, A') \<and> Q r \<and> P (Suc k) A'"
  shows "\<exists>rs B'. spec_run cfg (map f is) B = (rs, B') \<and> (\<forall>r \<in> set rs. Q r) \<and> P (length is) B'"
  using assms
proof (induction "is" arbitrary: B P)
  case (Cons i "is")
  obtain r B1 where 1: "spec_step cfg (f i) B = (r, B1)" "Q r" "P 1 B1" using Cons.prems(2) [of 0 B] Cons.prems(1) by auto
  have "\<exists>rs B'. spec_run cfg (map f is) B1 = (rs, B') \<and> (\<forall>r \<in> set rs. Q r) \<and> P (Suc (length is)) B'"
  proof (rule Cons.IH [of "\<lambda>k. P (Suc k)"])
    show "P (Suc 0) B1" using 1(3) by simp
    show "\<exists>r A'. spec_step cfg (f (is ! k)) A = (r, A') \<and> Q r \<and> P (Suc (Suc k)) A'" if "k < length is" "P (Suc k) A" for k A
      using Cons.prems(2) [of "Suc k" A] that by simp
  qed
  with 1 show ?case by auto
qed simp

section \<open>Fresh orders are accepted\<close>

text \<open>The ids a list of requests enters, and whether each such order is a valid limit order.\<close>

fun entered :: "Request \<Rightarrow> OrderId list" where
  "entered (Add i ty px q s) = (if ty = Cancel then [] else [i])"
| "entered (CancelId i) = []"

fun valid_limit :: "Config \<Rightarrow> Request \<Rightarrow> bool" where
  "valid_limit cfg (Add i ty px q s) \<longleftrightarrow> ty = Cancel \<or> ty = Limit \<and> q \<noteq> 0 \<and> i \<noteq> 0 \<and> unat i \<le> cfg_max_id cfg \<and>
     cfg_min cfg \<le> px \<and> px \<le> cfg_max cfg"
| "valid_limit cfg (CancelId i) \<longleftrightarrow> True"

lemma match_size:
  assumes "spec_match i px q s B = (ts, q', B')"
  shows "book_size B' \<le> book_size B"
  using assms by (rule spec_match_fill) (auto simp: book_size_side [of _ s] dest: spec_fill_length)

lemma fresh_add:
  assumes "spec_add cfg i Limit px q s B = (r, B')" "q \<noteq> 0" "i \<noteq> 0" "unat i \<le> cfg_max_id cfg" "i \<notin> set (book_ids B)"
    "cfg_min cfg \<le> px" "px \<le> cfg_max cfg" "book_size B < cfg_capacity cfg"
  shows "res_reason r = Accepted" "set (book_ids B') \<subseteq> insert i (set (book_ids B))" "book_size B' \<le> Suc (book_size B)"
proof -
  obtain ts q' B1 where m: "spec_match i (limit_of Limit s px) q s B = (ts, q', B1)" by (metis prod_cases3)
  have "spec_check cfg i Limit px q s B = None" using assms by (simp add: spec_check_def not_less)
  then have sub: "spec_submit cfg i Limit px q s B = (r, B')" using assms(1) by (simp add: spec_add_def)
  have nf: "\<not> cfg_capacity cfg \<le> book_size B1" using match_size [OF m] assms(8) by simp
  have ids: "set (book_ids B1) \<subseteq> set (book_ids B)" using spec_match_ids [OF m] .
  have sz: "book_size B1 \<le> book_size B" using match_size [OF m] .
  show "res_reason r = Accepted"
    using sub m nf by (auto simp: spec_submit_def spec_rest_def mk_result_def split: if_splits)
  show "set (book_ids B') \<subseteq> insert i (set (book_ids B))"
  proof (cases "q' = 0")
    case True
    then show ?thesis using sub m ids by (auto simp: spec_submit_def)
  next
    case False
    then have "B' = set_resting s (spec_insert s \<lparr>rid = i, rprice = px, rqty = q'\<rparr> (resting s B1)) B1"
      using sub m nf by (simp add: spec_submit_def spec_rest_def)
    then have "set (book_ids B') = insert i (set (book_ids B1))" by (auto simp: book_ids_side [of _ s])
    with ids show ?thesis by blast
  qed
  show "book_size B' \<le> Suc (book_size B)"
    using sub m nf sz by (auto simp: spec_submit_def spec_rest_def book_size_side [of _ s] split: if_splits)
qed

lemma cancel_shrinks:
  assumes "spec_cancel cfg i B = (r, B')"
  shows "set (book_ids B') \<subseteq> set (book_ids B)" "book_size B' \<le> book_size B"
proof -
  have B': "B' = B \<or> B' = spec_remove i B" using assms by (auto simp: spec_cancel_def split: if_splits)
  then show "set (book_ids B') \<subseteq> set (book_ids B)" by (auto simp: spec_remove_def book_ids_def)
  have "book_size (spec_remove i B) \<le> book_size B"
    unfolding spec_remove_def book_size_def by simp (intro add_mono length_filter_le)
  with B' show "book_size B' \<le> book_size B" by auto
qed

lemma valid_step:
  assumes "spec_step cfg x B = (r, B')" "valid_limit cfg x" "set (book_ids B) \<inter> set (entered x) = {}"
    "book_size B + length (entered x) \<le> cfg_capacity cfg"
  shows "entered x \<noteq> [] \<longrightarrow> outcome_reason r = Accepted" "set (book_ids B') \<subseteq> set (entered x) \<union> set (book_ids B)"
    "book_size B' \<le> book_size B + length (entered x)"
proof -
  have *: "(entered x \<noteq> [] \<longrightarrow> outcome_reason r = Accepted) \<and> set (book_ids B') \<subseteq> set (entered x) \<union> set (book_ids B) \<and>
      book_size B' \<le> book_size B + length (entered x)"
  proof (cases "\<exists>i px q s. x = Add i Limit px q s")
    case True
    then obtain i px q s a where "x = Add i Limit px q s" "spec_add cfg i Limit px q s B = (a, B')" "r = Added a"
      using assms(1) by (auto split: prod.splits)
    with fresh_add [of cfg i px q s B a B'] assms(2-4) show ?thesis by auto
  next
    case False
    then obtain i c where "spec_cancel cfg i B = (c, B')" "entered x = []"
      using assms(1,2) by (cases x) (auto simp: spec_add_def split: prod.splits)
    with cancel_shrinks [of cfg i B c B'] show ?thesis by auto
  qed
  then show "entered x \<noteq> [] \<longrightarrow> outcome_reason r = Accepted" "set (book_ids B') \<subseteq> set (entered x) \<union> set (book_ids B)"
    "book_size B' \<le> book_size B + length (entered x)" by blast+
qed

text \<open>
  In a session that enters distinct new ids, with room for all of them, every order is
  accepted, whatever it trades and whatever is cancelled in between.
\<close>

lemma fresh_session_accepted:
  assumes "spec_run cfg xs B = (rs, B')" "\<forall>x \<in> set xs. valid_limit cfg x" "distinct (concat (map entered xs))"
    "set (book_ids B) \<inter> set (concat (map entered xs)) = {}" "book_size B + length (concat (map entered xs)) \<le> cfg_capacity cfg"
  shows "(\<forall>k < length xs. entered (xs ! k) \<noteq> [] \<longrightarrow> outcome_reason (rs ! k) = Accepted) \<and>
    set (book_ids B') \<subseteq> set (book_ids B) \<union> set (concat (map entered xs))"
  using assms
proof (induction xs arbitrary: B rs)
  case (Cons x xs)
  obtain r B1 rs1 where 1: "spec_step cfg x B = (r, B1)" "spec_run cfg xs B1 = (rs1, B')" "rs = r # rs1"
    using Cons.prems(1) by (auto split: prod.splits)
  have 2: "entered x \<noteq> [] \<longrightarrow> outcome_reason r = Accepted" "set (book_ids B1) \<subseteq> set (entered x) \<union> set (book_ids B)"
    "book_size B1 \<le> book_size B + length (entered x)"
    using valid_step [OF 1(1)] Cons.prems(2,4,5) by auto
  have "set (entered x) \<inter> set (concat (map entered xs)) = {}" "set (book_ids B) \<inter> set (concat (map entered xs)) = {}"
    using Cons.prems(3,4) by auto
  with 2(2) have "set (book_ids B1) \<inter> set (concat (map entered xs)) = {}" by blast
  then have "(\<forall>k < length xs. entered (xs ! k) \<noteq> [] \<longrightarrow> outcome_reason (rs1 ! k) = Accepted) \<and>
      set (book_ids B') \<subseteq> set (book_ids B1) \<union> set (concat (map entered xs))"
    using Cons.prems(2,3,5) 2(3) by (intro Cons.IH [OF 1(2)]) auto
  then show ?case using 1(3) 2(1,2) by (auto simp: nth_Cons split: nat.splits)
qed auto

text \<open>With the cancellations in range too, nothing else than a missing order is ever reported.\<close>

fun valid_call :: "Config \<Rightarrow> Request \<Rightarrow> bool" where
  "valid_call cfg (Add i ty px q s) \<longleftrightarrow> ty = Limit \<and> valid_limit cfg (Add i ty px q s)"
| "valid_call cfg (CancelId i) \<longleftrightarrow> i \<noteq> 0 \<and> unat i \<le> cfg_max_id cfg"

lemma spec_run_nth: "spec_run cfg xs B = (rs, B') \<Longrightarrow> k < length xs \<Longrightarrow> \<exists>A. rs ! k = fst (spec_step cfg (xs ! k) A)"
proof (induction xs arbitrary: B rs k)
  case (Cons x xs)
  then obtain r B1 rs1 where "spec_step cfg x B = (r, B1)" "spec_run cfg xs B1 = (rs1, B')" "rs = r # rs1"
    by (auto split: prod.splits)
  with Cons.IH [of B1 rs1 "k - 1"] Cons.prems(2) show ?case by (cases k) (auto intro!: exI [of _ B])
qed simp

lemma fresh_session_reasons:
  assumes "spec_run cfg xs B = (rs, B')" "\<forall>x \<in> set xs. valid_call cfg x" "distinct (concat (map entered xs))"
    "set (book_ids B) \<inter> set (concat (map entered xs)) = {}" "book_size B + length (concat (map entered xs)) \<le> cfg_capacity cfg"
    "k < length xs"
  shows "if entered (xs ! k) \<noteq> [] then outcome_reason (rs ! k) = Accepted else outcome_reason (rs ! k) \<in> {Accepted, CancelFailed}"
proof -
  have vl: "valid_limit cfg x" if "valid_call cfg x" for x using that by (cases x) auto
  have acc: "entered (xs ! k) \<noteq> [] \<longrightarrow> outcome_reason (rs ! k) = Accepted"
    using fresh_session_accepted [OF assms(1) _ assms(3-5)] assms(2,6) vl by blast
  obtain A where A: "rs ! k = fst (spec_step cfg (xs ! k) A)" using spec_run_nth [OF assms(1,6)] by blast
  have v: "valid_call cfg (xs ! k)" using assms(2,6) by simp
  show ?thesis
  proof (cases "xs ! k")
    case (Add i ty px q s)
    with v acc show ?thesis by simp
  next
    case (CancelId i)
    with v A show ?thesis by (auto simp: spec_cancel_def split: prod.splits if_splits)
  qed
qed

section \<open>Books of equal sells\<close>

definition sells :: "Quantity \<Rightarrow> Price \<Rightarrow> OrderId list \<Rightarrow> SpecBook \<Rightarrow> bool" where
  "sells u hi ids B \<longleftrightarrow> spec_bids B = [] \<and> mset (map rid (spec_asks B)) = mset ids \<and>
     (\<forall>r \<in> set (spec_asks B). rqty r = u \<and> rprice r \<le> hi)"

lemma sells_ids:
  assumes "sells u hi ids B"
  shows "set (book_ids B) = set ids" "book_size B = length ids"
  using assms mset_eq_setD [of "map rid (spec_asks B)" ids] mset_eq_length [of "map rid (spec_asks B)" ids]
  by (simp_all add: sells_def book_ids_def book_size_def)

lemma sells_empty: "sells u hi [] spec_empty" "sells u hi [] B \<Longrightarrow> B = spec_empty"
  by (simp_all add: sells_def spec_empty_def)

text \<open>Order requests with valid fields.\<close>

definition valid_id :: "Config \<Rightarrow> OrderId \<Rightarrow> bool" where
  "valid_id cfg i \<longleftrightarrow> i \<noteq> 0 \<and> unat i \<le> cfg_max_id cfg"

definition valid_price :: "Config \<Rightarrow> Price \<Rightarrow> bool" where
  "valid_price cfg px \<longleftrightarrow> cfg_min cfg \<le> px \<and> px \<le> cfg_max cfg"

lemma check_None:
  "q \<noteq> 0 \<Longrightarrow> valid_id cfg i \<Longrightarrow> i \<notin> set (book_ids B) \<Longrightarrow> valid_price cfg px \<Longrightarrow> spec_check cfg i Limit px q s B = None"
  by (simp add: spec_check_def valid_id_def valid_price_def not_less)

lemma mset_spec_insert: "mset (spec_insert s r rs) = add_mset r (mset rs)"
  using spec_insert_split [of rs s r] by auto

lemma sell_step:
  assumes "sells u hi ids B" "u \<noteq> 0" "valid_id cfg i" "i \<notin> set ids" "valid_price cfg px" "px \<le> hi" "length ids < cfg_capacity cfg"
  shows "\<exists>B'. spec_add cfg i Limit px u Sell B = (mk_result Accepted 0 [], B') \<and> sells u hi (ids @ [i]) B' \<and>
    spec_asks B' = spec_insert Sell \<lparr>rid = i, rprice = px, rqty = u\<rparr> (spec_asks B)"
proof -
  let ?B = "B\<lparr>spec_asks := spec_insert Sell \<lparr>rid = i, rprice = px, rqty = u\<rparr> (spec_asks B)\<rparr>"
  have "spec_check cfg i Limit px u Sell B = None" using check_None assms(2-5) sells_ids(1) [OF assms(1)] by simp
  moreover have "spec_match i (limit_of Limit Sell px) u Sell B = ([], u, B)" using assms(1) by (simp add: spec_match_def sells_def)
  ultimately have "spec_add cfg i Limit px u Sell B = (mk_result Accepted 0 [], ?B)"
    using assms(2,7) sells_ids(2) [OF assms(1)] by (simp add: spec_add_def spec_submit_def spec_rest_def)
  moreover have "sells u hi (ids @ [i]) ?B" using assms(1,6) by (auto simp: sells_def mset_spec_insert)
  moreover have "spec_asks ?B = spec_insert Sell \<lparr>rid = i, rprice = px, rqty = u\<rparr> (spec_asks B)" by simp
  ultimately show ?thesis by blast
qed

text \<open>The resting order of a sell.\<close>

abbreviation sell_order :: "(nat \<Rightarrow> OrderId) \<Rightarrow> (nat \<Rightarrow> Price) \<Rightarrow> Quantity \<Rightarrow> nat \<Rightarrow> Resting" where
  "sell_order g p u i \<equiv> \<lparr>rid = g i, rprice = p i, rqty = u\<rparr>"

lemma seed_session:
  assumes "sells u hi ids B" "u \<noteq> 0" "distinct (ids @ map g is)" "length ids + length is \<le> cfg_capacity cfg"
    "\<And>i. i \<in> set is \<Longrightarrow> valid_id cfg (g i) \<and> valid_price cfg (p i) \<and> p i \<le> hi"
  shows "\<exists>rs B'. spec_run cfg (map (\<lambda>i. Add (g i) Limit (p i) u Sell) is) B = (rs, B') \<and>
    (\<forall>r \<in> set rs. r = Added (mk_result Accepted 0 [])) \<and> sells u hi (ids @ map g is) B' \<and>
    (side_sorted Sell (spec_asks B) \<longrightarrow> side_sorted Sell (spec_asks B')) \<and> sell_order g p u ` set is \<subseteq> set (spec_asks B')"
proof -
  let ?P = "\<lambda>k A. sells u hi (ids @ map g (take k is)) A \<and> (side_sorted Sell (spec_asks B) \<longrightarrow> side_sorted Sell (spec_asks A)) \<and>
    sell_order g p u ` set (take k is) \<subseteq> set (spec_asks A)"
  have "\<exists>rs B'. spec_run cfg (map (\<lambda>i. Add (g i) Limit (p i) u Sell) is) B = (rs, B') \<and>
    (\<forall>r \<in> set rs. r = Added (mk_result Accepted 0 [])) \<and> ?P (length is) B'"
  proof (rule spec_run_map [where P = ?P])
    fix k A assume k: "k < length is" "?P k A"
    then have k2: "sells u hi (ids @ map g (take k is)) A" by blast
    have i: "is ! k \<in> set is" using k by simp
    have "g (is ! k) \<notin> set (map g (take k is))"
      using assms(3) k(1) id_take_nth_drop [OF k(1)] by (metis distinct_append map_append not_distinct_conv_prefix list.simps(9))
    then have "g (is ! k) \<notin> set (ids @ map g (take k is))" using assms(3) i by auto
    then obtain A' where "spec_add cfg (g (is ! k)) Limit (p (is ! k)) u Sell A = (mk_result Accepted 0 [], A')"
      "sells u hi ((ids @ map g (take k is)) @ [g (is ! k)]) A'"
      "spec_asks A' = spec_insert Sell (sell_order g p u (is ! k)) (spec_asks A)"
      using sell_step [OF k2 assms(2), of cfg "g (is ! k)" "p (is ! k)"] assms(5) [OF i] assms(4) k(1) by auto
    then show "\<exists>r A'. spec_step cfg (Add (g (is ! k)) Limit (p (is ! k)) u Sell) A = (r, A') \<and> r = Added (mk_result Accepted 0 []) \<and> ?P (Suc k) A'"
      using k spec_insert_sorted by (auto simp: take_Suc_conv_app_nth)
  qed (use assms(1) in simp)
  then show ?thesis by simp
qed

text \<open>Cancelling the orders of such a book one by one, with either call, empties it.\<close>

lemma cancel_sell:
  assumes "sells u hi (i # ids) B" "valid_id cfg i" "i \<notin> set ids"
  shows "\<exists>B'. spec_cancel cfg i B = (Accepted, B') \<and> sells u hi ids B'"
proof -
  have "mset (map rid (filter (\<lambda>r. rid r \<noteq> i) (spec_asks B))) = mset ids"
  proof -
    have "mset (map rid (filter (\<lambda>r. rid r \<noteq> i) (spec_asks B))) = filter_mset (\<lambda>x. x \<noteq> i) (mset (map rid (spec_asks B)))"
      by (simp add: filter_mset_image_mset)
    also have "\<dots> = filter_mset (\<lambda>x. x \<noteq> i) (mset ids)" using assms(1) by (simp add: sells_def)
    also have "\<dots> = mset ids" using assms(3) by (metis (mono_tags, lifting) filter_True mset_filter)
    finally show ?thesis .
  qed
  then have "sells u hi ids (spec_remove i B)" using assms(1) by (auto simp: sells_def spec_remove_def)
  moreover have "i \<in> set (book_ids B)" using sells_ids(1) [OF assms(1)] by simp
  ultimately show ?thesis using assms(2) by (simp add: spec_cancel_def valid_id_def)
qed

lemma cancel_session:
  assumes "sells u hi (map g is) B" "distinct (map g is)" "\<And>i. i \<in> set is \<Longrightarrow> valid_id cfg (g i)"
    and c: "\<And>i A. fst (spec_step cfg (c i) A) = out (fst (spec_cancel cfg (g i) A)) \<and>
      snd (spec_step cfg (c i) A) = snd (spec_cancel cfg (g i) A)"
  shows "\<exists>rs. spec_run cfg (map c is) B = (rs, spec_empty) \<and> (\<forall>r \<in> set rs. r = out Accepted)"
proof -
  have "\<exists>rs B'. spec_run cfg (map c is) B = (rs, B') \<and> (\<forall>r \<in> set rs. r = out Accepted) \<and> sells u hi (map g (drop (length is) is)) B'"
  proof (rule spec_run_map [where P = "\<lambda>k. sells u hi (map g (drop k is))"])
    fix k A assume k: "k < length is" "sells u hi (map g (drop k is)) A"
    have d: "drop k is = is ! k # drop (Suc k) is" using k(1) by (simp add: Cons_nth_drop_Suc)
    have "distinct (map g (drop k is))" using assms(2) by (simp add: drop_map [symmetric])
    then obtain A' where "spec_cancel cfg (g (is ! k)) A = (Accepted, A')" "sells u hi (map g (drop (Suc k) is)) A'"
      using cancel_sell [of u hi "g (is ! k)" "map g (drop (Suc k) is)" A cfg] assms(3) [of "is ! k"] k unfolding d by auto
    then show "\<exists>r A'. spec_step cfg (c (is ! k)) A = (r, A') \<and> r = out Accepted \<and> sells u hi (map g (drop (Suc k) is)) A'"
      using c [of "is ! k" A] by (metis fst_conv prod.collapse snd_conv)
  qed (use assms(1) in simp)
  then show ?thesis using sells_empty(2) by fastforce
qed

text \<open>A taker of the makers' size that reaches every price takes the first maker.\<close>

lemma take_step:
  assumes "sells u hi ids B" "ids \<noteq> []" "u \<noteq> 0" "valid_id cfg t" "t \<notin> set ids" "valid_price cfg px" "hi \<le> px"
  shows "\<exists>tr B' ids'. spec_add cfg t Limit px u Buy B = (mk_result Accepted u [tr], B') \<and> sells u hi ids' B' \<and>
    length ids = Suc (length ids') \<and> set ids' \<subseteq> set ids \<and> (distinct ids \<longrightarrow> distinct ids') \<and> spec_asks B' = tl (spec_asks B)"
proof -
  have "spec_asks B \<noteq> []" using assms(1,2) by (auto simp: sells_def)
  then obtain r rs where asks: "spec_asks B = r # rs" by (cases "spec_asks B") auto
  then have r: "rqty r = u" "rprice r \<le> px" using assms(1,7) by (auto simp: sells_def)
  have ids: "mset ids = add_mset (rid r) (mset (map rid rs))" using assms(1) asks by (simp add: sells_def)
  have "spec_check cfg t Limit px u Buy B = None" using check_None assms(3-6) sells_ids(1) [OF assms(1)] by simp
  moreover have "spec_match t (limit_of Limit Buy px) u Buy B = ([spec_trade r t u], 0, B\<lparr>spec_asks := rs\<rparr>)"
    using asks r assms(3) by (simp add: spec_match_def limit_of_def crosses_def)
  ultimately have "spec_add cfg t Limit px u Buy B = (mk_result Accepted u [spec_trade r t u], B\<lparr>spec_asks := rs\<rparr>)"
    by (simp add: spec_add_def spec_submit_def)
  moreover have "sells u hi (map rid rs) (B\<lparr>spec_asks := rs\<rparr>)" using assms(1) asks by (simp add: sells_def)
  moreover have "length ids = Suc (length (map rid rs))" using arg_cong [OF ids, of size] by simp
  moreover have "set (map rid rs) \<subseteq> set ids" using arg_cong [OF ids, of set_mset] by auto
  moreover have "distinct (map rid rs)" if "distinct ids"
    using that mset_eq_imp_distinct_iff [of ids "rid r # map rid rs"] ids by simp
  moreover have "spec_asks (B\<lparr>spec_asks := rs\<rparr>) = tl (spec_asks B)" by (simp add: asks)
  ultimately show ?thesis by blast
qed

lemma take_session:
  assumes "sells u hi ids B" "length is \<le> length ids" "u \<noteq> 0" "valid_price cfg px" "hi \<le> px"
    "\<And>i. i \<in> set is \<Longrightarrow> valid_id cfg (g i) \<and> g i \<notin> set ids"
  shows "\<exists>rs B' ids'. spec_run cfg (map (\<lambda>i. Add (g i) Limit px u Buy) is) B = (rs, B') \<and>
    (\<forall>r \<in> set rs. \<exists>tr. r = Added (mk_result Accepted u [tr])) \<and> sells u hi ids' B' \<and> length ids' = length ids - length is \<and>
    set ids' \<subseteq> set ids \<and> (distinct ids \<longrightarrow> distinct ids') \<and> spec_asks B' = drop (length is) (spec_asks B)"
proof -
  let ?P = "\<lambda>k A. \<exists>ids'. sells u hi ids' A \<and> length ids' + k = length ids \<and> set ids' \<subseteq> set ids \<and>
    (distinct ids \<longrightarrow> distinct ids') \<and> spec_asks A = drop k (spec_asks B)"
  have "\<exists>rs B'. spec_run cfg (map (\<lambda>i. Add (g i) Limit px u Buy) is) B = (rs, B') \<and>
    (\<forall>r \<in> set rs. \<exists>tr. r = Added (mk_result Accepted u [tr])) \<and> ?P (length is) B'"
  proof (rule spec_run_map [where P = ?P])
    fix k A assume k: "k < length is" "?P k A"
    then obtain ids1 where 1: "sells u hi ids1 A" "length ids1 + k = length ids" "set ids1 \<subseteq> set ids"
      "distinct ids \<longrightarrow> distinct ids1" "spec_asks A = drop k (spec_asks B)" by blast
    then have "ids1 \<noteq> []" using k(1) assms(2) by auto
    moreover have "valid_id cfg (g (is ! k))" "g (is ! k) \<notin> set ids1" using assms(6) [of "is ! k"] k(1) 1(3) by auto
    ultimately obtain tr A' ids' where "spec_add cfg (g (is ! k)) Limit px u Buy A = (mk_result Accepted u [tr], A')" "sells u hi ids' A'"
      "length ids1 = Suc (length ids')" "set ids' \<subseteq> set ids1" "distinct ids1 \<longrightarrow> distinct ids'" "spec_asks A' = tl (spec_asks A)"
      using take_step [OF 1(1) _ assms(3) _ _ assms(4,5)] by blast
    moreover from this have "length ids' + Suc k = length ids" "set ids' \<subseteq> set ids" "distinct ids \<longrightarrow> distinct ids'"
      "spec_asks A' = drop (Suc k) (spec_asks B)" using 1(2-5) by (auto simp: drop_Suc tl_drop)
    ultimately show "\<exists>r A'. spec_step cfg (Add (g (is ! k)) Limit px u Buy) A = (r, A') \<and>
        (\<exists>tr. r = Added (mk_result Accepted u [tr])) \<and> ?P (Suc k) A'"
      by (intro exI [of _ "Added (mk_result Accepted u [tr])"] exI [of _ A']) auto
  qed (use assms(1) in auto)
  then obtain rs B' ids' where r: "spec_run cfg (map (\<lambda>i. Add (g i) Limit px u Buy) is) B = (rs, B')"
    "\<forall>r \<in> set rs. \<exists>tr. r = Added (mk_result Accepted u [tr])" "sells u hi ids' B'" "length ids' + length is = length ids"
    "set ids' \<subseteq> set ids" "distinct ids \<longrightarrow> distinct ids'" "spec_asks B' = drop (length is) (spec_asks B)"
    by blast
  from r(4) have "length ids' = length ids - length is" by simp
  with r show ?thesis by blast
qed

text \<open>A taker of the size of the whole book empties it, one trade per maker.\<close>

lemma unat_times_32:
  assumes "n * unat u < 2 ^ 32"
  shows "unat (of_nat n * (u :: u32)) = n * unat u"
proof -
  have "of_nat n * u = of_nat (n * unat u)" by simp
  then show ?thesis using unat_of_nat_32 [OF assms] by metis
qed

lemma fill_equal:
  assumes "\<forall>r \<in> set rs. c (rprice r) \<and> rqty r = u" "length rs * unat u < 2 ^ 32" "u \<noteq> 0"
  shows "spec_fill c t (of_nat (length rs) * u) rs = (map (\<lambda>r. spec_trade r t u) rs, 0, [])"
  using assms
proof (induction rs)
  case (Cons r rs)
  let ?q = "of_nat (length (r # rs)) * u"
  have rest: "?q - u = of_nat (length rs) * u" by (simp add: algebra_simps)
  have "unat ?q = length (r # rs) * unat u"
    using unat_times_32 Cons.prems(2) by blast
  moreover have "unat u \<le> length (r # rs) * unat u" by simp
  ultimately have le: "u \<le> ?q" by (simp add: word_le_nat_alt)
  then have "?q \<noteq> 0" using Cons.prems(3) by auto
  moreover have "length rs * unat u < 2 ^ 32" using Cons.prems(2) by simp
  ultimately show ?case using Cons rest le by (simp del: of_nat_Suc length_Cons add: Let_def)
qed simp

lemma sweep_step:
  assumes "sells u hi ids B" "ids \<noteq> []" "u \<noteq> 0" "valid_id cfg t" "t \<notin> set ids" "valid_price cfg px" "hi \<le> px"
    "length ids * unat u < 2 ^ 32"
  shows "\<exists>ts. spec_add cfg t Limit px (of_nat (length ids) * u) Buy B =
      (mk_result Accepted (of_nat (length ids) * u) ts, spec_empty) \<and> length ts = length ids"
proof -
  let ?q = "of_nat (length ids) * u"
  have l: "length (spec_asks B) = length ids" using sells_ids(2) [OF assms(1)] assms(1) by (simp add: book_size_def sells_def)
  have fill: "spec_fill (crosses Buy px) t ?q (spec_asks B) = (map (\<lambda>r. spec_trade r t u) (spec_asks B), 0, [])"
  proof -
    have "\<forall>r \<in> set (spec_asks B). crosses Buy px (rprice r) \<and> rqty r = u"
      using assms(1,7) by (auto simp: sells_def crosses_def intro: order_trans)
    from fill_equal [OF this, of t] show ?thesis using assms(3,8) by (simp add: l)
  qed
  have "unat ?q = length ids * unat u" using unat_times_32 assms(8) by blast
  then have "?q \<noteq> 0" using assms(2,3) by (auto simp: unat_eq_0)
  then have "spec_check cfg t Limit px ?q Buy B = None" using check_None assms(4-6) sells_ids(1) [OF assms(1)] by simp
  moreover have "spec_match t (limit_of Limit Buy px) ?q Buy B = (map (\<lambda>r. spec_trade r t u) (spec_asks B), 0, spec_empty)"
    using fill assms(1) by (simp add: spec_match_def limit_of_def sells_def spec_empty_def)
  ultimately show ?thesis using l
    by (intro exI [of _ "map (\<lambda>r. spec_trade r t u) (spec_asks B)"]) (simp add: spec_add_def spec_submit_def)
qed

text \<open>In a sorted book an order with two better ones ahead is not among the first two.\<close>

lemma behind_two:
  assumes "side_sorted Sell xs" "r \<in> set xs" "x \<in> set xs" "y \<in> set xs" "x \<noteq> y" "rprice x < rprice r" "rprice y < rprice r"
  shows "r \<in> set (drop 2 xs)"
proof -
  obtain pre post where xs: "xs = pre @ r # post" using assms(2) by (auto simp: in_set_conv_decomp)
  have "\<forall>z \<in> set post. rprice r \<le> rprice z" using assms(1) by (simp add: xs side_sorted_def sorted_wrt_append)
  then have "{x, y} \<subseteq> set pre" using assms(3,4,6,7) by (auto simp: xs)
  then have "card {x, y} \<le> card (set pre)" by (intro card_mono) simp_all
  then have "2 \<le> length pre" using assms(5) card_length [of pre] by simp
  then show ?thesis by (simp add: xs)
qed

lemma cancel_listed:
  assumes "sells u hi ids B" "distinct ids" "valid_id cfg i" "i \<in> set ids" "side_sorted Sell (spec_asks B)"
  shows "\<exists>B'. spec_cancel cfg i B = (Accepted, B') \<and> sells u hi (remove1 i ids) B' \<and> side_sorted Sell (spec_asks B')"
proof -
  have "sells u hi (i # remove1 i ids) B" using assms(1,4) by (simp add: sells_def)
  moreover have "i \<notin> set (remove1 i ids)" using assms(2) by simp
  ultimately obtain B' where B': "spec_cancel cfg i B = (Accepted, B')" "sells u hi (remove1 i ids) B'"
    using cancel_sell assms(3) by blast
  then have "B' = spec_remove i B" by (auto simp: spec_cancel_def split: if_splits)
  then have "side_sorted Sell (spec_asks B')" using assms(5) by (simp add: spec_remove_def side_sorted_def sorted_wrt_filter)
  with B' show ?thesis by blast
qed

section \<open>Cancellations of arbitrary orders\<close>

text \<open>Cancelling distinct ids takes out those that rest, and reports the others.\<close>

definition equal_book :: "Quantity \<Rightarrow> SpecBook \<Rightarrow> bool" where
  "equal_book u B \<longleftrightarrow> (\<forall>s. \<forall>r \<in> set (resting s B). rqty r = u)"

lemma remove_ids: "book_ids (spec_remove i B) = filter (\<lambda>j. j \<noteq> i) (book_ids B)"
  by (simp add: spec_remove_def book_ids_def filter_map comp_def)

lemma book_size_ids: "book_size B = length (book_ids B)"
  by (simp add: book_size_def book_ids_def)

lemma resting_remove: "resting s (spec_remove i B) = filter (\<lambda>r. rid r \<noteq> i) (resting s B)"
  by (cases s) (simp_all add: spec_remove_def)

lemma cancels_session:
  assumes "distinct ids" "\<forall>i \<in> set ids. i \<noteq> 0 \<and> unat i \<le> cfg_max_id cfg" "distinct (book_ids B)"
  shows "\<exists>B'. spec_run cfg (map CancelId ids) B =
      (map (\<lambda>i. Cancelled (if i \<in> set (book_ids B) then Accepted else CancelFailed)) ids, B') \<and>
    set (book_ids B') = set (book_ids B) - set ids \<and>
    book_size B' + length (filter (\<lambda>i. i \<in> set (book_ids B)) ids) = book_size B \<and> (equal_book u B \<longrightarrow> equal_book u B')"
  using assms
proof (induction ids arbitrary: B)
  case (Cons i ids)
  obtain r B1 where 1: "spec_cancel cfg i B = (r, B1)" by fastforce
  then have B1: "r = (if i \<in> set (book_ids B) then Accepted else CancelFailed)"
    "B1 = (if i \<in> set (book_ids B) then spec_remove i B else B)"
    using Cons.prems(2) by (auto simp: spec_cancel_def split: if_splits)
  have ids1: "set (book_ids B1) = set (book_ids B) - {i}" "distinct (book_ids B1)"
    using Cons.prems(3) by (auto simp: B1(2) remove_ids)
  have sz: "book_size B1 + (if i \<in> set (book_ids B) then 1 else 0) = book_size B"
  proof (cases "i \<in> set (book_ids B)")
    case True
    then have "length (remove1 i (book_ids B)) + 1 = length (book_ids B)" using length_pos_if_in_set [of i "book_ids B"] by (simp add: length_remove1)
    then show ?thesis
      using True Cons.prems(3) by (simp add: B1(2) book_size_ids remove_ids distinct_remove1_removeAll removeAll_filter_not_eq eq_commute [of i])
  qed (simp add: B1(2))
  have eq: "equal_book u B \<longrightarrow> equal_book u B1" by (auto simp: B1(2) equal_book_def resting_remove)
  obtain B' where B': "spec_run cfg (map CancelId ids) B1 =
      (map (\<lambda>j. Cancelled (if j \<in> set (book_ids B1) then Accepted else CancelFailed)) ids, B')"
    "set (book_ids B') = set (book_ids B1) - set ids"
    "book_size B' + length (filter (\<lambda>j. j \<in> set (book_ids B1)) ids) = book_size B1" "equal_book u B1 \<longrightarrow> equal_book u B'"
    using Cons.IH [of B1] Cons.prems ids1(2) by auto
  have same: "j \<in> set (book_ids B1) \<longleftrightarrow> j \<in> set (book_ids B)" if "j \<in> set ids" for j using that Cons.prems(1) ids1(1) by auto
  have "map (\<lambda>j. Cancelled (if j \<in> set (book_ids B1) then Accepted else CancelFailed)) ids =
      map (\<lambda>j. Cancelled (if j \<in> set (book_ids B) then Accepted else CancelFailed)) ids"
    "filter (\<lambda>j. j \<in> set (book_ids B1)) ids = filter (\<lambda>j. j \<in> set (book_ids B)) ids"
    using same by (auto intro: filter_cong)
  with 1 B1(1) ids1 B' sz eq show ?case by auto
qed simp

section \<open>Books of one order size\<close>

text \<open>
  When every order has the same size, an order either rests whole or is filled whole by one
  maker, so the number of resting orders counts the trades.
\<close>

definition traded :: "Outcome \<Rightarrow> bool" where
  "traded r \<longleftrightarrow> (\<exists>a. r = Added a \<and> res_trades a \<noteq> [])"

lemma traded_simps [simp]: "traded (Added a) \<longleftrightarrow> res_trades a \<noteq> []" "\<not> traded (Cancelled r)"
  by (auto simp: traded_def)

lemma equal_add:
  assumes "spec_add cfg i Limit px u s B = (a, B')" "equal_book u B" "u \<noteq> 0" "valid_id cfg i" "valid_price cfg px"
    "i \<notin> set (book_ids B)" "book_size B < cfg_capacity cfg"
  shows "equal_book u B' \<and> (a = mk_result Accepted 0 [] \<and> book_size B' = Suc (book_size B) \<or>
    (\<exists>tr. a = mk_result Accepted u [tr] \<and> Suc (book_size B') = book_size B))"
proof -
  obtain ts q' B1 where m: "spec_match i px u s B = (ts, q', B1)" by (metis prod_cases3)
  have sub: "spec_submit cfg i Limit px u s B = (a, B')"
    using check_None [OF assms(3,4,6,5)] assms(1) by (simp add: spec_add_def)
  obtain rs where f: "spec_fill (crosses s px) i u (resting (opposite s) B) = (ts, q', rs)" "B1 = set_resting (opposite s) rs B"
    using m by (rule spec_match_fill)
  have eq: "\<forall>r \<in> set (resting t B). rqty r = u" for t using assms(2) by (simp add: equal_book_def)
  show ?thesis
  proof (cases "resting (opposite s) B \<noteq> [] \<and> crosses s px (rprice (hd (resting (opposite s) B)))")
    case True
    then obtain r xs where r: "resting (opposite s) B = r # xs" "crosses s px (rprice r)" by (cases "resting (opposite s) B") auto
    then have rs: "ts = [spec_trade r i u]" "q' = 0" "rs = xs" using f(1) eq [of "opposite s"] assms(3) by auto
    then have "a = mk_result Accepted u [spec_trade r i u]" "B' = B1" using sub m by (simp_all add: spec_submit_def limit_of_def)
    moreover have "equal_book u B1" using eq eq [of "opposite s"] r(1) by (auto simp: equal_book_def f(2) rs)
    ultimately show ?thesis using r(1) by (auto simp: f(2) rs book_size_side [of _ s])
  next
    case False
    then have fl: "spec_fill (crosses s px) i u (resting (opposite s) B) = ([], u, resting (opposite s) B)"
      by (cases "resting (opposite s) B") auto
    then have "B1 = B" "ts = []" "q' = u" using f by (cases s; simp)+
    then have "a = mk_result Accepted 0 []" "B' = set_resting s (spec_insert s \<lparr>rid = i, rprice = px, rqty = u\<rparr> (resting s B)) B"
      using sub m assms(3,7) by (auto simp: spec_submit_def limit_of_def spec_rest_def)
    then show ?thesis using eq by (auto simp: equal_book_def book_size_side [of _ s])
  qed
qed

lemma equal_session:
  assumes "spec_run cfg xs B = (rs, B')" "\<forall>x \<in> set xs. valid_limit cfg x \<and> (\<exists>i px s. x = Add i Limit px u s)"
    "distinct (concat (map entered xs))" "set (book_ids B) \<inter> set (concat (map entered xs)) = {}"
    "book_size B + length xs \<le> cfg_capacity cfg" "equal_book u B"
  shows "(\<forall>r \<in> set rs. r = Added (mk_result Accepted 0 []) \<or> (\<exists>tr. r = Added (mk_result Accepted u [tr]))) \<and>
    book_size B' + 2 * length (filter traded rs) = book_size B + length xs \<and> equal_book u B' \<and>
    set (book_ids B') \<subseteq> set (book_ids B) \<union> set (concat (map entered xs))"
  using assms
proof (induction xs arbitrary: B rs)
  case (Cons x xs)
  then obtain i px s where x: "x = Add i Limit px u s" by auto
  obtain a B1 rs1 where 1: "spec_add cfg i Limit px u s B = (a, B1)" "spec_run cfg xs B1 = (rs1, B')" "rs = Added a # rs1"
    using Cons.prems(1) x by (auto split: prod.splits)
  have v: "u \<noteq> 0" "valid_id cfg i" "valid_price cfg px" "i \<notin> set (book_ids B)" "book_size B < cfg_capacity cfg"
    using Cons.prems(2,4,5) x by (auto simp: valid_id_def valid_price_def)
  note e = equal_add [OF 1(1) Cons.prems(6) v]
  have ids: "set (book_ids B1) \<subseteq> insert i (set (book_ids B))"
    using fresh_add(2) [OF 1(1) v(1) _ _ v(4) _ _ v(5)] v(2,3) by (simp add: valid_id_def valid_price_def)
  have "(\<forall>r \<in> set rs1. r = Added (mk_result Accepted 0 []) \<or> (\<exists>tr. r = Added (mk_result Accepted u [tr]))) \<and>
      book_size B' + 2 * length (filter traded rs1) = book_size B1 + length xs \<and> equal_book u B' \<and>
      set (book_ids B') \<subseteq> set (book_ids B1) \<union> set (concat (map entered xs))"
  proof (rule Cons.IH [OF 1(2)])
    show "set (book_ids B1) \<inter> set (concat (map entered xs)) = {}" using Cons.prems(3,4) x ids by auto
    show "book_size B1 + length xs \<le> cfg_capacity cfg" using e Cons.prems(5) by auto
  qed (use Cons.prems e in auto)
  with e 1(3) ids x show ?case by (auto simp: mk_result_def)
qed simp

section \<open>Orders that cross everything\<close>

lemma fill_crossing_all:
  assumes "spec_fill c t q rs = (ts, q', rs')" "\<forall>r \<in> set rs. c (rprice r)"
  shows "unat (q - q') = min (unat q) (\<Sum>r\<leftarrow>rs. unat (rqty r))" "q' \<noteq> 0 \<Longrightarrow> rs' = []" "q' \<le> q"
proof -
  note cons = spec_fill_conserves [OF assms(1)] and res = spec_fill_resting [OF assms(1)]
  show le: "q' \<le> q" using cons by (simp add: word_le_nat_alt)
  show z: "q' \<noteq> 0 \<Longrightarrow> rs' = []" using spec_fill_rest_zero [OF assms(1,2)] by blast
  have "unat (q - q') = unat q - unat q'" using le by (simp add: unat_sub)
  with cons res z show "unat (q - q') = min (unat q) (\<Sum>r\<leftarrow>rs. unat (rqty r))" by (cases "q' = 0") auto
qed

end
