(* ===== verification/Memory_Locking.thy ===== *)
theory Memory_Locking
  imports HFT_Prelude
begin

text \<open>
  The memory-lock negotiation of \<open>src/src/main.cpp\<close> and the preload library
  \<open>src/tools/mlock_gvisor_sim.c\<close> that reproduces the runtimes it guards against. The operating
  system is a parameter: a record of the calls the sources make, on a state of any type. The
  simulator is such a record on top of another one.
\<close>

section \<open>The calls\<close>

text \<open>A call returns its C result and the new state; \<open>errno\<close> is part of the state.\<close>

record 's Sys =
  is_linux :: bool
  getenv :: "string \<Rightarrow> 's \<Rightarrow> string option"
  setrlimit_memlock :: "'s \<Rightarrow> int \<times> 's"
  mlockall :: "u32 \<Rightarrow> 's \<Rightarrow> int \<times> 's"
  munlockall :: "'s \<Rightarrow> int \<times> 's"
  mlock :: "u64 \<Rightarrow> nat \<Rightarrow> 's \<Rightarrow> int \<times> 's"
  munlock :: "u64 \<Rightarrow> nat \<Rightarrow> 's \<Rightarrow> int \<times> 's"
  mmap :: "u64 \<Rightarrow> nat \<Rightarrow> u32 \<Rightarrow> u32 \<Rightarrow> int \<Rightarrow> int \<Rightarrow> 's \<Rightarrow> u64 \<times> 's"
  munmap :: "u64 \<Rightarrow> nat \<Rightarrow> 's \<Rightarrow> int \<times> 's"
  store_byte :: "u64 \<Rightarrow> u8 \<Rightarrow> 's \<Rightarrow> 's"
  errno :: "'s \<Rightarrow> int"
  set_errno :: "int \<Rightarrow> 's \<Rightarrow> 's"

definition MAP_FAILED :: u64 where "MAP_FAILED = - 1"
definition MCL_CURRENT :: u32 where "MCL_CURRENT = 1"
definition MCL_FUTURE :: u32 where "MCL_FUTURE = 2"
definition PROT_READ :: u32 where "PROT_READ = 1"
definition PROT_WRITE :: u32 where "PROT_WRITE = 2"
definition MAP_PRIVATE :: u32 where "MAP_PRIVATE = 2"
definition MAP_ANONYMOUS :: u32 where "MAP_ANONYMOUS = 0x20"
definition EPERM :: int where "EPERM = 1"
definition ENOMEM :: int where "ENOMEM = 12"

lemmas flag_defs = MCL_CURRENT_def MCL_FUTURE_def PROT_READ_def PROT_WRITE_def MAP_PRIVATE_def MAP_ANONYMOUS_def

section \<open>The negotiation\<close>

datatype LockMode = Locked | Disabled | MadviseOnly | Pageable | Reverted

text \<open>The warnings on \<open>stderr\<close>, with the value of \<open>errno\<close> they print.\<close>

datatype Warning = SetrlimitFailed int | MlockallFailed int | LockedAllocationsFail

definition kProbePageBytes :: nat where
  "kProbePageBytes = 4096"

definition locked_alloc_probe_ok :: "'s Sys \<Rightarrow> 's \<Rightarrow> bool \<times> 's" where
  "locked_alloc_probe_ok S s =
     (if \<not> is_linux S then (False, s)
      else let (page, s) = mmap S 0 kProbePageBytes (PROT_READ OR PROT_WRITE) (MAP_PRIVATE OR MAP_ANONYMOUS) (- 1) 0 s
      in if page = MAP_FAILED then (False, s)
      else let (r, s) = mlock S page kProbePageBytes s
      in if r \<noteq> 0 then let (_, s) = munmap S page kProbePageBytes s in (False, s)
      else let s = store_byte S page 1 s;
               (_, s) = munlock S page kProbePageBytes s;
               (_, s) = munmap S page kProbePageBytes s
           in (True, s))"

definition prepare_memory_locking :: "'s Sys \<Rightarrow> 's \<Rightarrow> LockMode \<times> Warning list \<times> 's" where
  "prepare_memory_locking S s =
     (if \<not> is_linux S then (Pageable, [], s)
      else if getenv S ''HFT_DISABLE_MLOCKALL'' s \<noteq> None then (Disabled, [], s)
      else if getenv S ''HFT_MADVISE_ONLY'' s \<noteq> None then (MadviseOnly, [], s)
      else let (r, s) = setrlimit_memlock S s
      in if r \<noteq> 0 then (Pageable, [SetrlimitFailed (errno S s)], s)
      else let (r, s) = mlockall S (MCL_CURRENT OR MCL_FUTURE) s
      in if r \<noteq> 0 then (Pageable, [MlockallFailed (errno S s)], s)
      else let (ok, s) = locked_alloc_probe_ok S s
      in if \<not> ok then let (_, s) = munlockall S s in (Reverted, [LockedAllocationsFail], s)
      else (Locked, [], s))"

text \<open>The recap on \<open>stdout\<close>.\<close>

definition em_dash :: string where
  "em_dash = [CHR 0xE2, CHR 0x80, CHR 0x94]"

fun print_lock_recap :: "LockMode \<Rightarrow> string" where
  "print_lock_recap Locked = ''[*] Memory locked successfully (mlockall).'' @ [CHR 0x0A, CHR 0x0A]"
| "print_lock_recap Disabled =
     ''[*] mlockall skipped (HFT_DISABLE_MLOCKALL set) '' @ em_dash @ '' memory is pageable.'' @ [CHR 0x0A, CHR 0x0A]"
| "print_lock_recap MadviseOnly =
     ''[*] madvise-only mode (HFT_MADVISE_ONLY set) '' @ em_dash @ '' mlockall skipped, '' @
     ''pools pre-faulted via MADV_POPULATE_WRITE.'' @ [CHR 0x0A, CHR 0x0A]"
| "print_lock_recap Pageable =
     ''[*] mlockall unavailable on this host '' @ em_dash @ '' memory is pageable.'' @ [CHR 0x0A, CHR 0x0A]"
| "print_lock_recap Reverted =
     ''[*] Memory is pageable (locked-allocation probe failed; see warning above).'' @ [CHR 0x0A, CHR 0x0A]"

section \<open>What a host promises\<close>

text \<open>
  \<open>future s\<close>: mappings made in state \<open>s\<close> are locked (\<open>MCL_FUTURE\<close> is in force). Only
  \<open>mlockall\<close>, when it succeeds, and \<open>munlockall\<close> change that.
\<close>

locale lock_host =
  fixes S :: "'s Sys" and future :: "'s \<Rightarrow> bool"
  assumes rlimit_future: "future (snd (setrlimit_memlock S s)) = future s"
    and mlockall_future: "future (snd (mlockall S f s)) =
      (if fst (mlockall S f s) = 0 then f AND MCL_FUTURE \<noteq> 0 else future s)"
    and munlockall_future: "\<not> future (snd (munlockall S s))"
    and mmap_future: "future (snd (mmap S a n p f d off s)) = future s"
    and munmap_future: "future (snd (munmap S a n s)) = future s"
    and mlock_future: "future (snd (mlock S a n s)) = future s"
    and munlock_future: "future (snd (munlock S a n s)) = future s"
    and store_future: "future (store_byte S a v s) = future s"
begin

lemmas keeps_future = rlimit_future mmap_future munmap_future mlock_future munlock_future store_future

lemma probe_future: "future (snd (locked_alloc_probe_ok S s)) = future s"
  by (simp add: locked_alloc_probe_ok_def Let_def case_prod_beta keeps_future)

text \<open>New mappings are locked after the negotiation exactly when it reports so.\<close>

lemma negotiated:
  assumes "\<not> future s"
  shows "future (snd (snd (prepare_memory_locking S s))) \<longleftrightarrow> fst (prepare_memory_locking S s) = Locked"
proof -
  have "(MCL_CURRENT OR MCL_FUTURE) AND MCL_FUTURE \<noteq> 0" by (simp add: flag_defs)
  with assms show ?thesis
    by (simp add: prepare_memory_locking_def Let_def case_prod_beta rlimit_future mlockall_future munlockall_future probe_future)
qed

end

section \<open>The simulator\<close>

text \<open>The library's flag, over the state of the host below it.\<close>

record 's Sim =
  g_future_locked :: bool
  below :: 's

text \<open>\<open>dlsym\<close>: which calls of the host the loader finds.\<close>

definition sim_mlockall :: "(string \<Rightarrow> bool) \<Rightarrow> 's Sys \<Rightarrow> u32 \<Rightarrow> 's Sim \<Rightarrow> int \<times> 's Sim" where
  "sim_mlockall dlsym R flags s =
     (let s = (if dlsym ''mlockall'' then s\<lparr>below := snd (mlockall R (flags AND NOT MCL_FUTURE) (below s))\<rparr> else s)
      in (0, s\<lparr>g_future_locked := (flags AND MCL_FUTURE \<noteq> 0)\<rparr>))"

definition sim_munlockall :: "(string \<Rightarrow> bool) \<Rightarrow> 's Sys \<Rightarrow> 's Sim \<Rightarrow> int \<times> 's Sim" where
  "sim_munlockall dlsym R s =
     (let s = (if dlsym ''munlockall'' then s\<lparr>below := snd (munlockall R (below s))\<rparr> else s)
      in (0, s\<lparr>g_future_locked := False\<rparr>))"

definition sim_mlock :: "(string \<Rightarrow> bool) \<Rightarrow> 's Sys \<Rightarrow> u64 \<Rightarrow> nat \<Rightarrow> 's Sim \<Rightarrow> int \<times> 's Sim" where
  "sim_mlock dlsym R a len s =
     (if g_future_locked s then (- 1, s\<lparr>below := set_errno R EPERM (below s)\<rparr>)
      else if dlsym ''mlock'' then let (r, t) = mlock R a len (below s) in (r, s\<lparr>below := t\<rparr>)
      else (- 1, s))"

definition sim_mmap :: "(string \<Rightarrow> bool) \<Rightarrow> 's Sys \<Rightarrow> u64 \<Rightarrow> nat \<Rightarrow> u32 \<Rightarrow> u32 \<Rightarrow> int \<Rightarrow> int \<Rightarrow> 's Sim \<Rightarrow> u64 \<times> 's Sim" where
  "sim_mmap dlsym R a len prot flags fd off s =
     (if g_future_locked s \<and> prot AND PROT_WRITE \<noteq> 0 \<and> flags AND MAP_PRIVATE \<noteq> 0 \<and> flags AND MAP_ANONYMOUS \<noteq> 0
      then (MAP_FAILED, s\<lparr>below := set_errno R ENOMEM (below s)\<rparr>)
      else if dlsym ''mmap'' then let (p, t) = mmap R a len prot flags fd off (below s) in (p, s\<lparr>below := t\<rparr>)
      else (MAP_FAILED, s))"

text \<open>Every other call goes to the host.\<close>

definition pass :: "('s \<Rightarrow> 'r \<times> 's) \<Rightarrow> 's Sim \<Rightarrow> 'r \<times> 's Sim" where
  "pass f s = (let (r, t) = f (below s) in (r, s\<lparr>below := t\<rparr>))"

definition sim_sys :: "(string \<Rightarrow> bool) \<Rightarrow> 's Sys \<Rightarrow> 's Sim Sys" where
  "sim_sys dlsym R = \<lparr>is_linux = is_linux R, getenv = (\<lambda>v s. getenv R v (below s)),
     setrlimit_memlock = pass (setrlimit_memlock R), mlockall = sim_mlockall dlsym R, munlockall = sim_munlockall dlsym R,
     mlock = sim_mlock dlsym R, munlock = (\<lambda>a n. pass (munlock R a n)), mmap = sim_mmap dlsym R,
     munmap = (\<lambda>a n. pass (munmap R a n)), store_byte = (\<lambda>a v s. s\<lparr>below := store_byte R a v (below s)\<rparr>),
     errno = (\<lambda>s. errno R (below s)), set_errno = (\<lambda>e s. s\<lparr>below := set_errno R e (below s)\<rparr>)\<rparr>"

lemma pass_flag [simp]: "g_future_locked (snd (pass f s)) = g_future_locked s"
  by (simp add: pass_def case_prod_beta)

interpretation sim: lock_host "sim_sys dlsym R" g_future_locked for dlsym R
  by unfold_locales
    (auto simp: sim_sys_def sim_mlockall_def sim_munlockall_def sim_mlock_def sim_mmap_def Let_def case_prod_beta)

text \<open>While the flag is set the probe fails.\<close>

lemma sim_probe_fails:
  assumes "g_future_locked s"
  shows "fst (locked_alloc_probe_ok (sim_sys dlsym R) s) = False"
  using assms by (simp add: locked_alloc_probe_ok_def sim_sys_def sim_mmap_def flag_defs)

text \<open>
  C33: under the simulated sandbox the program never runs with broken locked memory. Whatever the
  host below, the negotiation does not end in \<open>Locked\<close>; it leaves the flag clear, so later
  mappings go to the host; and when no environment variable intervenes and the limit can be
  raised it is the probe that finds out, with the warning the smoke test looks for.
\<close>

theorem simulator_self_heals:
  assumes "\<not> g_future_locked s" "prepare_memory_locking (sim_sys dlsym R) s = (mode, ws, s')"
  shows "mode \<noteq> Locked \<and> \<not> g_future_locked s' \<and>
    (dlsym ''mmap'' \<longrightarrow> fst (mmap (sim_sys dlsym R) a n prot fl fd off s') = fst (mmap R a n prot fl fd off (below s'))) \<and>
    (is_linux R \<and> getenv R ''HFT_DISABLE_MLOCKALL'' (below s) = None \<and> getenv R ''HFT_MADVISE_ONLY'' (below s) = None \<and>
     fst (setrlimit_memlock R (below s)) = 0 \<longleftrightarrow> mode = Reverted) \<and>
    (mode = Reverted \<longrightarrow> ws = [LockedAllocationsFail])"
proof -
  let ?S = "sim_sys dlsym R"
  define s1 where "s1 = snd (setrlimit_memlock ?S s)"
  define s2 where "s2 = snd (mlockall ?S (MCL_CURRENT OR MCL_FUTURE) s1)"
  have ml: "fst (mlockall ?S (MCL_CURRENT OR MCL_FUTURE) s1) = 0" by (simp add: sim_sys_def sim_mlockall_def Let_def)
  have "g_future_locked s2" using sim.mlockall_future [of dlsym R "MCL_CURRENT OR MCL_FUTURE" s1] ml by (simp add: s2_def flag_defs)
  note pf = sim_probe_fails [OF this, of dlsym R]
  have sys: "is_linux ?S = is_linux R" "getenv ?S v t = getenv R v (below t)"
    "fst (setrlimit_memlock ?S s) = fst (setrlimit_memlock R (below s))" for v t
    by (simp_all add: sim_sys_def pass_def case_prod_beta)
  have m: "mode = fst (prepare_memory_locking ?S s)" "ws = fst (snd (prepare_memory_locking ?S s))" "s' = snd (snd (prepare_memory_locking ?S s))"
    using assms(2) by simp_all
  have cases: "mode \<noteq> Locked" "mode = Reverted \<longleftrightarrow> is_linux R \<and> getenv R ''HFT_DISABLE_MLOCKALL'' (below s) = None \<and>
      getenv R ''HFT_MADVISE_ONLY'' (below s) = None \<and> fst (setrlimit_memlock R (below s)) = 0" "mode = Reverted \<longrightarrow> ws = [LockedAllocationsFail]"
    using pf ml unfolding m(1,2) s2_def s1_def
    by (auto simp: prepare_memory_locking_def Let_def case_prod_beta sys)
  moreover have nf: "\<not> g_future_locked s'" using sim.negotiated [OF assms(1), of dlsym R] cases(1) unfolding m by simp
  moreover have "dlsym ''mmap'' \<longrightarrow> fst (mmap ?S a n prot fl fd off s') = fst (mmap R a n prot fl fd off (below s'))"
    using nf by (simp add: sim_sys_def sim_mmap_def case_prod_beta)
  ultimately show ?thesis by blast
qed

text \<open>A host on which every call succeeds.\<close>

definition quiet_host :: "nat Sys" where
  "quiet_host = \<lparr>is_linux = True, getenv = (\<lambda>_ _. None), setrlimit_memlock = (\<lambda>s. (0, s)), mlockall = (\<lambda>_ s. (0, s)),
     munlockall = (\<lambda>s. (0, s)), mlock = (\<lambda>_ _ s. (0, s)), munlock = (\<lambda>_ _ s. (0, s)),
     mmap = (\<lambda>_ n _ _ _ _ s. (of_nat s, s + n)), munmap = (\<lambda>_ _ s. (0, s)), store_byte = (\<lambda>_ _ s. s),
     errno = (\<lambda>_. 0), set_errno = (\<lambda>_ s. s)\<rparr>"

theorem simulator_self_heals_witness:
  "\<exists>mode ws s'. prepare_memory_locking (sim_sys (\<lambda>_. True) quiet_host) \<lparr>g_future_locked = False, below = 4096\<rparr> = (mode, ws, s') \<and>
    mode = Reverted \<and> ws = [LockedAllocationsFail] \<and> \<not> g_future_locked s'"
proof -
  let ?s = "\<lparr>g_future_locked = False, below = 4096 :: nat\<rparr>"
  obtain mode ws s' where p: "prepare_memory_locking (sim_sys (\<lambda>_. True) quiet_host) ?s = (mode, ws, s')" by (metis prod_cases3)
  from simulator_self_heals [OF _ p] p show ?thesis by (simp add: quiet_host_def)
qed

end
