(* ===== verification/Demo_Program.thy ===== *)
theory Demo_Program
  imports Session_Laws Book_Access Memory_Locking Text_Format
begin

text \<open>
  The \<open>hft_engine\<close> program of \<open>src/src/main.cpp\<close>: the memory-lock negotiation, then five
  workloads, each on a book of its own, and the text it prints. A workload is the list of its
  requests; the clock is read before and after each. Loop counters are natural numbers: none
  passes 1000000, far below the \<open>uint64_t\<close> they are.
\<close>

section \<open>The numbers\<close>

definition kWarmupOps :: nat where "kWarmupOps = 100000"
definition kInsertOps :: nat where "kInsertOps = 1000000"
definition kMatchSeedOrders :: nat where "kMatchSeedOrders = 100000"
definition kMatchTakerOrders :: nat where "kMatchTakerOrders = 100000"
definition kCancelOps :: nat where "kCancelOps = 500000"
definition kMixedOps :: nat where "kMixedOps = 1000000"
definition kIdHeadroom :: nat where "kIdHeadroom = 10"
definition kMixCycleLen :: nat where "kMixCycleLen = 10"
definition kMixInsertCutoff :: nat where "kMixInsertCutoff = 7"
definition kMixMatchCutoff :: nat where "kMixMatchCutoff = 9"
definition kMixCancelLookback :: nat where "kMixCancelLookback = 5"
definition kWarmupMaxPrice :: Price where "kWarmupMaxPrice = 20000"
definition kMaxBookPrice :: Price where "kMaxBookPrice = 2000"
definition kBasePrice :: Price where "kBasePrice = 1000"
definition kWarmupSpread :: Price where "kWarmupSpread = 1000"
definition kSeedSpreadNarrow :: Price where "kSeedSpreadNarrow = 100"
definition kSeedSpreadWide :: Price where "kSeedSpreadWide = 500"
definition kTakerPrice :: Price where "kTakerPrice = 1100"
definition kMixSpread :: Price where "kMixSpread = 200"
definition kMixTakerPrice :: Price where "kMixTakerPrice = 1200"
definition kDemoQty :: Quantity where "kDemoQty = 10"

lemmas demo_numbers = kWarmupOps_def kInsertOps_def kMatchSeedOrders_def kMatchTakerOrders_def kCancelOps_def kMixedOps_def
  kIdHeadroom_def kMixCycleLen_def kMixInsertCutoff_def kMixMatchCutoff_def kMixCancelLookback_def kWarmupMaxPrice_def
  kMaxBookPrice_def kBasePrice_def kWarmupSpread_def kSeedSpreadNarrow_def kSeedSpreadWide_def kTakerPrice_def kMixSpread_def
  kMixTakerPrice_def kDemoQty_def

section \<open>The workloads\<close>

text \<open>A fresh book and a session on it.\<close>

definition OrderBook_new_sized :: "Env \<Rightarrow> nat \<Rightarrow> Price \<Rightarrow> Price \<Rightarrow> OrderBook option" where
  "OrderBook_new_sized E max_orders minp maxp = OrderBook_new E max_orders max_orders minp maxp"

definition session :: "Env \<Rightarrow> OrderBook option \<Rightarrow> Request list \<Rightarrow> (Outcome list \<times> OrderBook) option" where
  "session E book xs = do { b \<leftarrow> book; run (engine_step E) xs b }"

text \<open>\<open>static_cast<Price>(kBasePrice + (i % spread))\<close>.\<close>

definition spread_price :: "Price \<Rightarrow> nat \<Rightarrow> Price" where
  "spread_price spread i = of_nat (unat kBasePrice + i mod unat spread)"

definition passive_sell :: "Price \<Rightarrow> nat \<Rightarrow> Request" where
  "passive_sell spread i = Add (of_nat i) Limit (spread_price spread i) kDemoQty Sell"

definition cancel_add :: "nat \<Rightarrow> Request" where
  "cancel_add i = Add (of_nat i) Cancel 0 0 Buy"

definition warmup :: "Env \<Rightarrow> (Outcome list \<times> OrderBook) option" where
  "warmup E = session E (OrderBook_new_sized E (kWarmupOps + kIdHeadroom) 0 kWarmupMaxPrice)
     (concat (map (\<lambda>i. [passive_sell kWarmupSpread i, cancel_add i]) [1..<Suc kWarmupOps]))"

definition pure_insertion :: "Env \<Rightarrow> (Outcome list \<times> OrderBook) option" where
  "pure_insertion E = session E (OrderBook_new_sized E (kInsertOps + kIdHeadroom) 0 kMaxBookPrice)
     (map (passive_sell kWarmupSpread) [1..<Suc kInsertOps])"

definition matching_seeds :: "Request list" where
  "matching_seeds = map (passive_sell kSeedSpreadNarrow) [1..<Suc kMatchSeedOrders]"

definition matching_takers :: "Request list" where
  "matching_takers = map (\<lambda>i. Add (of_nat (kMatchSeedOrders + 1 + i)) Limit kTakerPrice kDemoQty Buy) [0..<kMatchTakerOrders]"

definition pure_matching :: "Env \<Rightarrow> (Outcome list \<times> OrderBook) option" where
  "pure_matching E = session E (OrderBook_new_sized E (kMatchSeedOrders + kMatchTakerOrders + kIdHeadroom) 0 kMaxBookPrice)
     (matching_seeds @ matching_takers)"

definition pure_cancellation :: "Env \<Rightarrow> (Outcome list \<times> OrderBook) option" where
  "pure_cancellation E = session E (OrderBook_new_sized E (kCancelOps + kIdHeadroom) 0 kMaxBookPrice)
     (map (passive_sell kSeedSpreadWide) [1..<Suc kCancelOps] @ map cancel_add [1..<Suc kCancelOps])"

text \<open>The mixed loop from counter \<open>i\<close> with \<open>n\<close> rounds left and next id \<open>nid\<close>.\<close>

fun mixed_ops :: "nat \<Rightarrow> nat \<Rightarrow> nat \<Rightarrow> Request list" where
  "mixed_ops 0 i nid = []"
| "mixed_ops (Suc n) i nid =
     (let op = i mod kMixCycleLen in
      if op < kMixInsertCutoff then
        Add (of_nat nid) Limit (spread_price kMixSpread i) kDemoQty Sell # mixed_ops n (Suc i) (Suc nid)
      else if op < kMixMatchCutoff then
        Add (of_nat nid) Limit kMixTakerPrice kDemoQty Buy # mixed_ops n (Suc i) (Suc nid)
      else
        cancel_add (if nid > kMixCancelLookback then nid - kMixCancelLookback else 1) # mixed_ops n (Suc i) nid)"

definition mixed_workload :: "Env \<Rightarrow> (Outcome list \<times> OrderBook) option" where
  "mixed_workload E = session E (OrderBook_new_sized E (kMixedOps + kIdHeadroom) 0 kMaxBookPrice) (mixed_ops kMixedOps 0 1)"

section \<open>What is printed\<close>

definition kNanosPerMicro :: double where "kNanosPerMicro = 1000"

text \<open>\<open>%d\<close> of a signed number.\<close>

definition show_int :: "int \<Rightarrow> string" where
  "show_int i = (if i < 0 then ''-'' @ dec (nat (- i)) else dec (nat i))"

text \<open>
  The microseconds between readings \<open>2 k\<close> and \<open>2 k + 1\<close> of the clock (nanoseconds), the readings
  around the \<open>k\<close>-th timed workload: \<open>duration_cast\<close> truncates towards zero.
\<close>

definition elapsed_us :: "(nat \<Rightarrow> int) \<Rightarrow> nat \<Rightarrow> int" where
  "elapsed_us clk k = (let d = clk (2 * k + 1) - clk (2 * k) in if d \<ge> 0 then d div 1000 else - ((- d) div 1000))"

definition report_timing :: "nat \<Rightarrow> u64 \<Rightarrow> string" where
  "report_timing OpCount microseconds =
     ''    Avg latency: '' @
     fixed_point 1 (div_d (mul_d (double_of (unat microseconds)) kNanosPerMicro) (double_of OpCount)) @ '' ns/op'' @ newline @ newline"

definition warmup_text :: string where
  "warmup_text = ''[0] Warming up the engine (I-Cache and Branch Predictors)...'' @ newline @ ''    Warmup complete.'' @ newline @ newline"

definition insertion_text :: "int \<Rightarrow> string" where
  "insertion_text us = ''[1] Pure Insertion: '' @ dec kInsertOps @ '' passive sell orders...'' @ newline @
     ''    Inserted '' @ dec kInsertOps @ '' orders in '' @ show_int us @ '' us'' @ newline @ report_timing kInsertOps (word_of_int us)"

definition matching_text :: "int \<Rightarrow> string" where
  "matching_text us = ''[2] Pure Matching: '' @ dec kMatchTakerOrders @ '' aggressive buy orders against '' @ dec kMatchSeedOrders @
     '' resting sells...'' @ newline @
     ''    Matched '' @ dec kMatchTakerOrders @ '' orders in '' @ show_int us @ '' us'' @ newline @
     report_timing kMatchTakerOrders (word_of_int us)"

definition cancellation_text :: "int \<Rightarrow> string" where
  "cancellation_text us = ''[3] Pure Cancellation: '' @ dec kCancelOps @ '' cancel operations...'' @ newline @
     ''    Cancelled '' @ dec kCancelOps @ '' orders in '' @ show_int us @ '' us'' @ newline @ report_timing kCancelOps (word_of_int us)"

definition mixed_text :: "int \<Rightarrow> string" where
  "mixed_text us = ''[4] Mixed Workload: '' @ dec kMixedOps @ '' ops (70% insert, 20% match, 10% cancel)...'' @ newline @
     ''    Processed '' @ dec kMixedOps @ '' ops in '' @ show_int us @ '' us'' @ newline @ report_timing kMixedOps (word_of_int us)"

text \<open>
  The program: exit status, warnings on the error stream and the text on the output;
  \<open>None\<close> when a book cannot be built or a call does not return.
\<close>

definition demo_main :: "Env \<Rightarrow> 's Sys \<Rightarrow> 's \<Rightarrow> (nat \<Rightarrow> int) \<Rightarrow> (int \<times> Warning list \<times> string) option" where
  "demo_main E S s clk = do {
     let (lock_mode, ws, s) = prepare_memory_locking S s;
     let out = ''=== HFT Matching Engine Benchmark ==='' @ newline @ newline @ print_lock_recap lock_mode;
     _ \<leftarrow> warmup E;
     let out = out @ warmup_text;
     _ \<leftarrow> pure_insertion E;
     let out = out @ insertion_text (elapsed_us clk 0);
     _ \<leftarrow> pure_matching E;
     let out = out @ matching_text (elapsed_us clk 1);
     _ \<leftarrow> pure_cancellation E;
     let out = out @ cancellation_text (elapsed_us clk 2);
     _ \<leftarrow> mixed_workload E;
     let out = out @ mixed_text (elapsed_us clk 3);
     Some (0, ws, out @ ''Engine run complete. Built for microsecond latency.'' @ newline)
   }"

text \<open>
  The average printed is the true one to the digit shown: within half a tenth of a nanosecond,
  plus one rounding of the quotient, for workloads of up to \<open>2^43\<close> microseconds (100 days).
\<close>

lemma report_timing_accurate:
  assumes "unat us \<le> 2 ^ 43" "0 < N" "N \<le> 2 ^ 53"
  obtains n where "report_timing N us = ''    Avg latency: '' @ dec (n div 10) @ ''.'' @ dec (n mod 10) @ '' ns/op'' @ newline @ newline"
    "\<bar>of_nat n / 10 - of_nat (unat us * 1000) / of_nat N\<bar> \<le> 1 / 20 + of_nat (unat us * 1000) / of_nat N / (2 ^ 53 :: rat)"
proof -
  let ?q = "of_nat (unat us * 1000) / of_nat N :: rat"
  have "double_of (unat us) = of_nat (unat us)" "fl (of_nat (unat us * 1000)) = of_nat (unat us * 1000)"
    using assms(1) by (intro double_of_exact fl_of_nat; simp)+
  then have x: "div_d (mul_d (double_of (unat us)) kNanosPerMicro) (double_of N) = fl ?q"
    using double_of_exact [OF assms(3)] unfolding div_d_def mul_d_def kNanosPerMicro_def by (simp only: of_nat_mult of_nat_numeral)
  obtain n where n: "fixed_point 1 (fl ?q) = dec (n div 10) @ ''.'' @ zero_pad 1 (dec (n mod 10))" "\<bar>of_nat n / 10 - fl ?q\<bar> \<le> 1 / 20"
    by (rule fixed_point_near [OF fl_nonneg, where p = 1 and x1 = ?q]) simp
  have z: "zero_pad 1 (dec (n mod 10)) = dec (n mod 10)" by (simp add: zero_pad_def dec.simps [of "n mod 10"])
  have e: "\<bar>fl ?q - ?q\<bar> \<le> ?q / 2 ^ 53" by (rule fl_error) (rule divide_nonneg_nonneg; rule of_nat_0_le_iff)
  show thesis
  proof (rule that)
    show "report_timing N us = ''    Avg latency: '' @ dec (n div 10) @ ''.'' @ dec (n mod 10) @ '' ns/op'' @ newline @ newline"
      unfolding report_timing_def x n(1) z append_assoc ..
    have "\<bar>of_nat n / 10 - ?q\<bar> \<le> \<bar>of_nat n / 10 - fl ?q\<bar> + \<bar>fl ?q - ?q\<bar>"
      using abs_triangle_ineq [of "of_nat n / 10 - fl ?q" "fl ?q - ?q"] by simp
    then show "\<bar>of_nat n / 10 - ?q\<bar> \<le> 1 / 20 + ?q / 2 ^ 53" using add_mono [OF n(2) e] by (rule order_trans)
  qed
qed

section \<open>What the engine does on them\<close>

lemma session_spec:
  assumes "minp \<le> maxp" "maxp \<noteq> UINT32_MAX" "max_id \<le> kMaxOrderIds" "unat maxp < kMaxPriceRangeTicks" "max_active \<le> kMaxPoolCapacity"
    "spec_run \<lparr>cfg_max_id = max_id, cfg_capacity = max_active, cfg_min = minp, cfg_max = maxp\<rparr> xs spec_empty = (rs, B)"
  shows "\<exists>b. session E (OrderBook_new E max_id max_active minp maxp) xs = Some (rs, b) \<and> book_abs b = B \<and>
    (\<forall>i. order_exists i b \<longleftrightarrow> i \<in> set (book_ids B)) \<and> unat (active_order_count b) = book_size B"
proof -
  have "unat maxp - unat minp + 1 \<le> kMaxPriceRangeTicks" using assms(4) by simp
  then have "OrderBook_new E max_id max_active minp maxp \<noteq> None"
    using assms(1-3) by (simp add: OrderBook_new_def Let_def not_less)
  then obtain b0 where b0: "OrderBook_new E max_id max_active minp maxp = Some b0" by blast
  have "cfg_of b0 = \<lparr>cfg_max_id = max_id, cfg_capacity = max_active, cfg_min = minp, cfg_max = maxp\<rparr>" "book_abs b0 = spec_empty"
    using OrderBook_new_abs(1,2) [OF b0] assms(5) by (simp_all add: min_def)
  with eng.run_refines [OF new_engine_inv [OF b0], of xs] assms(6) obtain b where
    "run (engine_step E) xs b0 = Some (rs, b)" "book_abs b = B" "engine_inv E b"
    by auto
  with b0 active_order_count_abs order_exists_abs show ?thesis by (auto simp: session_def engine_inv_def)
qed

text \<open>The configuration of a demo book, in which the ids and prices of the workloads are valid.\<close>

abbreviation demo_cfg :: "nat \<Rightarrow> Price \<Rightarrow> Config" where
  "demo_cfg n maxp \<equiv> \<lparr>cfg_max_id = n, cfg_capacity = n, cfg_min = 0, cfg_max = maxp\<rparr>"

lemma demo_session:
  assumes "spec_run (demo_cfg n maxp) xs spec_empty = (rs, B)" "n \<le> 2000000" "maxp \<le> 20000"
  shows "\<exists>b. session E (OrderBook_new_sized E n 0 maxp) xs = Some (rs, b) \<and> book_abs b = B \<and>
    (\<forall>i. order_exists i b \<longleftrightarrow> i \<in> set (book_ids B)) \<and> unat (active_order_count b) = book_size B"
  unfolding OrderBook_new_sized_def
proof (rule session_spec [OF _ _ _ _ _ assms(1)])
  show "maxp \<noteq> UINT32_MAX" using assms(3) by (auto simp: UINT32_MAX_def word_le_nat_alt)
  show "unat maxp < kMaxPriceRangeTicks" using assms(3) by (simp add: kMaxPriceRangeTicks_def word_le_nat_alt)
qed (use assms(2) in \<open>simp_all add: kMaxOrderIds_def kMaxPoolCapacity_def\<close>)

lemma of_nat_id: "0 < i \<Longrightarrow> i \<le> n \<Longrightarrow> n < 2 ^ 32 \<Longrightarrow> valid_id (demo_cfg n maxp) (of_nat i)"
  by (auto simp: valid_id_def unat_of_nat_32 word_unat_eq_iff)

lemma distinct_ids: "n < 2 ^ 32 \<Longrightarrow> distinct (map (of_nat :: nat \<Rightarrow> u32) [a..<n])"
  by (auto simp: distinct_map inj_on_def word_unat_eq_iff unat_of_nat_32)

lemma spread_price_le:
  assumes "0 < unat spread" "unat spread \<le> 19000" "unat kBasePrice + unat spread \<le> Suc (unat hi)"
  shows "spread_price spread i \<le> hi"
proof -
  have "i mod unat spread < unat spread" using assms(1) by simp
  then have l: "unat kBasePrice + i mod unat spread < unat kBasePrice + unat spread" by simp
  then have "unat (spread_price spread i) = unat kBasePrice + i mod unat spread"
    unfolding spread_price_def using assms(2) by (intro unat_of_nat_32) (simp add: kBasePrice_def)
  with l assms(3) show ?thesis by (simp add: word_le_nat_alt)
qed

lemma passive_sells:
  assumes "0 < unat spread" "unat spread \<le> 19000" "unat kBasePrice + unat spread \<le> Suc (unat hi)" "hi \<le> maxp" "k \<le> n" "n < 2 ^ 32 - 1"
  shows "\<exists>rs B. spec_run (demo_cfg n maxp) (map (passive_sell spread) [1..<Suc k]) spec_empty = (rs, B) \<and>
    (\<forall>r \<in> set rs. r = Added (mk_result Accepted 0 [])) \<and> sells kDemoQty hi (map of_nat [1..<Suc k]) B"
proof -
  have q: "kDemoQty \<noteq> 0" by (simp add: kDemoQty_def)
  have d: "distinct ([] @ map (of_nat :: nat \<Rightarrow> u32) [1..<Suc k])"
    unfolding append_Nil using assms(5,6) by (intro distinct_ids) simp
  have l: "length [] + length [1..<Suc k] \<le> cfg_capacity (demo_cfg n maxp)" using assms(5) by simp
  have v: "valid_id (demo_cfg n maxp) (of_nat i) \<and> valid_price (demo_cfg n maxp) (spread_price spread i) \<and> spread_price spread i \<le> hi"
    if "i \<in> set [1..<Suc k]" for i
  proof -
    have "spread_price spread i \<le> hi" by (rule spread_price_le [OF assms(1-3)])
    moreover have "valid_id (demo_cfg n maxp) (of_nat i)" using that assms(5,6) by (intro of_nat_id) auto
    ultimately show ?thesis using assms(4) by (simp add: valid_price_def)
  qed
  show ?thesis
    using seed_session [OF sells_empty(1) q d l v] unfolding passive_sell_def [abs_def] append_Nil by blast
qed

lemma cancel_adds:
  assumes "sells u hi (map of_nat [1..<Suc k]) B" "k \<le> n" "n < 2 ^ 32 - 1"
  shows "\<exists>rs. spec_run (demo_cfg n maxp) (map cancel_add [1..<Suc k]) B = (rs, spec_empty) \<and>
    (\<forall>r \<in> set rs. r = Added (mk_result Accepted 0 []))"
proof -
  have d: "distinct (map (of_nat :: nat \<Rightarrow> u32) [1..<Suc k])" using assms(2,3) by (intro distinct_ids) simp
  have v: "valid_id (demo_cfg n maxp) (of_nat i)" if "i \<in> set [1..<Suc k]" for i
    using that of_nat_id [of i n maxp] assms(2,3) by auto
  show ?thesis
    by (rule cancel_session [where g = of_nat and out = "\<lambda>r. Added (mk_result r 0 [])", OF assms(1) d v])
      (auto simp: cancel_add_def spec_add_def split: prod.splits)
qed

lemma warmup_spec:
  assumes "k \<le> n" "n < 2 ^ 32 - 1"
  shows "\<exists>rs. spec_run (demo_cfg n kWarmupMaxPrice) (concat (map (\<lambda>i. [passive_sell kWarmupSpread i, cancel_add i]) [1..<Suc k])) spec_empty =
    (rs, spec_empty) \<and> (\<forall>r \<in> set rs. r = Added (mk_result Accepted 0 []))"
  using assms(1)
proof (induction k)
  case (Suc k)
  let ?c = "demo_cfg n kWarmupMaxPrice" and ?i = "of_nat (Suc k) :: u32"
  obtain rs where rs: "spec_run ?c (concat (map (\<lambda>i. [passive_sell kWarmupSpread i, cancel_add i]) [1..<Suc k])) spec_empty =
      (rs, spec_empty)" "\<forall>r \<in> set rs. r = Added (mk_result Accepted 0 [])"
    using Suc by auto
  have v: "valid_id ?c ?i" using of_nat_id [of "Suc k" n] Suc.prems assms(2) by simp
  have "spread_price kWarmupSpread (Suc k) \<le> kWarmupMaxPrice"
    by (rule spread_price_le) (simp_all add: demo_numbers)
  then obtain B where B: "spec_add ?c ?i Limit (spread_price kWarmupSpread (Suc k)) kDemoQty Sell spec_empty = (mk_result Accepted 0 [], B)"
    "sells kDemoQty kWarmupMaxPrice ([] @ [?i]) B"
    using sell_step [OF sells_empty(1), of kDemoQty ?c ?i "spread_price kWarmupSpread (Suc k)" kWarmupMaxPrice] v Suc.prems
    by (auto simp: valid_price_def kDemoQty_def)
  obtain B' where B': "spec_cancel ?c ?i B = (Accepted, B')" "B' = spec_empty"
    using cancel_sell [of kDemoQty kWarmupMaxPrice ?i "[]" B ?c] B(2) v sells_empty(2) by auto
  have "spec_run ?c [passive_sell kWarmupSpread (Suc k), cancel_add (Suc k)] spec_empty =
      ([Added (mk_result Accepted 0 []), Added (mk_result Accepted 0 [])], spec_empty)"
    using B(1) B' by (simp add: passive_sell_def cancel_add_def spec_add_def [of _ _ Cancel] del: of_nat_Suc)
  with rs show ?case by (auto simp: spec_run_append)
qed simp

section \<open>The benchmarks\<close>

text \<open>Outcomes that are all the same.\<close>

lemma all_accepted:
  assumes "spec_run cfg xs B = (rs, B')" "\<forall>r \<in> set rs. r = z"
  shows "rs = replicate (length xs) z"
  using spec_run_length [OF assms(1)] assms(2) by (intro replicate_eqI) auto

lemma pair_length: "length (concat (map (\<lambda>i. [f i, g i]) xs)) = 2 * length xs"
  by (induction xs) simp_all

lemma warmup_result:
  "\<exists>b. warmup E = Some (replicate (2 * kWarmupOps) (Added (mk_result Accepted 0 [])), b) \<and> active_order_count b = 0"
proof -
  obtain rs where rs: "spec_run (demo_cfg (kWarmupOps + kIdHeadroom) kWarmupMaxPrice)
      (concat (map (\<lambda>i. [passive_sell kWarmupSpread i, cancel_add i]) [1..<Suc kWarmupOps])) spec_empty = (rs, spec_empty)"
    "\<forall>r \<in> set rs. r = Added (mk_result Accepted 0 [])"
    using warmup_spec [of kWarmupOps "kWarmupOps + kIdHeadroom"] by (auto simp: kWarmupOps_def kIdHeadroom_def simp del: upt_Suc)
  have "kWarmupOps + kIdHeadroom \<le> 2000000" "kWarmupMaxPrice \<le> 20000" by (simp_all add: demo_numbers)
  from demo_session [OF rs(1) this, of E] obtain b where "warmup E = Some (rs, b)" "active_order_count b = 0"
    unfolding warmup_def by (auto simp: book_size_def spec_empty_def unat_eq_0)
  with all_accepted [OF rs] show ?thesis by (simp add: pair_length del: upt_Suc)
qed

lemma insertion_result:
  "\<exists>b. pure_insertion E = Some (replicate kInsertOps (Added (mk_result Accepted 0 [])), b) \<and>
    unat (active_order_count b) = kInsertOps"
proof -
  obtain rs B where rs: "spec_run (demo_cfg (kInsertOps + kIdHeadroom) kMaxBookPrice)
      (map (passive_sell kWarmupSpread) [1..<Suc kInsertOps]) spec_empty = (rs, B)"
    "\<forall>r \<in> set rs. r = Added (mk_result Accepted 0 [])" "sells kDemoQty kMaxBookPrice (map of_nat [1..<Suc kInsertOps]) B"
    using passive_sells [of kWarmupSpread kMaxBookPrice kMaxBookPrice kInsertOps "kInsertOps + kIdHeadroom"]
    by (auto simp: kInsertOps_def kIdHeadroom_def kBasePrice_def kWarmupSpread_def kMaxBookPrice_def simp del: upt_Suc)
  have "kInsertOps + kIdHeadroom \<le> 2000000" "kMaxBookPrice \<le> 20000" by (simp_all add: demo_numbers)
  from demo_session [OF rs(1) this, of E] sells_ids(2) [OF rs(3)] obtain b where
    "pure_insertion E = Some (rs, b)" "unat (active_order_count b) = kInsertOps"
    unfolding pure_insertion_def by (auto simp del: upt_Suc)
  with all_accepted [OF rs(1,2)] show ?thesis by (simp del: upt_Suc)
qed

lemma cancellation_result:
  "\<exists>b1 b. session E (OrderBook_new_sized E (kCancelOps + kIdHeadroom) 0 kMaxBookPrice) (map (passive_sell kSeedSpreadWide) [1..<Suc kCancelOps]) =
      Some (replicate kCancelOps (Added (mk_result Accepted 0 [])), b1) \<and> unat (active_order_count b1) = kCancelOps \<and>
    pure_cancellation E = Some (replicate (2 * kCancelOps) (Added (mk_result Accepted 0 [])), b) \<and> active_order_count b = 0"
proof -
  let ?c = "demo_cfg (kCancelOps + kIdHeadroom) kMaxBookPrice"
  obtain rs B where rs: "spec_run ?c (map (passive_sell kSeedSpreadWide) [1..<Suc kCancelOps]) spec_empty = (rs, B)"
    "\<forall>r \<in> set rs. r = Added (mk_result Accepted 0 [])" "sells kDemoQty kMaxBookPrice (map of_nat [1..<Suc kCancelOps]) B"
    using passive_sells [of kSeedSpreadWide kMaxBookPrice kMaxBookPrice kCancelOps "kCancelOps + kIdHeadroom"]
    by (auto simp: kCancelOps_def kIdHeadroom_def kBasePrice_def kSeedSpreadWide_def kMaxBookPrice_def simp del: upt_Suc)
  obtain us where us: "spec_run ?c (map cancel_add [1..<Suc kCancelOps]) B = (us, spec_empty)"
    "\<forall>r \<in> set us. r = Added (mk_result Accepted 0 [])"
    using cancel_adds [OF rs(3), of "kCancelOps + kIdHeadroom" kMaxBookPrice] by (auto simp: kCancelOps_def kIdHeadroom_def simp del: upt_Suc)
  have run: "spec_run ?c (map (passive_sell kSeedSpreadWide) [1..<Suc kCancelOps] @ map cancel_add [1..<Suc kCancelOps]) spec_empty = (rs @ us, spec_empty)"
    using rs(1) us(1) by (simp add: spec_run_append del: upt_Suc)
  have "kCancelOps + kIdHeadroom \<le> 2000000" "kMaxBookPrice \<le> 20000" by (simp_all add: demo_numbers)
  from demo_session [OF run this, of E] obtain b where "pure_cancellation E = Some (rs @ us, b)" "active_order_count b = 0"
    unfolding pure_cancellation_def by (auto simp: book_size_def spec_empty_def unat_eq_0)
  moreover have "\<forall>r \<in> set (rs @ us). r = Added (mk_result Accepted 0 [])" using rs(2) us(2) by auto
  with all_accepted [OF run] have "rs @ us = replicate (2 * kCancelOps) (Added (mk_result Accepted 0 []))"
    by (simp add: mult_2 del: upt_Suc)
  moreover obtain b1 where "session E (OrderBook_new_sized E (kCancelOps + kIdHeadroom) 0 kMaxBookPrice)
      (map (passive_sell kSeedSpreadWide) [1..<Suc kCancelOps]) = Some (rs, b1)" "unat (active_order_count b1) = kCancelOps"
    using demo_session [OF rs(1) \<open>kCancelOps + kIdHeadroom \<le> 2000000\<close> \<open>kMaxBookPrice \<le> 20000\<close>, of E] sells_ids(2) [OF rs(3)]
    by (auto simp del: upt_Suc)
  moreover have "rs = replicate kCancelOps (Added (mk_result Accepted 0 []))"
    using all_accepted [OF rs(1,2)] by (simp del: upt_Suc)
  ultimately show ?thesis by metis
qed

lemma matching_result:
  "\<exists>us b. pure_matching E = Some (replicate kMatchSeedOrders (Added (mk_result Accepted 0 [])) @ us, b) \<and> length us = kMatchTakerOrders \<and>
    (\<forall>r \<in> set us. \<exists>tr. r = Added (mk_result Accepted kDemoQty [tr])) \<and> active_order_count b = 0"
proof -
  let ?n = "kMatchSeedOrders + kMatchTakerOrders + kIdHeadroom"
  let ?c = "demo_cfg ?n kMaxBookPrice" and ?ids = "map of_nat [1..<Suc kMatchSeedOrders] :: OrderId list"
  obtain rs B where rs: "spec_run ?c matching_seeds spec_empty = (rs, B)"
    "\<forall>r \<in> set rs. r = Added (mk_result Accepted 0 [])" "sells kDemoQty kTakerPrice ?ids B"
    using passive_sells [of kSeedSpreadNarrow kTakerPrice kMaxBookPrice kMatchSeedOrders ?n]
    by (auto simp: demo_numbers matching_seeds_def simp del: upt_Suc)
  let ?g = "\<lambda>i. of_nat (kMatchSeedOrders + 1 + i) :: u32"
  have g: "unat (?g i) = kMatchSeedOrders + 1 + i" if "i < kMatchTakerOrders" for i
    using that by (intro unat_of_nat_32) (simp add: demo_numbers)
  have ids: "valid_id ?c (?g i) \<and> ?g i \<notin> set ?ids" if "i \<in> set [0..<kMatchTakerOrders]" for i
  proof -
    have i: "unat (?g i) = kMatchSeedOrders + 1 + i" "i < kMatchTakerOrders" using that g by auto
    have "unat x \<le> kMatchSeedOrders" if "x \<in> set ?ids" for x
      using that by (auto simp: unat_of_nat_32 kMatchSeedOrders_def)
    then have "?g i \<notin> set ?ids" using i(1) by (metis add.assoc le_add1 not_less_eq_eq plus_1_eq_Suc add.commute)
    moreover have "valid_id ?c (?g i)" using i by (auto simp: valid_id_def unat_eq_0 [symmetric] simp del: of_nat_add)
    ultimately show ?thesis by blast
  qed
  have q: "kDemoQty \<noteq> 0" and vp: "valid_price ?c kTakerPrice" by (simp_all add: demo_numbers valid_price_def)
  have "length [0..<kMatchTakerOrders] \<le> length ?ids" by (simp add: demo_numbers del: upt_Suc)
  from take_session [where g = ?g, OF rs(3) this q vp order.refl ids] obtain us B' ids' where
    us: "spec_run ?c matching_takers B = (us, B')" "\<forall>r \<in> set us. \<exists>tr. r = Added (mk_result Accepted kDemoQty [tr])"
    "sells kDemoQty kTakerPrice ids' B'" "length ids' = length ?ids - length [0..<kMatchTakerOrders]"
    unfolding matching_takers_def by blast
  then have "ids' = []" by (simp add: demo_numbers del: upt_Suc)
  then have B': "B' = spec_empty" using us(3) sells_empty(2) by blast
  have run: "spec_run ?c (matching_seeds @ matching_takers) spec_empty = (rs @ us, spec_empty)"
    using rs(1) us(1) B' by (simp add: spec_run_append)
  have "?n \<le> 2000000" "kMaxBookPrice \<le> 20000" by (simp_all add: demo_numbers)
  from demo_session [OF run this, of E] obtain b where "pure_matching E = Some (rs @ us, b)" "unat (active_order_count b) = 0"
    by (auto simp: pure_matching_def book_size_def spec_empty_def)
  moreover have "rs = replicate kMatchSeedOrders (Added (mk_result Accepted 0 []))"
    using all_accepted [OF rs(1,2)] by (simp add: matching_seeds_def del: upt_Suc)
  moreover have "length us = kMatchTakerOrders" using spec_run_length [OF us(1)] by (simp add: matching_takers_def)
  ultimately show ?thesis using us(2) by (intro exI [of _ us] exI [of _ b]) (simp add: unat_eq_0)
qed

text \<open>A round of the mixed workload: seven inserts, two takers, and a cancellation of the fifth insert.\<close>

definition mixed_round :: "nat \<Rightarrow> Request list" where
  "mixed_round c = map (\<lambda>j. Add (of_nat (9 * c + 1 + j)) Limit (spread_price kMixSpread (10 * c + j)) kDemoQty Sell) [0..<7] @
     map (\<lambda>j. Add (of_nat (9 * c + 8 + j)) Limit kMixTakerPrice kDemoQty Buy) [0..<2] @ [cancel_add (9 * c + 5)]"

lemma mixed_op:
  "i mod 10 < 7 \<Longrightarrow> mixed_ops (Suc n) i nid =
     Add (of_nat nid) Limit (spread_price kMixSpread i) kDemoQty Sell # mixed_ops n (Suc i) (Suc nid)"
  "7 \<le> i mod 10 \<Longrightarrow> i mod 10 < 9 \<Longrightarrow> mixed_ops (Suc n) i nid =
     Add (of_nat nid) Limit kMixTakerPrice kDemoQty Buy # mixed_ops n (Suc i) (Suc nid)"
  "9 \<le> i mod 10 \<Longrightarrow> 5 < nid \<Longrightarrow> mixed_ops (Suc n) i nid = cancel_add (nid - 5) # mixed_ops n (Suc i) nid"
  by (simp_all add: Let_def kMixCycleLen_def kMixInsertCutoff_def kMixMatchCutoff_def kMixCancelLookback_def)

lemma mixed_unroll:
  "mixed_ops (10 + n) (10 * c) (9 * c + 1) = mixed_round c @ mixed_ops n (10 * Suc c) (9 * Suc c + 1)"
proof -
  have n: "10 + n = Suc (Suc (Suc (Suc (Suc (Suc (Suc (Suc (Suc (Suc n)))))))))" by simp
  have m: "(10 * c) mod 10 = 0" "Suc (10 * c) mod 10 = 1" "Suc (Suc (10 * c)) mod 10 = 2" "Suc (Suc (Suc (10 * c))) mod 10 = 3"
    "Suc (Suc (Suc (Suc (10 * c)))) mod 10 = 4" "Suc (Suc (Suc (Suc (Suc (10 * c))))) mod 10 = 5"
    "Suc (Suc (Suc (Suc (Suc (Suc (10 * c)))))) mod 10 = 6" "Suc (Suc (Suc (Suc (Suc (Suc (Suc (10 * c))))))) mod 10 = 7"
    "Suc (Suc (Suc (Suc (Suc (Suc (Suc (Suc (10 * c)))))))) mod 10 = 8"
    "Suc (Suc (Suc (Suc (Suc (Suc (Suc (Suc (Suc (10 * c))))))))) mod 10 = 9"
    by presburger+
  have e: "9 * c + 5 = Suc (Suc (Suc (Suc (Suc (9 * c)))))" "9 * c + 8 = Suc (Suc (Suc (Suc (Suc (Suc (Suc (Suc (9 * c))))))))"
    "9 + 9 * c = Suc (Suc (Suc (Suc (Suc (Suc (Suc (Suc (Suc (9 * c)))))))))" "10 + 9 * c = Suc (Suc (Suc (Suc (Suc (Suc (Suc (Suc (Suc (Suc (9 * c))))))))))"
    "10 + 10 * c = Suc (Suc (Suc (Suc (Suc (Suc (Suc (Suc (Suc (Suc (10 * c))))))))))"
    by simp_all
  show ?thesis
    unfolding n mixed_round_def
    by (simp add: mixed_op m upt_rec [of _ "numeral _"] del: mixed_ops.simps of_nat_Suc of_nat_add of_nat_mult)
      (simp only: e simp_thms)
qed

lemma mixed_rounds: "mixed_ops (10 * n) (10 * c) (9 * c + 1) = concat (map mixed_round [c..<c + n])"
proof (induction n arbitrary: c)
  case (Suc n)
  have "[c..<c + Suc n] = c # [Suc c..<Suc c + n]" by (simp add: upt_conv_Cons del: upt_Suc)
  moreover have "10 * Suc n = 10 + 10 * n" by simp
  ultimately show ?case using mixed_unroll [of "10 * n" c] Suc.IH [of "Suc c"] by (simp only: concat.simps list.map)
qed simp

text \<open>
  In every round the inserts rest, each taker is filled by one maker, and the cancellation finds
  its order: the takers have two better ones ahead of it. So a round adds four resting orders.
\<close>

abbreviation mixed_cfg :: Config where
  "mixed_cfg \<equiv> demo_cfg (kMixedOps + kIdHeadroom) kMaxBookPrice"

definition mixed_state :: "nat \<Rightarrow> SpecBook \<Rightarrow> bool" where
  "mixed_state c B \<longleftrightarrow> (\<exists>ids. sells kDemoQty kMixTakerPrice ids B \<and> side_sorted Sell (spec_asks B) \<and> distinct ids \<and>
     (\<forall>x \<in> set ids. unat x \<le> 9 * c) \<and> length ids = 4 * c)"

abbreviation mixed_outcomes :: "Trade \<times> Trade \<Rightarrow> Outcome list" where
  "mixed_outcomes tt \<equiv> replicate 7 (Added (mk_result Accepted 0 [])) @
     [Added (mk_result Accepted kDemoQty [fst tt]), Added (mk_result Accepted kDemoQty [snd tt]), Added (mk_result Accepted 0 [])]"

lemma mixed_id:
  assumes "c < 100000" "0 < j" "j \<le> 9"
  shows "unat (of_nat (9 * c + j) :: OrderId) = 9 * c + j" "valid_id mixed_cfg (of_nat (9 * c + j))"
proof -
  show "unat (of_nat (9 * c + j) :: OrderId) = 9 * c + j" using assms by (intro unat_of_nat_32) simp
  show "valid_id mixed_cfg (of_nat (9 * c + j))" using assms by (intro of_nat_id) (simp_all add: kMixedOps_def kIdHeadroom_def)
qed

lemma mixed_price:
  assumes "j < 7"
  shows "unat (spread_price kMixSpread (10 * c + j)) = 1000 + (10 * c) mod 200 + j" "spread_price kMixSpread i \<le> kMixTakerPrice"
    "spread_price kMixSpread i \<le> kMaxBookPrice"
proof -
  have m: "(10 * c) mod 200 = 10 * (c mod 20)" using mult_mod_right [of 10 c 20] by simp
  have "c mod 20 < 20" by simp
  then have "10 * (c mod 20) + j < 200" using assms by linarith
  then have "(10 * c + j) mod 200 = (10 * c) mod 200 + j" using mod_add_left_eq [of "10 * c" 200 j] m by simp
  then have "spread_price kMixSpread (10 * c + j) = of_nat (1000 + (10 * c) mod 200 + j)"
    by (simp add: spread_price_def kMixSpread_def kBasePrice_def)
  moreover have "(10 * c) mod 200 < 200" by simp
  ultimately show "unat (spread_price kMixSpread (10 * c + j)) = 1000 + (10 * c) mod 200 + j"
    using assms by (simp only:) (rule unat_of_nat_32, simp)
  show "spread_price kMixSpread i \<le> kMixTakerPrice" "spread_price kMixSpread i \<le> kMaxBookPrice"
    by (rule spread_price_le; simp add: demo_numbers)+
qed

lemma mixed_inserts:
  assumes "mixed_state c B" "c < 100000"
  shows "\<exists>ids B'. spec_run mixed_cfg (map (\<lambda>j. Add (of_nat (9 * c + 1 + j)) Limit (spread_price kMixSpread (10 * c + j)) kDemoQty Sell) [0..<7]) B =
      (replicate 7 (Added (mk_result Accepted 0 [])), B') \<and> sells kDemoQty kMixTakerPrice ids B' \<and> side_sorted Sell (spec_asks B') \<and>
    distinct ids \<and> (\<forall>x \<in> set ids. unat x \<le> 9 * c + 7) \<and> length ids = 4 * c + 7 \<and>
    sell_order (\<lambda>j. of_nat (9 * c + 1 + j)) (\<lambda>j. spread_price kMixSpread (10 * c + j)) kDemoQty ` {0..<7} \<subseteq> set (spec_asks B')"
proof -
  let ?g = "\<lambda>j. of_nat (9 * c + 1 + j) :: OrderId" and ?p = "\<lambda>j. spread_price kMixSpread (10 * c + j)"
  obtain ids where ids: "sells kDemoQty kMixTakerPrice ids B" "side_sorted Sell (spec_asks B)" "distinct ids"
    "\<forall>x \<in> set ids. unat x \<le> 9 * c" "length ids = 4 * c"
    using assms(1) by (auto simp: mixed_state_def)
  have u: "unat (?g j) = 9 * c + 1 + j" if "j < 7" for j using mixed_id(1) [OF assms(2), of "1 + j"] that by (simp only: add.assoc)
  have q: "kDemoQty \<noteq> 0" by (simp add: kDemoQty_def)
  have inj: "inj_on ?g (set [0..<7])"
    using u by (intro inj_onI) (metis atLeastLessThan_iff add_left_cancel set_upt)
  have new: "?g j \<notin> set ids" if "j < 7" for j using u [OF that] ids(4) by fastforce
  have d: "distinct (ids @ map ?g [0..<7])"
    using ids(3) inj new by (auto simp: distinct_map simp del: of_nat_add)
  have l: "length ids + length [0..<7] \<le> cfg_capacity mixed_cfg" using ids(5) assms(2) by (simp add: kMixedOps_def)
  have v: "valid_id mixed_cfg (?g j) \<and> valid_price mixed_cfg (?p j) \<and> ?p j \<le> kMixTakerPrice" if "j \<in> set [0..<7]" for j
    using that mixed_id(2) [OF assms(2), of "1 + j"] mixed_price(2,3) [of j "10 * c + j"] by (simp add: valid_price_def add.assoc del: of_nat_add)
  obtain rs B' where r: "spec_run mixed_cfg (map (\<lambda>j. Add (?g j) Limit (?p j) kDemoQty Sell) [0..<7]) B = (rs, B')"
    "\<forall>r \<in> set rs. r = Added (mk_result Accepted 0 [])" "sells kDemoQty kMixTakerPrice (ids @ map ?g [0..<7]) B'"
    "side_sorted Sell (spec_asks B')" "sell_order ?g ?p kDemoQty ` set [0..<7] \<subseteq> set (spec_asks B')"
    using seed_session [OF ids(1) q d l v] ids(2) by blast
  have rs: "rs = replicate 7 (Added (mk_result Accepted 0 []))" using all_accepted [OF r(1,2)] by simp
  have "\<forall>x \<in> set (ids @ map ?g [0..<7]). unat x \<le> 9 * c + 7" using ids(4) u by (fastforce simp del: of_nat_add)
  moreover have "length (ids @ map ?g [0..<7]) = 4 * c + 7" using ids(5) by simp
  ultimately show ?thesis
    using r(1,3-5) d unfolding rs set_upt by (intro exI [of _ "ids @ map ?g [0..<7]"] exI [of _ B'] conjI)
qed

text \<open>The fifth insert of a round is behind two better ones.\<close>

lemma mixed_fifth_left:
  assumes "c < 100000" "side_sorted Sell asks"
    "sell_order (\<lambda>j. of_nat (9 * c + 1 + j)) (\<lambda>j. spread_price kMixSpread (10 * c + j)) kDemoQty ` {0..<7} \<subseteq> set asks"
  shows "sell_order (\<lambda>j. of_nat (9 * c + 1 + j)) (\<lambda>j. spread_price kMixSpread (10 * c + j)) kDemoQty 4 \<in> set (drop 2 asks)"
proof -
  let ?g = "\<lambda>j. of_nat (9 * c + 1 + j) :: OrderId" and ?p = "\<lambda>j. spread_price kMixSpread (10 * c + j)"
  have price: "?p 0 < ?p 4" "?p 1 < ?p 4"
    using mixed_price(1) [of 0 c] mixed_price(1) [of 1 c] mixed_price(1) [of 4 c] by (simp_all add: word_less_nat_alt)
  have g: "unat (?g j) = 9 * c + 1 + j" if "j < 7" for j
    using mixed_id(1) [OF assms(1), of "1 + j"] that by (simp only: add.assoc)
  have "unat (?g 0) = 9 * c + 1 + 0" "unat (?g 1) = 9 * c + 1 + 1" by (rule g; simp)+
  then have "unat (?g 0) \<noteq> unat (?g 1)" by linarith
  then have ne: "sell_order ?g ?p kDemoQty 0 \<noteq> sell_order ?g ?p kDemoQty 1" by (metis Resting.select_convs(1))
  have mem: "sell_order ?g ?p kDemoQty j \<in> set asks" if "j < 7" for j
    using assms(3) that by (metis (mono_tags, lifting) atLeastLessThan_iff image_subset_iff le0)
  show ?thesis by (rule behind_two [OF assms(2) mem mem mem ne]) (use price in simp_all)
qed

lemma mixed_round_spec:
  assumes "mixed_state c B" "c < 100000"
  shows "\<exists>tt B'. spec_run mixed_cfg (mixed_round c) B = (mixed_outcomes tt, B') \<and> mixed_state (Suc c) B'"
proof -
  let ?g = "\<lambda>j. of_nat (9 * c + 1 + j) :: OrderId" and ?p = "\<lambda>j. spread_price kMixSpread (10 * c + j)"
  let ?h = "\<lambda>j. of_nat (9 * c + 8 + j) :: OrderId" and ?o = "of_nat (9 * c + 5) :: OrderId"
  obtain ids B1 where r1: "spec_run mixed_cfg (map (\<lambda>j. Add (?g j) Limit (?p j) kDemoQty Sell) [0..<7]) B =
      (replicate 7 (Added (mk_result Accepted 0 [])), B1)"
    and s1: "sells kDemoQty kMixTakerPrice ids B1" "side_sorted Sell (spec_asks B1)" "distinct ids"
      "\<forall>x \<in> set ids. unat x \<le> 9 * c + 7" "length ids = 4 * c + 7"
    and in1: "sell_order ?g ?p kDemoQty ` {0..<7} \<subseteq> set (spec_asks B1)"
    using mixed_inserts [OF assms] by blast
  have q: "kDemoQty \<noteq> 0" and vp: "valid_price mixed_cfg kMixTakerPrice" by (simp_all add: demo_numbers valid_price_def)
  have u: "unat (?h j) = 9 * c + 8 + j" "valid_id mixed_cfg (?h j)" if "j < 2" for j
    using mixed_id [OF assms(2), of "8 + j"] that by (simp_all only: add.assoc)
  have fresh: "valid_id mixed_cfg (?h j) \<and> ?h j \<notin> set ids" if "j \<in> set [0..<2]" for j using u [of j] s1(4) that by fastforce
  have "length [0..<2] \<le> length ids" using s1(5) by simp
  from take_session [where g = ?h, OF s1(1) this q vp order.refl fresh] s1(3) obtain us B2 ids2 where
    r2: "spec_run mixed_cfg (map (\<lambda>j. Add (?h j) Limit kMixTakerPrice kDemoQty Buy) [0..<2]) B1 = (us, B2)"
      "\<forall>r \<in> set us. \<exists>tr. r = Added (mk_result Accepted kDemoQty [tr])"
    and s2: "sells kDemoQty kMixTakerPrice ids2 B2" "length ids2 = length ids - 2" "set ids2 \<subseteq> set ids" "distinct ids2"
      "spec_asks B2 = drop 2 (spec_asks B1)"
    by auto
  have "length us = 2" using spec_run_length [OF r2(1)] by simp
  then obtain x y where "us = [x, y]" by (auto simp: numeral_2_eq_2 length_Suc_conv)
  then obtain tt where us: "us = [Added (mk_result Accepted kDemoQty [fst tt]), Added (mk_result Accepted kDemoQty [snd tt])]"
    using r2(2) by fastforce
  have "sell_order ?g ?p kDemoQty 4 \<in> set (spec_asks B2)" unfolding s2(5) by (rule mixed_fifth_left [OF assms(2) s1(2) in1])
  then have "?g 4 \<in> set (map rid (spec_asks B2))" by force
  then have o: "?o \<in> set ids2" using s2(1) mset_eq_setD [of "map rid (spec_asks B2)" ids2] by (simp add: sells_def add.commute)
  have "side_sorted Sell (spec_asks B2)" using s1(2) by (simp add: s2(5) side_sorted_def sorted_wrt_drop)
  then obtain B3 where r3: "spec_cancel mixed_cfg ?o B2 = (Accepted, B3)" "sells kDemoQty kMixTakerPrice (remove1 ?o ids2) B3"
    "side_sorted Sell (spec_asks B3)"
    using cancel_listed [OF s2(1,4) mixed_id(2) [OF assms(2), of 5] o] by auto
  have "spec_run mixed_cfg (mixed_round c) B = (mixed_outcomes tt, B3)"
    unfolding mixed_round_def spec_run_append r1 r2(1) us using r3(1) by (simp add: Let_def cancel_add_def spec_add_def us r2(1) del: of_nat_add)
  moreover have "mixed_state (Suc c) B3"
    unfolding mixed_state_def
  proof (intro exI [of _ "remove1 ?o ids2"] conjI)
    show "\<forall>x \<in> set (remove1 ?o ids2). unat x \<le> 9 * Suc c" using s1(4) s2(3) set_remove1_subset [of ?o ids2] by fastforce
    show "length (remove1 ?o ids2) = 4 * Suc c" using s2(2) s1(5) o by (simp add: length_remove1)
  qed (use r3 s2(4) in simp_all)
  ultimately show ?thesis by blast
qed

lemma mixed_result:
  "mixed_ops kMixedOps 0 1 = concat (map mixed_round [0..<100000]) \<and>
   (\<exists>tts b. mixed_workload E = Some (concat (map mixed_outcomes tts), b) \<and> length tts = 100000 \<and> unat (active_order_count b) = 400000)"
proof -
  have rounds: "n \<le> 100000 \<Longrightarrow> \<exists>tts B. spec_run mixed_cfg (concat (map mixed_round [0..<n])) spec_empty = (concat (map mixed_outcomes tts), B) \<and>
      length tts = n \<and> mixed_state n B" for n
  proof (induction n)
    case 0
    have "mixed_state 0 spec_empty" unfolding mixed_state_def
      by (intro exI [of _ "[]"]) (simp add: sells_empty(1) spec_empty_def side_sorted_def sells_def)
    then show ?case by simp
  next
    case (Suc n)
    then obtain tts B where 1: "spec_run mixed_cfg (concat (map mixed_round [0..<n])) spec_empty = (concat (map mixed_outcomes tts), B)"
      "length tts = n" "mixed_state n B" by auto
    obtain tt B' where 2: "spec_run mixed_cfg (mixed_round n) B = (mixed_outcomes tt, B')" "mixed_state (Suc n) B'"
      using mixed_round_spec [OF 1(3)] Suc.prems by auto
    have "spec_run mixed_cfg (concat (map mixed_round [0..<Suc n])) spec_empty = (concat (map mixed_outcomes (tts @ [tt])), B')"
      by (simp add: spec_run_append 1(1) 2(1))
    with 1(2) 2(2) show ?case by (intro exI [of _ "tts @ [tt]"] exI [of _ B']) simp
  qed
  have ops: "mixed_ops kMixedOps 0 1 = concat (map mixed_round [0..<100000])"
    using mixed_rounds [of 100000 0] unfolding kMixedOps_def by simp
  obtain tts B where r: "spec_run mixed_cfg (mixed_ops kMixedOps 0 1) spec_empty = (concat (map mixed_outcomes tts), B)"
    "length tts = 100000" "mixed_state 100000 B"
    using rounds [of 100000] unfolding ops by blast
  then have "book_size B = 400000" using sells_ids(2) by (auto simp: mixed_state_def)
  moreover have "kMixedOps + kIdHeadroom \<le> 2000000" "kMaxBookPrice \<le> 20000" by (simp_all add: demo_numbers)
  ultimately show ?thesis using demo_session [OF r(1), of E] r(2) ops unfolding mixed_workload_def by fastforce
qed

lemma main_result:
  "demo_main E S s clk = Some (0, fst (snd (prepare_memory_locking S s)),
     ''=== HFT Matching Engine Benchmark ==='' @ newline @ newline @ print_lock_recap (fst (prepare_memory_locking S s)) @
     warmup_text @ insertion_text (elapsed_us clk 0) @ matching_text (elapsed_us clk 1) @ cancellation_text (elapsed_us clk 2) @
     mixed_text (elapsed_us clk 3) @ ''Engine run complete. Built for microsecond latency.'' @ newline)"
proof -
  obtain x0 x1 x2 x3 x4 where "warmup E = Some x0" "pure_insertion E = Some x1" "pure_matching E = Some x2"
    "pure_cancellation E = Some x3" "mixed_workload E = Some x4"
    using warmup_result insertion_result matching_result cancellation_result mixed_result by meson
  then show ?thesis by (simp add: demo_main_def Let_def case_prod_beta)
qed

text \<open>
  C34: the demo workloads do what their captions say, in every build flavor. The warmup enters and
  cancels its orders one by one and leaves its book empty; the million passive inserts all rest
  without a trade; each aggressive order is filled by exactly one maker and the book ends empty;
  the half million resting orders are all cancelled and the book ends empty. The mixed workload is
  100000 rounds of seven inserts, two matches and a cancellation (70%, 20%, 10%): in every round the
  inserts rest, each of the two takers is filled by one maker, and the cancellation is accepted, so
  400000 orders rest at the end. So the program ends, with status 0, on any host, and prints the
  recap of the memory-lock negotiation and one section per workload whose times are the only part
  that depends on the clock.
\<close>

theorem demo_workloads:
  "(\<exists>b. warmup E = Some (replicate (2 * kWarmupOps) (Added (mk_result Accepted 0 [])), b) \<and> active_order_count b = 0) \<and>
   (\<exists>b. pure_insertion E = Some (replicate kInsertOps (Added (mk_result Accepted 0 [])), b) \<and>
      unat (active_order_count b) = kInsertOps) \<and>
   (\<exists>us b. pure_matching E = Some (replicate kMatchSeedOrders (Added (mk_result Accepted 0 [])) @ us, b) \<and>
      length us = kMatchTakerOrders \<and>
      (\<forall>r \<in> set us. \<exists>tr. r = Added (mk_result Accepted kDemoQty [tr])) \<and> active_order_count b = 0) \<and>
   (\<exists>b1 b. session E (OrderBook_new_sized E (kCancelOps + kIdHeadroom) 0 kMaxBookPrice) (map (passive_sell kSeedSpreadWide) [1..<Suc kCancelOps]) =
        Some (replicate kCancelOps (Added (mk_result Accepted 0 [])), b1) \<and> unat (active_order_count b1) = kCancelOps \<and>
      pure_cancellation E = Some (replicate (2 * kCancelOps) (Added (mk_result Accepted 0 [])), b) \<and> active_order_count b = 0) \<and>
   (mixed_ops kMixedOps 0 1 = concat (map mixed_round [0..<100000]) \<and>
    (\<exists>tts b. mixed_workload E = Some (concat (map (\<lambda>tt. replicate 7 (Added (mk_result Accepted 0 [])) @
        [Added (mk_result Accepted kDemoQty [fst tt]), Added (mk_result Accepted kDemoQty [snd tt]), Added (mk_result Accepted 0 [])]) tts), b) \<and>
      length tts = 100000 \<and> unat (active_order_count b) = 400000)) \<and>
   demo_main E S s clk = Some (0, fst (snd (prepare_memory_locking S s)),
     ''=== HFT Matching Engine Benchmark ==='' @ newline @ newline @ print_lock_recap (fst (prepare_memory_locking S s)) @
     warmup_text @ insertion_text (elapsed_us clk 0) @ matching_text (elapsed_us clk 1) @ cancellation_text (elapsed_us clk 2) @
     mixed_text (elapsed_us clk 3) @ ''Engine run complete. Built for microsecond latency.'' @ newline)"
  by (intro conjI main_result warmup_result insertion_result matching_result cancellation_result mixed_result [THEN conjunct1]
      mixed_result [THEN conjunct2])

text \<open>
  The mixed workload of the release build ends with 400000 resting orders.
\<close>

theorem demo_workloads_witness:
  "\<exists>rs b. mixed_workload E_release = Some (rs, b) \<and> unat (active_order_count b) = 400000"
  using demo_workloads [of E_release quiet_host 0] by blast

end
