(* ===== verification/Latency_Bench.thy ===== *)
theory Latency_Bench
  imports Demo_Program
begin

text \<open>
  The scenarios of the latency harness \<open>src/tools/rdtsc_bench.cpp\<close>, as sessions of requests.
  The cycle counter, the percentile report and the console output are in \<open>Latency_Report\<close> and \<open>Latency_Main\<close>. Loop counters
  are natural numbers: none passes 210000, far below the \<open>uint32_t\<close> they are.
\<close>

section \<open>Deterministic scenarios\<close>

definition BENCH_MIN_P :: Price where "BENCH_MIN_P = 0"
definition BENCH_MAX_P :: Price where "BENCH_MAX_P = 20000"

text \<open>The values of the counters \<open>for (i = a; i <= n; ++i)\<close> and \<open>for (i = 0; i < n; ++i)\<close>.\<close>

definition loop_to :: "nat \<Rightarrow> nat \<Rightarrow> nat list" where "loop_to a n = [a..<Suc n]"
definition loop_below :: "nat \<Rightarrow> nat list" where "loop_below n = [0..<n]"

definition bench_sell :: "nat \<Rightarrow> Request" where
  "bench_sell i = Add (of_nat i) Limit (of_nat (1000 + i mod 1000)) 10 Sell"

definition insert_scenario :: "Env \<Rightarrow> (Outcome list \<times> OrderBook) option" where
  "insert_scenario E =
     (let N = 200000 in
      session E (OrderBook_new_sized E (N + 10) BENCH_MIN_P BENCH_MAX_P)
        (map bench_sell (loop_to 1 10000) @ map bench_sell (loop_to 10001 (10000 + N))))"

definition match_scenario :: "Env \<Rightarrow> (Outcome list \<times> OrderBook) option" where
  "match_scenario E = session E (OrderBook_new E 400010 400010 BENCH_MIN_P BENCH_MAX_P)
     (map bench_sell (loop_to 1 100000) @ map (\<lambda>i. Add (of_nat (200001 + i)) Limit 2000 10 Buy) (loop_below 100000))"

definition sweep_round :: "nat \<Rightarrow> Request list" where
  "sweep_round rnd =
     (let base = 1 + rnd * 12 in
      map (\<lambda>k. Add (of_nat (base + k)) Limit (of_nat (1000 + k)) 5 Sell) (loop_below 10) @
      [Add (of_nat (base + 10)) Limit 1200 50 Buy])"

definition sweep_scenario :: "Env \<Rightarrow> (Outcome list \<times> OrderBook) option" where
  "sweep_scenario E = session E (OrderBook_new E 40010 40010 BENCH_MIN_P BENCH_MAX_P) (concat (map sweep_round (loop_below 2000)))"

definition cancel_scenario :: "Env \<Rightarrow> (Outcome list \<times> OrderBook) option" where
  "cancel_scenario E = session E (OrderBook_new E 210010 210010 BENCH_MIN_P BENCH_MAX_P)
     (map bench_sell (loop_to 1 200000) @ map (\<lambda>i. CancelId (of_nat i)) (loop_to 1 200000))"

section \<open>The generator\<close>

text \<open>The \<open>xorshift64*\<close> step of \<open>FastRng\<close>, and the draw below a bound.\<close>

definition rng_step :: "u64 \<Rightarrow> u64" where
  "rng_step s =
     (let s = s XOR drop_bit 12 s;
          s = s XOR push_bit 25 s
      in s XOR drop_bit 27 s)"

definition rng_next :: "u64 \<Rightarrow> u32 \<times> u64" where
  "rng_next s = (let s = rng_step s in (ucast (drop_bit 32 (s * 0x2545F4914F6CDD1D)), s))"

definition rng_below :: "u32 \<Rightarrow> u64 \<Rightarrow> u32 \<times> u64" where
  "rng_below m s = (if m \<noteq> 0 then let (x, s) = rng_next s in (x mod m, s) else (0, s))"

definition CHURN_SEED :: u64 where "CHURN_SEED = 0x123456789ABCDEF0"
definition MIXED_SEED :: u64 where "MIXED_SEED = 0x0F0F0F0F0F0F0F0F"

section \<open>Churn\<close>

text \<open>
  The two draws of a call are arguments of it, so the compiler chooses which comes first
  (\<open>price_first\<close>).
\<close>

definition churn_draws :: "bool \<Rightarrow> u64 \<Rightarrow> u32 \<times> u32 \<times> u64" where
  "churn_draws price_first s =
     (if price_first then let (p, s) = rng_below 10000 s; (d, s) = rng_below 2 s in (p, d, s)
      else let (d, s) = rng_below 2 s; (p, s) = rng_below 10000 s in (p, d, s))"

fun churn_fill :: "bool \<Rightarrow> nat list \<Rightarrow> u64 \<Rightarrow> Request list \<times> u64" where
  "churn_fill pf [] s = ([], s)"
| "churn_fill pf (i # is) s =
     (let (p, d, s) = churn_draws pf s;
          (xs, s) = churn_fill pf is s
      in (Add (of_nat i) Limit (1000 + p) 10 (if d \<noteq> 0 then Buy else Sell) # xs, s))"

text \<open>\<open>std::swap(ids[i], ids[j])\<close>, and the loop from index \<open>i\<close> down to 1.\<close>

definition swap_at :: "nat \<Rightarrow> nat \<Rightarrow> 'a list \<Rightarrow> 'a list option" where
  "swap_at i j xs = do {
     x \<leftarrow> vec_get xs i;
     y \<leftarrow> vec_get xs j;
     xs \<leftarrow> vec_set xs i y;
     vec_set xs j x
   }"

fun shuffle :: "nat \<Rightarrow> 'a list \<Rightarrow> u64 \<Rightarrow> ('a list \<times> u64) option" where
  "shuffle 0 ids s = Some (ids, s)"
| "shuffle (Suc i) ids s = do {
     let (j, s) = rng_below (of_nat (Suc i + 1)) s;
     ids \<leftarrow> swap_at (Suc i) (unat j) ids;
     shuffle i ids s
   }"

fun churn_adds :: "nat list \<Rightarrow> u64 \<Rightarrow> Request list" where
  "churn_adds [] s = []"
| "churn_adds (i # is) s =
     (let (p, s) = rng_below 10000 s in Add (of_nat (150001 + i)) Limit (1000 + p) 10 Sell # churn_adds is s)"

definition churn_ops :: "bool \<Rightarrow> Request list option" where
  "churn_ops pf = do {
     let (fills, s) = churn_fill pf (loop_to 1 100000) CHURN_SEED;
     let ids = (map of_nat (loop_to 1 100000) :: OrderId list);
     (ids, s) \<leftarrow> shuffle (length ids - 1) ids s;
     Some (fills @ map CancelId (take (length ids div 2) ids) @ churn_adds (loop_below 10000) s)
   }"

definition churn_scenario :: "Env \<Rightarrow> bool \<Rightarrow> (Outcome list \<times> OrderBook) option" where
  "churn_scenario E pf = do {
     xs \<leftarrow> churn_ops pf;
     session E (OrderBook_new E 200010 150010 BENCH_MIN_P BENCH_MAX_P) xs
   }"

section \<open>Mixed\<close>

fun bench_mixed_ops :: "nat \<Rightarrow> nat \<Rightarrow> u64 \<Rightarrow> Request list" where
  "bench_mixed_ops 0 nid s = []"
| "bench_mixed_ops (Suc n) nid s =
     (let (roll, s) = rng_below 100 s in
      if roll < 50 then
        let (p, s) = rng_below 2000 s
        in Add (of_nat nid) Limit (9000 + p) 10 Sell # bench_mixed_ops n (Suc nid) s
      else if roll < 75 then
        Add (of_nat nid) Limit 11000 25 Buy # bench_mixed_ops n (Suc nid) s
      else
        let (c, s) = rng_below (of_nat (nid - 1)) s
        in CancelId (1 + c) # bench_mixed_ops n nid s)"

definition bench_mixed_scenario :: "Env \<Rightarrow> (Outcome list \<times> OrderBook) option" where
  "bench_mixed_scenario E = session E (OrderBook_new E 60010 60010 BENCH_MIN_P BENCH_MAX_P) (bench_mixed_ops 50000 1 MIXED_SEED)"

section \<open>The deterministic scenarios on the engine\<close>

abbreviation bench_cfg :: "nat \<Rightarrow> nat \<Rightarrow> Config" where
  "bench_cfg n c \<equiv> \<lparr>cfg_max_id = n, cfg_capacity = c, cfg_min = BENCH_MIN_P, cfg_max = BENCH_MAX_P\<rparr>"

lemma bench_session:
  assumes "spec_run (bench_cfg n c) xs spec_empty = (rs, B)" "n \<le> 2000000" "c \<le> 2000000"
  shows "\<exists>b. session E (OrderBook_new E n c BENCH_MIN_P BENCH_MAX_P) xs = Some (rs, b) \<and> book_abs b = B \<and>
    (\<forall>i. order_exists i b \<longleftrightarrow> i \<in> set (book_ids B)) \<and> unat (active_order_count b) = book_size B"
  using session_spec [OF _ _ _ _ _ assms(1), of E] assms(2,3)
  by (auto simp: BENCH_MIN_P_def BENCH_MAX_P_def UINT32_MAX_def kMaxPriceRangeTicks_def kMaxOrderIds_def kMaxPoolCapacity_def)

lemma loop_to_split: "a \<le> Suc m \<Longrightarrow> m \<le> n \<Longrightarrow> loop_to a n = loop_to a m @ loop_to (Suc m) n"
  unfolding loop_to_def using upt_add_eq_append [of a "Suc m" "n - m"] by (simp del: upt_Suc)

lemma loop_sets [simp]: "set (loop_to a n) = {a..n}" "set (loop_below n) = {..<n}"
  "length (loop_to a n) = Suc n - a" "length (loop_below n) = n"
  by (auto simp: loop_to_def loop_below_def simp del: upt_Suc)

lemma distinct_loop: "n < 2 ^ 32 - 1 \<Longrightarrow> distinct (map (of_nat :: nat \<Rightarrow> u32) (loop_to a n))"
  unfolding loop_to_def by (intro distinct_ids) simp

lemma bench_id: "0 < i \<Longrightarrow> i \<le> n \<Longrightarrow> n < 2 ^ 32 \<Longrightarrow> valid_id (bench_cfg n c) (of_nat i)"
  by (auto simp: valid_id_def unat_of_nat_32 word_unat_eq_iff)

lemma price_1000: "k < 1000 \<Longrightarrow> unat (of_nat (1000 + k) :: Price) = 1000 + k"
  by (intro unat_of_nat_32) simp

lemma bench_sells:
  assumes "k \<le> n" "k \<le> c" "n < 2 ^ 32 - 1"
  shows "\<exists>B. spec_run (bench_cfg n c) (map bench_sell (loop_to 1 k)) spec_empty = (replicate k (Added (mk_result Accepted 0 [])), B) \<and>
    sells 10 2000 (map of_nat (loop_to 1 k)) B"
proof -
  have d: "distinct ([] @ map (of_nat :: nat \<Rightarrow> u32) (loop_to 1 k))" unfolding append_Nil using assms by (intro distinct_loop) simp
  have l: "length [] + length (loop_to 1 k) \<le> cfg_capacity (bench_cfg n c)" using assms(2) by simp
  have v: "valid_id (bench_cfg n c) (of_nat i) \<and> valid_price (bench_cfg n c) (of_nat (1000 + i mod 1000)) \<and> of_nat (1000 + i mod 1000) \<le> (2000 :: Price)"
    if "i \<in> set (loop_to 1 k)" for i
    using that assms bench_id [of i n c] price_1000 [of "i mod 1000"]
    by (auto simp: valid_price_def BENCH_MIN_P_def BENCH_MAX_P_def word_le_nat_alt simp del: of_nat_add)
  have u: "10 \<noteq> (0 :: Quantity)" by simp
  obtain rs B where rs: "spec_run (bench_cfg n c) (map bench_sell (loop_to 1 k)) spec_empty = (rs, B)"
    "\<forall>r \<in> set rs. r = Added (mk_result Accepted 0 [])" "sells 10 2000 (map of_nat (loop_to 1 k)) B"
    using seed_session [OF sells_empty(1) u d l v] unfolding bench_sell_def [abs_def] by auto
  then have "rs = replicate k (Added (mk_result Accepted 0 []))"
    using spec_run_length [OF rs(1)] by (intro replicate_eqI) auto
  with rs show ?thesis by blast
qed

text \<open>Ids above the limit are refused one by one.\<close>

lemma overrun_session:
  assumes "\<forall>i \<in> set is. n < i \<and> i < 2 ^ 32"
  shows "\<exists>rs. spec_run (bench_cfg n c) (map bench_sell is) B = (rs, B) \<and> (\<forall>r \<in> set rs. r = Added (mk_result OutOfBoundsOrderId 0 []))"
proof -
  have "\<exists>rs B'. spec_run (bench_cfg n c) (map bench_sell is) B = (rs, B') \<and>
    (\<forall>r \<in> set rs. r = Added (mk_result OutOfBoundsOrderId 0 [])) \<and> B' = B"
  proof (rule spec_run_map [where P = "\<lambda>_ A. A = B"])
    fix k A assume k: "k < length is" "A = B"
    have "n < is ! k \<and> is ! k < 2 ^ 32" using assms k(1) by simp
    then have "unat (of_nat (is ! k) :: OrderId) = is ! k" "n < is ! k" by (simp_all add: unat_of_nat_32)
    then show "\<exists>r A'. spec_step (bench_cfg n c) (bench_sell (is ! k)) A = (r, A') \<and> r = Added (mk_result OutOfBoundsOrderId 0 []) \<and> A' = B"
      using k(2) by (simp add: bench_sell_def spec_add_def spec_check_def)
  qed simp
  then show ?thesis by blast
qed

lemma insert_result:
  "\<exists>b. insert_scenario E = Some (replicate 200010 (Added (mk_result Accepted 0 [])) @
      replicate 9990 (Added (mk_result OutOfBoundsOrderId 0 [])), b) \<and> unat (active_order_count b) = 200010"
proof -
  let ?c = "bench_cfg 200010 200010"
  obtain B where B: "spec_run ?c (map bench_sell (loop_to 1 200010)) spec_empty = (replicate 200010 (Added (mk_result Accepted 0 [])), B)"
    "sells 10 2000 (map of_nat (loop_to 1 200010)) B"
    using bench_sells [of 200010 200010 200010] by auto
  obtain rs where rs: "spec_run ?c (map bench_sell (loop_to 200011 210000)) B = (rs, B)" "\<forall>r \<in> set rs. r = Added (mk_result OutOfBoundsOrderId 0 [])"
    using overrun_session [of "loop_to 200011 210000" 200010 200010 B] by auto
  have us: "rs = replicate 9990 (Added (mk_result OutOfBoundsOrderId 0 []))"
    using rs(2) spec_run_length [OF rs(1)] by (intro replicate_eqI) auto
  have ops: "map bench_sell (loop_to 1 10000) @ map bench_sell (loop_to 10001 210000) =
      map bench_sell (loop_to 1 200010) @ map bench_sell (loop_to 200011 210000)"
    using loop_to_split [of 1 10000 210000] loop_to_split [of 1 200010 210000] by (simp flip: map_append)
  have run: "spec_run ?c (map bench_sell (loop_to 1 10000) @ map bench_sell (loop_to 10001 210000)) spec_empty =
      (replicate 200010 (Added (mk_result Accepted 0 [])) @ replicate 9990 (Added (mk_result OutOfBoundsOrderId 0 [])), B)"
    unfolding ops spec_run_append B(1) us using rs(1) [unfolded us] by simp
  from bench_session [OF run, of E] sells_ids(2) [OF B(2)] show ?thesis
    by (auto simp: insert_scenario_def OrderBook_new_sized_def Let_def)
qed

lemma match_result:
  "\<exists>us b. match_scenario E = Some (replicate 100000 (Added (mk_result Accepted 0 [])) @ us, b) \<and> length us = 100000 \<and>
    (\<forall>r \<in> set us. \<exists>tr. r = Added (mk_result Accepted 10 [tr])) \<and> active_order_count b = 0"
proof -
  let ?c = "bench_cfg 400010 400010" and ?g = "\<lambda>i. of_nat (200001 + i) :: u32" and ?ids = "map of_nat (loop_to 1 100000) :: OrderId list"
  obtain B where B: "spec_run ?c (map bench_sell (loop_to 1 100000)) spec_empty = (replicate 100000 (Added (mk_result Accepted 0 [])), B)"
    "sells 10 2000 ?ids B"
    using bench_sells [of 100000 400010 400010] by auto
  have ids: "valid_id ?c (?g i) \<and> ?g i \<notin> set ?ids" if "i \<in> set (loop_below 100000)" for i
  proof -
    have i: "unat (?g i) = 200001 + i" "i < 100000" using that unat_of_nat_32 [of "200001 + i"] by auto
    have "unat x \<le> 100000" if "x \<in> set ?ids" for x using that by (auto simp: unat_of_nat_32)
    then have "?g i \<notin> set ?ids" using i(1) by fastforce
    moreover have "valid_id ?c (?g i)" using i by (auto simp: valid_id_def unat_eq_0 [symmetric] simp del: of_nat_add)
    ultimately show ?thesis by blast
  qed
  have q: "10 \<noteq> (0 :: Quantity)" and vp: "valid_price ?c 2000" by (simp_all add: valid_price_def BENCH_MIN_P_def BENCH_MAX_P_def)
  have "length (loop_below 100000) \<le> length ?ids" by simp
  from take_session [where g = ?g, OF B(2) this q vp order.refl ids] obtain us B' ids' where
    us: "spec_run ?c (map (\<lambda>i. Add (?g i) Limit 2000 10 Buy) (loop_below 100000)) B = (us, B')"
    "\<forall>r \<in> set us. \<exists>tr. r = Added (mk_result Accepted 10 [tr])" "sells 10 2000 ids' B'" "length ids' = length ?ids - length (loop_below 100000)"
    by blast
  then have "B' = spec_empty" using sells_empty(2) by simp
  then have run: "spec_run ?c (map bench_sell (loop_to 1 100000) @ map (\<lambda>i. Add (?g i) Limit 2000 10 Buy) (loop_below 100000)) spec_empty =
      (replicate 100000 (Added (mk_result Accepted 0 [])) @ us, spec_empty)"
    unfolding spec_run_append B(1) using us(1) by (simp del: of_nat_add)
  from bench_session [OF run, of E] obtain b where
    "match_scenario E = Some (replicate 100000 (Added (mk_result Accepted 0 [])) @ us, b)" "active_order_count b = 0"
    unfolding match_scenario_def by (auto simp: book_size_def spec_empty_def unat_eq_0)
  moreover have "length us = 100000" using spec_run_length [OF us(1)] by simp
  ultimately show ?thesis using us(2) by blast
qed

lemma cancel_result:
  "\<exists>b. cancel_scenario E = Some (replicate 200000 (Added (mk_result Accepted 0 [])) @ replicate 200000 (Cancelled Accepted), b) \<and>
    active_order_count b = 0"
proof -
  let ?c = "bench_cfg 210010 210010"
  obtain B where B: "spec_run ?c (map bench_sell (loop_to 1 200000)) spec_empty = (replicate 200000 (Added (mk_result Accepted 0 [])), B)"
    "sells 10 2000 (map of_nat (loop_to 1 200000)) B"
    using bench_sells [of 200000 210010 210010] by auto
  have d: "distinct (map (of_nat :: nat \<Rightarrow> u32) (loop_to 1 200000))" by (rule distinct_loop) simp
  have v: "valid_id ?c (of_nat i)" if "i \<in> set (loop_to 1 200000)" for i using that by (intro bench_id) auto
  have "\<exists>rs. spec_run ?c (map (\<lambda>i. CancelId (of_nat i)) (loop_to 1 200000)) B = (rs, spec_empty) \<and> (\<forall>r \<in> set rs. r = Cancelled Accepted)"
    by (rule cancel_session [where g = of_nat and out = Cancelled, OF B(2) d v]) (auto split: prod.splits)
  then obtain rs where rs: "spec_run ?c (map (\<lambda>i. CancelId (of_nat i)) (loop_to 1 200000)) B = (rs, spec_empty)"
    "\<forall>r \<in> set rs. r = Cancelled Accepted" by blast
  have us: "rs = replicate 200000 (Cancelled Accepted)"
    using rs(2) spec_run_length [OF rs(1)] by (intro replicate_eqI) auto
  have run: "spec_run ?c (map bench_sell (loop_to 1 200000) @ map (\<lambda>i. CancelId (of_nat i)) (loop_to 1 200000)) spec_empty =
      (replicate 200000 (Added (mk_result Accepted 0 [])) @ replicate 200000 (Cancelled Accepted), spec_empty)"
    unfolding spec_run_append B(1) using rs(1) [unfolded us] by simp
  from bench_session [OF run, of E] show ?thesis
    unfolding cancel_scenario_def by (auto simp: book_size_def spec_empty_def unat_eq_0)
qed

text \<open>One round of the sweep: ten makers on ten levels, all taken by one order.\<close>

lemma sweep_round_spec:
  assumes "rnd < 2000"
  shows "\<exists>ts. spec_run (bench_cfg 40010 40010) (sweep_round rnd) spec_empty =
    (replicate 10 (Added (mk_result Accepted 0 [])) @ [Added (mk_result Accepted 50 ts)], spec_empty) \<and> length ts = 10"
proof -
  let ?c = "bench_cfg 40010 40010" and ?base = "1 + rnd * 12"
  let ?g = "\<lambda>k. of_nat (?base + k) :: u32"
  have g: "unat (?g k) = ?base + k" if "k \<le> 10" for k using that assms by (intro unat_of_nat_32) simp
  have v: "valid_id ?c (?g k)" if "k \<le> 10" for k
    using g [OF that] assms that by (auto simp: valid_id_def unat_eq_0 [symmetric] simp del: of_nat_add)
  have inj: "j = k" if "j \<le> 10" "k \<le> 10" "?g j = ?g k" for j k using g that by (metis add_left_cancel)
  have d: "distinct ([] @ map ?g (loop_below 10))"
    using inj by (auto simp: distinct_map inj_on_def loop_below_def simp del: of_nat_add)
  have l: "length [] + length (loop_below 10) \<le> cfg_capacity ?c" by simp
  have m: "valid_id ?c (?g k) \<and> valid_price ?c (of_nat (1000 + k)) \<and> of_nat (1000 + k) \<le> (1200 :: Price)" if "k \<in> set (loop_below 10)" for k
    using that v [of k] price_1000 [of k] by (auto simp: valid_price_def BENCH_MIN_P_def BENCH_MAX_P_def word_le_nat_alt simp del: of_nat_add)
  have u: "5 \<noteq> (0 :: Quantity)" by simp
  obtain rs B where rs: "spec_run ?c (map (\<lambda>k. Add (?g k) Limit (of_nat (1000 + k)) 5 Sell) (loop_below 10)) spec_empty = (rs, B)"
    "\<forall>r \<in> set rs. r = Added (mk_result Accepted 0 [])" "sells 5 1200 (map ?g (loop_below 10)) B"
    using seed_session [where g = ?g, OF sells_empty(1) u d l m] by auto
  have us: "rs = replicate 10 (Added (mk_result Accepted 0 []))"
    using rs(2) spec_run_length [OF rs(1)] by (intro replicate_eqI) auto
  have "?g 10 \<notin> set (map ?g (loop_below 10))"
  proof
    assume "?g 10 \<in> set (map ?g (loop_below 10))"
    then obtain k where "k < 10" "?g 10 = ?g k" by auto
    then show False using inj [of 10 k] by simp
  qed
  moreover have "map ?g (loop_below 10) \<noteq> []" by (simp add: loop_below_def)
  ultimately obtain ts where ts: "spec_add ?c (?g 10) Limit 1200 50 Buy B = (mk_result Accepted 50 ts, spec_empty)" "length ts = 10"
    using sweep_step [OF rs(3) _ u v [of 10], of 1200] by (auto simp: valid_price_def BENCH_MIN_P_def BENCH_MAX_P_def simp del: of_nat_add)
  then show ?thesis
    unfolding sweep_round_def Let_def spec_run_append rs(1) us by (intro exI [of _ ts]) (simp del: of_nat_add)
qed

lemma sweep_result:
  "\<exists>tss b. sweep_scenario E = Some (concat (map (\<lambda>ts. replicate 10 (Added (mk_result Accepted 0 [])) @ [Added (mk_result Accepted 50 ts)]) tss), b) \<and>
    length tss = 2000 \<and> (\<forall>ts \<in> set tss. length ts = 10) \<and> active_order_count b = 0"
proof -
  let ?F = "\<lambda>ts. replicate 10 (Added (mk_result Accepted 0 [])) @ [Added (mk_result Accepted 50 ts)]" and ?c = "bench_cfg 40010 40010"
  have "\<exists>tss. spec_run ?c (concat (map sweep_round (loop_below n))) spec_empty = (concat (map ?F tss), spec_empty) \<and>
      length tss = n \<and> (\<forall>ts \<in> set tss. length ts = 10)" if "n \<le> 2000" for n
    using that
  proof (induction n)
    case 0
    then show ?case by (simp add: loop_below_def)
  next
    case (Suc n)
    then obtain tss where tss: "spec_run ?c (concat (map sweep_round (loop_below n))) spec_empty = (concat (map ?F tss), spec_empty)"
      "length tss = n" "\<forall>ts \<in> set tss. length ts = 10" by auto
    obtain ts where ts: "spec_run ?c (sweep_round n) spec_empty = (?F ts, spec_empty)" "length ts = 10"
      using sweep_round_spec [of n] Suc.prems by auto
    have "loop_below (Suc n) = loop_below n @ [n]" by (simp add: loop_below_def)
    with tss ts show ?case by (intro exI [of _ "tss @ [ts]"]) (simp add: spec_run_append)
  qed
  then obtain tss where run: "spec_run ?c (concat (map sweep_round (loop_below 2000))) spec_empty = (concat (map ?F tss), spec_empty)"
    and tss: "length tss = 2000" "\<forall>ts \<in> set tss. length ts = 10" by blast
  from bench_session [OF run, of E] obtain b where "sweep_scenario E = Some (concat (map ?F tss), b)" "active_order_count b = 0"
    unfolding sweep_scenario_def by (auto simp: book_size_def spec_empty_def unat_eq_0)
  with tss show ?thesis by blast
qed

section \<open>The random scenarios on the engine\<close>

lemma rng_below_bound: "rng_below m s = (x, s') \<Longrightarrow> m \<noteq> 0 \<Longrightarrow> unat x < unat m"
  by (auto simp: rng_below_def unat_mod unat_gt_0 split: prod.splits)

lemma price_draw:
  assumes "rng_below m s = (x, s')" "m \<noteq> 0" "unat b + unat m \<le> 20001"
  shows "b + x \<le> (20000 :: Price)"
proof -
  have "unat x < unat m" using rng_below_bound [OF assms(1,2)] .
  moreover from this have "unat (b + x) = unat b + unat x" using assms(3) by (subst unat_add_lem [THEN iffD1]) simp_all
  ultimately show ?thesis using assms(3) by (simp add: word_le_nat_alt)
qed

text \<open>The shuffle stays inside the vector and permutes it.\<close>

lemma swap_at_mset:
  "i < length xs \<Longrightarrow> j < length xs \<Longrightarrow> \<exists>ys. swap_at i j xs = Some ys \<and> mset ys = mset xs \<and> length ys = length xs"
  using mset_swap [of j xs i] by (simp add: swap_at_def vec_simps)

lemma shuffle_permutes:
  "i < length ids \<Longrightarrow> length ids < 2 ^ 32 \<Longrightarrow> \<exists>ids' s'. shuffle i ids s = Some (ids', s') \<and> mset ids' = mset ids"
proof (induction i arbitrary: ids s)
  case (Suc i)
  obtain j s1 where j: "rng_below (of_nat (Suc i + 1)) s = (j, s1)" by fastforce
  have u: "unat (of_nat (Suc i + 1) :: u32) = Suc i + 1" using Suc.prems by (intro unat_of_nat_32) simp
  then have "(of_nat (Suc i + 1) :: u32) \<noteq> 0" by (metis add_is_0 one_neq_zero unat_0)
  then have "unat j < Suc i + 1" using rng_below_bound [OF j] u by metis
  then obtain ys where ys: "swap_at (Suc i) (unat j) ids = Some ys" "mset ys = mset ids" "length ys = length ids"
    using swap_at_mset [of "Suc i" ids "unat j"] Suc.prems by auto
  obtain ids' s' where "shuffle i ys s1 = Some (ids', s')" "mset ids' = mset ys" using Suc.IH [of ys s1] Suc.prems ys(3) by auto
  with j ys show ?case by (simp del: of_nat_add of_nat_Suc)
qed simp

lemma churn_fill_calls:
  assumes "churn_fill pf is s = (xs, s')" "\<forall>i \<in> set is. 0 < i \<and> i \<le> 200010"
  shows "concat (map entered xs) = map of_nat is" "\<forall>x \<in> set xs. valid_call (bench_cfg 200010 150010) x" "length xs = length is"
proof -
  have "concat (map entered xs) = map of_nat is \<and> (\<forall>x \<in> set xs. valid_call (bench_cfg 200010 150010) x) \<and> length xs = length is"
    using assms
  proof (induction "is" arbitrary: s xs)
    case (Cons i "is")
    obtain p d s1 where d: "churn_draws pf s = (p, d, s1)" by (metis prod_cases3)
    obtain ys where ys: "churn_fill pf is s1 = (ys, s')" "xs = Add (of_nat i) Limit (1000 + p) 10 (if d \<noteq> 0 then Buy else Sell) # ys"
      using Cons.prems(1) d by (auto split: prod.splits)
    obtain s2 s3 where "rng_below 10000 s2 = (p, s3)" using d by (auto simp: churn_draws_def split: if_splits prod.splits)
    then have "1000 + p \<le> 20000" by (rule price_draw) simp_all
    moreover have "valid_id (bench_cfg 200010 150010) (of_nat i)" using Cons.prems(2) by (intro bench_id) auto
    ultimately show ?case using Cons.IH [OF ys(1)] Cons.prems(2) ys(2)
      by (auto simp: valid_id_def BENCH_MIN_P_def BENCH_MAX_P_def)
  qed simp
  then show "concat (map entered xs) = map of_nat is" "\<forall>x \<in> set xs. valid_call (bench_cfg 200010 150010) x" "length xs = length is" by blast+
qed

lemma churn_adds_calls:
  assumes "\<forall>i \<in> set is. i < 10000"
  shows "concat (map entered (churn_adds is s)) = map (\<lambda>i. of_nat (150001 + i)) is"
    "\<forall>x \<in> set (churn_adds is s). valid_call (bench_cfg 200010 150010) x" "length (churn_adds is s) = length is"
proof -
  have "concat (map entered (churn_adds is s)) = map (\<lambda>i. of_nat (150001 + i)) is \<and>
      (\<forall>x \<in> set (churn_adds is s). valid_call (bench_cfg 200010 150010) x) \<and> length (churn_adds is s) = length is"
    using assms
  proof (induction "is" arbitrary: s)
    case (Cons i "is")
    obtain p s1 where p: "rng_below 10000 s = (p, s1)" by fastforce
    then have "1000 + p \<le> 20000" by (rule price_draw) simp_all
    moreover have "valid_id (bench_cfg 200010 150010) (of_nat (150001 + i))" using Cons.prems by (intro bench_id) auto
    ultimately show ?case using Cons.IH [of s1] Cons.prems p
      by (auto simp: valid_id_def BENCH_MIN_P_def BENCH_MAX_P_def simp del: of_nat_add)
  qed simp
  then show "concat (map entered (churn_adds is s)) = map (\<lambda>i. of_nat (150001 + i)) is"
    "\<forall>x \<in> set (churn_adds is s). valid_call (bench_cfg 200010 150010) x" "length (churn_adds is s) = length is" by blast+
qed

text \<open>Every order the churn scenario enters has the size 10.\<close>

lemma churn_sizes:
  "churn_fill pf is s = (xs, s') \<Longrightarrow> x \<in> set xs \<Longrightarrow> \<exists>i px d. x = Add i Limit px 10 d"
  "x \<in> set (churn_adds js s) \<Longrightarrow> \<exists>i px d. x = Add i Limit px 10 d"
proof -
  show "churn_fill pf is s = (xs, s') \<Longrightarrow> x \<in> set xs \<Longrightarrow> \<exists>i px d. x = Add i Limit px 10 d"
    by (induction "is" arbitrary: s xs) (fastforce split: prod.splits)+
  show "x \<in> set (churn_adds js s) \<Longrightarrow> \<exists>i px d. x = Add i Limit px 10 d"
    by (induction js arbitrary: s) (auto split: prod.splits)
qed

lemma churn_ops_shape:
  "\<exists>fills ids adds. churn_ops pf = Some (fills @ map CancelId ids @ adds) \<and>
    concat (map entered fills) = map of_nat (loop_to 1 100000) \<and> length fills = 100000 \<and>
    distinct ids \<and> length ids = 50000 \<and> set ids \<subseteq> of_nat ` {1..100000} \<and>
    concat (map entered adds) = map (\<lambda>i. of_nat (150001 + i)) (loop_below 10000) \<and> length adds = 10000 \<and>
    (\<forall>x \<in> set (fills @ adds). valid_call (bench_cfg 200010 150010) x \<and> (\<exists>i px d. x = Add i Limit px 10 d))"
proof -
  let ?ids = "map of_nat (loop_to 1 100000) :: OrderId list"
  obtain fills s where f: "churn_fill pf (loop_to 1 100000) CHURN_SEED = (fills, s)" by fastforce
  have li: "length ?ids - 1 < length ?ids" "length ?ids < 2 ^ 32" by simp_all
  obtain ids s' where sh: "shuffle (length ?ids - 1) ?ids s = Some (ids, s')" "mset ids = mset ?ids"
    using shuffle_permutes [OF li] by blast
  have ids: "distinct ids" "set ids = set ?ids" "length ids = 100000"
    using sh(2) distinct_loop [of 100000 1] mset_eq_imp_distinct_iff [OF sh(2)] mset_eq_setD [OF sh(2)] mset_eq_length [OF sh(2)] by auto
  let ?adds = "churn_adds (loop_below 10000) s'"
  have "churn_ops pf = Some (fills @ map CancelId (take 50000 ids) @ ?adds)"
    using f sh(1) ids(3) by (simp add: churn_ops_def Let_def)
  moreover have "set (take 50000 ids) \<subseteq> of_nat ` {1..100000}" using ids(2) set_take_subset [of 50000 ids] by auto
  moreover have "distinct (take 50000 ids)" "length (take 50000 ids) = 50000" using ids by simp_all
  moreover note fc = churn_fill_calls [OF f] and ac = churn_adds_calls [of "loop_below 10000" s']
  moreover have "concat (map entered fills) = map of_nat (loop_to 1 100000)" "length fills = 100000"
    "\<forall>x \<in> set fills. valid_call (bench_cfg 200010 150010) x" using fc by auto
  moreover have "concat (map entered ?adds) = map (\<lambda>i. of_nat (150001 + i)) (loop_below 10000)" "length ?adds = 10000"
    "\<forall>x \<in> set ?adds. valid_call (bench_cfg 200010 150010) x" using ac by auto
  moreover have "\<exists>i px d. x = Add i Limit px 10 d" if "x \<in> set (fills @ ?adds)" for x
    using that churn_sizes(1) [OF f, of x] churn_sizes(2) [of x "loop_below 10000" s'] by auto
  ultimately show ?thesis
    by (intro exI [of _ fills] exI [of _ "take 50000 ids"] exI [of _ ?adds]) auto
qed

lemma churn_distinct:
  "distinct (map of_nat (loop_to 1 100000) @ map (\<lambda>i. of_nat (150001 + i)) (loop_below 10000) :: u32 list)"
proof -
  have lo: "unat x \<le> 100000" if "x \<in> set (map of_nat (loop_to 1 100000) :: u32 list)" for x
    using that by (auto simp: unat_of_nat_32)
  have u: "unat (of_nat (150001 + i) :: u32) = 150001 + i" if "i < 10000" for i using that by (intro unat_of_nat_32) simp
  then have hi: "unat x > 100000" if "x \<in> set (map (\<lambda>i. of_nat (150001 + i)) (loop_below 10000) :: u32 list)" for x
    using that by (auto simp del: of_nat_add)
  have "inj_on (\<lambda>i. of_nat (150001 + i) :: u32) (set (loop_below 10000))"
    using u by (intro inj_onI) (metis add_left_cancel lessThan_iff loop_sets(2))
  then have "distinct (map (\<lambda>i. of_nat (150001 + i)) (loop_below 10000) :: u32 list)"
    by (simp add: distinct_map del: loop_sets of_nat_add) (simp add: loop_below_def)
  moreover have "distinct (map of_nat (loop_to 1 100000) :: u32 list)" by (rule distinct_loop) simp
  ultimately show ?thesis using lo hi unfolding distinct_append by fastforce
qed

abbreviation churn_book :: "Env \<Rightarrow> OrderBook option" where
  "churn_book E \<equiv> OrderBook_new E 200010 150010 BENCH_MIN_P BENCH_MAX_P"

text \<open>The outcome of an order in a book where all have its size: it rests whole, or one maker fills it.\<close>

abbreviation whole :: "Quantity \<Rightarrow> Outcome \<Rightarrow> bool" where
  "whole u r \<equiv> r = Added (mk_result Accepted 0 []) \<or> (\<exists>tr. r = Added (mk_result Accepted u [tr]))"

lemma churn_spec:
  assumes "concat (map entered fs) = map of_nat (loop_to 1 100000)" "length fs = 100000"
    "distinct ids" "set ids \<subseteq> of_nat ` {1..100000}"
    "concat (map entered adds) = map (\<lambda>i. of_nat (150001 + i)) (loop_below 10000)" "length adds = 10000"
    "\<forall>x \<in> set (fs @ adds). valid_call (bench_cfg 200010 150010) x \<and> (\<exists>i px d. x = Add i Limit px 10 d)"
  shows "\<exists>rf B1 ra B. spec_run (bench_cfg 200010 150010) fs spec_empty = (rf, B1) \<and> (\<forall>r \<in> set rf. whole 10 r) \<and>
    book_size B1 + 2 * length (filter traded rf) = 100000 \<and>
    spec_run (bench_cfg 200010 150010) (fs @ map CancelId ids @ adds) spec_empty =
      (rf @ map (\<lambda>i. Cancelled (if i \<in> set (book_ids B1) then Accepted else CancelFailed)) ids @ ra, B) \<and>
    (\<forall>r \<in> set ra. whole 10 r) \<and>
    book_size B + 2 * length (filter traded ra) + length (filter (\<lambda>i. i \<in> set (book_ids B1)) ids) = book_size B1 + 10000"
proof -
  let ?c = "bench_cfg 200010 150010"
  have ok: "\<forall>x \<in> set xs. valid_limit ?c x \<and> (\<exists>i px s. x = Add i Limit px 10 s)" if "set xs \<subseteq> set (fs @ adds)" for xs
    using assms(7) that by fastforce
  have dist: "distinct (concat (map entered fs))" "distinct (concat (map entered adds))"
    "set (concat (map entered fs)) \<inter> set (concat (map entered adds)) = {}"
    using churn_distinct unfolding assms(1,5) by auto
  obtain rf B1 where rf: "spec_run ?c fs spec_empty = (rf, B1)" by fastforce
  have f1: "\<forall>x \<in> set fs. valid_limit ?c x \<and> (\<exists>i px s. x = Add i Limit px 10 s)" by (rule ok) simp
  have f2: "set (book_ids spec_empty) \<inter> set (concat (map entered fs)) = {}" by (simp add: book_ids_def spec_empty_def)
  have f3: "book_size spec_empty + length fs \<le> cfg_capacity ?c" using assms(2) by (simp add: book_size_def spec_empty_def)
  have f4: "equal_book 10 spec_empty" by (simp add: equal_book_def spec_empty_def all_sides [of _ Buy])
  from equal_session [OF rf f1 dist(1) f2 f3 f4] have e1: "\<forall>r \<in> set rf. whole 10 r" "book_size B1 + 2 * length (filter traded rf) = 100000"
    "equal_book 10 B1" "set (book_ids B1) \<subseteq> set (concat (map entered fs))"
    using assms(2) by (auto simp: book_size_def book_ids_def spec_empty_def)
  have i: "\<forall>i \<in> set ids. i \<noteq> 0 \<and> unat i \<le> cfg_max_id ?c"
    using assms(4) by (auto simp: unat_of_nat_32 word_unat_eq_iff)
  have "distinct (book_ids B1)" using spec_run_inv [OF spec_inv_empty rf] by (simp add: spec_inv_def)
  from cancels_session [OF assms(3) i this, of 10] obtain B2 where
    B2: "spec_run ?c (map CancelId ids) B1 = (map (\<lambda>i. Cancelled (if i \<in> set (book_ids B1) then Accepted else CancelFailed)) ids, B2)"
      "set (book_ids B2) = set (book_ids B1) - set ids"
      "book_size B2 + length (filter (\<lambda>i. i \<in> set (book_ids B1)) ids) = book_size B1" "equal_book 10 B2"
    using e1(3) by blast
  obtain ra B where ra: "spec_run ?c adds B2 = (ra, B)" by fastforce
  have a1: "\<forall>x \<in> set adds. valid_limit ?c x \<and> (\<exists>i px s. x = Add i Limit px 10 s)" by (rule ok) simp
  have a2: "set (book_ids B2) \<inter> set (concat (map entered adds)) = {}" using B2(2) e1(4) dist(3) by blast
  have a3: "book_size B2 + length adds \<le> cfg_capacity ?c" using assms(6) e1(2) B2(3) by simp
  from equal_session [OF ra a1 dist(2) a2 a3 B2(4)] have e2: "\<forall>r \<in> set ra. whole 10 r"
    "book_size B + 2 * length (filter traded ra) = book_size B2 + 10000"
    using assms(6) by auto
  have "spec_run ?c (fs @ map CancelId ids @ adds) spec_empty =
      (rf @ map (\<lambda>i. Cancelled (if i \<in> set (book_ids B1) then Accepted else CancelFailed)) ids @ ra, B)"
    by (simp add: spec_run_append rf B2(1) ra)
  with rf e1(1,2) e2 B2(3) show ?thesis by (intro exI conjI) (assumption | simp)+
qed

text \<open>
  What the churn scenario does: \<open>fs\<close> are its fills, \<open>ids\<close> the ids it cancels, \<open>adds\<close> the measured orders,
  \<open>b1\<close> the book after the fills.
\<close>

definition churn_outcome :: "Env \<Rightarrow> bool \<Rightarrow> bool" where
  "churn_outcome E pf \<longleftrightarrow> (\<exists>fs ids adds rf b1 ra b.
     churn_ops pf = Some (fs @ map CancelId ids @ adds) \<and> length fs = 100000 \<and> length ids = 50000 \<and> length adds = 10000 \<and>
     concat (map entered fs) = map of_nat (loop_to 1 100000) \<and> distinct ids \<and> set ids \<subseteq> set (concat (map entered fs)) \<and>
     session E (churn_book E) fs = Some (rf, b1) \<and> (\<forall>r \<in> set rf. whole 10 r) \<and>
     unat (active_order_count b1) + 2 * length (filter traded rf) = 100000 \<and>
     churn_scenario E pf = Some (rf @ map (\<lambda>i. Cancelled (if order_exists i b1 then Accepted else CancelFailed)) ids @ ra, b) \<and>
     length ra = 10000 \<and> (\<forall>r \<in> set ra. whole 10 r) \<and>
     unat (active_order_count b) + 2 * length (filter traded ra) + length (filter (\<lambda>i. order_exists i b1) ids) =
       unat (active_order_count b1) + 10000)"

lemma churn_result: "churn_outcome E pf"
proof -
  let ?c = "bench_cfg 200010 150010"
  obtain fs ids adds where ops: "churn_ops pf = Some (fs @ map CancelId ids @ adds)"
    and e: "concat (map entered fs) = map of_nat (loop_to 1 100000)" "concat (map entered adds) = map (\<lambda>i. of_nat (150001 + i)) (loop_below 10000)"
    and l: "length fs = 100000" "length ids = 50000" "length adds = 10000"
    and v: "distinct ids" "set ids \<subseteq> of_nat ` {1..100000}"
      "\<forall>x \<in> set (fs @ adds). valid_call ?c x \<and> (\<exists>i px d. x = Add i Limit px 10 d)"
    using churn_ops_shape [of pf] by blast
  obtain rf B1 ra B where r: "spec_run ?c fs spec_empty = (rf, B1)" "\<forall>r \<in> set rf. whole 10 r"
    "book_size B1 + 2 * length (filter traded rf) = 100000"
    "spec_run ?c (fs @ map CancelId ids @ adds) spec_empty =
      (rf @ map (\<lambda>i. Cancelled (if i \<in> set (book_ids B1) then Accepted else CancelFailed)) ids @ ra, B)"
    "\<forall>r \<in> set ra. whole 10 r"
    "book_size B + 2 * length (filter traded ra) + length (filter (\<lambda>i. i \<in> set (book_ids B1)) ids) = book_size B1 + 10000"
    using churn_spec [OF e(1) l(1) v(1,2) e(2) l(3) v(3)] by blast
  have small: "200010 \<le> (2000000 :: nat)" "150010 \<le> (2000000 :: nat)" by simp_all
  obtain b1 where b1: "session E (churn_book E) fs = Some (rf, b1)" "\<forall>i. order_exists i b1 \<longleftrightarrow> i \<in> set (book_ids B1)"
    "unat (active_order_count b1) = book_size B1"
    using bench_session [OF r(1) small, of E] by blast
  obtain b where b: "session E (churn_book E) (fs @ map CancelId ids @ adds) =
      Some (rf @ map (\<lambda>i. Cancelled (if i \<in> set (book_ids B1) then Accepted else CancelFailed)) ids @ ra, b)"
    "unat (active_order_count b) = book_size B"
    using bench_session [OF r(4) small, of E] by blast
  have "length ra = 10000" using spec_run_length [OF r(4)] spec_run_length [OF r(1)] l by simp
  moreover have "set ids \<subseteq> set (concat (map entered fs))" using v(2) unfolding e(1) by simp
  moreover have "churn_scenario E pf = session E (churn_book E) (fs @ map CancelId ids @ adds)" by (simp add: churn_scenario_def ops)
  ultimately show ?thesis
    unfolding churn_outcome_def using ops l e(1) v(1) r b1 b by (intro exI conjI) (assumption | simp)+
qed

lemma bench_mixed_ids: "\<exists>m \<le> n. concat (map entered (bench_mixed_ops n nid s)) = map of_nat [nid..<nid + m]"
proof (induction n arbitrary: nid s)
  case (Suc n)
  obtain roll s1 where r: "rng_below 100 s = (roll, s1)" by fastforce
  have up: "(of_nat nid :: u32) # map of_nat [Suc nid..<Suc nid + m] = map of_nat [nid..<nid + Suc m]" for m
    using upt_conv_Cons [of nid "nid + Suc m"] by (simp del: upt_Suc)
  show ?case
  proof (cases "roll < 75")
    case True
    obtain m s2 where "m \<le> n" "concat (map entered (bench_mixed_ops (Suc n) nid s)) = of_nat nid # map of_nat [Suc nid..<Suc nid + m]"
      using Suc.IH [of "Suc nid" s1] Suc.IH [of "Suc nid" "snd (rng_below 2000 s1)"] True r
      by (cases "roll < 50") (fastforce simp: Let_def case_prod_beta simp del: upt_Suc)+
    then show ?thesis using up by (metis Suc_le_mono)
  next
    case False
    then have "\<not> roll < 50" by (auto simp: word_less_nat_alt)
    with False Suc.IH [of nid "snd (rng_below (of_nat (nid - 1)) s1)"] r show ?thesis
      by (auto simp: Let_def case_prod_beta simp del: upt_Suc intro: le_SucI)
  qed
qed auto

lemma bench_mixed_calls:
  "0 < nid \<Longrightarrow> nid + n \<le> 50001 \<Longrightarrow> \<forall>x \<in> set (bench_mixed_ops n nid s). valid_call (bench_cfg 60010 60010) x"
proof (induction n arbitrary: nid s)
  case (Suc n)
  let ?c = "bench_cfg 60010 60010"
  obtain roll s1 where r: "rng_below 100 s = (roll, s1)" by fastforce
  obtain p s2 where p: "rng_below 2000 s1 = (p, s2)" by fastforce
  obtain c s3 where c: "rng_below (of_nat (nid - 1)) s1 = (c, s3)" by fastforce
  have "9000 + p \<le> 20000" using p by (rule price_draw) simp_all
  moreover have "of_nat nid \<noteq> (0 :: u32)" "unat (of_nat nid :: u32) \<le> 60010" using bench_id [of nid 60010 60010] Suc.prems by (auto simp: valid_id_def)
  moreover have "1 + c \<noteq> 0 \<and> unat (1 + c) \<le> 60010"
  proof -
    have "unat c \<le> 50000"
    proof (cases "(of_nat (nid - 1) :: u32) = 0")
      case True
      then show ?thesis using c by (simp add: rng_below_def)
    next
      case False
      then show ?thesis using rng_below_bound [OF c] unat_of_nat_32 [of "nid - 1"] Suc.prems by simp
    qed
    then have "unat (1 + c) = 1 + unat c" by (subst unat_add_lem [THEN iffD1]) simp_all
    with \<open>unat c \<le> 50000\<close> show ?thesis by (auto simp: word_unat_eq_iff)
  qed
  moreover have "\<forall>x \<in> set (bench_mixed_ops n (Suc nid) t). valid_call ?c x" "\<forall>x \<in> set (bench_mixed_ops n nid t). valid_call ?c x" for t
    using Suc.IH [of "Suc nid" t] Suc.IH [of nid t] Suc.prems by auto
  ultimately show ?case using r p c by (simp add: Let_def BENCH_MIN_P_def BENCH_MAX_P_def)
qed simp

text \<open>The first draws of the mixed scenario.\<close>

lemma mixed_draws:
  "rng_below 100 MIXED_SEED = (88, 17361376692899151871)"
  "rng_below 100 17361376692899151871 = (58, 14754692911609701315)"
  "rng_below 100 14754692911609701315 = (16, 11935663987015803842)"
  "rng_below 2000 11935663987015803842 = (762, 10041984619034583004)"
  "rng_below 100 10041984619034583004 = (48, 11457103616500919144)"
  "rng_below 2000 11457103616500919144 = (918, 8500487267046910097)"
  "rng_below 100 8500487267046910097 = (79, 14983674783424926164)"
  "rng_below 3 14983674783424926164 = (0, 8153421270086581772)"
  "rng_below 100 8153421270086581772 = (26, 5555367816073278924)"
  "rng_below 2000 5555367816073278924 = (67, 7609998981303523005)"
  "rng_below 100 7609998981303523005 = (78, 8010144613187063589)"
  "rng_below 4 8010144613187063589 = (2, 8878001191946627029)"
  "rng_below 100 8878001191946627029 = (19, 17514712509467030740)"
  "rng_below 2000 17514712509467030740 = (858, 11431000582783165872)"
  "rng_below 100 11431000582783165872 = (78, 1331996820651418996)"
  "rng_below 5 1331996820651418996 = (4, 10290005558943488106)"
  "rng_below 100 10290005558943488106 = (6, 3607256699091114545)"
  "rng_below 2000 3607256699091114545 = (806, 8480907869947948214)"
  "rng_below 100 8480907869947948214 = (68, 13722393343719800807)"
  by (simp_all add: rng_below_def rng_next_def rng_step_def MIXED_SEED_def Let_def)

definition mixed_first :: "Request list" where
  "mixed_first =
    [CancelId 1, Add 1 Limit 11000 25 Buy, Add 2 Limit 9762 10 Sell, Add 3 Limit 9918 10 Sell, CancelId 1,
     Add 4 Limit 9067 10 Sell, CancelId 3, Add 5 Limit 9858 10 Sell, CancelId 5,
     Add 6 Limit 9806 10 Sell, Add 7 Limit 11000 25 Buy]"

lemma mixed_head: "bench_mixed_ops 50000 1 MIXED_SEED = mixed_first @ bench_mixed_ops 49989 8 13722393343719800807"
proof -
  have "bench_mixed_ops (Suc (Suc (Suc (Suc (Suc (Suc (Suc (Suc (Suc (Suc (Suc m))))))))))) 1 MIXED_SEED =
      mixed_first @ bench_mixed_ops m 8 13722393343719800807" for m
    by (simp add: mixed_draws Let_def rng_below_def [of 0] mixed_first_def) (simp add: eval_nat_numeral)
  from this [of 49989] show ?thesis by simp
qed

text \<open>
  The mixed scenario: bids rest at 11000 only, above every sell, so an order crosses whatever
  rests on the other side, and only one side rests at a time.
\<close>

abbreviation mixed_call :: "Request \<Rightarrow> bool" where
  "mixed_call x \<equiv> (\<exists>i. x = CancelId i) \<or> (\<exists>i px. x = Add i Limit px 10 Sell \<and> px < 11000) \<or> (\<exists>i. x = Add i Limit 11000 25 Buy)"

definition mixed_book :: "SpecBook \<Rightarrow> bool" where
  "mixed_book B \<longleftrightarrow> (\<forall>r \<in> set (spec_bids B). rprice r = 11000) \<and> (\<forall>r \<in> set (spec_asks B). rprice r < 11000) \<and>
     (spec_bids B = [] \<or> spec_asks B = [])"

text \<open>What a call of the scenario answers, from the orders resting when it is made.\<close>

fun mixed_outcome :: "SpecBook \<Rightarrow> Request \<Rightarrow> Outcome \<Rightarrow> bool" where
  "mixed_outcome B (Add i ty px q s) r \<longleftrightarrow> (\<exists>a. r = Added a \<and> res_reason a = Accepted \<and>
     unat (res_filled a) = min (unat q) (side_qty (opposite s) B))"
| "mixed_outcome B (CancelId i) r \<longleftrightarrow> r = Cancelled (if i \<in> set (book_ids B) then Accepted else CancelFailed)"

lemma mixed_crosses:
  assumes "mixed_book B" "s = Buy \<and> px = 11000 \<or> s = Sell \<and> px < 11000" "r \<in> set (resting (opposite s) B)"
  shows "crosses s px (rprice r)"
  using assms by (cases s) (auto simp: mixed_book_def crosses_def)

lemma mixed_add:
  assumes "mixed_book B" "s = Buy \<and> px = 11000 \<or> s = Sell \<and> px < 11000" "spec_add cfg i Limit px q s B = (a, B')"
    "res_reason a = Accepted"
  shows "unat (res_filled a) = min (unat q) (side_qty (opposite s) B) \<and> mixed_book B'"
proof -
  have nc: "Limit \<noteq> Cancel" by simp
  show ?thesis using assms(3) nc
  proof (cases rule: add_cases)
    case (rejected r)
    then show ?thesis using check_not_accepted [OF rejected(1)] assms(4) by (simp add: mk_result_def)
  next
    case (submitted ts q' B1)
    obtain rs where f: "spec_fill (crosses s px) i q (resting (opposite s) B) = (ts, q', rs)" "B1 = set_resting (opposite s) rs B"
      using spec_match_fill [OF submitted(2)] by (auto simp: limit_of_def)
    have cr: "\<forall>r \<in> set (resting (opposite s) B). crosses s px (rprice r)" using mixed_crosses [OF assms(1,2)] by blast
    note fa = fill_crossing_all [OF f(1) cr]
    have pr: "\<exists>r' \<in> set (resting (opposite s) B). rprice r' = rprice r" if "r \<in> set rs" for r using spec_fill_pairs [OF f(1) that] by auto
    have one: "resting (opposite s) B = [] \<or> resting s B = []" using assms(1) by (cases s) (auto simp: mixed_book_def)
    have empty: "rs = []" if "resting (opposite s) B = []" using pr that by (cases rs) auto
    have B1: "mixed_book B1"
      using assms(1) pr empty f(2) by (cases s) (fastforce simp: mixed_book_def)+
    have "mixed_book B'"
    proof (cases "q' = 0")
      case True
      then show ?thesis using submitted(5) B1 by simp
    next
      case False
      then have "B' = set_resting s (spec_insert s \<lparr>rid = i, rprice = px, rqty = q'\<rparr> (resting s B1)) B1"
        using submitted(6) assms(4) by (auto simp: spec_rest_def split: if_splits)
      moreover have "resting (opposite s) B1 = []" using fa(2) [OF False] f(2) by simp
      ultimately show ?thesis using B1 assms(2) by (cases s) (auto simp: mixed_book_def)
    qed
    then show ?thesis using fa(1) submitted(3) by (simp add: side_qty_def)
  qed
qed

lemma mixed_step:
  assumes "spec_step cfg x B = (r, B')" "mixed_call x" "valid_call cfg x" "mixed_book B"
    "entered x \<noteq> [] \<longrightarrow> outcome_reason r = Accepted"
  shows "mixed_outcome B x r \<and> mixed_book B'"
proof (cases x)
  case (Add i ty px q s)
  then have ty: "ty = Limit" "s = Buy \<and> px = 11000 \<or> s = Sell \<and> px < 11000" using assms(2) by auto
  then obtain a where a: "spec_add cfg i Limit px q s B = (a, B')" "r = Added a" using assms(1) Add by (auto split: prod.splits)
  then have "res_reason a = Accepted" using assms(5) Add ty(1) by simp
  with mixed_add [OF assms(4) ty(2) a(1)] a(2) Add show ?thesis by simp
next
  case (CancelId i)
  then obtain c where c: "spec_cancel cfg i B = (c, B')" "r = Cancelled c" using assms(1) by (auto split: prod.splits)
  have "mixed_book (spec_remove i B)" using assms(4) by (auto simp: mixed_book_def spec_remove_def)
  with c assms(3,4) CancelId show ?thesis by (auto simp: spec_cancel_def split: if_splits)
qed

lemma mixed_run:
  assumes "spec_run cfg xs B = (rs, B')" "\<forall>x \<in> set xs. mixed_call x \<and> valid_call cfg x" "mixed_book B"
    "\<forall>k < length xs. entered (xs ! k) \<noteq> [] \<longrightarrow> outcome_reason (rs ! k) = Accepted" "k < length xs"
  shows "\<exists>A. spec_run cfg (take k xs) B = (take k rs, A) \<and> mixed_outcome A (xs ! k) (rs ! k)"
  using assms
proof (induction xs arbitrary: B rs k)
  case (Cons x xs)
  obtain r B1 rs1 where 1: "spec_step cfg x B = (r, B1)" "spec_run cfg xs B1 = (rs1, B')" "rs = r # rs1"
    using Cons.prems(1) by (auto split: prod.splits)
  have r: "entered x \<noteq> [] \<longrightarrow> outcome_reason r = Accepted" using Cons.prems(4) 1(3) by fastforce
  have rs1: "\<forall>k < length xs. entered (xs ! k) \<noteq> [] \<longrightarrow> outcome_reason (rs1 ! k) = Accepted" using Cons.prems(4) 1(3) by fastforce
  have m: "mixed_outcome B x r \<and> mixed_book B1" using mixed_step [OF 1(1)] Cons.prems(2,3) r by simp
  show ?case
  proof (cases k)
    case 0
    then show ?thesis using m 1(3) by simp
  next
    case (Suc j)
    then obtain A where "spec_run cfg (take j xs) B1 = (take j rs1, A)" "mixed_outcome A (xs ! j) (rs1 ! j)"
      using Cons.IH [OF 1(2) _ _ rs1, of j] Cons.prems(2,5) m by auto
    then show ?thesis using Suc 1 by simp
  qed
qed simp

text \<open>
  The outcomes of the first calls: the first aggressive order finds an empty book and rests, the
  two sells after it trade with it, and the second one takes two makers and rests the remainder.
\<close>

definition mixed_first_outcomes :: "Outcome list" where
  "mixed_first_outcomes =
    [Cancelled CancelFailed, Added (mk_result Accepted 0 []), Added (mk_result Accepted 10 [\<lparr>maker_id = 1, taker_id = 2, trade_price = 11000, trade_quantity = 10\<rparr>]),
     Added (mk_result Accepted 10 [\<lparr>maker_id = 1, taker_id = 3, trade_price = 11000, trade_quantity = 10\<rparr>]), Cancelled Accepted,
     Added (mk_result Accepted 0 []), Cancelled CancelFailed, Added (mk_result Accepted 0 []), Cancelled Accepted, Added (mk_result Accepted 0 []),
     Added (mk_result Accepted 20 [\<lparr>maker_id = 4, taker_id = 7, trade_price = 9067, trade_quantity = 10\<rparr>, \<lparr>maker_id = 6, taker_id = 7, trade_price = 9806, trade_quantity = 10\<rparr>])]"

lemma mixed_first_spec: "fst (spec_run (bench_cfg 60010 60010) mixed_first spec_empty) = mixed_first_outcomes"
  by (simp add: mixed_first_def mixed_first_outcomes_def spec_eval BENCH_MIN_P_def BENCH_MAX_P_def)

abbreviation bench_mixed_book :: "Env \<Rightarrow> OrderBook option" where
  "bench_mixed_book E \<equiv> OrderBook_new E 60010 60010 BENCH_MIN_P BENCH_MAX_P"

lemma bench_mixed_kinds: "x \<in> set (bench_mixed_ops n nid s) \<Longrightarrow> mixed_call x"
proof (induction n arbitrary: nid s)
  case (Suc n)
  obtain roll s1 where r: "rng_below 100 s = (roll, s1)" by fastforce
  obtain p s2 where p: "rng_below 2000 s1 = (p, s2)" by fastforce
  have "unat p < 2000" using rng_below_bound [OF p] by simp
  then have "unat (9000 + p) = 9000 + unat p" by (subst unat_add_lem [THEN iffD1]) simp_all
  with \<open>unat p < 2000\<close> have "9000 + p < 11000" by (simp add: word_less_nat_alt)
  with Suc r p show ?case by (auto simp: Let_def split: prod.splits if_splits)
qed simp

lemma bench_mixed_result:
  "\<exists>rs b. bench_mixed_scenario E = Some (rs, b) \<and> length rs = 50000 \<and>
    (\<forall>k < 50000. \<exists>bk. session E (bench_mixed_book E) (take k (bench_mixed_ops 50000 1 MIXED_SEED)) = Some (take k rs, bk) \<and>
       mixed_outcome (book_abs bk) (bench_mixed_ops 50000 1 MIXED_SEED ! k) (rs ! k)) \<and>
    take 11 (bench_mixed_ops 50000 1 MIXED_SEED) = mixed_first \<and> take 11 rs = mixed_first_outcomes"
proof -
  let ?c = "bench_cfg 60010 60010" and ?xs = "bench_mixed_ops 50000 1 MIXED_SEED"
  obtain m where m: "m \<le> 50000" "concat (map entered ?xs) = map of_nat [1..<1 + m]" using bench_mixed_ids by blast
  obtain rs B where rs: "spec_run ?c ?xs spec_empty = (rs, B)" by fastforce
  have call: "\<forall>x \<in> set ?xs. valid_call ?c x" by (rule bench_mixed_calls) simp_all
  have d: "distinct (concat (map entered ?xs))" unfolding m(2) using m(1) by (intro distinct_ids) simp
  have cap: "book_size spec_empty + length (concat (map entered ?xs)) \<le> cfg_capacity ?c"
    unfolding m(2) using m(1) by (simp add: book_size_def spec_empty_def del: upt_Suc)
  have fr: "set (book_ids spec_empty) \<inter> set (concat (map entered ?xs)) = {}" by (simp add: book_ids_def spec_empty_def)
  have len: "length (bench_mixed_ops n nid s) = n" for n nid s by (induction n arbitrary: nid s) (simp_all add: Let_def case_prod_beta)
  have acc: "\<forall>k < length ?xs. entered (?xs ! k) \<noteq> [] \<longrightarrow> outcome_reason (rs ! k) = Accepted"
    using fresh_session_reasons [OF rs call d fr cap] by metis
  have small: "60010 \<le> (2000000 :: nat)" by simp
  have mb: "mixed_book spec_empty" by (simp add: mixed_book_def spec_empty_def)
  have mc: "\<forall>x \<in> set ?xs. mixed_call x \<and> valid_call ?c x" using bench_mixed_kinds call by blast
  have step: "\<exists>bk. session E (bench_mixed_book E) (take k ?xs) = Some (take k rs, bk) \<and> mixed_outcome (book_abs bk) (?xs ! k) (rs ! k)"
    if "k < 50000" for k
  proof -
    have "k < length ?xs" using that by (simp only: len)
    then obtain A where A: "spec_run ?c (take k ?xs) spec_empty = (take k rs, A)" "mixed_outcome A (?xs ! k) (rs ! k)"
      using mixed_run [OF rs mc mb acc] by blast
    from bench_session [OF A(1) small small, of E] A(2) show ?thesis by blast
  qed
  obtain b where b: "bench_mixed_scenario E = Some (rs, b)"
    using bench_session [OF rs small small, of E] unfolding bench_mixed_scenario_def by blast
  have l11: "length mixed_first = 11" by (simp add: mixed_first_def)
  have x11: "take 11 ?xs = mixed_first" unfolding mixed_head using l11 by simp
  have "take 11 rs = mixed_first_outcomes"
  proof -
    have "rs = fst (spec_run ?c (mixed_first @ bench_mixed_ops 49989 8 13722393343719800807) spec_empty)" using rs unfolding mixed_head by simp
    then have "rs = mixed_first_outcomes @ fst (spec_run ?c (bench_mixed_ops 49989 8 13722393343719800807) (snd (spec_run ?c mixed_first spec_empty)))"
      by (simp add: spec_run_append Let_def case_prod_beta mixed_first_spec)
    moreover have "length mixed_first_outcomes = 11" by (simp add: mixed_first_outcomes_def)
    ultimately show ?thesis by simp
  qed
  moreover have "length rs = 50000" using spec_run_length [OF rs] by (simp only: len)
  ultimately show ?thesis using b step x11 by blast
qed

section \<open>Properties\<close>

text \<open>
  The insertion scenario overruns its own book. The book admits ids up to 200010 while the
  measured loop runs to 210000: the last 9990 calls, about five percent of the samples reported as
  passive inserts, are refusals of an id out of range.
\<close>

theorem insert_scenario_overruns:
  "\<exists>b. insert_scenario E = Some (replicate 200010 (Added (mk_result Accepted 0 [])) @
      replicate 9990 (Added (mk_result OutOfBoundsOrderId 0 [])), b) \<and> unat (active_order_count b) = 200010"
  by (rule insert_result)

text \<open>
  C35: the outcomes of the other scenarios, in every build flavor. Every aggressive order of the
  match scenario is filled by one maker; every sweep is filled by ten trades and leaves the book
  empty; every cancellation of the cancel scenario is accepted. In churn, whatever the generator draws
  and whichever argument is evaluated first, every order entered is accepted and either rests whole
  or is filled whole by one maker, and a cancellation is accepted exactly when its order still
  rests after the fills, so the orders left are those of the fills, less the pairs that traded, less
  the cancellations accepted, plus the adds that rest. In the mixed scenario every order is accepted and filled by as much
  as rests on the other side at that moment (25 lots for an aggressive order, 10 for a sell, when there is
  that much), and a cancellation is accepted exactly when its order rests; the first eleven calls
  and their outcomes, with trades of both kinds of order, are spelled out.
\<close>

theorem latency_scenarios:
  "(\<exists>us b. match_scenario E = Some (replicate 100000 (Added (mk_result Accepted 0 [])) @ us, b) \<and> length us = 100000 \<and>
      (\<forall>r \<in> set us. \<exists>tr. r = Added (mk_result Accepted 10 [tr])) \<and> active_order_count b = 0) \<and>
   (\<exists>tss b. sweep_scenario E =
      Some (concat (map (\<lambda>ts. replicate 10 (Added (mk_result Accepted 0 [])) @ [Added (mk_result Accepted 50 ts)]) tss), b) \<and>
      length tss = 2000 \<and> (\<forall>ts \<in> set tss. length ts = 10) \<and> active_order_count b = 0) \<and>
   (\<exists>b. cancel_scenario E = Some (replicate 200000 (Added (mk_result Accepted 0 [])) @ replicate 200000 (Cancelled Accepted), b) \<and>
      active_order_count b = 0) \<and>
   churn_outcome E pf \<and>
   (\<exists>rs b. bench_mixed_scenario E = Some (rs, b) \<and> length rs = 50000 \<and>
      (\<forall>k < 50000. \<exists>bk. session E (bench_mixed_book E) (take k (bench_mixed_ops 50000 1 MIXED_SEED)) = Some (take k rs, bk) \<and>
         mixed_outcome (book_abs bk) (bench_mixed_ops 50000 1 MIXED_SEED ! k) (rs ! k)) \<and>
      take 11 (bench_mixed_ops 50000 1 MIXED_SEED) = mixed_first \<and> take 11 rs = mixed_first_outcomes)"
  by (intro conjI match_result sweep_result cancel_result churn_result bench_mixed_result)

theorem latency_scenarios_witness:
  "\<exists>rs b. bench_mixed_scenario E_release = Some (rs, b) \<and> rs ! 4 = Cancelled Accepted \<and>
    (\<exists>bk. session E_release (bench_mixed_book E_release) (take 4 (bench_mixed_ops 50000 1 MIXED_SEED)) = Some (take 4 rs, bk))"
proof -
  obtain rs b where r: "bench_mixed_scenario E_release = Some (rs, b)"
    "\<forall>k < 50000. \<exists>bk. session E_release (bench_mixed_book E_release) (take k (bench_mixed_ops 50000 1 MIXED_SEED)) = Some (take k rs, bk)"
    "take 11 rs = mixed_first_outcomes"
    using latency_scenarios [of E_release True] by blast
  have "rs ! 4 = take 11 rs ! 4" by simp
  then have "rs ! 4 = Cancelled Accepted" using r(3) by (simp add: mixed_first_outcomes_def)
  moreover have "4 < (50000 :: nat)" by simp
  ultimately show ?thesis using r(1,2) by blast
qed

end
