(* ===== verification/Differential_Test.thy ===== *)
theory Differential_Test
  imports Fuzz_Driver Book_Audit Latency_Bench
begin

text \<open>
  The randomized differential test \<open>src/tests/test_differential_fuzz.cpp\<close>: a pseudo-random
  stream of requests on the engine and on the reference book, with every assertion the test
  makes, and the final drain. No assertion can fail, for any seed and any geometry the engine
  accepts, the seven of the test among them.
\<close>

section \<open>The operation stream\<close>

text \<open>\<open>FuzzRng\<close>: the generator of the latency harness, seeded with an odd number; no guard against a bound of 0.\<close>

definition fuzz_seed :: "u64 \<Rightarrow> u64" where
  "fuzz_seed seed = seed OR 1"

definition fuzz_below :: "u32 \<Rightarrow> u64 \<Rightarrow> (u32 \<times> u64) option" where
  "fuzz_below m s = (let (x, s) = rng_next s in if m = 0 then None else Some (x mod m, s))"

text \<open>The request \<open>run_op\<close> draws.\<close>

definition diff_op :: "Price \<Rightarrow> Price \<Rightarrow> u32 \<Rightarrow> u64 \<Rightarrow> (Request \<times> u64) option" where
  "diff_op min_p max_p id_span s = do {
     (roll, s) \<leftarrow> fuzz_below 100 s;
     (x, s) \<leftarrow> fuzz_below id_span s;
     let id = 1 + x;
     if roll < 10 then Some (CancelId id, s)
     else if roll < 15 then Some (Add id Cancel 0 0 Buy, s)
     else do {
       (d, s) \<leftarrow> fuzz_below 2 s;
       let side = (if d = 0 then Buy else Sell);
       (y, s) \<leftarrow> fuzz_below 40 s;
       let qty = 1 + y;
       (z, s) \<leftarrow> fuzz_below (max_p - min_p + 1) s;
       let price = min_p + z;
       let type = (if roll < 80 then Limit else Market);
       Some (if type = Market then Add id Market 0 qty side else Add id Limit price qty side, s)
     }
   }"

text \<open>
  \<open>OpResult\<close> and \<open>TradeLog\<close>: the code, the filled quantity and the trades of one book. The test asks for the
  filled quantity of limit and market orders only.
\<close>

type_synonym OpResult = "RejectReason \<times> Quantity \<times> Trade list"

definition op_result :: "Request \<Rightarrow> Outcome \<Rightarrow> OpResult" where
  "op_result x y = (let (reason, filled, trades) = outcome_parts y in
     (reason, case x of Add i ty px q s \<Rightarrow> if ty = Cancel then 0 else filled | CancelId i \<Rightarrow> 0, trades))"

definition run_op :: "Env \<Rightarrow> Price \<Rightarrow> Price \<Rightarrow> u32 \<Rightarrow> OrderBook \<Rightarrow> StdOrderBook \<Rightarrow> u64
    \<Rightarrow> (OpResult \<times> OpResult \<times> OrderBook \<times> StdOrderBook \<times> u64) option" where
  "run_op E min_p max_p id_span engine ref s = do {
     (x, s) \<leftarrow> diff_op min_p max_p id_span s;
     (e, engine) \<leftarrow> engine_step E x engine;
     (r, ref) \<leftarrow> std_step x ref;
     Some (op_result x e, op_result x r, engine, ref, s)
   }"

section \<open>The assertions\<close>

text \<open>A failed expectation: its text and the number of the operation.\<close>

type_synonym Failure = "string \<times> nat"

definition expect_eq :: "'a \<Rightarrow> 'a \<Rightarrow> string \<Rightarrow> nat \<Rightarrow> Failure list" where
  "expect_eq a b what op = (if a = b then [] else [(what, op)])"

definition compare_trades :: "Trade list \<Rightarrow> Trade list \<Rightarrow> nat \<Rightarrow> Failure list" where
  "compare_trades et rt op =
     (if length et \<noteq> length rt then [(''trade count diverged'', op)]
      else concat (map (\<lambda>(t, u).
        expect_eq (maker_id t) (maker_id u) ''maker diverged'' op @ expect_eq (taker_id t) (taker_id u) ''taker diverged'' op @
        expect_eq (trade_price t) (trade_price u) ''price diverged'' op @
        expect_eq (trade_quantity t) (trade_quantity u) ''quantity diverged'' op) (zip et rt)))"

text \<open>
  The loop, with \<open>n\<close> operations left. An \<open>EXPECT\<close> that fails is recorded; an \<open>ASSERT\<close> that fails ends
  the run, so that no books are left for the drain. (The one in \<open>compare_trades\<close> ends only that.)
\<close>

fun diff_loop :: "Env \<Rightarrow> Price \<Rightarrow> Price \<Rightarrow> u32 \<Rightarrow> nat \<Rightarrow> nat \<Rightarrow> OrderBook \<Rightarrow> StdOrderBook \<Rightarrow> u64 \<Rightarrow> Failure list
    \<Rightarrow> (Failure list \<times> (OrderBook \<times> StdOrderBook) option) option" where
  "diff_loop E lo hi ids 0 op engine ref s fs = Some (fs, Some (engine, ref))"
| "diff_loop E lo hi ids (Suc n) op engine ref s fs = do {
     ((er, ef, et), (rr, rf, rt), engine, ref, s) \<leftarrow> run_op E lo hi ids engine ref s;
     if reason_u8 er \<noteq> reason_u8 rr then Some (fs @ [(''reject code diverged'', op)], None)
     else if ef \<noteq> rf then Some (fs @ [(''filled qty diverged'', op)], None)
     else do {
       let fs = fs @ compare_trades et rt op;
       if (of_nat op :: u32) AND 63 = 0 \<and> active_order_count engine \<noteq> std_active_order_count ref
       then Some (fs @ [(''resting count diverged'', op)], None)
       else do {
         ok \<leftarrow> (if hft_debug_tools E \<and> (of_nat op :: u32) AND 127 = 0 then validate_book E engine else Some True);
         if \<not> ok then Some (fs @ [(''validate_book failed'', op)], None)
         else diff_loop E lo hi ids n (Suc op) engine ref s fs
       }
     }
   }"

text \<open>The drain: one market order per side, for more than can be resting.\<close>

fun drain_sides :: "Env \<Rightarrow> (Side \<times> nat) list \<Rightarrow> OrderBook \<Rightarrow> StdOrderBook \<Rightarrow> OrderId \<Rightarrow> Failure list
    \<Rightarrow> (Failure list \<times> (OrderBook \<times> StdOrderBook) option) option" where
  "drain_sides E [] engine ref next_id fs = Some (fs, Some (engine, ref))"
| "drain_sides E ((side, side_i) # sides) engine ref next_id fs = do {
     (e, engine) \<leftarrow> engine_step E (Add next_id Market 0 100000000 side) engine;
     (r, ref) \<leftarrow> std_step (Add next_id Market 0 100000000 side) ref;
     let (er, ef, et) = outcome_parts e;
     let (rr, rf, rt) = outcome_parts r;
     if er \<noteq> rr then Some (fs @ [(''final-drain reject diverged'', side_i)], None)
     else drain_sides E sides engine ref (next_id + 1)
       (fs @ (if er = MarketOnEmptyBook then expect_eq et [] ''trades on an empty book'' side_i
              else compare_trades et rt (1000000 + side_i)))
   }"

definition reconcile_final_state :: "Env \<Rightarrow> OrderBook \<Rightarrow> StdOrderBook \<Rightarrow> OrderId \<Rightarrow> Failure list \<Rightarrow> Failure list option" where
  "reconcile_final_state E engine ref next_id fs = do {
     (fs, books) \<leftarrow> drain_sides E [(Buy, 0), (Sell, 1)] engine ref next_id fs;
     case books of
       None \<Rightarrow> Some fs
     | Some (engine, ref) \<Rightarrow> Some (fs @ expect_eq (active_order_count engine) 0 ''engine drain incomplete'' 0 @
         expect_eq (std_active_order_count ref) 0 ''reference drain incomplete'' 0)
   }"

text \<open>The failures of a run; \<open>None\<close> when a call does not return.\<close>

definition run_differential :: "Env \<Rightarrow> u64 \<Rightarrow> Price \<Rightarrow> Price \<Rightarrow> u32 \<Rightarrow> nat \<Rightarrow> nat \<Rightarrow> Failure list option" where
  "run_differential E seed min_p max_p id_span pool_cap ops = do {
     engine \<leftarrow> OrderBook_new E (unat (id_span + 8)) pool_cap min_p max_p;
     let ref = StdOrderBook_new (unat (id_span + 8)) pool_cap min_p max_p;
     (fs, books) \<leftarrow> diff_loop E min_p max_p id_span ops 0 engine ref (fuzz_seed seed) [];
     case books of
       None \<Rightarrow> Some fs
     | Some (engine, ref) \<Rightarrow> reconcile_final_state E engine ref (id_span + 1) fs
   }"

definition FUZZ_OPS :: nat where "FUZZ_OPS = 3000"

text \<open>The seven tests: how many seeds, their factor, and the geometry.\<close>

definition differential_tests :: "(string \<times> nat \<times> u64 \<times> Price \<times> Price \<times> u32 \<times> nat) list" where
  "differential_tests =
    [(''BaselineMinPriceZero'', 4, 7919, 0, 2000, 500, 600),
     (''NonzeroMinPrice'', 4, 104729, 1000, 12000, 500, 600),
     (''WordBoundaryStraddle'', 4, 15485863, 63, 400, 200, 300),
     (''WideRangeSummaryBitset'', 2, 32452843, 0, 20000, 600, 800),
     (''WideRangeNonzeroMin'', 2, 49979687, 7000, 40000, 600, 800),
     (''TightPoolExhaustion'', 4, 67867967, 0, 300, 500, 60),
     (''CancelHeavyTraffic'', 4, 86028121, 0, 2000, 120, 200)]"

definition differential_suite :: "Env \<Rightarrow> Failure list option list" where
  "differential_suite E = concat (map (\<lambda>(name, seeds, factor, lo, hi, ids, cap).
     map (\<lambda>seed. run_differential E (of_nat seed * factor) lo hi ids cap FUZZ_OPS) [1..<Suc seeds]) differential_tests)"

section \<open>What the stream keeps small\<close>

text \<open>Ids up to \<open>ids\<close> and quantities up to 40: what the requests have, and so what rests.\<close>

definition small_book :: "nat \<Rightarrow> SpecBook \<Rightarrow> bool" where
  "small_book ids B \<longleftrightarrow> (\<forall>r \<in> set (spec_bids B @ spec_asks B). unat (rid r) \<le> ids \<and> unat (rqty r) \<le> 40)"

fun small_request :: "nat \<Rightarrow> Request \<Rightarrow> bool" where
  "small_request ids (Add i ty px q s) \<longleftrightarrow> i \<noteq> 0 \<and> unat i \<le> ids \<and> unat q \<le> 40"
| "small_request ids (CancelId i) \<longleftrightarrow> i \<noteq> 0 \<and> unat i \<le> ids"

lemma small_side: "small_book n B \<longleftrightarrow> (\<forall>s. \<forall>r \<in> set (resting s B). unat (rid r) \<le> n \<and> unat (rqty r) \<le> 40)"
  unfolding all_sides [of _ Buy] small_book_def by auto

lemma fuzz_below_some:
  assumes "m \<noteq> 0"
  obtains x s' where "fuzz_below m s = Some (x, s')" "unat x < unat m"
proof -
  obtain y s' where r: "rng_next s = (y, s')" by fastforce
  have "unat (y mod m) < unat m" using assms by (simp add: unat_mod unat_gt_0)
  then show thesis using that [of "y mod m" s'] assms by (simp add: fuzz_below_def r)
qed

lemma plus_one: "unat (x :: u32) < n \<Longrightarrow> n < 2 ^ 32 \<Longrightarrow> 1 + x \<noteq> 0 \<and> unat (1 + x) \<le> n"
proof -
  assume "unat x < n" "n < 2 ^ 32"
  then have "unat (1 + x) = Suc (unat x)" by (simp add: unat_plus_if')
  with \<open>unat x < n\<close> show ?thesis by (metis Suc_leI nat.distinct(1) unat_0)
qed

lemma diff_op_small:
  assumes "ids \<noteq> 0" "lo \<le> hi" "hi \<noteq> UINT32_MAX"
  obtains x s' where "diff_op lo hi ids s = Some (x, s')" "small_request (unat ids) x"
proof -
  have w: "hi - lo + 1 \<noteq> 0"
  proof
    assume "hi - lo + 1 = 0"
    then have "hi - lo = - 1" by (simp add: eq_neg_iff_add_eq_0)
    then have "unat hi - unat lo = 2 ^ 32 - 1" using assms(2) by (simp add: unat_sub [symmetric] word_le_nat_alt unsigned_minus_1_eq_mask mask_eq_exp_minus_1)
    then show False using unat_max_less [of hi] assms(3) by (simp add: UINT32_MAX_def word_unat_eq_iff)
  qed
  obtain roll s1 where 1: "fuzz_below 100 s = Some (roll, s1)" by (rule fuzz_below_some [of 100 s]) simp
  obtain i s2 where 2: "fuzz_below ids s1 = Some (i, s2)" "unat i < unat ids" by (rule fuzz_below_some [OF assms(1)])
  obtain d s3 where 3: "fuzz_below 2 s2 = Some (d, s3)" by (rule fuzz_below_some [of 2 s2]) simp
  obtain y s4 where 4: "fuzz_below 40 s3 = Some (y, s4)" "unat y < 40" by (rule fuzz_below_some [of 40 s3]) simp_all
  obtain z s5 where 5: "fuzz_below (hi - lo + 1) s4 = Some (z, s5)" by (rule fuzz_below_some [OF w])
  have "1 + i \<noteq> 0 \<and> unat (1 + i) \<le> unat ids" by (rule plus_one [OF 2(2)]) (rule unat_max_less)
  moreover have "unat (1 + y) \<le> 40" using plus_one [OF 4(2)] by simp
  ultimately show thesis
    using that 1 2(1) 3 4(1) 5 by (cases "roll < 10"; cases "roll < 15") (simp_all add: diff_op_def Let_def split: if_splits)
qed

section \<open>The books stay small\<close>

lemma spec_fill_shrinks:
  "spec_fill c t q rs = (ts, q', rs') \<Longrightarrow> r' \<in> set rs' \<Longrightarrow> \<exists>r \<in> set rs. rid r = rid r' \<and> unat (rqty r') \<le> unat (rqty r)"
proof (induction rs arbitrary: q ts)
  case (Cons r rs)
  show ?case
  proof (cases "q \<noteq> 0 \<and> c (rprice r) \<and> rqty r \<le> q")
    case True
    then obtain ts' where "spec_fill c t (q - rqty r) rs = (ts', q', rs')" using Cons.prems by (auto split: prod.splits)
    with Cons show ?thesis by auto
  next
    case False
    then show ?thesis using Cons.prems by (auto simp: unat_sub word_le_nat_alt not_le split: if_splits)
  qed
qed simp

lemma small_match:
  assumes "spec_match i px q s B = (ts, q', B')" "small_book n B"
  shows "small_book n B'"
proof -
  obtain rs where f: "spec_fill (crosses s px) i q (resting (opposite s) B) = (ts, q', rs)" "B' = set_resting (opposite s) rs B"
    using assms(1) by (rule spec_match_fill)
  have "unat (rid r) \<le> n \<and> unat (rqty r) \<le> 40" if "r \<in> set rs" for r
    using spec_fill_shrinks [OF f(1) that] assms(2) by (fastforce simp: small_side)
  then show ?thesis using assms(2) by (simp add: small_side f(2))
qed

lemma small_cancel: "spec_cancel cfg i B = (r, B') \<Longrightarrow> small_book n B \<Longrightarrow> small_book n B'"
  by (auto simp: spec_cancel_def spec_remove_def small_book_def split: if_splits)

lemma small_rest:
  "spec_rest cfg i px q s B = (r, B') \<Longrightarrow> small_book n B \<Longrightarrow> unat i \<le> n \<Longrightarrow> unat q \<le> 40 \<Longrightarrow> small_book n B'"
  by (auto simp: spec_rest_def small_side split: if_splits)

lemma small_step:
  assumes "spec_step cfg x B = (y, B')" "small_book n B" "small_request n x"
  shows "small_book n B'"
proof (cases x)
  case (CancelId i)
  then show ?thesis using assms small_cancel by (auto split: prod.splits)
next
  case (Add i ty px q s)
  obtain res where a: "spec_add cfg i ty px q s B = (res, B')" using assms(1) Add by (auto split: prod.splits)
  show ?thesis
  proof (cases "ty = Cancel")
    case True
    then show ?thesis using add_cancel_type a small_cancel assms(2) by blast
  next
    case False
    from a False show ?thesis
    proof (cases rule: add_cases)
      case (submitted ts q' B1)
      have 1: "small_book n B1" by (rule small_match [OF submitted(2) assms(2)])
      have "q' \<le> q" by (rule match_qty(4) [OF submitted(2)])
      then have "unat q' \<le> 40" using assms(3) Add by (simp add: word_le_nat_alt)
      then show ?thesis using 1 submitted(5) small_rest [OF submitted(6) 1] False assms(3) Add by (cases ty) auto
    qed (use assms(2) in simp)
  qed
qed

section \<open>The drain empties the books\<close>

lemma side_qty_bound:
  assumes "spec_inv cfg B" "small_book n B"
  shows "side_qty s B \<le> 40 * min (cfg_capacity cfg) n"
proof -
  have "(\<Sum>r\<leftarrow>rs. unat (rqty r)) \<le> 40 * length rs" if "\<forall>r \<in> set rs. unat (rqty r) \<le> 40" for rs
    using that by (induction rs) auto
  then have "side_qty s B \<le> 40 * length (resting s B)" using assms(2) unfolding side_qty_def small_side by blast
  moreover have "length (resting s B) \<le> cfg_capacity cfg" using assms(1) by (cases s) (auto simp: spec_inv_def book_size_def)
  moreover have "length (resting s B) \<le> n"
  proof -
    have d: "distinct (map rid (resting s B))" and nz: "\<forall>r \<in> set (resting s B). rid r \<noteq> 0"
      using assms(1) by (auto simp: spec_inv_side list_all_iff order_ok_def)
    have "(unat \<circ> rid) ` set (resting s B) \<subseteq> {1..n}"
      using assms(2) nz unfolding small_side by (auto simp: Suc_le_eq unat_gt_0)
    then have "card (set (map (unat \<circ> rid) (resting s B))) \<le> n" using card_mono [of "{1..n}"] by fastforce
    moreover have "distinct (map (unat \<circ> rid) (resting s B))" using d by (auto simp: distinct_map inj_on_def word_unat_eq_iff)
    ultimately show ?thesis by (metis distinct_card length_map)
  qed
  ultimately show ?thesis by simp
qed

lemma drain_step:
  assumes inv: "spec_inv cfg B" and sm: "small_book n B" and cap: "40 * min (cfg_capacity cfg) n < 100000000"
    and i: "n < unat i" "unat i \<le> cfg_max_id cfg" and st: "spec_step cfg (Add i Market 0 100000000 s) B = (y, B')"
  shows "resting (opposite s) B' = []" "resting s B' = resting s B"
proof -
  have ids: "i \<notin> set (book_ids B)" using sm i(1) by (force simp: small_book_def book_ids_def)
  obtain res where a: "spec_add cfg i Market 0 100000000 s B = (res, B')" using st by (auto split: prod.splits)
  have "resting (opposite s) B' = [] \<and> resting s B' = resting s B"
    using a OrderType.distinct(5)
  proof (cases rule: add_cases)
    case (rejected r)
    then show ?thesis using ids i by (auto simp: spec_check_def split: if_splits)
  next
    case (submitted ts q' B1)
    have B1: "B' = B1" using submitted(5) by simp
    note q = match_qty [OF submitted(2)]
    have "unat (100000000 - q') \<le> side_qty (opposite s) B" using q(1,3) by simp
    moreover have "side_qty (opposite s) B < 100000000" using side_qty_bound [OF inv sm] cap by (meson le_less_trans)
    ultimately have "q' \<noteq> 0" by (auto simp: not_le)
    then show ?thesis
      using spec_match_left [OF inv submitted(2)] market_crosses spec_match_taker_side [OF submitted(2)] B1 by auto
  qed
  then show "resting (opposite s) B' = []" "resting s B' = resting s B" by simp_all
qed

section \<open>No assertion fails\<close>

lemma compare_trades_same [simp]: "compare_trades ts ts op = []"
  by (auto simp: compare_trades_def expect_eq_def in_set_zip)

text \<open>Engine and reference book in step, with small ids and quantities resting.\<close>

definition in_step :: "Env \<Rightarrow> Config \<Rightarrow> nat \<Rightarrow> OrderBook \<Rightarrow> StdOrderBook \<Rightarrow> bool" where
  "in_step E cfg n b r \<longleftrightarrow> agree E b r \<and> cfg_of b = cfg \<and> small_book n (book_abs b)"

lemma in_step_spec: "in_step E cfg n b r \<Longrightarrow> spec_inv cfg (book_abs b)"
  by (auto simp: in_step_def agree_def engine_inv_def book_inv_def)

lemma in_step_next:
  assumes "in_step E cfg n b r" "cancels_in_range cfg x"
  obtains y b' r' where "engine_step E x b = Some (y, b')" "std_step x r = Some (y, r')" "agree E b' r'" "cfg_of b' = cfg"
    "spec_step cfg x (book_abs b) = (y, book_abs b')" "small_request n x \<longrightarrow> in_step E cfg n b' r'"
proof -
  have a: "agree E b r" "cfg_of b = cfg" "small_book n (book_abs b)" "engine_inv E b" using assms(1) unfolding in_step_def agree_def by blast+
  then obtain y b' r' where s: "engine_step E x b = Some (y, b')" "std_step x r = Some (y, r')" "agree E b' r'" "cfg_of b' = cfg"
    using agree_step [OF a(1)] assms(2) by blast
  moreover have "spec_step cfg x (book_abs b) = (y, book_abs b')" using engine_step_refines [OF a(4), of x] s(1) a(2) by auto
  ultimately show thesis using that small_step a(3) by (auto simp: in_step_def)
qed

lemma diff_loop_ok:
  assumes "in_step E cfg (unat ids) b r" "ids \<noteq> 0" "lo \<le> hi" "hi \<noteq> UINT32_MAX" "unat ids \<le> cfg_max_id cfg"
  shows "\<exists>b' r'. diff_loop E lo hi ids n op b r s fs = Some (fs, Some (b', r')) \<and> in_step E cfg (unat ids) b' r'"
  using assms(1)
proof (induction n arbitrary: op b r s)
  case (Suc n)
  obtain x s' where x: "diff_op lo hi ids s = Some (x, s')" "small_request (unat ids) x" by (rule diff_op_small [OF assms(2-4)])
  then have "cancels_in_range cfg x" using assms(5) by (cases x) auto
  then obtain y b1 r1 where st: "engine_step E x b = Some (y, b1)" "std_step x r = Some (y, r1)" "agree E b1 r1"
    "in_step E cfg (unat ids) b1 r1"
    using in_step_next [OF Suc.prems] x(2) by metis
  have "hft_debug_tools E \<Longrightarrow> validate_book E b1 = Some True"
    using st(3) validate_book_complete by (auto simp: agree_def engine_inv_def book_inv_def)
  moreover obtain er ef et where "op_result x y = (er, ef, et)" by (metis prod_cases3)
  moreover from this have "run_op E lo hi ids b r s = Some ((er, ef, et), (er, ef, et), b1, r1, s')" using x(1) st(1,2) by (simp add: run_op_def)
  ultimately show ?case using Suc.IH [OF st(4), of "Suc op" s'] agree_queries(1) [OF st(3)] by simp
qed simp

lemma drain_side:
  assumes "in_step E cfg n b r" "40 * min (cfg_capacity cfg) n < 100000000" "n < unat i" "unat i \<le> cfg_max_id cfg"
  obtains b' r' where "drain_sides E ((s, k) # ss) b r i fs = drain_sides E ss b' r' (i + 1) fs" "in_step E cfg n b' r'"
    "resting (opposite s) (book_abs b') = []" "resting s (book_abs b') = resting s (book_abs b)"
proof -
  let ?x = "Add i Market 0 100000000 s"
  obtain y b' r' where st: "engine_step E ?x b = Some (y, b')" "std_step ?x r = Some (y, r')" "agree E b' r'" "cfg_of b' = cfg"
    "spec_step cfg ?x (book_abs b) = (y, book_abs b')"
    by (rule in_step_next [OF assms(1), of ?x]) auto
  have sm: "small_book n (book_abs b)" using assms(1) by (simp add: in_step_def)
  note d = drain_step [OF in_step_spec [OF assms(1)] sm assms(2-4) st(5)]
  have "small_book n (book_abs b')" using sm d unfolding small_side all_sides [of _ s] by simp
  then have i': "in_step E cfg n b' r'" using st(3,4) by (simp add: in_step_def)
  obtain res where y: "y = Added res" using st(5) by (auto split: prod.splits)
  have "res_trades res = []" if "res_reason res = MarketOnEmptyBook"
    using st(5) y that by (auto simp: spec_add_def spec_submit_def spec_rest_def spec_check_def mk_result_def Let_def split: prod.splits option.splits if_splits)
  then have "drain_sides E ((s, k) # ss) b r i fs = drain_sides E ss b' r' (i + 1) fs"
    using st(1,2) by (auto simp: y expect_eq_def)
  then show thesis using that i' d by blast
qed

lemma reconcile_ok:
  assumes "in_step E cfg n b r" "40 * min (cfg_capacity cfg) n < 100000000" "n < unat i" "unat i < cfg_max_id cfg" "cfg_max_id cfg < 2 ^ 32"
  shows "reconcile_final_state E b r i fs = Some fs"
proof -
  have i: "unat (i + 1) = Suc (unat i)" using assms(4,5) by (simp add: unat_plus_if')
  obtain b1 r1 where 1: "drain_sides E [(Buy, 0), (Sell, 1)] b r i fs = drain_sides E [(Sell, 1)] b1 r1 (i + 1) fs" "in_step E cfg n b1 r1"
    "spec_asks (book_abs b1) = []"
    by (rule drain_side [OF assms(1-3), of Buy 0 "[(Sell, 1)]" fs]) (use assms(4) in auto)
  obtain b2 r2 where 2: "drain_sides E [(Sell, 1)] b1 r1 (i + 1) fs = Some (fs, Some (b2, r2))" "in_step E cfg n b2 r2"
    "spec_bids (book_abs b2) = []" "spec_asks (book_abs b2) = []"
    by (rule drain_side [OF 1(2) assms(2), of "i + 1" Sell 1 "[]" fs]) (use 1(3) assms(3,4) i in auto)
  have ag: "agree E b2 r2" using 2(2) by (simp add: in_step_def)
  then have "unat (active_order_count b2) = 0"
    using active_order_count_abs [of E b2] 2(3,4) by (simp add: agree_def engine_inv_def book_size_def)
  then have "active_order_count b2 = 0" by (simp add: unat_eq_0)
  with agree_queries(1) [OF ag] 1(1) 2(1) show ?thesis by (simp add: reconcile_final_state_def expect_eq_def)
qed

lemma differential_ok:
  assumes "lo \<le> hi" "hi \<noteq> UINT32_MAX" "unat hi - unat lo < kMaxPriceRangeTicks" "ids \<noteq> 0" "unat ids + 8 \<le> kMaxOrderIds" "cap \<le> kMaxPoolCapacity" "min cap (unat ids) < 2500000"
  shows "run_differential E seed lo hi ids cap n = Some []"
proof -
  have u: "unat (ids + 8) = unat ids + 8" "unat (ids + 1) = Suc (unat ids)"
    using assms(5) by (simp_all add: kMaxOrderIds_def unat_plus_if')
  obtain b where b: "OrderBook_new E (unat ids + 8) cap lo hi = Some b"
    using assms(1-3,5) by (auto simp: OrderBook_new_def Let_def not_less not_le)
  let ?cfg = "\<lparr>cfg_max_id = unat ids + 8, cfg_capacity = cap, cfg_min = lo, cfg_max = hi\<rparr>"
  note le = assms(6)
  have "in_step E ?cfg (unat ids) b (StdOrderBook_new (unat ids + 8) cap lo hi)"
    using agree_new [OF b le] OrderBook_new_abs(1,2) [OF b] le by (simp add: in_step_def small_book_def spec_empty_def min_def)
  from diff_loop_ok [OF this assms(4,1,2), of n 0 "fuzz_seed seed" "[]"] obtain b' r' where
    1: "diff_loop E lo hi ids n 0 b (StdOrderBook_new (unat ids + 8) cap lo hi) (fuzz_seed seed) [] = Some ([], Some (b', r'))"
    "in_step E ?cfg (unat ids) b' r'" by auto
  have "reconcile_final_state E b' r' (ids + 1) [] = Some []"
    by (rule reconcile_ok [OF 1(2)]) (use assms(5-7) u in \<open>simp_all add: kMaxOrderIds_def\<close>)
  with b 1(1) show ?thesis by (simp add: run_differential_def u Let_def)
qed

lemma differential_suite_ok: "differential_suite E = replicate 24 (Some [])"
proof -
  have "\<forall>r \<in> set (differential_suite E). r = Some []"
    by (auto simp: differential_suite_def differential_tests_def UINT32_MAX_def kMaxPriceRangeTicks_def kMaxOrderIds_def kMaxPoolCapacity_def
        intro!: differential_ok)
  moreover have "length (differential_suite E) = 24" by (simp add: differential_suite_def differential_tests_def length_concat)
  ultimately show ?thesis by (metis replicate_length_same)
qed

text \<open>
  C30: the differential test cannot fail. For every seed and build flavor, and every geometry with
  prices \<open>lo \<le> hi\<close> below the reserved one, a price range within the cap, at least one id and eight ids of
  head room, a pool the engine does not clamp, and fewer than 2500000 slots or ids (so the drain's
  order of 100000000 covers what can rest, at most 40 per order), however many operations are
  made, no assertion fails: codes, fills, trades and counts agree, the audit passes whenever it is
  run, and the final market orders empty both books. The 24 runs of the seven tests are among them.
\<close>

theorem differential_test_passes:
  "(\<forall>seed lo hi ids cap n. lo \<le> hi \<longrightarrow> hi \<noteq> UINT32_MAX \<longrightarrow> unat hi - unat lo < kMaxPriceRangeTicks \<longrightarrow> ids \<noteq> 0 \<longrightarrow>
      unat ids + 8 \<le> kMaxOrderIds \<longrightarrow> cap \<le> kMaxPoolCapacity \<longrightarrow> min cap (unat ids) < 2500000 \<longrightarrow>
      run_differential E seed lo hi ids cap n = Some []) \<and>
   differential_suite E = replicate 24 (Some [])"
  using differential_ok differential_suite_ok by blast

theorem differential_test_passes_witness:
  "run_differential E_audit 5 0 300 10 20 50 = Some [] \<and> differential_suite E_audit = replicate 24 (Some [])"
proof -
  note t = differential_test_passes [of E_audit]
  have "run_differential E_audit 5 0 300 10 20 50 = Some []"
    by (rule conjunct1 [OF t, rule_format]) (simp_all add: UINT32_MAX_def kMaxPriceRangeTicks_def kMaxOrderIds_def kMaxPoolCapacity_def)
  with t show ?thesis by blast
qed

end
