(* ===== verification/Market_Simulation.thy ===== *)
theory Market_Simulation
  imports Differential_Test
begin

text \<open>
  \<open>src/tests/real_world_sim.cpp\<close>: a stream of quotes, retail orders and sweeps around a random-walk price, replayed on the
  reference book and on the engine, which print the trades and the volume they made. Every event is well
  formed, and the two replays always report the same totals.
\<close>

section \<open>The event stream\<close>

datatype EventType = MM_Quote | Retail_Limit | Institutional_Sweep

record MarketEvent =
  ev_type :: EventType
  ev_id :: OrderId
  ev_side :: Side
  ev_price :: Price
  ev_qty :: Quantity
  ev_cancel_id :: OrderId

text \<open>\<open>FastRNG\<close> is the generator of the differential test (\<open>fuzz_below\<close>) with another seed.\<close>

record Generator =
  g_rng :: u64
  g_mid :: Price
  g_next_id :: OrderId
  g_bids :: "OrderId list"
  g_asks :: "OrderId list"

definition generator :: Generator where
  "generator = \<lparr>g_rng = 123456789, g_mid = 10000, g_next_id = 1, g_bids = [], g_asks = []\<rparr>"

definition walk_mid :: "Price \<Rightarrow> u64 \<Rightarrow> (Price \<times> u64) option" where
  "walk_mid mid s = do {
     (w, s) \<leftarrow> fuzz_below 10 s;
     if w = 0 then do {
       (d, s) \<leftarrow> fuzz_below 2 s;
       let mid = mid + (if d = 0 then 1 else - 1);
       let mid = (if mid < 100 then 100 else mid);
       let mid = (if mid > 19900 then 19900 else mid);
       Some (mid, s)
     } else Some (mid, s)
   }"

text \<open>A market maker replaces a random one of its quotes: swapped with the last and popped.\<close>

definition take_quote :: "OrderId list \<Rightarrow> u64 \<Rightarrow> (OrderId \<times> OrderId list \<times> u64) option" where
  "take_quote qs s =
     (if qs = [] then Some (0, qs, s)
      else do {
        (idx, s) \<leftarrow> fuzz_below (of_nat (length qs)) s;
        cancel_id \<leftarrow> vec_get qs (unat idx);
        qs \<leftarrow> vec_set qs (unat idx) (last qs);
        Some (cancel_id, butlast qs, s)
      })"

definition draw_side :: "u64 \<Rightarrow> (Side \<times> u64) option" where
  "draw_side s = do { (d, s) \<leftarrow> fuzz_below 2 s; Some (if d = 0 then Buy else Sell, s) }"

definition next_event :: "Generator \<Rightarrow> (MarketEvent \<times> Generator) option" where
  "next_event g = do {
     (roll, s) \<leftarrow> fuzz_below 100 (g_rng g);
     (mid, s) \<leftarrow> walk_mid (g_mid g) s;
     let i = g_next_id g;
     (side, s) \<leftarrow> draw_side s;
     if roll < 80 then
       (case side of
          Buy \<Rightarrow> do {
            (cancel_id, bids, s) \<leftarrow> take_quote (g_bids g) s;
            (x, s) \<leftarrow> fuzz_below 10 s;
            Some (\<lparr>ev_type = MM_Quote, ev_id = i, ev_side = side, ev_price = mid - 1 - x, ev_qty = 100, ev_cancel_id = cancel_id\<rparr>,
              g\<lparr>g_rng := s, g_mid := mid, g_next_id := i + 1, g_bids := bids @ [i]\<rparr>)
          }
        | Sell \<Rightarrow> do {
            (cancel_id, asks, s) \<leftarrow> take_quote (g_asks g) s;
            (x, s) \<leftarrow> fuzz_below 10 s;
            Some (\<lparr>ev_type = MM_Quote, ev_id = i, ev_side = side, ev_price = mid + 1 + x, ev_qty = 100, ev_cancel_id = cancel_id\<rparr>,
              g\<lparr>g_rng := s, g_mid := mid, g_next_id := i + 1, g_asks := asks @ [i]\<rparr>)
          })
     else if roll < 95 then do {
       (x, s) \<leftarrow> fuzz_below 5 s;
       Some (\<lparr>ev_type = Retail_Limit, ev_id = i, ev_side = side, ev_price = (if side = Buy then mid - x else mid + x), ev_qty = 10, ev_cancel_id = 0\<rparr>,
         g\<lparr>g_rng := s, g_mid := mid, g_next_id := i + 1\<rparr>)
     } else do {
       (x, s) \<leftarrow> fuzz_below 1000 s;
       Some (\<lparr>ev_type = Institutional_Sweep, ev_id = i, ev_side = side, ev_price = 0, ev_qty = 500 + x, ev_cancel_id = 0\<rparr>,
         g\<lparr>g_rng := s, g_mid := mid, g_next_id := i + 1\<rparr>)
     }
   }"

fun gen_events :: "nat \<Rightarrow> Generator \<Rightarrow> (MarketEvent list \<times> Generator) option" where
  "gen_events 0 g = Some ([], g)"
| "gen_events (Suc n) g = do {
     (ev, g) \<leftarrow> next_event g;
     (evs, g) \<leftarrow> gen_events n g;
     Some (ev # evs, g)
   }"

section \<open>The replay\<close>

definition event_requests :: "MarketEvent \<Rightarrow> Request list" where
  "event_requests ev =
     (if ev_cancel_id ev \<noteq> 0 then [CancelId (ev_cancel_id ev)] else []) @
     (if ev_type ev = MM_Quote \<or> ev_type ev = Retail_Limit then [Add (ev_id ev) Limit (ev_price ev) (ev_qty ev) (ev_side ev)]
      else [Add (ev_id ev) Market 0 (ev_qty ev) (ev_side ev)])"

text \<open>What the callback counts: \<open>total_trades\<close> and \<open>volume\<close>, both 64 bits wide.\<close>

definition sim_totals :: "Outcome list \<Rightarrow> u64 \<times> u64" where
  "sim_totals ys =
     (let ts = concat (map (\<lambda>y. snd (snd (outcome_parts y))) ys)
      in (foldl (\<lambda>n t. n + 1) 0 ts, foldl (\<lambda>v t. v + ucast (trade_quantity t)) 0 ts))"

definition run_sim :: "(Request \<Rightarrow> 'b \<Rightarrow> (Outcome \<times> 'b) option) \<Rightarrow> MarketEvent list \<Rightarrow> 'b \<Rightarrow> (u64 \<times> u64) option" where
  "run_sim step events book = do {
     (ys, book) \<leftarrow> run step (concat (map event_requests events)) book;
     Some (sim_totals ys)
   }"

text \<open>The totals of the reference book and of the engine.\<close>

definition simulation :: "Env \<Rightarrow> nat \<Rightarrow> ((u64 \<times> u64) \<times> (u64 \<times> u64)) option" where
  "simulation E num_events = do {
     (events, g) \<leftarrow> gen_events num_events generator;
     let max_id = unat (g_next_id g + 1);
     std_totals \<leftarrow> run_sim std_step events (StdOrderBook_new max_id 1000000 0 20000);
     book \<leftarrow> OrderBook_new E max_id 1000000 0 20000;
     totals \<leftarrow> run_sim (engine_step E) events book;
     Some (std_totals, totals)
   }"

section \<open>The events are well formed\<close>

text \<open>The price stays in the walk's band; the quotes are ids already issued; every event is counted.\<close>

definition gen_ok :: "nat \<Rightarrow> Generator \<Rightarrow> bool" where
  "gen_ok k g \<longleftrightarrow> 100 \<le> unat (g_mid g) \<and> unat (g_mid g) \<le> 19900 \<and> unat (g_next_id g) = Suc k \<and>
     (\<forall>i \<in> set (g_bids g) \<union> set (g_asks g). i \<noteq> 0 \<and> unat i \<le> k) \<and> length (g_bids g) + length (g_asks g) \<le> k"

definition event_ok :: "nat \<Rightarrow> MarketEvent \<Rightarrow> bool" where
  "event_ok k ev \<longleftrightarrow> unat (ev_id ev) = Suc k \<and> unat (ev_cancel_id ev) \<le> k \<and> unat (ev_price ev) \<le> 20000 \<and> ev_qty ev \<noteq> 0"

lemma walk_mid_ok:
  assumes "100 \<le> unat mid" "unat mid \<le> 19900"
  obtains mid' s' where "walk_mid mid s = Some (mid', s')" "100 \<le> unat mid'" "unat mid' \<le> 19900"
proof -
  obtain w s1 where 1: "fuzz_below 10 s = Some (w, s1)" by (rule fuzz_below_some [of 10 s]) simp
  obtain d s2 where 2: "fuzz_below 2 s1 = Some (d, s2)" by (rule fuzz_below_some [of 2 s1]) simp
  define m where "m = (let mid = mid + (if d = 0 then 1 else - 1); mid = (if mid < 100 then 100 else mid) in if mid > 19900 then 19900 else mid)"
  have "100 \<le> unat m \<and> unat m \<le> 19900" by (auto simp: m_def Let_def word_less_nat_alt not_less)
  moreover have "walk_mid mid s = Some (if w = 0 then (m, s2) else (mid, s1))"
    using 1 2 by (simp add: walk_mid_def m_def Let_def)
  ultimately show thesis using that assms by (cases "w = 0") auto
qed

lemma take_quote_ok:
  assumes "\<forall>i \<in> set qs. P i" "length qs < 2 ^ 32"
  obtains c qs' s' where "take_quote qs s = Some (c, qs', s')" "c = 0 \<or> P c" "\<forall>i \<in> set qs'. P i" "length qs' = length qs - 1"
proof (cases "qs = []")
  case True
  then show thesis using that [of 0 qs s] by (simp add: take_quote_def)
next
  case False
  have u: "unat (of_nat (length qs) :: u32) = length qs" using assms(2) by (rule unat_of_nat_32)
  then have "(of_nat (length qs) :: u32) \<noteq> 0" using False by (metis length_0_conv unat_0)
  then obtain x s' where x: "fuzz_below (of_nat (length qs)) s = Some (x, s')" "unat x < length qs"
    by (rule fuzz_below_some [of _ s]) (simp add: u)
  let ?qs = "qs[unat x := last qs]"
  have "take_quote qs s = Some (qs ! unat x, butlast ?qs, s')"
    using False x by (simp add: take_quote_def vec_get_def vec_set_def)
  moreover have "set (butlast ?qs) \<subseteq> set qs"
    using False by (auto dest!: in_set_butlastD set_update_subset_insert [THEN subsetD])
  ultimately show thesis using that [of "qs ! unat x" "butlast ?qs" s'] assms(1) x(2) by auto
qed

lemma draw_side_some: obtains side s' where "draw_side s = Some (side, s')"
proof -
  obtain d s' where "fuzz_below 2 s = Some (d, s')" by (rule fuzz_below_some [of 2 s]) simp
  then show thesis using that by (simp add: draw_side_def)
qed

lemma quote_price:
  assumes "100 \<le> unat (mid :: Price)" "unat mid \<le> 19900" "unat x < 10"
  shows "unat (mid - 1 - x) \<le> 20000" "unat (mid + 1 + x) \<le> 20000" "unat (mid - x) \<le> 20000" "unat (mid + x) \<le> 20000"
  using assms by unat_arith+

lemma next_event_ok:
  assumes g: "gen_ok k g" and k: "k < 2 ^ 32 - 3"
  obtains ev g' where "next_event g = Some (ev, g')" "event_ok k ev" "gen_ok (Suc k) g'"
proof -
  obtain roll s1 where 1: "fuzz_below 100 (g_rng g) = Some (roll, s1)" by (rule fuzz_below_some [of 100 "g_rng g"]) simp
  obtain mid s2 where 2: "walk_mid (g_mid g) s1 = Some (mid, s2)" "100 \<le> unat mid" "unat mid \<le> 19900"
    by (rule walk_mid_ok [of "g_mid g" s1]) (use g in \<open>auto simp: gen_ok_def\<close>)
  obtain side s3 where 3: "draw_side s2 = Some (side, s3)" by (rule draw_side_some)
  let ?i = "g_next_id g" and ?P = "\<lambda>i. i \<noteq> 0 \<and> unat i \<le> k"
  have i: "unat ?i = Suc k" "unat (?i + 1) = Suc (Suc k)" "?i \<noteq> 0"
    using g k by (auto simp: gen_ok_def unat_plus_if' word_unat_eq_iff)
  have qs: "\<forall>i \<in> set (g_bids g). ?P i" "\<forall>i \<in> set (g_asks g). ?P i" "length (g_bids g) < 2 ^ 32" "length (g_asks g) < 2 ^ 32"
    "length (g_bids g) + length (g_asks g) \<le> k" using g k by (auto simp: gen_ok_def)
  obtain c1 q1 s4 where 4: "take_quote (g_bids g) s3 = Some (c1, q1, s4)" "c1 = 0 \<or> ?P c1" "\<forall>i \<in> set q1. ?P i" "length q1 = length (g_bids g) - 1"
    by (rule take_quote_ok [OF qs(1,3)])
  obtain c2 q2 s5 where 5: "take_quote (g_asks g) s3 = Some (c2, q2, s5)" "c2 = 0 \<or> ?P c2" "\<forall>i \<in> set q2. ?P i" "length q2 = length (g_asks g) - 1"
    by (rule take_quote_ok [OF qs(2,4)])
  obtain x1 s6 where 6: "fuzz_below 10 s4 = Some (x1, s6)" "unat x1 < 10" by (rule fuzz_below_some [of 10 s4]) simp_all
  obtain x2 s7 where 7: "fuzz_below 10 s5 = Some (x2, s7)" "unat x2 < 10" by (rule fuzz_below_some [of 10 s5]) simp_all
  obtain x3 s8 where 8: "fuzz_below 5 s3 = Some (x3, s8)" "unat x3 < 5" by (rule fuzz_below_some [of 5 s3]) simp_all
  obtain x4 s9 where 9: "fuzz_below 1000 s3 = Some (x4, s9)" "unat x4 < 1000" by (rule fuzz_below_some [of 1000 s3]) simp_all
  have "unat (500 + x4) = 500 + unat x4" using 9(2) by (simp add: unat_plus_if')
  then have q: "500 + x4 \<noteq> 0" by (auto simp: word_unat_eq_iff)
  note price = quote_price [OF 2(2,3)]
  have next_ok: "gen_ok (Suc k) (g\<lparr>g_rng := s, g_mid := mid, g_next_id := ?i + 1\<rparr>)"
    "gen_ok (Suc k) (g\<lparr>g_rng := s, g_mid := mid, g_next_id := ?i + 1, g_bids := q1 @ [?i]\<rparr>)"
    "gen_ok (Suc k) (g\<lparr>g_rng := s, g_mid := mid, g_next_id := ?i + 1, g_asks := q2 @ [?i]\<rparr>)" for s
    using 2(2,3) i qs(1,2,5) 4(3,4) 5(3,4) unfolding gen_ok_def by (simp_all add: ball_Un) fastforce+
  consider (bid) "roll < 80" "side = Buy" | (ask) "roll < 80" "side = Sell" | (retail) "\<not> roll < 80" "roll < 95" | (sweep) "\<not> roll < 80" "\<not> roll < 95"
    by (cases side) auto
  then show thesis
  proof cases
    case bid
    then show thesis
      using that [OF _ _ next_ok(2) [of s6]] 1 2(1) 3 4(1,2) 6(1) i(1) price(1) [OF 6(2)] by (auto simp: next_event_def event_ok_def Let_def)
  next
    case ask
    then show thesis
      using that [OF _ _ next_ok(3) [of s7]] 1 2(1) 3 5(1,2) 7(1) i(1) price(2) [OF 7(2)] by (auto simp: next_event_def event_ok_def Let_def)
  next
    case retail
    then show thesis
      using that [OF _ _ next_ok(1) [of s8]] 1 2(1) 3 8 i(1) price(3,4) [of x3] by (auto simp: next_event_def event_ok_def Let_def)
  next
    case sweep
    then show thesis
      using that [OF _ _ next_ok(1) [of s9]] 1 2(1) 3 9 i(1) q by (auto simp: next_event_def event_ok_def Let_def)
  qed
qed

lemma gen_events_ok:
  assumes "gen_ok k g" "k + n < 2 ^ 32 - 3"
  shows "\<exists>evs g'. gen_events n g = Some (evs, g') \<and> gen_ok (k + n) g' \<and> length evs = n \<and> (\<forall>j < n. event_ok (k + j) (evs ! j))"
  using assms
proof (induction n arbitrary: k g)
  case (Suc n)
  obtain ev g1 where 1: "next_event g = Some (ev, g1)" "event_ok k ev" "gen_ok (Suc k) g1"
    by (rule next_event_ok [OF Suc.prems(1)]) (use Suc.prems(2) in auto)
  from Suc.IH [OF this(3)] Suc.prems(2) obtain evs g' where
    2: "gen_events n g1 = Some (evs, g')" "gen_ok (Suc k + n) g'" "length evs = n" "\<forall>j < n. event_ok (Suc k + j) (evs ! j)" by auto
  then show ?case using 1(1,2) by (auto simp: nth_Cons split: nat.split)
qed simp

section \<open>Properties\<close>

text \<open>
  C32: for any number of events below \<open>2^32 - 3\<close> (beyond that the ids wrap), the simulation runs to
  its end on both books and they report the same number of trades and the same volume. The stream is well formed: the
  \<open>j\<close>-th event has the \<open>j\<close>-th id, cancels an id issued before it if any, has a price within the
  book and a quantity to trade.
\<close>

theorem simulation_agrees:
  assumes "n < 2 ^ 32 - 3"
  shows "\<exists>events g totals. gen_events n generator = Some (events, g) \<and> length events = n \<and> (\<forall>j < n. event_ok j (events ! j)) \<and>
    unat (g_next_id g) = Suc n \<and> simulation E n = Some (totals, totals)"
proof -
  have "gen_ok 0 generator" by (simp add: gen_ok_def generator_def)
  then obtain evs g where 1: "gen_events n generator = Some (evs, g)" "gen_ok n g" "length evs = n" "\<forall>j < n. event_ok j (evs ! j)"
    using gen_events_ok [of 0 generator n] assms by auto
  have next_id: "unat (g_next_id g) = Suc n" "unat (g_next_id g + 1) = Suc (Suc n)"
    using 1(2) assms by (auto simp: gen_ok_def unat_plus_if')
  obtain b where b: "OrderBook_new E (Suc (Suc n)) 1000000 0 20000 = Some b"
    using assms by (auto simp: OrderBook_new_def Let_def UINT32_MAX_def kMaxOrderIds_def kMaxPriceRangeTicks_def)
  have cfg: "cfg_of b = \<lparr>cfg_max_id = Suc (Suc n), cfg_capacity = 1000000, cfg_min = 0, cfg_max = 20000\<rparr>"
    using OrderBook_new_abs(2) [OF b] by (simp add: kMaxPoolCapacity_def)
  have "\<forall>x \<in> set (event_requests ev). cancels_in_range (cfg_of b) x" if "ev \<in> set evs" for ev
  proof -
    obtain j where "j < length evs" "ev = evs ! j" using \<open>ev \<in> set evs\<close> unfolding in_set_conv_nth by blast
    then have "j < n" "event_ok j ev" using 1(3,4) by simp_all
    then show ?thesis by (auto simp: event_requests_def event_ok_def cfg)
  qed
  then have r: "\<forall>x \<in> set (concat (map event_requests evs)). cancels_in_range (cfg_of b) x" by auto
  have a: "agree E b (StdOrderBook_new (Suc (Suc n)) 1000000 0 20000)"
    by (rule agree_new [OF b]) (simp add: kMaxPoolCapacity_def)
  obtain ys b' r' where
    "run (engine_step E) (concat (map event_requests evs)) b = Some (ys, b')"
    "run std_step (concat (map event_requests evs)) (StdOrderBook_new (Suc (Suc n)) 1000000 0 20000) = Some (ys, r')"
    using agree_run [OF a r] by blast
  then have "simulation E n = Some (sim_totals ys, sim_totals ys)"
    using b by (simp add: simulation_def 1(1) next_id run_sim_def Let_def)
  with 1 next_id(1) show ?thesis by blast
qed

theorem simulation_agrees_witness: "\<exists>totals. simulation E_release 5000000 = Some (totals, totals)"
  using simulation_agrees [of 5000000 E_release] by auto

end
