(* ===== verification/Latency_Report.thy ===== *)
theory Latency_Report
  imports Latency_Bench Text_Format
begin

text \<open>
  The measuring side of \<open>src/tools/rdtsc_bench.cpp\<close>: the cycle counter and its synthetic
  fallback, the calibration against the steady clock, the percentile report, its text, and the
  program that runs the six scenarios of \<open>Latency_Bench\<close> under the counter.
\<close>

section \<open>The counters\<close>

text \<open>
  \<open>has_rdtscp\<close> is the build's choice of branch, \<open>rdtscp_at k\<close> the value of the \<open>k\<close>-th \<open>__rdtscp\<close>,
  \<open>steady_at k\<close> the \<open>k\<close>-th reading of the steady clock in nanoseconds.
\<close>

record Clocks =
  has_rdtscp :: bool
  rdtscp_at :: "nat \<Rightarrow> u64"
  steady_at :: "nat \<Rightarrow> nat"

record Tsc =
  tsc_reads :: nat
  g_fake_tsc :: u64

definition rdtscp :: "Clocks \<Rightarrow> Tsc \<Rightarrow> u64 \<times> Tsc" where
  "rdtscp T c = (rdtscp_at T (tsc_reads c), c\<lparr>tsc_reads := Suc (tsc_reads c)\<rparr>)"

definition rdtscp_begin :: "Clocks \<Rightarrow> Tsc \<Rightarrow> u64 \<times> Tsc" where
  "rdtscp_begin T c =
     (if has_rdtscp T then rdtscp T c
      else let g = g_fake_tsc c + 1 in (g, c\<lparr>g_fake_tsc := g\<rparr>))"

definition rdtscp_end :: "Clocks \<Rightarrow> Tsc \<Rightarrow> u64 \<times> Tsc" where
  "rdtscp_end T c =
     (if has_rdtscp T then rdtscp T c
      else let g = g_fake_tsc c + 100 in (g, c\<lparr>g_fake_tsc := g\<rparr>))"

text \<open>The polling loop of the calibration, from the \<open>k\<close>-th reading on: the duration it ends with.\<close>

partial_function (option) poll_steady :: "Clocks \<Rightarrow> nat \<Rightarrow> nat \<Rightarrow> int option" where
  "poll_steady T c0 k =
     (let d = int (steady_at T k) - int c0
      in if d \<ge> 50 * 1000000 then Some d else poll_steady T c0 (Suc k))"

definition estimate_tsc_hz :: "Clocks \<Rightarrow> Tsc \<Rightarrow> ((double \<times> bool) \<times> Tsc) option" where
  "estimate_tsc_hz T c =
     (if has_rdtscp T then do {
        let (t0, c) = rdtscp T c;
        d \<leftarrow> poll_steady T (steady_at T 0) 1;
        let (t1, c) = rdtscp T c;
        let secs = div_d (double_of (nat d)) (double_of 1000000000);
        Some ((div_d (double_of (unat (t1 - t0))) secs, True), c)
      }
      else Some ((1, False), c))"

section \<open>The report\<close>

record PercentileReport =
  p50 :: double
  p90 :: double
  p99 :: double
  p999 :: double
  r_max :: double
  mean :: double

definition pick :: "u64 list \<Rightarrow> double \<Rightarrow> double option" where
  "pick cycles q =
     (if cycles = [] then Some 0
      else do {
        let i = trunc_d (mul_d q (double_of (length cycles - 1)));
        x \<leftarrow> vec_get cycles i;
        Some (double_of (unat x))
      })"

text \<open>\<open>back()\<close> of an empty vector is undefined behaviour: \<open>None\<close>.\<close>

definition vec_back :: "'a list \<Rightarrow> 'a option" where
  "vec_back xs = (if xs = [] then None else Some (last xs))"

definition sum_cycles :: "u64 list \<Rightarrow> double" where
  "sum_cycles cycles = foldl (\<lambda>acc x. add_d acc (double_of (unat x))) 0 cycles"

definition report :: "u64 list \<Rightarrow> PercentileReport option" where
  "report cycles = do {
     let cycles = sort cycles;
     let total = sum_cycles cycles;
     a \<leftarrow> pick cycles (fl 0.50);
     b \<leftarrow> pick cycles (fl 0.90);
     c \<leftarrow> pick cycles (fl 0.99);
     d \<leftarrow> pick cycles (fl 0.999);
     m \<leftarrow> vec_back cycles;
     Some \<lparr>p50 = a, p90 = b, p99 = c, p999 = d, r_max = double_of (unat m),
       mean = div_d total (double_of (length cycles))\<rparr>
   }"

definition print_report :: "string \<Rightarrow> PercentileReport \<Rightarrow> nat \<Rightarrow> double \<Rightarrow> string" where
  "print_report name r n tsc_hz =
     left_justify 36 name @ '' n='' @ left_justify 8 (dec n) @
     '' p50='' @ right_justify 7 (fixed_point 1 (p50 r)) @ '' p90='' @ right_justify 7 (fixed_point 1 (p90 r)) @
     '' p99='' @ right_justify 7 (fixed_point 1 (p99 r)) @ '' p99.9='' @ right_justify 7 (fixed_point 1 (p999 r)) @
     '' max='' @ right_justify 9 (fixed_point 1 (r_max r)) @ '' mean='' @ right_justify 7 (fixed_point 1 (mean r)) @
     '' cycles'' @ newline @
     (if tsc_hz > 1000000000 \<and> mean r > 0 then
        let ghz = div_d tsc_hz (double_of 1000000000) in
        left_justify 36 '''' @ ''    | ~'' @ fixed_point 1 (div_d (mean r) ghz) @ '' ns/op mean | ~'' @
        fixed_point 2 (div_d ghz (mean r)) @ '' M ops/sec (TSC '' @ fixed_point 3 ghz @ '' GHz)'' @ newline
      else [])"

section \<open>A measured session\<close>

text \<open>The requests of a scenario in order, each with whether it stands between two counter readings.\<close>

type_synonym TimedOps = "(bool \<times> Request) list"

definition untimed :: "Request list \<Rightarrow> TimedOps" where "untimed xs = map (Pair False) xs"
definition timed :: "Request list \<Rightarrow> TimedOps" where "timed xs = map (Pair True) xs"

fun timed_run :: "Env \<Rightarrow> Clocks \<Rightarrow> TimedOps \<Rightarrow> Tsc \<Rightarrow> OrderBook \<Rightarrow> (u64 list \<times> Tsc \<times> Outcome list \<times> OrderBook) option" where
  "timed_run E T [] c b = Some ([], c, [], b)"
| "timed_run E T ((m, x) # xs) c b =
     (if m then do {
        let (t0, c) = rdtscp_begin T c;
        (r, b) \<leftarrow> engine_step E x b;
        let (t1, c) = rdtscp_end T c;
        (cyc, c, rs, b) \<leftarrow> timed_run E T xs c b;
        Some ((t1 - t0) # cyc, c, r # rs, b)
      }
      else do {
        (r, b) \<leftarrow> engine_step E x b;
        (cyc, c, rs, b) \<leftarrow> timed_run E T xs c b;
        Some (cyc, c, r # rs, b)
      })"

section \<open>The percentiles are samples, in order\<close>

lemma pick_index:
  assumes "0 \<le> q" "q \<le> 1" "xs \<noteq> []" "length xs \<le> 2 ^ 53"
  shows "trunc_d (mul_d q (double_of (length xs - 1))) < length xs"
proof -
  let ?n = "length xs - 1"
  have n: "double_of ?n = of_nat ?n" using assms(4) by (intro double_of_exact) simp
  have "mul_d q (double_of ?n) \<le> of_nat ?n"
    using fl_mono [of "q * of_nat ?n" "of_nat ?n"] fl_of_nat [of ?n] assms(2,4) n
    by (simp add: mul_d_def mult_left_le_one_le assms(1))
  then have "\<lfloor>mul_d q (double_of ?n)\<rfloor> \<le> int ?n" by linarith
  then show ?thesis using assms(3) by (cases xs) (simp_all add: trunc_d_def)
qed

lemma pick_sorted:
  assumes "0 \<le> q" "q \<le> 1" "xs \<noteq> []" "length xs \<le> 2 ^ 53"
  shows "pick xs q = Some (double_of (unat (xs ! trunc_d (mul_d q (double_of (length xs - 1))))))"
  using pick_index [OF assms] assms(3) by (simp add: pick_def vec_get_in)

lemma pick_mono:
  assumes "0 \<le> q" "q \<le> q'" "q' \<le> 1" "xs \<noteq> []" "length xs \<le> 2 ^ 53" "sorted xs"
    "pick xs q = Some x" "pick xs q' = Some x'"
  shows "x \<le> x'"
proof -
  let ?i = "\<lambda>q. trunc_d (mul_d q (double_of (length xs - 1)))"
  have "mul_d q (double_of (length xs - 1)) \<le> mul_d q' (double_of (length xs - 1))"
    unfolding mul_d_def by (rule fl_mono) (simp add: mult_right_mono assms(2) double_of_def)
  then have "?i q \<le> ?i q'" unfolding trunc_d_def by (intro nat_mono floor_mono)
  moreover have "?i q' < length xs" by (rule pick_index [OF order_trans [OF assms(1,2)] assms(3-5)])
  ultimately have "xs ! ?i q \<le> xs ! ?i q'" by (intro sorted_nth_mono [OF assms(6)])
  then show ?thesis using pick_sorted [of q xs] pick_sorted [of q' xs] assms by (auto simp: word_le_nat_alt intro: double_of_mono)
qed

lemma pick_max:
  assumes "0 \<le> q" "q \<le> 1" "xs \<noteq> []" "length xs \<le> 2 ^ 53" "sorted xs" "pick xs q = Some x"
  shows "x \<le> double_of (unat (last xs))"
proof -
  let ?i = "trunc_d (mul_d q (double_of (length xs - 1)))"
  have "?i \<le> length xs - 1" "length xs - 1 < length xs" using pick_index [OF assms(1-4)] assms(3) by auto
  then have "xs ! ?i \<le> last xs" unfolding last_conv_nth [OF assms(3)] by (rule sorted_nth_mono [OF assms(5)])
  then show ?thesis using pick_sorted [OF assms(1-4)] assms(6) by (auto simp: word_le_nat_alt intro: double_of_mono)
qed

lemma quantile: "0 \<le> fl q" "q \<le> 1 \<Longrightarrow> fl q \<le> 1"
  using fl_mono [of q 1] fl_of_nat [of 1] by simp_all

text \<open>While it fits 53 bits the running sum is exact.\<close>

lemma sum_cycles_exact:
  assumes "sum_list (map unat xs) \<le> 2 ^ 53"
  shows "sum_cycles xs = of_nat (sum_list (map unat xs))"
proof -
  have "foldl (\<lambda>acc x. add_d acc (double_of (unat x))) (of_nat n) xs = of_nat (n + sum_list (map unat xs))"
    if "n + sum_list (map unat xs) \<le> 2 ^ 53" for n
    using that
  proof (induction xs arbitrary: n)
    case (Cons x xs)
    have "add_d (of_nat n) (double_of (unat x)) = of_nat (n + unat x)"
      using Cons.prems fl_of_nat [of "n + unat x"] double_of_exact [of "unat x"] by (simp add: add_d_def)
    with Cons.IH [of "n + unat x"] Cons.prems show ?case by (simp add: add.assoc)
  qed simp
  from this [of 0] show ?thesis using assms by (simp add: sum_cycles_def)
qed

lemma sum_list_bounds:
  fixes xs :: "nat list"
  assumes "\<forall>x \<in> set xs. lo \<le> x \<and> x \<le> hi"
  shows "length xs * lo \<le> sum_list xs \<and> sum_list xs \<le> length xs * hi"
  using assms by (induction xs) auto

lemma mean_bounds:
  assumes "xs \<noteq> []" "length xs \<le> 2 ^ 53" "sum_list (map unat xs) \<le> 2 ^ 53" "\<forall>x \<in> set xs. lo \<le> unat x \<and> unat x \<le> hi"
  shows "double_of lo \<le> div_d (sum_cycles xs) (double_of (length xs))"
    "div_d (sum_cycles xs) (double_of (length xs)) \<le> double_of hi"
proof -
  let ?n = "length xs" and ?s = "sum_list (map unat xs)"
  have "?n * lo \<le> ?s" "?s \<le> ?n * hi" using sum_list_bounds [of "map unat xs" lo hi] assms(4) by auto
  then have "(of_nat (?n * lo) :: rat) \<le> of_nat ?s" "(of_nat ?s :: rat) \<le> of_nat (?n * hi)" by (simp_all only: of_nat_le_iff)
  then have "of_nat lo \<le> of_nat ?s / (of_nat ?n :: rat)" "of_nat ?s / (of_nat ?n :: rat) \<le> of_nat hi"
    using assms(1) by (simp_all add: pos_le_divide_eq pos_divide_le_eq mult.commute)
  then show "double_of lo \<le> div_d (sum_cycles xs) (double_of ?n)" "div_d (sum_cycles xs) (double_of ?n) \<le> double_of hi"
    unfolding sum_cycles_exact [OF assms(3)] double_of_exact [OF assms(2)] div_d_def by (simp_all add: double_of_def fl_mono)
qed

lemma sorted_last_Max:
  assumes "sorted xs" "xs \<noteq> []"
  shows "last xs = Max (set xs)"
proof (rule Max_eqI [symmetric])
  show "y \<le> last xs" if "y \<in> set xs" for y
    using that assms by (metis in_set_conv_nth last_conv_nth less_Suc_eq_le Suc_pred length_greater_0_conv lessI sorted_nth_mono diff_Suc_1 less_imp_diff_less)
qed (use assms(2) in simp_all)

lemma mean_sorted:
  assumes "xs \<noteq> []" "length xs \<le> 2 ^ 53" "sum_list (map unat xs) \<le> 2 ^ 53"
  shows "double_of (unat (Min (set xs))) \<le> div_d (sum_cycles (sort xs)) (double_of (length xs))"
    "div_d (sum_cycles (sort xs)) (double_of (length xs)) \<le> double_of (unat (Max (set xs)))"
proof -
  have "mset (map unat (sort xs)) = mset (map unat xs)" by simp
  then have sum: "sum_list (map unat (sort xs)) = sum_list (map unat xs)" by (metis sum_mset_sum_list)
  have "\<forall>x \<in> set (sort xs). unat (Min (set xs)) \<le> unat x \<and> unat x \<le> unat (Max (set xs))"
    by (simp add: word_le_nat_alt [symmetric])
  from mean_bounds [OF _ _ _ this] sum assms show "double_of (unat (Min (set xs))) \<le> div_d (sum_cycles (sort xs)) (double_of (length xs))"
    "div_d (sum_cycles (sort xs)) (double_of (length xs)) \<le> double_of (unat (Max (set xs)))"
    by (metis length_sort length_0_conv)+
qed

lemma picks_ordered:
  assumes "xs \<noteq> []" "length xs \<le> 2 ^ 53" "sorted xs"
  obtains a b c d where "pick xs (fl 0.50) = Some a" "pick xs (fl 0.90) = Some b" "pick xs (fl 0.99) = Some c" "pick xs (fl 0.999) = Some d"
    "{a, b, c, d} \<subseteq> (double_of \<circ> unat) ` set xs" "a \<le> b" "b \<le> c" "c \<le> d" "d \<le> double_of (unat (last xs))"
proof -
  have in_range: "\<exists>x. pick xs (fl q) = Some x \<and> x \<in> (double_of \<circ> unat) ` set xs" if "q \<le> 1" for q
    using pick_sorted [OF quantile(1) quantile(2) [OF that] assms(1,2)] nth_mem [OF pick_index [OF quantile(1) quantile(2) [OF that] assms(1,2)]]
    by (auto simp: image_iff)
  obtain a b c d where p: "pick xs (fl 0.50) = Some a" "pick xs (fl 0.90) = Some b" "pick xs (fl 0.99) = Some c" "pick xs (fl 0.999) = Some d"
    and abcd: "{a, b, c, d} \<subseteq> (double_of \<circ> unat) ` set xs"
    using in_range [of "0.50"] in_range [of "0.90"] in_range [of "0.99"] in_range [of "0.999"] by auto
  have le: "x \<le> y" if "pick xs (fl q) = Some x" "pick xs (fl q') = Some y" "q \<le> q'" "q' \<le> 1" for q q' x y
    using pick_mono [OF quantile(1) fl_mono [OF that(3)] quantile(2) [OF that(4)] assms that(1,2)] .
  show thesis
  proof (rule that [OF p abcd])
    show "a \<le> b" "b \<le> c" "c \<le> d" using le [OF p(1,2)] le [OF p(2,3)] le [OF p(3,4)] by simp_all
    show "d \<le> double_of (unat (last xs))" by (rule pick_max [OF quantile(1) quantile(2) assms p(4)]) simp
  qed
qed

text \<open>
  C37: the latency report is well ordered. On any samples, at least one and at most \<open>2^53\<close>, \<open>report\<close>
  reads no element out of range, its four percentiles are samples and in order up to the
  maximum, the maximum is the largest sample, and the mean, while the samples sum to at most \<open>2^53\<close>
  (exact in a \<open>double\<close>), is between the smallest and the largest. With no samples the program has no defined
  behaviour.
\<close>

theorem report_ordered:
  assumes "length cycles \<le> 2 ^ 53"
  shows "case report cycles of
    None \<Rightarrow> cycles = []
  | Some r \<Rightarrow> cycles \<noteq> [] \<and> {p50 r, p90 r, p99 r, p999 r} \<subseteq> (double_of \<circ> unat) ` set cycles \<and>
      p50 r \<le> p90 r \<and> p90 r \<le> p99 r \<and> p99 r \<le> p999 r \<and> p999 r \<le> r_max r \<and> r_max r = double_of (unat (Max (set cycles))) \<and>
      (sum_list (map unat cycles) \<le> 2 ^ 53 \<longrightarrow> double_of (unat (Min (set cycles))) \<le> mean r \<and> mean r \<le> r_max r)"
proof (cases "cycles = []")
  case True
  then show ?thesis by (simp add: report_def pick_def vec_back_def)
next
  case False
  let ?s = "sort cycles"
  have "length ?s = length cycles" by simp
  with False have ne: "?s \<noteq> []" by (metis length_0_conv)
  have s: "length ?s \<le> 2 ^ 53" "sorted ?s" using assms by simp_all
  obtain a b c d where p: "pick ?s (fl 0.50) = Some a" "pick ?s (fl 0.90) = Some b" "pick ?s (fl 0.99) = Some c" "pick ?s (fl 0.999) = Some d"
    and ord: "{a, b, c, d} \<subseteq> (double_of \<circ> unat) ` set ?s" "a \<le> b" "b \<le> c" "c \<le> d" "d \<le> double_of (unat (last ?s))"
    by (rule picks_ordered [OF ne s])
  have mx: "last ?s = Max (set cycles)" using sorted_last_Max [OF s(2) ne] by simp
  have "report cycles = Some \<lparr>p50 = a, p90 = b, p99 = c, p999 = d, r_max = double_of (unat (Max (set cycles))),
      mean = div_d (sum_cycles ?s) (double_of (length cycles))\<rparr>"
    using p ne mx by (simp add: report_def Let_def vec_back_def)
  with ord mx False mean_sorted [OF False assms] show ?thesis by simp
qed

theorem report_ordered_witness:
  "\<exists>r. report [300, 100, 200, 100] = Some r \<and> p50 r \<le> p90 r \<and> p999 r \<le> r_max r \<and> r_max r = 300 \<and> 100 \<le> mean r \<and> mean r \<le> 300"
proof -
  let ?c = "[300, 100, 200, 100] :: u64 list"
  have m: "Max (set ?c) = 300" "Min (set ?c) = 100" by (simp_all add: max_def min_def)
  have d: "double_of 300 = 300" "double_of 100 = 100" using double_of_exact [of 300] double_of_exact [of 100] by simp_all
  have "length ?c \<le> 2 ^ 53" by simp
  from report_ordered [OF this] show ?thesis unfolding m by (cases "report ?c") (auto simp: d)
qed

end
