(* ===== verification/Latency_Main.thy ===== *)
theory Latency_Main
  imports Latency_Report
begin

text \<open>
  The program of \<open>src/tools/rdtsc_bench.cpp\<close>: the calibration, the six scenarios of
  \<open>Latency_Bench\<close> run under the counter, and everything it prints.
\<close>

section \<open>The scenarios, with what is measured of them\<close>

definition insert_ops :: TimedOps where
  "insert_ops = (let N = 200000 in
     untimed (map bench_sell (loop_to 1 10000)) @ timed (map bench_sell (loop_to 10001 (10000 + N))))"

definition match_ops :: TimedOps where
  "match_ops = untimed (map bench_sell (loop_to 1 100000)) @
     timed (map (\<lambda>i. Add (of_nat (200001 + i)) Limit 2000 10 Buy) (loop_below 100000))"

definition sweep_timed :: "nat \<Rightarrow> TimedOps" where
  "sweep_timed rnd =
     (let base = 1 + rnd * 12 in
      untimed (map (\<lambda>k. Add (of_nat (base + k)) Limit (of_nat (1000 + k)) 5 Sell) (loop_below 10)) @
      timed [Add (of_nat (base + 10)) Limit 1200 50 Buy])"

definition sweep_ops :: TimedOps where
  "sweep_ops = concat (map sweep_timed (loop_below 2000))"

definition cancel_ops :: TimedOps where
  "cancel_ops = untimed (map bench_sell (loop_to 1 200000)) @ timed (map (\<lambda>i. CancelId (of_nat i)) (loop_to 1 200000))"

definition churn_timed :: "bool \<Rightarrow> TimedOps option" where
  "churn_timed pf = do {
     let (fills, s) = churn_fill pf (loop_to 1 100000) CHURN_SEED;
     let ids = (map of_nat (loop_to 1 100000) :: OrderId list);
     (ids, s) \<leftarrow> shuffle (length ids - 1) ids s;
     Some (untimed (fills @ map CancelId (take (length ids div 2) ids)) @ timed (churn_adds (loop_below 10000) s))
   }"

text \<open>A scenario: name, book, requests, and the sample count its \<open>print_report\<close> is given when that is a constant.\<close>

record Scenario =
  sc_name :: string
  sc_book :: "Env \<Rightarrow> OrderBook option"
  sc_ops :: "TimedOps option"
  sc_count :: "nat option"

definition bench_scenarios :: "bool \<Rightarrow> Scenario list" where
  "bench_scenarios pf =
    [\<lparr>sc_name = ''insert (passive limit)'',
      sc_book = (\<lambda>E. OrderBook_new_sized E (200000 + 10) BENCH_MIN_P BENCH_MAX_P),
      sc_ops = Some insert_ops, sc_count = Some 200000\<rparr>,
     \<lparr>sc_name = ''match (aggressive limit vs 1 maker)'',
      sc_book = (\<lambda>E. OrderBook_new E 400010 400010 BENCH_MIN_P BENCH_MAX_P),
      sc_ops = Some match_ops, sc_count = None\<rparr>,
     \<lparr>sc_name = ''sweep (10 levels per taker)'',
      sc_book = (\<lambda>E. OrderBook_new E 40010 40010 BENCH_MIN_P BENCH_MAX_P),
      sc_ops = Some sweep_ops, sc_count = None\<rparr>,
     \<lparr>sc_name = ''cancel (resting order)'',
      sc_book = (\<lambda>E. OrderBook_new E 210010 210010 BENCH_MIN_P BENCH_MAX_P),
      sc_ops = Some cancel_ops, sc_count = None\<rparr>,
     \<lparr>sc_name = ''churn (adds on fragmented pool)'',
      sc_book = (\<lambda>E. OrderBook_new E 200010 150010 BENCH_MIN_P BENCH_MAX_P),
      sc_ops = churn_timed pf, sc_count = None\<rparr>,
     \<lparr>sc_name = ''mixed (50pct add / 25pct match / 25pct cancel)'',
      sc_book = (\<lambda>E. OrderBook_new E 60010 60010 BENCH_MIN_P BENCH_MAX_P),
      sc_ops = Some (timed (bench_mixed_ops 50000 1 MIXED_SEED)), sc_count = None\<rparr>]"

text \<open>
  \<open>print_report(name, report(std::move(cyc)), cyc.size(), hz)\<close>: the size is an argument beside the
  move, so the compiler chooses which comes first (\<open>size_first\<close>); a moved-from vector is empty.
\<close>

definition run_scenario :: "Env \<Rightarrow> Clocks \<Rightarrow> bool \<Rightarrow> double \<Rightarrow> Scenario \<Rightarrow> Tsc \<Rightarrow> (string \<times> Tsc) option" where
  "run_scenario E T size_first tsc_hz sc c = do {
     b \<leftarrow> sc_book sc E;
     ops \<leftarrow> sc_ops sc;
     (cyc, c, _, _) \<leftarrow> timed_run E T ops c b;
     let n = (case sc_count sc of Some N \<Rightarrow> N | None \<Rightarrow> if size_first then length cyc else 0);
     r \<leftarrow> report cyc;
     Some (print_report (sc_name sc) r n tsc_hz, c)
   }"

fun run_scenarios :: "Env \<Rightarrow> Clocks \<Rightarrow> bool \<Rightarrow> double \<Rightarrow> Scenario list \<Rightarrow> Tsc \<Rightarrow> (string \<times> Tsc) option" where
  "run_scenarios E T sf hz [] c = Some ([], c)"
| "run_scenarios E T sf hz (sc # scs) c = do {
     (s, c) \<leftarrow> run_scenario E T sf hz sc c;
     (t, c) \<leftarrow> run_scenarios E T sf hz scs c;
     Some (s @ t, c)
   }"

definition tsc_banner :: "bool \<Rightarrow> double \<Rightarrow> string" where
  "tsc_banner have_tsc tsc_hz =
     (if have_tsc then ''[*] TSC calibrated: '' @ fixed_point 3 (div_d tsc_hz (double_of 1000000000)) @ '' GHz'' @ newline
      else ''[*] RDTSCP unavailable '' @ em_dash @ '' synthetic counter, RELATIVE numbers only'' @ newline)"

text \<open>The output and the exit status.\<close>

definition bench_main :: "Env \<Rightarrow> Clocks \<Rightarrow> bool \<Rightarrow> bool \<Rightarrow> (string \<times> int) option" where
  "bench_main E T price_first size_first = do {
     ((tsc_hz, have_tsc), c) \<leftarrow> estimate_tsc_hz T \<lparr>tsc_reads = 0, g_fake_tsc = 0\<rparr>;
     (out, c) \<leftarrow> run_scenarios E T size_first tsc_hz (bench_scenarios price_first) c;
     Some (''=== HFT RDTSC Latency Harness ==='' @ newline @ tsc_banner have_tsc tsc_hz @ out @ ''=== done ==='' @ newline, 0)
   }"

section \<open>Measuring does not change the session\<close>

lemma map_snd_timed [simp]: "map snd (timed xs) = xs" "map snd (untimed xs) = xs"
  by (simp_all add: timed_def untimed_def comp_def)

lemma filter_timed [simp]: "filter fst (timed xs) = timed xs" "filter fst (untimed xs) = []"
  by (induction xs) (simp_all add: timed_def untimed_def)

lemma length_timed [simp]: "length (timed xs) = length xs"
  by (simp add: timed_def)

lemma timed_run_runs:
  "run (engine_step E) (map snd ops) b = Some (rs, b') \<Longrightarrow>
     \<exists>cyc c'. timed_run E T ops c b = Some (cyc, c', rs, b') \<and> length cyc = length (filter fst ops)"
proof (induction ops arbitrary: c b rs)
  case (Cons y ops)
  obtain m x where y: "y = (m, x)" by fastforce
  obtain r b1 rs1 where 1: "engine_step E x b = Some (r, b1)" "run (engine_step E) (map snd ops) b1 = Some (rs1, b')" "rs = r # rs1"
    using Cons.prems by (auto simp: y bind_eq_Some_conv)
  show ?case
    using Cons.IH [OF 1(2), of "snd (rdtscp_end T (snd (rdtscp_begin T c)))"] Cons.IH [OF 1(2), of c] 1(1,3)
    by (cases m) (auto simp: y split_beta Let_def)
qed simp

lemma timed_run_fails:
  "run (engine_step E) (map snd ops) b = None \<Longrightarrow> timed_run E T ops c b = None"
proof (induction ops arbitrary: c b)
  case (Cons y ops)
  obtain m x where y: "y = (m, x)" by fastforce
  show ?case
  proof (cases "engine_step E x b")
    case (Some rb)
    obtain r b1 where rb: "rb = (r, b1)" by fastforce
    have "run (engine_step E) (map snd ops) b1 = None" using Cons.prems Some by (cases "run (engine_step E) (map snd ops) b1") (auto simp: y rb)
    with Cons.IH [OF this] Some show ?thesis by (simp add: y rb split_beta Let_def)
  qed (simp add: y split_beta Let_def)
qed simp

text \<open>
  Measuring a session changes nothing but the counter. Whatever the counter reads, the timed
  loop returns exactly when the plain sequence of calls does, with the same results and the
  same final book, and takes one sample per measured call.
\<close>

theorem timing_transparent:
  "map_option (\<lambda>(cyc, c', rs, b'). (length cyc, rs, b')) (timed_run E T ops c b) =
   map_option (\<lambda>(rs, b'). (length (filter fst ops), rs, b')) (run (engine_step E) (map snd ops) b)"
proof (cases "run (engine_step E) (map snd ops) b")
  case None
  then show ?thesis using timed_run_fails by simp
next
  case (Some x)
  obtain rs b' where x: "x = (rs, b')" by fastforce
  show ?thesis using timed_run_runs [of E ops b rs b' T c] Some by (auto simp: x)
qed

section \<open>The scenarios run\<close>

text \<open>What a scenario needs to print its line: its requests run on its book, \<open>n\<close> of them measured.\<close>

definition scenario_runs :: "Env \<Rightarrow> Scenario \<Rightarrow> nat \<Rightarrow> bool" where
  "scenario_runs E sc n \<longleftrightarrow> (\<exists>b ops rs b'. sc_book sc E = Some b \<and> sc_ops sc = Some ops \<and>
     run (engine_step E) (map snd ops) b = Some (rs, b') \<and> length (filter fst ops) = n \<and>
     (case sc_count sc of None \<Rightarrow> True | Some N \<Rightarrow> N = n))"

text \<open>The requests are those of the plain scenarios.\<close>

lemma sweep_timed_round: "map snd (sweep_timed k) = sweep_round k" "length (filter fst (sweep_timed k)) = 1"
  by (simp_all add: sweep_timed_def sweep_round_def Let_def del: loop_below_def)

lemma plain_ops:
  "map snd insert_ops = map bench_sell (loop_to 1 10000) @ map bench_sell (loop_to 10001 (10000 + 200000))"
  "map snd match_ops = map bench_sell (loop_to 1 100000) @ map (\<lambda>i. Add (of_nat (200001 + i)) Limit 2000 10 Buy) (loop_below 100000)"
  "map snd sweep_ops = concat (map sweep_round (loop_below 2000))"
  "map snd cancel_ops = map bench_sell (loop_to 1 200000) @ map (\<lambda>i. CancelId (of_nat i)) (loop_to 1 200000)"
  unfolding insert_ops_def match_ops_def sweep_ops_def cancel_ops_def Let_def
  by (simp_all add: map_concat comp_def sweep_timed_round(1))

lemma plain_churn: "churn_ops pf = map_option (map snd) (churn_timed pf)"
proof -
  obtain fills s where f: "churn_fill pf (loop_to 1 100000) CHURN_SEED = (fills, s)" by fastforce
  let ?ids = "map of_nat (loop_to 1 100000) :: OrderId list"
  show ?thesis unfolding churn_ops_def churn_timed_def f
    by (cases "shuffle (length ?ids - 1) ?ids s") (simp_all add: Let_def split_beta)
qed

lemma churn_adds_length: "length (churn_adds is s) = length is"
  by (induction "is" arbitrary: s) (simp_all add: split_beta)

lemma loop_lengths: "length (loop_to a n) = Suc n - a" "length (loop_below n) = n"
  by (auto simp: loop_to_def loop_below_def Suc_diff_le)

lemma sample_counts:
  "length (filter fst insert_ops) = 200000" "length (filter fst match_ops) = 100000" "length (filter fst sweep_ops) = 2000"
  "length (filter fst cancel_ops) = 200000" "churn_timed pf = Some ops \<Longrightarrow> length (filter fst ops) = 10000"
proof -
  have "length (filter fst (concat (map sweep_timed xs))) = length xs" for xs
    by (induction xs) (simp_all add: sweep_timed_round(2))
  then show "length (filter fst sweep_ops) = 2000" by (simp add: sweep_ops_def loop_lengths)
qed (auto simp: insert_ops_def match_ops_def cancel_ops_def churn_timed_def Let_def loop_lengths churn_adds_length
    bind_eq_Some_conv split_beta)

lemma runs_of_session:
  assumes "session E book (map snd ops) = Some x" "sc_book sc E = book" "sc_ops sc = Some ops" "length (filter fst ops) = n"
    "case sc_count sc of None \<Rightarrow> True | Some N \<Rightarrow> N = n"
  shows "scenario_runs E sc n"
proof -
  obtain b rs b' where "sc_book sc E = Some b" "run (engine_step E) (map snd ops) b = Some (rs, b')"
    using assms(1,2) by (cases x) (auto simp: session_def bind_eq_Some_conv)
  with assms(3-5) show ?thesis unfolding scenario_runs_def by blast
qed

lemma scenarios_run: "list_all2 (scenario_runs E) (bench_scenarios pf) [200000, 100000, 2000, 200000, 10000, 50000]"
proof -
  have mixed: "length (bench_mixed_ops n k g) = n" for n k g
    by (induction n arbitrary: k g) (simp_all add: split_beta Let_def)
  obtain x1 where 1: "insert_scenario E = Some x1" using insert_result [of E] by blast
  obtain x2 where 2: "match_scenario E = Some x2" using match_result [of E] by blast
  obtain x3 where 3: "sweep_scenario E = Some x3" using sweep_result [of E] by blast
  obtain x4 where 4: "cancel_scenario E = Some x4" using cancel_result [of E] by blast
  obtain x5 where 5: "churn_scenario E pf = Some x5" using churn_result [of E pf] unfolding churn_outcome_def by blast
  obtain x6 where 6: "bench_mixed_scenario E = Some x6" using bench_mixed_result [of E] by blast
  obtain ops where ops: "churn_timed pf = Some ops"
    using 5 plain_churn [of pf] by (cases "churn_timed pf") (auto simp: churn_scenario_def)
  have 5: "session E (OrderBook_new E 200010 150010 BENCH_MIN_P BENCH_MAX_P) (map snd ops) = Some x5"
    using 5 by (simp add: churn_scenario_def plain_churn ops)
  have 6: "session E (OrderBook_new E 60010 60010 BENCH_MIN_P BENCH_MAX_P) (map snd (timed (bench_mixed_ops 50000 1 MIXED_SEED))) = Some x6"
    using 6 unfolding bench_mixed_scenario_def by (simp only: map_snd_timed)
  note sessions = 1 [unfolded insert_scenario_def Let_def plain_ops(1) [symmetric]] 2 [unfolded match_scenario_def plain_ops(2) [symmetric]]
    3 [unfolded sweep_scenario_def plain_ops(3) [symmetric]] 4 [unfolded cancel_scenario_def plain_ops(4) [symmetric]] 5
    6
  show ?thesis unfolding bench_scenarios_def list_all2_Cons list_all2_Nil
    apply (intro conjI refl)
    subgoal by (rule runs_of_session [OF sessions(1)]) (simp_all add: sample_counts)
    subgoal by (rule runs_of_session [OF sessions(2)]) (simp_all add: sample_counts)
    subgoal by (rule runs_of_session [OF sessions(3)]) (simp_all add: sample_counts)
    subgoal by (rule runs_of_session [OF sessions(4)]) (simp_all add: sample_counts)
    subgoal by (rule runs_of_session [OF sessions(5)]) (simp_all add: sample_counts(5) [OF ops] ops)
    subgoal by (rule runs_of_session [OF sessions(6)]) (simp_all add: mixed)
    done
qed

section \<open>The program returns\<close>

lemma report_defined:
  assumes "cycles \<noteq> []" "length cycles \<le> 2 ^ 53"
  shows "\<exists>r. report cycles = Some r"
proof -
  have "length (sort cycles) = length cycles" by simp
  with assms have s: "sort cycles \<noteq> []" "length (sort cycles) \<le> 2 ^ 53" by (metis length_0_conv, simp)
  show ?thesis by (rule picks_ordered [OF s sorted_sort]) (use s(1) in \<open>simp add: report_def Let_def vec_back_def\<close>)
qed

lemma run_scenario_returns:
  assumes "scenario_runs E sc n" "0 < n" "n \<le> 2 ^ 53"
  shows "\<exists>s c'. run_scenario E T sf hz sc c = Some (s, c')"
proof -
  obtain b ops rs b' where o: "sc_book sc E = Some b" "sc_ops sc = Some ops" "run (engine_step E) (map snd ops) b = Some (rs, b')"
    "length (filter fst ops) = n" using assms(1) by (auto simp: scenario_runs_def)
  obtain cyc c' where c: "timed_run E T ops c b = Some (cyc, c', rs, b')" "length cyc = n"
    using timed_run_runs [OF o(3), of T c] o(4) by auto
  then obtain r where "report cyc = Some r" using report_defined [of cyc] assms(2,3) by auto
  with o c show ?thesis by (simp add: run_scenario_def Let_def)
qed

lemma run_scenarios_return:
  "list_all2 (scenario_runs E) scs ns \<Longrightarrow> \<forall>n \<in> set ns. 0 < n \<and> n \<le> 2 ^ 53 \<Longrightarrow> \<exists>s c'. run_scenarios E T sf hz scs c = Some (s, c')"
proof (induction arbitrary: c rule: list_all2_induct)
  case (Cons sc scs n ns)
  obtain s c1 where 1: "run_scenario E T sf hz sc c = Some (s, c1)" using run_scenario_returns [OF Cons(1)] Cons.prems by fastforce
  obtain t c2 where "run_scenarios E T sf hz scs c1 = Some (t, c2)" using Cons.IH Cons.prems by fastforce
  with 1 show ?case by simp
qed simp

text \<open>The polling loop ends at the first reading 50 ms or more after the start.\<close>

lemma poll_steady_returns:
  assumes "int (steady_at T m) - int c0 \<ge> 50000000" "k \<le> m"
  shows "\<exists>j \<ge> k. j \<le> m \<and> poll_steady T c0 k = Some (int (steady_at T j) - int c0) \<and> int (steady_at T j) - int c0 \<ge> 50000000"
  using assms(2)
proof (induction "m - k" arbitrary: k)
  case 0
  then show ?case using assms(1) by (intro exI [of _ m]) (simp add: poll_steady.simps [of T c0 k] Let_def)
next
  case (Suc n)
  show ?case
  proof (cases "int (steady_at T k) - int c0 \<ge> 50000000")
    case True
    then show ?thesis using Suc.prems by (intro exI [of _ k]) (simp add: poll_steady.simps [of T c0 k] Let_def)
  next
    case False
    from Suc(1) [of "Suc k"] Suc(2) obtain j where "j \<ge> Suc k" "j \<le> m"
      "poll_steady T c0 (Suc k) = Some (int (steady_at T j) - int c0)" "int (steady_at T j) - int c0 \<ge> 50000000"
      by fastforce
    with False show ?thesis by (intro exI [of _ j]) (simp add: poll_steady.simps [of T c0 k] Let_def)
  qed
qed

lemma estimate_returns:
  assumes "has_rdtscp T \<Longrightarrow> steady_at T m \<ge> steady_at T 0 + 50000000"
  shows "\<exists>hz c'. estimate_tsc_hz T c = Some ((hz, has_rdtscp T), c')"
proof (cases "has_rdtscp T")
  case True
  have "1 \<le> m" using assms [OF True] by (cases m) auto
  then show ?thesis using poll_steady_returns [of T m "steady_at T 0" 1] assms [OF True] True
    by (auto simp: estimate_tsc_hz_def rdtscp_def Let_def)
qed (simp add: estimate_tsc_hz_def)

text \<open>
  C36: the latency program runs to its end. On every host whose steady clock advances by 50 ms
  at some reading (nothing is asked of the cycle counter), in every build flavor and whichever
  order the compiler evaluates arguments in, the calibration stops polling, no engine call
  faults, no report reads out of range, and the program exits with status 0.
\<close>

theorem bench_main_returns:
  assumes "has_rdtscp T \<Longrightarrow> steady_at T m \<ge> steady_at T 0 + 50000000"
  shows "\<exists>out. bench_main E T price_first size_first = Some (out, 0)"
proof -
  obtain hz ok c where 1: "estimate_tsc_hz T \<lparr>tsc_reads = 0, g_fake_tsc = 0\<rparr> = Some ((hz, ok), c)"
    using estimate_returns [OF assms] by blast
  obtain s c' where "run_scenarios E T size_first hz (bench_scenarios price_first) c = Some (s, c')"
    using run_scenarios_return [OF scenarios_run] by fastforce
  with 1 show ?thesis by (simp add: bench_main_def)
qed

theorem bench_main_returns_witness:
  "\<exists>out. bench_main E_release \<lparr>has_rdtscp = True, rdtscp_at = (\<lambda>k. 1000 * of_nat k), steady_at = (\<lambda>k. 20000000 * k)\<rparr> True True =
     Some (out, 0)"
  by (rule bench_main_returns [where m = 3]) simp

text \<open>
  C39: the calibration is accurate. On a host whose steady clock reaches 50 ms, it returns the
  ticks between its two counter readings (modulo \<open>2^64\<close>) per second of a measured interval of
  at least 50 ms, with a relative error of at most \<open>2^-50\<close> from its roundings.
\<close>

theorem calibration_accurate:
  assumes "has_rdtscp T" "steady_at T m \<ge> steady_at T 0 + 50000000"
  shows "\<exists>hz j c'. estimate_tsc_hz T c = Some ((hz, True), c') \<and> 1 \<le> j \<and> j \<le> m \<and> steady_at T j \<ge> steady_at T 0 + 50000000 \<and>
    (let ticks = of_nat (unat (rdtscp_at T (Suc (tsc_reads c)) - rdtscp_at T (tsc_reads c)));
         exact = ticks * 1000000000 / of_nat (steady_at T j - steady_at T 0)
     in \<bar>hz - exact\<bar> \<le> exact / 2 ^ 50)"
proof -
  have "1 \<le> m" using assms(2) by (cases m) auto
  then obtain j where j: "1 \<le> j" "j \<le> m" "poll_steady T (steady_at T 0) 1 = Some (int (steady_at T j) - int (steady_at T 0))"
    "steady_at T j \<ge> steady_at T 0 + 50000000"
    using poll_steady_returns [of T m "steady_at T 0" 1] assms(2) by auto
  let ?t = "unat (rdtscp_at T (Suc (tsc_reads c)) - rdtscp_at T (tsc_reads c))" and ?d = "steady_at T j - steady_at T 0"
  have d: "nat (int (steady_at T j) - int (steady_at T 0)) = ?d" "0 < ?d" using j(4) by simp_all
  have g: "double_of 1000000000 = 1000000000" using double_of_exact [of 1000000000] by simp
  have "estimate_tsc_hz T c = Some ((fl (fl (of_nat ?t) / fl (fl (of_nat ?d) / 1000000000)), True),
      c\<lparr>tsc_reads := Suc (Suc (tsc_reads c))\<rparr>)"
    using assms(1) j(3) d(1) by (simp add: estimate_tsc_hz_def rdtscp_def Let_def div_d_def g) (simp add: double_of_def)
  moreover have "\<bar>fl (fl (of_nat ?t) / fl (fl (of_nat ?d) / 1000000000)) - of_nat ?t * 1000000000 / of_nat ?d\<bar>
      \<le> of_nat ?t * 1000000000 / of_nat ?d / 2 ^ 50"
    by (rule quotient_relative [OF of_nat_0_le_iff]) (use d(2) in simp_all)
  ultimately show ?thesis using j unfolding Let_def by blast
qed

theorem calibration_accurate_witness:
  "\<exists>hz c'. estimate_tsc_hz \<lparr>has_rdtscp = True, rdtscp_at = (\<lambda>k. 150000000 * of_nat k), steady_at = (\<lambda>k. 50000000 * k)\<rparr>
       \<lparr>tsc_reads = 0, g_fake_tsc = 0\<rparr> = Some ((hz, True), c') \<and> \<bar>hz - 3000000000\<bar> \<le> 3000000000 / 2 ^ 50"
proof -
  let ?T = "\<lparr>has_rdtscp = True, rdtscp_at = (\<lambda>k. 150000000 * of_nat k), steady_at = (\<lambda>k. 50000000 * k)\<rparr>"
  have h: "has_rdtscp ?T" "steady_at ?T 1 \<ge> steady_at ?T 0 + 50000000" by simp_all
  from calibration_accurate [OF h, of "\<lparr>tsc_reads = 0, g_fake_tsc = 0\<rparr>"] show ?thesis by (auto simp: Let_def)
qed

section \<open>The synthetic counter\<close>

text \<open>Between \<open>rdtscp_begin\<close> and \<open>rdtscp_end\<close> the synthetic counter moves by 100, across a wrap-around too.\<close>

lemma timed_run_synthetic:
  "\<not> has_rdtscp T \<Longrightarrow> timed_run E T ops c b = Some (cyc, c', rs, b') \<Longrightarrow> cyc = replicate (length cyc) 100"
proof (induction ops arbitrary: c b cyc rs)
  case (Cons y ops)
  obtain m x where y: "y = (m, x)" by fastforce
  show ?case using Cons.prems Cons.IH [OF Cons.prems(1)]
    by (auto simp: y bind_eq_Some_conv rdtscp_begin_def rdtscp_end_def Let_def split: if_splits)
qed simp

definition flat_report :: PercentileReport where
  "flat_report = \<lparr>p50 = 100, p90 = 100, p99 = 100, p999 = 100, r_max = 100, mean = 100\<rparr>"

lemma report_flat:
  assumes "0 < n" "n \<le> 2 ^ 46"
  shows "report (replicate n 100) = Some flat_report"
proof -
  let ?xs = "replicate n 100 :: u64 list"
  have s: "sort ?xs = ?xs" by (simp add: sorted_sort_id sorted_replicate)
  have ne: "?xs \<noteq> []" "length ?xs \<le> 2 ^ 53" using assms by simp_all
  have hundred: "double_of (unat (100 :: u64)) = 100" using double_of_exact [of 100] by simp
  have p: "pick ?xs (fl q) = Some 100" if "q \<le> 1" for q
    using pick_sorted [OF quantile(1) quantile(2) [OF that] ne] pick_index [OF quantile(1) quantile(2) [OF that] ne] hundred by simp
  have "sum_list (map unat ?xs) = 100 * n" by (simp add: sum_list_replicate)
  then have "sum_cycles ?xs = of_nat (100 * n)" using sum_cycles_exact [of ?xs] assms(2) by simp
  then have "div_d (sum_cycles ?xs) (double_of n) = 100"
    using double_of_exact [of n] assms fl_of_nat [of 100] by (simp add: div_d_def)
  then show ?thesis using p ne(1) hundred assms(1) by (simp add: report_def s Let_def vec_back_def flat_report_def)
qed

lemma run_scenario_synthetic:
  assumes "scenario_runs E sc n" "0 < n" "n \<le> 2 ^ 46" "\<not> has_rdtscp T"
  shows "\<exists>c'. run_scenario E T sf hz sc c =
    Some (print_report (sc_name sc) flat_report (if sf \<or> sc_count sc \<noteq> None then n else 0) hz, c')"
proof -
  obtain b ops rs b' where o: "sc_book sc E = Some b" "sc_ops sc = Some ops" "run (engine_step E) (map snd ops) b = Some (rs, b')"
    "length (filter fst ops) = n" "case sc_count sc of None \<Rightarrow> True | Some N \<Rightarrow> N = n" using assms(1) by (auto simp: scenario_runs_def)
  obtain cyc c' where c: "timed_run E T ops c b = Some (cyc, c', rs, b')" "length cyc = n"
    using timed_run_runs [OF o(3), of T c] o(4) by auto
  have "cyc = replicate n 100" using timed_run_synthetic [OF assms(4) c(1)] c(2) by simp
  then have "report cyc = Some flat_report" using report_flat assms(2,3) by simp
  with o c show ?thesis by (auto simp: run_scenario_def Let_def split: option.splits)
qed

lemma run_scenarios_synthetic:
  "list_all2 (scenario_runs E) scs ns \<Longrightarrow> \<forall>n \<in> set ns. 0 < n \<and> n \<le> 2 ^ 46 \<Longrightarrow> \<not> has_rdtscp T \<Longrightarrow>
     \<exists>c'. run_scenarios E T sf hz scs c = Some (concat (map2 (\<lambda>sc n. print_report (sc_name sc) flat_report
        (if sf \<or> sc_count sc \<noteq> None then n else 0) hz) scs ns), c')"
proof (induction arbitrary: c rule: list_all2_induct)
  case (Cons sc scs n ns)
  obtain c1 where 1: "run_scenario E T sf hz sc c =
      Some (print_report (sc_name sc) flat_report (if sf \<or> sc_count sc \<noteq> None then n else 0) hz, c1)"
    using run_scenario_synthetic [OF Cons(1)] Cons.prems by fastforce
  obtain c2 where "run_scenarios E T sf hz scs c1 = Some (concat (map2 (\<lambda>sc n. print_report (sc_name sc) flat_report
        (if sf \<or> sc_count sc \<noteq> None then n else 0) hz) scs ns), c2)"
    using Cons.IH [of c1] Cons.prems by fastforce
  with 1 show ?case by simp
qed simp

lemma digits [simp]: "digit_char 0 = CHR ''0''" "digit_char (Suc 0) = CHR ''1''" "digit_char 1 = CHR ''1''" "digit_char 2 = CHR ''2''" "digit_char 5 = CHR ''5''"
  by (simp_all add: digit_char_def char_of_def bit_iff_odd)

lemma flat_line:
  "print_report name flat_report n 1 = left_justify 36 name @ '' n='' @ left_justify 8 (dec n) @
     '' p50=  100.0 p90=  100.0 p99=  100.0 p99.9=  100.0 max=    100.0 mean=  100.0 cycles'' @ newline"
proof -
  have "rne 1000 = 1000" using rne_of_int [of 1000] by simp
  then have "fixed_point 1 100 = ''100.0''" by (simp add: fixed_point_def dec.simps zero_pad_def)
  then show ?thesis by (simp add: print_report_def flat_report_def right_justify_def numeral_nat)
qed

text \<open>
  C38: on a build without \<open>RDTSCP\<close> the whole output is determined. Each of the six lines shows
  100.0 for every percentile, the maximum and the mean, in every build flavor and whatever the
  generator draws; the sample counts are the measured calls of the scenarios, except that a
  compiler that moves the samples before it asks for their number prints 0 for all but the first.
\<close>

theorem synthetic_output:
  assumes "\<not> has_rdtscp T"
  shows "bench_main E T price_first size_first = Some (
    ''=== HFT RDTSC Latency Harness ==='' @ newline @
    ''[*] RDTSCP unavailable '' @ em_dash @ '' synthetic counter, RELATIVE numbers only'' @ newline @
    concat (map (\<lambda>(name, n). left_justify 36 name @ '' n='' @ left_justify 8 (dec n) @
        '' p50=  100.0 p90=  100.0 p99=  100.0 p99.9=  100.0 max=    100.0 mean=  100.0 cycles'' @ newline)
      [(''insert (passive limit)'', 200000),
       (''match (aggressive limit vs 1 maker)'', if size_first then 100000 else 0),
       (''sweep (10 levels per taker)'', if size_first then 2000 else 0),
       (''cancel (resting order)'', if size_first then 200000 else 0),
       (''churn (adds on fragmented pool)'', if size_first then 10000 else 0),
       (''mixed (50pct add / 25pct match / 25pct cancel)'', if size_first then 50000 else 0)]) @
    ''=== done ==='' @ newline, 0)"
proof -
  let ?c = "\<lparr>tsc_reads = 0, g_fake_tsc = 0\<rparr>"
  have e: "estimate_tsc_hz T ?c = Some ((1, False), ?c)" using assms by (simp add: estimate_tsc_hz_def)
  obtain c' where r: "run_scenarios E T size_first 1 (bench_scenarios price_first) ?c =
      Some (concat (map2 (\<lambda>sc n. print_report (sc_name sc) flat_report (if size_first \<or> sc_count sc \<noteq> None then n else 0) 1)
        (bench_scenarios price_first) [200000, 100000, 2000, 200000, 10000, 50000]), c')"
    using run_scenarios_synthetic [OF scenarios_run [of E price_first] _ assms, of size_first 1 ?c] by fastforce
  show ?thesis unfolding bench_main_def e bind.simps prod.case r flat_line by (simp add: tsc_banner_def bench_scenarios_def)
qed

theorem synthetic_output_witness:
  "\<exists>out rest. bench_main E_audit \<lparr>has_rdtscp = False, rdtscp_at = (\<lambda>k. 0), steady_at = (\<lambda>k. 0)\<rparr> False True = Some (out, 0) \<and>
     out = ''=== HFT RDTSC Latency Harness ==='' @ newline @ rest"
  using synthetic_output [of "\<lparr>has_rdtscp = False, rdtscp_at = (\<lambda>k. 0), steady_at = (\<lambda>k. 0)\<rparr>" E_audit False True] by simp

section \<open>The rate printed\<close>

text \<open>
  At 100 cycles per operation and 2 GHz an operation takes 50 ns, a rate of 20 million per
  second; the line says 0.02 million: the quotient it prints is in operations per nanosecond.
\<close>

lemma rate_in_wrong_unit:
  assumes "mean r = 100"
  shows "\<exists>pre. print_report name r n 2000000000 = pre @ replicate 36 (CHR '' '') @ ''    | ~50.0 ns/op mean | ~0.02 M ops/sec (TSC 2.000 GHz)'' @ newline"
proof -
  have ghz: "div_d 2000000000 (double_of 1000000000) = 2"
    using double_of_exact [of 1000000000] fl_of_nat [of 2] by (simp add: div_d_def)
  have ns: "div_d 100 2 = 50" using fl_of_nat [of 50] by (simp add: div_d_def)
  have "rne (fl (1 / 50) * 100) = 2"
  proof -
    have "\<bar>fl (1 / 50) - 1 / 50\<bar> \<le> 1 / 50 / 2 ^ 53" by (rule fl_error) simp
    then have "\<bar>fl (1 / 50) * 100 - 2\<bar> \<le> 1 / 4" unfolding abs_le_iff by (simp add: algebra_simps)
    then have "\<bar>of_int (rne (fl (1 / 50) * 100)) - (2 :: rat)\<bar> < 1" using rne_near [of "fl (1 / 50) * 100"] by linarith
    then show ?thesis by linarith
  qed
  then have "fixed_point 2 (div_d 2 100) = ''0.02''" by (simp add: fixed_point_def div_d_def dec.simps zero_pad_def)
  moreover have two_zeros: "replicate 2 (CHR ''0'') = ''00''" by (simp add: numeral_2_eq_2)
  have "rne 500 = 500" "rne 2000 = 2000" using rne_of_int [of 500] rne_of_int [of 2000] by simp_all
  then have "fixed_point 1 50 = ''50.0''" "fixed_point 3 2 = ''2.000''"
    by (simp_all add: fixed_point_def dec.simps zero_pad_def two_zeros)
  moreover have "\<exists>pre. print_report name r n 2000000000 = pre @ (if (2000000000 :: double) > 1000000000 \<and> mean r > 0 then
        let ghz = div_d 2000000000 (double_of 1000000000) in
        left_justify 36 '''' @ ''    | ~'' @ fixed_point 1 (div_d (mean r) ghz) @ '' ns/op mean | ~'' @
        fixed_point 2 (div_d ghz (mean r)) @ '' M ops/sec (TSC '' @ fixed_point 3 ghz @ '' GHz)'' @ newline
      else [])"
    unfolding print_report_def append_assoc [symmetric] by (rule exI, rule refl)
  ultimately show ?thesis by (auto simp: assms ghz ns left_justify_def)
qed

end
