(* ===== verification/Journal_Text.thy ===== *)
theory Journal_Text
  imports Journal Text_Format
begin

text \<open>
  The text \<open>Journal::dump\<close> writes: one line per entry, with the conversions of its \<open>fprintf\<close>
  format written out, and a reader of such lines, which recovers the entries. The text of a
  postmortem therefore loses nothing of what the ring holds.
\<close>

section \<open>A line\<close>

definition journal_line :: "JournalEntry \<Rightarrow> string" where
  "journal_line e = ''['' @ zero_pad 16 (dec (unat (e_timestamp e))) @ ''] '' @
     left_justify 13 (journal_event_name (e_event e)) @ '' id='' @ left_justify 8 (dec (unat (e_id e))) @
     '' px='' @ left_justify 8 (dec (unat (e_price e))) @ '' qty='' @ left_justify 8 (dec (unat (e_quantity e))) @
     '' side='' @ dec (unat (e_side e)) @ '' reason='' @ dec (unat (e_reason e)) @ [CHR 0x0A]"

definition dump_text :: "Journal \<Rightarrow> nat \<Rightarrow> string" where
  "dump_text j max_lines = concat (map journal_line (journal_dump j max_lines))"

section \<open>Reading a line back\<close>

definition expect :: "string \<Rightarrow> string \<Rightarrow> string option" where
  "expect p s = (if take (length p) s = p then Some (drop (length p) s) else None)"

text \<open>A key, a number, and the spaces after it.\<close>

definition read_field :: "string \<Rightarrow> string \<Rightarrow> (nat \<times> string) option" where
  "read_field key s = do {
     s \<leftarrow> expect key s;
     Some (dec_value (takeWhile is_digit s), dropWhile (\<lambda>c. c = CHR '' '') (dropWhile is_digit s))
   }"

definition event_named :: "string \<Rightarrow> u8 option" where
  "event_named s = find (\<lambda>e. journal_event_name e = s) (map event_u8
     [OrderSubmitted, OrderRejected, OrderRested, TradeExecuted, MakerFilled, OrderCancelled, EvPoolExhausted,
      BestBidChanged, BestAskChanged])"

definition read_line :: "string \<Rightarrow> (JournalEntry \<times> string) option" where
  "read_line s = do {
     (ts, s) \<leftarrow> read_field ''['' s;
     s \<leftarrow> expect '']'' s;
     let s = dropWhile (\<lambda>c. c = CHR '' '') s;
     ev \<leftarrow> event_named (takeWhile (\<lambda>c. c \<noteq> CHR '' '') s);
     let s = dropWhile (\<lambda>c. c = CHR '' '') (dropWhile (\<lambda>c. c \<noteq> CHR '' '') s);
     (i, s) \<leftarrow> read_field ''id='' s;
     (px, s) \<leftarrow> read_field ''px='' s;
     (q, s) \<leftarrow> read_field ''qty='' s;
     (sd, s) \<leftarrow> read_field ''side='' s;
     (r, s) \<leftarrow> read_field ''reason='' s;
     s \<leftarrow> expect [CHR 0x0A] s;
     Some (\<lparr>e_timestamp = of_nat ts, e_id = of_nat i, e_price = of_nat px, e_quantity = of_nat q,
        e_event = ev, e_reason = of_nat r, e_side = of_nat sd, e_pad = 0\<rparr>, s)
   }"

text \<open>All lines of a text; a line that cannot be read ends the reading with an error.\<close>

fun read_lines :: "nat \<Rightarrow> string \<Rightarrow> JournalEntry list option" where
  "read_lines n [] = Some []"
| "read_lines 0 s = None"
| "read_lines (Suc n) s = do {
     (e, s) \<leftarrow> read_line s;
     es \<leftarrow> read_lines n s;
     Some (e # es)
   }"

definition read_dump :: "string \<Rightarrow> JournalEntry list option" where
  "read_dump s = read_lines (length s) s"

section \<open>The round trip\<close>

lemma expect_append [simp]: "expect p (p @ s) = Some s"
  by (simp add: expect_def)

text \<open>A number followed by spaces and the start \<open>c\<close> of what comes next.\<close>

lemma read_field_ok:
  assumes "\<forall>c \<in> set d. is_digit c" "c \<noteq> CHR '' ''" "\<not> is_digit c"
  shows "read_field key (key @ d @ replicate k (CHR '' '') @ c # s) = Some (dec_value d, c # s)"
proof -
  have sp: "\<not> is_digit (CHR '' '')" by (simp add: is_digit_def)
  have "takeWhile is_digit (d @ replicate k (CHR '' '') @ c # s) = d"
    "dropWhile is_digit (d @ replicate k (CHR '' '') @ c # s) = replicate k (CHR '' '') @ c # s"
    using assms sp by (cases k; simp add: takeWhile_append dropWhile_append)+
  moreover have "dropWhile (\<lambda>c. c = CHR '' '') (replicate k (CHR '' '') @ c # s) = c # s"
    using assms(2) by (induction k) simp_all
  ultimately show ?thesis by (simp add: read_field_def)
qed

lemma read_dec_ok:
  assumes "c \<noteq> CHR '' ''" "\<not> is_digit c"
  shows "read_field key (key @ left_justify w (dec n) @ CHR '' '' # c # s) = Some (n, c # s)"
    "read_field key (key @ dec n @ CHR '' '' # c # s) = Some (n, c # s)"
    "read_field key (key @ dec n @ c # s) = Some (n, c # s)"
proof -
  note d = dec_digits [of _ n]
  have r: "replicate k (CHR '' '') @ CHR '' '' # t = replicate (Suc k) (CHR '' '') @ t" for k t
    by (simp add: replicate_append_same [symmetric])
  show "read_field key (key @ left_justify w (dec n) @ CHR '' '' # c # s) = Some (n, c # s)"
    using read_field_ok [of "dec n" c key "Suc (w - length (dec n))" s] d assms
    unfolding left_justify_def append_assoc r by (simp add: dec_value_dec)
  show "read_field key (key @ dec n @ CHR '' '' # c # s) = Some (n, c # s)"
    using read_field_ok [of "dec n" c key 1 s] d assms by (simp add: dec_value_dec)
  show "read_field key (key @ dec n @ c # s) = Some (n, c # s)"
    using read_field_ok [of "dec n" c key 0 s] d assms by (simp add: dec_value_dec)
qed

lemma event_named_ok: "event_named (journal_event_name (event_u8 ev)) = Some (event_u8 ev)"
  by (cases ev) (simp_all add: event_named_def journal_event_name_def)

lemma event_name_chars: "CHR '' '' \<notin> set (journal_event_name e)" "journal_event_name e \<noteq> []"
  by (simp_all add: journal_event_name_def)

lemma read_name_ok:
  assumes "c \<noteq> CHR '' ''"
  shows "dropWhile (\<lambda>c. c = CHR '' '') (CHR '' '' # left_justify w (journal_event_name e) @ CHR '' '' # c # s) =
      left_justify w (journal_event_name e) @ CHR '' '' # c # s"
    "takeWhile (\<lambda>c. c \<noteq> CHR '' '') (left_justify w (journal_event_name e) @ CHR '' '' # c # s) = journal_event_name e"
    "dropWhile (\<lambda>c. c = CHR '' '')
       (dropWhile (\<lambda>c. c \<noteq> CHR '' '') (left_justify w (journal_event_name e) @ CHR '' '' # c # s)) = c # s"
proof -
  obtain a n where n: "journal_event_name e = a # n" using event_name_chars(2) [of e] by (cases "journal_event_name e") auto
  have an: "a \<noteq> CHR '' ''" "CHR '' '' \<notin> set n" using event_name_chars(1) [of e] n by auto
  have r: "replicate k (CHR '' '') @ CHR '' '' # t = replicate (Suc k) (CHR '' '') @ t" for k t
    by (simp add: replicate_append_same [symmetric])
  have d: "dropWhile (\<lambda>c. c = CHR '' '') (replicate k (CHR '' '') @ c # s) = c # s" for k
    using assms by (induction k) simp_all
  have w: "takeWhile (\<lambda>c. c \<noteq> CHR '' '') (n @ replicate (Suc k) (CHR '' '') @ t) = n"
    "dropWhile (\<lambda>c. c \<noteq> CHR '' '') (n @ replicate (Suc k) (CHR '' '') @ t) = replicate (Suc k) (CHR '' '') @ t" for k t
    using an(2) by (induction n) auto
  show "dropWhile (\<lambda>c. c = CHR '' '') (CHR '' '' # left_justify w (journal_event_name e) @ CHR '' '' # c # s) =
      left_justify w (journal_event_name e) @ CHR '' '' # c # s"
    by (simp add: left_justify_def n an)
  show "takeWhile (\<lambda>c. c \<noteq> CHR '' '') (left_justify w (journal_event_name e) @ CHR '' '' # c # s) = journal_event_name e"
    using an(1) unfolding left_justify_def append_assoc r n by (simp only: append_Cons takeWhile.simps if_True w not_False_eq_True simp_thms)
  show "dropWhile (\<lambda>c. c = CHR '' '')
       (dropWhile (\<lambda>c. c \<noteq> CHR '' '') (left_justify w (journal_event_name e) @ CHR '' '' # c # s)) = c # s"
    using an(1) unfolding left_justify_def append_assoc r n by (simp only: append_Cons dropWhile.simps if_True w d not_False_eq_True simp_thms)
qed

definition line_ok :: "JournalEntry \<Rightarrow> bool" where
  "line_ok e \<longleftrightarrow> (\<exists>ev. e_event e = event_u8 ev) \<and> e_pad e = 0"

lemma read_line_ok:
  assumes "line_ok e"
  shows "read_line (journal_line e @ s) = Some (e, s)"
proof -
  obtain ev where ev: "e_event e = event_u8 ev" "e_pad e = 0" using assms by (auto simp: line_ok_def)
  have key: "read_field ''['' (''['' @ zero_pad 16 (dec n) @ CHR '']'' # t) = Some (n, CHR '']'' # t)" for n t
    using read_field_ok [of "zero_pad 16 (dec n)" "CHR '']''" "''[''" 0 t] zero_pad_digits
    by (simp add: dec_value_zero_pad dec_value_dec is_digit_def)
  have nd: "\<not> is_digit (CHR ''p'')" "\<not> is_digit (CHR ''q'')" "\<not> is_digit (CHR ''s'')" "\<not> is_digit (CHR ''r'')"
    "\<not> is_digit (CHR 0x0A)" by (simp_all add: is_digit_def)
  note keys = key read_dec_ok [where key = "''id=''"] read_dec_ok [where key = "''px=''"] read_dec_ok [where key = "''qty=''"]
    read_dec_ok [where key = "''side=''"] read_dec_ok [where key = "''reason=''"]
  note keys = keys [simplified]
  have "expect (c # p) (c # t) = expect p t" for c p t by (simp add: expect_def)
  moreover have "expect [] t = Some t" for t by (simp add: expect_def)
  ultimately show ?thesis
    by (simp add: read_line_def journal_line_def keys nd read_name_ok [simplified] ev event_named_ok)
qed

lemma journal_line_Cons: "\<exists>c t. journal_line e = c # t"
  by (simp add: journal_line_def)

lemma read_lines_ok:
  "list_all line_ok es \<Longrightarrow> length es \<le> n \<Longrightarrow> read_lines n (concat (map journal_line es)) = Some es"
proof (induction es arbitrary: n)
  case (Cons e es)
  then obtain k where n: "n = Suc k" by (cases n) auto
  obtain c t where c: "journal_line e = c # t" using journal_line_Cons by blast
  have r: "read_line (c # t @ concat (map journal_line es)) = Some (e, concat (map journal_line es))"
    using read_line_ok [of e "concat (map journal_line es)"] Cons.prems c by simp
  show ?case using Cons.IH [of k] Cons.prems by (simp add: n c r)
qed simp

lemma read_dump_ok:
  assumes "list_all line_ok (journal_dump j m)"
  shows "read_dump (dump_text j m) = Some (journal_dump j m)"
proof -
  have "length es \<le> length (concat (map journal_line es))" for es
  proof (induction es)
    case (Cons e es)
    then show ?case using journal_line_Cons [of e] by auto
  qed simp
  then show ?thesis using assms by (simp add: read_dump_def dump_text_def read_lines_ok)
qed

end
