(* ===== verification/Book_Log.thy ===== *)
theory Book_Log
  imports Engine_Samples Journal_Text
begin

text \<open>
  The journal of an instrumented book is the log of \<open>Log_Spec\<close>: every call of \<open>add_order\<close> and
  \<open>cancel_order\<close> appends exactly the events the specification gives for it, in that order.
\<close>

section \<open>Moving the best price\<close>

text \<open>The event of a best price of side \<open>s\<close> that moved from \<open>p\<close>; \<open>av\<close> says whether the side has orders left.\<close>

definition advance_log :: "Side \<Rightarrow> Price \<Rightarrow> bool \<Rightarrow> Price \<Rightarrow> LogEvent list" where
  "advance_log s p av p' = (if av \<and> p' = next_tick s p then [] else [best_event s p'])"

lemma scan_journal: "scan_best_ask i b = Some b' \<Longrightarrow> journal b' = journal b" "scan_best_bid i b = Some b' \<Longrightarrow> journal b' = journal b"
  by (auto simp: scan_best_ask_def scan_best_bid_def bind_eq_Some_conv split: option.splits)

lemma best_logged:
  "logged E b [best_event Sell px] (HFT_JOURNAL E BestAskChanged 0 px 0 (side_u8 Sell) b)"
  "logged E b [best_event Buy px] (HFT_JOURNAL E BestBidChanged 0 px 0 (side_u8 Buy) b)"
  using logged_event [of E b BestAskChanged 0 px 0 Sell] logged_event [of E b BestBidChanged 0 px 0 Buy]
  by (simp_all add: HFT_JOURNAL_eq best_event_def)

lemma advance_ask_logged:
  assumes c: "core E b q F" and h: "has_asks b" and top: "side_top Sell b (insert (best_ask_idx b) (occ (q Sell)))"
    and a: "advance_best_ask E b = Some b'" and t': "side_top Sell b' (occ (q Sell))" "same_data b b'"
  shows "logged E b (advance_log Sell (best_ask b) (has_asks b') (best_ask b')) b'"
proof -
  have pr: "unat (best_ask b) = unat (min_price b) + best_ask_idx b" and li: "best_ask_idx b < range_of b"
    using top h by (auto simp: bits_rel_def)
  note nx = ask_neighbour [OF c pr li]
  have mp: "min_price b' = min_price b" and rg: "range_of b' = range_of b"
    using t'(2) static_range [of b' b] by (simp_all add: same_data_def static_def)
  let ?near = "Suc (best_ask_idx b) < range_of b \<and> Suc (best_ask_idx b) \<in> occ (q Sell)"
  have near: "has_asks b' \<Longrightarrow> best_ask b' = best_ask b + 1 \<Longrightarrow> ?near"
    using t'(1) nx(1) mp rg by (auto simp: bits_rel_def)
  obtain bs sm where cl: "price_bit_clear (asks_bitset b) (asks_summary b) (best_ask_idx b) = Some (bs, sm)"
    using a by (auto simp: advance_best_ask_def price_index [OF pr] Let_def bind_eq_Some_conv split del: if_split)
  note s = a [unfolded advance_ask_step [OF c pr li cl]]
  show ?thesis
  proof (cases ?near)
    case True
    then have "has_asks b'" "best_ask b' = best_ask b + 1" "journal b' = journal b" using s h by auto
    then show ?thesis by (simp add: advance_log_def next_tick_def logged_same)
  next
    case False
    then obtain b2 where b2: "scan_best_ask (best_ask_idx b) (b\<lparr>asks_bitset := bs, asks_summary := sm\<rparr>) = Some b2"
      "b' = HFT_JOURNAL E BestAskChanged 0 (best_ask b2) 0 (side_u8 Sell) b2"
      using s by (auto simp: bind_eq_Some_conv)
    have j: "journal b2 = journal b" using scan_journal(1) [OF b2(1)] by simp
    have "best_ask b' = best_ask b2" by (simp add: b2(2) HFT_JOURNAL_eq HFT_JOURNAL_REASON_def)
    moreover have "logged E b [best_event Sell (best_ask b2)] b'"
      using best_logged(1) [of E b2 "best_ask b2"] by (simp add: b2(2) logged_def j)
    ultimately show ?thesis using near False by (auto simp: advance_log_def next_tick_def)
  qed
qed

lemma price_below_index:
  assumes c: "core E b q F" and "unat (p :: Price) = unat (min_price b) + i" "unat (p - 1) = unat (min_price b) + k" "k < range_of b"
  shows "i = Suc k"
proof -
  have "p \<noteq> 0"
  proof
    assume "p = 0"
    then have "unat (min_price b) + k = 2 ^ 32 - 1" using assms(3) by (simp add: unsigned_minus_1_eq_mask mask_eq_exp_minus_1)
    moreover have "unat (min_price b) + k < 2 ^ 32 - 1"
      using index_price [of b k] c assms(4) unat_max_less [of "max_price b"]
      by (auto simp: core_def geometry_def range_of_def word_le_nat_alt UINT32_MAX_def word_unat_eq_iff)
    ultimately show False by simp
  qed
  then have "unat (p - 1) = unat p - 1" "0 < unat p" by (simp_all add: unat_minus_one unat_gt_0)
  then show ?thesis using assms(2,3) by arith
qed

lemma advance_bid_logged:
  assumes c: "core E b q F" and h: "has_bids b" and top: "side_top Buy b (insert (best_bid_idx b) (occ (q Buy)))"
    and a: "advance_best_bid E b = Some b'" and t': "side_top Buy b' (occ (q Buy))" "same_data b b'"
  shows "logged E b (advance_log Buy (best_bid b) (has_bids b') (best_bid b')) b'"
proof -
  have pr: "unat (best_bid b) = unat (min_price b) + best_bid_idx b" and li: "best_bid_idx b < range_of b"
    using top h by (auto simp: bits_rel_def)
  have mp: "min_price b' = min_price b" and rg: "range_of b' = range_of b"
    using t'(2) static_range [of b' b] by (simp_all add: same_data_def static_def)
  let ?near = "0 < best_bid_idx b \<and> best_bid_idx b - 1 \<in> occ (q Buy)"
  have near: ?near if "has_bids b'" "best_bid b' = best_bid b - 1"
  proof -
    have b': "unat (best_bid b - 1) = unat (min_price b) + best_bid_idx b'" "best_bid_idx b' \<in> occ (q Buy)" "best_bid_idx b' < range_of b"
      using t'(1) that mp rg by (auto simp: bits_rel_def)
    then show ?thesis using price_below_index [OF c pr b'(1,3)] by simp
  qed
  obtain bs sm where cl: "price_bit_clear (bids_bitset b) (bids_summary b) (best_bid_idx b) = Some (bs, sm)"
    using a by (auto simp: advance_best_bid_def price_index [OF pr] Let_def bind_eq_Some_conv split del: if_split)
  note s = a [unfolded advance_bid_step [OF c pr li cl]]
  show ?thesis
  proof (cases ?near)
    case True
    then have "has_bids b'" "best_bid b' = best_bid b - 1" "journal b' = journal b" using s h by auto
    then show ?thesis by (simp add: advance_log_def next_tick_def logged_same)
  next
    case False
    then obtain b2 where b2: "scan_best_bid (best_bid_idx b) (b\<lparr>bids_bitset := bs, bids_summary := sm\<rparr>) = Some b2"
      "b' = HFT_JOURNAL E BestBidChanged 0 (best_bid b2) 0 (side_u8 Buy) b2"
      using s by (auto simp: bind_eq_Some_conv)
    have j: "journal b2 = journal b" using scan_journal(2) [OF b2(1)] by simp
    have "best_bid b' = best_bid b2" by (simp add: b2(2) HFT_JOURNAL_eq HFT_JOURNAL_REASON_def)
    moreover have "logged E b [best_event Buy (best_bid b2)] b'"
      using best_logged(2) [of E b2 "best_bid b2"] by (simp add: b2(2) logged_def j)
    ultimately show ?thesis using near False by (auto simp: advance_log_def next_tick_def)
  qed
qed

section \<open>The matching loops\<close>

text \<open>The interface of a matching loop, with what it takes to follow its journal.\<close>

locale logged_side = match_side +
  assumes advance_logged: "core E b q F \<Longrightarrow> avail b \<Longrightarrow> side_top s b (insert (best_idx b) (occ (q s))) \<Longrightarrow>
      advance E b = Some b' \<Longrightarrow> side_top s b' (occ (q s)) \<Longrightarrow> same_data b b' \<Longrightarrow>
      logged E b (advance_log s (best b) (avail b') (best b')) b'"
    and none_price: "side_top s b S \<Longrightarrow> \<not> avail b \<Longrightarrow> best b = no_price (cfg_of b) s"
    and best_field: "top_of s b = top_of s b' \<Longrightarrow> best b = best b'"
begin

lemma side_front:
  assumes "core E b q F" "side_top s b (occ (q s))" "avail b"
  shows "\<exists>r rs. abs_side s b q = r # rs \<and> rprice r = best b"
proof -
  let ?i = "best_idx b"
  have i: "?i \<in> occ (q s)" "\<forall>k \<in> occ (q s). tick_first s ?i k" "unat (best b) = unat (min_price b) + ?i"
    using top_best [OF assms(2,3)] by auto
  then have il: "?i < length (q s)" "?i < range_of b" using assms(1) by (auto simp: occ_def core_def side_queues_def)
  obtain x xs where x: "q s ! ?i = x # xs" using i(1) by (auto simp: occ_def neq_Nil_conv)
  have "abs_side s b q = map (rest_of (slab b)) (x # xs @ side_seq s ((q s)[?i := []]))"
    using side_seq_best [OF il(1) i(2), of "x # xs"] x by (metis abs_side_def append_Cons list_update_id)
  moreover have "o_price (slot (slab b) x) = best b"
    using core_price [OF assms(1) il(2), of x s] x i(3) by (simp add: word_unat_eq_iff)
  ultimately show ?thesis by (simp add: rest_of_def del: side_seq.simps)
qed

text \<open>What the best-price code logs is what the specification says of the orders left.\<close>

lemma moved_log:
  assumes "book_rel E b q F" "\<forall>r \<in> set (abs_side s b q). rprice r \<noteq> p"
  shows "advance_log s p (avail b) (best b) = best_moved (cfg_of b) s p (abs_side s b q)"
proof (cases "avail b")
  case True
  with side_front [of E b q F] assms(1) obtain r rs where "abs_side s b q = r # rs" "rprice r = best b"
    by (auto simp: book_rel_def simp del: side_top.simps)
  then show ?thesis using True assms(2) by (auto simp: advance_log_def best_moved_def)
next
  case False
  have t: "side_top s b (occ (q s))" using assms(1) by (simp add: book_rel_def del: side_top.simps)
  then have "abs_side s b q = []"
    using abs_side_empty [of E b q F s] top_none [OF t False] assms(1) by (simp add: book_rel_def)
  then show ?thesis using False none_price [OF t] by (simp add: advance_log_def best_moved_def)
qed

lemma match_log_stop: "spec_fill (crosses s' px) t q rs = ([], q', rs') \<Longrightarrow> match_log cfg s' px t q rs = []"
  by (cases rs) (auto split: if_splits prod.splits)

text \<open>The orders behind a drained level are at other prices.\<close>

lemma behind_prices:
  assumes "core E b q F" "core E b1 (q(s := (q s)[i := zs])) F1" "static b1 = static b" "i < range_of b"
    "unat p = unat (min_price b) + i" "x \<in> set (side_seq s ((q s)[i := []]))"
  shows "rprice (rest_of (slab b1) x) \<noteq> p"
proof -
  have il: "i < length (q s)" using core_slots(4) [OF assms(1,4)] assms(4) by simp
  have "x \<in> set (concat ((q s)[i := []]))" using assms(6) by (simp add: side_seq_set del: side_seq.simps)
  then obtain j where j: "j < length (q s)" "j \<noteq> i" "x \<in> set (q s ! j)"
    using set_concat_nth_upd [OF il, of x "[]"] by auto
  then have "unat (o_price (slot (slab b1) x)) = unat (min_price b1) + j"
    using core_price [OF assms(2), of j x s] core_slots(4) [OF assms(1,4), of s] static_range [OF assms(3)] by simp
  moreover have "min_price b1 = min_price b" using assms(3) by (simp add: static_def)
  ultimately show ?thesis using assms(5) j(2) by (auto simp: rest_of_def)
qed

text \<open>The log of a pass: the fills of the best level, then, when that drained it, the move of the best price and the rest.\<close>

lemma pass_log:
  assumes c: "core E b q F" and "i < range_of b" "q s ! i \<noteq> []" "unat p = unat (min_price b) + i" "qty > 0" "crosses (opposite s) px p"
    and "spec_fill (\<lambda>_. True) t qty (map (rest_of (slab b)) (q s ! i)) = (ts1, qty1, map (rest_of P) zs)" "\<forall>r \<in> set ws. rprice r \<noteq> p"
  shows "match_log cfg (opposite s) px t qty (map (rest_of (slab b)) (q s ! i) @ ws) =
    fill_log (opposite s) t qty (map (rest_of (slab b)) (q s ! i)) @
    (if zs = [] then best_moved cfg s p ws @ match_log cfg (opposite s) px t qty1 ws else [])"
proof -
  have "\<forall>r \<in> set (map (rest_of (slab b)) (q s ! i)). rprice r = p \<and> rqty r \<noteq> 0"
    using core_price [OF c assms(2), of _ s] assms(2,4) c
    by (auto simp: rest_of_def word_unat_eq_iff core_def side_queues_def order_at_def)
  then show ?thesis
    using match_log_level [of "map (rest_of (slab b)) (q s ! i)" p "opposite s" px t qty ts1 qty1 _ ws cfg] assms(3,5-)
    by (auto simp: word_gt_0)
qed

text \<open>Moving past a drained level: from the book \<open>b1\<close> whose best level \<open>b\<close> still had, to the next pass.\<close>

lemma drained_log:
  assumes tp: "side_top s b (occ (q s))" "avail b" "best_idx b \<in> occ (q s)" and b1: "core E b1 q' F1" "static b1 = static b" "\<And>u. top_of u b1 = top_of u b"
    and oc: "occ (q' s) = occ (q s) - {best_idx b}" and b2: "advance E b1 = Some b2" "book_rel E b2 q' F1" "same_data b1 b2"
    and ws: "abs_side s b1 q' = ws" "\<forall>r \<in> set ws. rprice r \<noteq> best b"
  shows "logged E b1 (best_moved (cfg_of b) s (best b) ws) b2" "abs_side s b2 q' = ws" "cfg_of b2 = cfg_of b"
proof -
  have av: "avail b1" "best_idx b1 = best_idx b" "best b1 = best b" using top_fields [of b1 b] best_field [of b1 b] b1(3) tp(2) by auto
  have "insert (best_idx b) (occ (q' s)) = occ (q s)" using oc tp(3) by auto
  then have "side_top s b1 (insert (best_idx b1) (occ (q' s)))" using tp(1) side_top_frame [OF b1(2,3)] av(2) by simp
  then have l: "logged E b1 (advance_log s (best b) (avail b2) (best b2)) b2"
    using advance_logged [OF b1(1) av(1) _ b2(1) book_relE(2) [OF b2(2)] b2(3)] av(3) by simp
  show a: "abs_side s b2 q' = ws" using ws(1) abs_side_data [OF b2(3)] by simp
  show cf: "cfg_of b2 = cfg_of b" using static_cfg [of b2 b] b2(3) b1(2) by (simp add: same_data_def)
  have "advance_log s (best b) (avail b2) (best b2) = best_moved (cfg_of b) s (best b) ws"
    using moved_log [OF b2(2), of "best b"] ws(2) by (simp only: cf a)
  with l show "logged E b1 (best_moved (cfg_of b) s (best b) ws) b2" by simp
qed

lemma loop_logged:
  assumes "book_rel E b q F" "loop n E t px qty b ts = Some (qty', b', ts')"
  shows "logged E b (match_log (cfg_of b) (opposite s) px t qty (abs_side s b q)) b'"
  using assms
proof (induction n arbitrary: b q F qty ts)
  case (Suc n)
  note br = Suc.prems(1)
  have c: "core E b q F" and tp: "side_top s b (occ (q s))" using br by (auto simp: book_rel_def simp del: side_top.simps)
  show ?case
  proof (cases "avail b \<and> qty > 0 \<and> crosses (opposite s) px (best b)")
    case False
    then show ?thesis using Suc.prems(2) loop_stop [OF False] match_log_stop [OF stop_spec [OF c tp False]]
      by (simp add: logged_same)
  next
    case True
    let ?i = "best_idx b" and ?cfg = "cfg_of b"
    have g: "avail b" "qty > 0" "crosses (opposite s) px (best b)" using True by auto
    obtain b1 qty1 ts1 zs F1 where p: "core E b1 (q(s := (q s)[?i := zs])) F1" "same_frame b b1"
      "zs \<noteq> [] \<longrightarrow> qty1 = 0" "?i \<in> occ (q s)" "occ ((q s)[?i := zs]) = (if zs = [] then occ (q s) - {?i} else occ (q s))"
      and seq: "abs_side s b1 (q(s := (q s)[?i := zs])) =
        map (rest_of (slab b1)) zs @ map (rest_of (slab b1)) (side_seq s ((q s)[?i := []]))"
      and step: "\<forall>n. loop (Suc n) E t px qty b ts = do {
        b \<leftarrow> (if zs = [] then advance E b1 else Some b1); loop n E t px qty1 b (ts @ ts1) }"
      and lg: "logged E b (fill_log (opposite s) t qty (map (rest_of (slab b)) (q s ! ?i))) b1"
        "spec_fill (\<lambda>_. True) t qty (map (rest_of (slab b)) (q s ! ?i)) = (ts1, qty1, map (rest_of (slab b1)) zs)"
        "abs_side s b q = map (rest_of (slab b)) (q s ! ?i) @ map (rest_of (slab b1)) (side_seq s ((q s)[?i := []]))"
      by (rule loop_pass [OF br g, where t = t and ts = ts]) (rule that; assumption)
    let ?q = "q(s := (q s)[?i := zs])" and ?ws = "map (rest_of (slab b1)) (side_seq s ((q s)[?i := []]))"
    let ?fill = "fill_log (opposite s) t qty (map (rest_of (slab b)) (q s ! ?i))"
    have st: "static b1 = static b" "\<And>u. top_of u b1 = top_of u b" using p(2) by (simp_all add: same_frame_def)
    have i: "?i < range_of b" "q s ! ?i \<noteq> []" "unat (best b) = unat (min_price b) + ?i"
      using p(4) c top_best [OF tp g(1)] by (auto simp: occ_def core_def side_queues_def)
    have ws: "\<forall>r \<in> set ?ws. rprice r \<noteq> best b" using behind_prices [OF c p(1) st(1) i(1,3)] by auto
    have ml: "match_log ?cfg (opposite s) px t qty (abs_side s b q) = ?fill @
        (if zs = [] then best_moved ?cfg s (best b) ?ws @ match_log ?cfg (opposite s) px t qty1 ?ws else [])"
      unfolding lg(3) by (rule pass_log [OF c i g(2,3) lg(2) ws])
    note rel = pass_rel [OF br g(1) p(4,1,2,5)]
    show ?thesis
    proof (cases "zs = []")
      case False
      then have "loop n E t px 0 b1 (ts @ ts1) = Some (qty', b', ts')" using Suc.prems(2) step p(3) by simp
      then have "b' = b1" using loop_stop [of b1 0 px _ E t "ts @ ts1"] by (cases n) (auto simp: loop_0)
      then show ?thesis using lg(1) ml False by simp
    next
      case True
      obtain b2 where b2: "advance E b1 = Some b2" "book_rel E b2 ?q F1" "same_data b1 b2" using rel(2) True by blast
      have "occ (?q s) = occ (q s) - {?i}" "abs_side s b1 ?q = ?ws" using p(5) seq True by simp_all
      note d = drained_log [where q = q and q' = ?q, OF tp g(1) p(4,1) st this(1) b2 this(2) ws]
      have "loop n E t px qty1 b2 (ts @ ts1) = Some (qty', b', ts')" using Suc.prems(2) step True b2(1) by simp
      from Suc.IH [OF b2(2) this] have "logged E b2 (match_log ?cfg (opposite s) px t qty1 ?ws) b'" by (simp only: d(2,3))
      then show ?thesis using logged_trans [OF logged_trans [OF lg(1) d(1)]] ml True by simp
    qed
  qed
qed (simp add: loop_0)

end

interpretation buy_log: logged_side Sell "match_buy_loop ignore_book" has_asks best_ask best_ask_idx advance_best_ask
  by unfold_locales (use advance_ask_logged in \<open>auto simp: no_price_def cfg_of_def\<close>)

interpretation sell_log: logged_side Buy "match_sell_loop ignore_book" has_bids best_bid best_bid_idx advance_best_bid
  by unfold_locales (use advance_bid_logged in \<open>auto simp: no_price_def cfg_of_def\<close>)

lemma match_logged:
  assumes br: "book_rel E b q F" and m: "match_order_direct ignore_book E side t px qty b = Some (qty', b', ts)"
  shows "logged E b (match_log (cfg_of b) side px t qty (resting (opposite side) (book_abs b))) b'"
proof (cases side)
  case Buy
  then show ?thesis using buy_log.loop_logged [OF br] m book_abs_resting [OF book_relE(1) [OF br], of Sell]
    by (simp add: match_order_direct_def del: match_buy_loop.simps)
next
  case Sell
  then show ?thesis using sell_log.loop_logged [OF br] m book_abs_resting [OF book_relE(1) [OF br], of Buy]
    by (simp add: match_order_direct_def del: match_sell_loop.simps)
qed

section \<open>Resting\<close>

lemma announce_bid_logged:
  assumes "announce_bid E e px i b = Some b'"
  shows "logged E b (if \<not> has_bids b \<or> px > best_bid b then [best_event Buy px] else []) b'"
proof -
  obtain bs sm where "b' = (if \<not> has_bids b \<or> px > best_bid b then HFT_JOURNAL E BestBidChanged 0 px 0 (side_u8 Buy)
      (b\<lparr>bids_bitset := bs, bids_summary := sm, best_bid := px, best_bid_idx := i, has_bids := True\<rparr>)
      else b\<lparr>bids_bitset := bs, bids_summary := sm\<rparr>)"
    using assms unfolding announce_bid_def Let_def bind_eq_Some_conv by (cases "\<not> has_bids b \<or> px > best_bid b") auto
  then show ?thesis using best_logged(2) [of E _ px] by (auto simp: logged_def)
qed

lemma announce_ask_logged:
  assumes "announce_ask E e px i b = Some b'"
  shows "logged E b (if \<not> has_asks b \<or> px < best_ask b then [best_event Sell px] else []) b'"
proof -
  obtain bs sm where "b' = (if \<not> has_asks b \<or> px < best_ask b then HFT_JOURNAL E BestAskChanged 0 px 0 (side_u8 Sell)
      (b\<lparr>asks_bitset := bs, asks_summary := sm, best_ask := px, best_ask_idx := i, has_asks := True\<rparr>)
      else b\<lparr>asks_bitset := bs, asks_summary := sm\<rparr>)"
    using assms unfolding announce_ask_def Let_def bind_eq_Some_conv by (cases "\<not> has_asks b \<or> px < best_ask b") auto
  then show ?thesis using best_logged(1) [of E _ px] by (auto simp: logged_def)
qed

text \<open>Whether a price improves on the best of its side, as the code and as the specification ask it.\<close>

lemma best_improves:
  assumes br: "book_rel E b q F"
  shows "(case resting s (book_abs b) of [] \<Rightarrow> [best_event s px]
      | r # _ \<Rightarrow> if no_worse s (rprice r) px then [] else [best_event s px]) =
    (case s of Buy \<Rightarrow> if \<not> has_bids b \<or> px > best_bid b then [best_event Buy px] else []
      | Sell \<Rightarrow> if \<not> has_asks b \<or> px < best_ask b then [best_event Sell px] else [])"
proof (cases "resting s (book_abs b)")
  case Nil
  then show ?thesis using has_side [OF br] by (cases s) auto
next
  case (Cons r rs)
  note c = book_relE(1) [OF br] and tp = book_relE(2) [OF br]
  show ?thesis
  proof (cases s)
    case Buy
    with Cons has_side(2) [OF br] sell_log.side_front [OF c tp] book_abs_resting [OF c, of Buy]
    have "has_bids b" "rprice r = best_bid b" by auto
    then show ?thesis using Cons Buy by (simp add: not_less)
  next
    case Sell
    with Cons has_side(1) [OF br] buy_log.side_front [OF c tp] book_abs_resting [OF c, of Sell]
    have "has_asks b" "rprice r = best_ask b" by auto
    then show ?thesis using Cons Sell by (simp add: not_less)
  qed
qed

lemma rest_logged:
  assumes br: "book_rel E b q F" and k: "k \<noteq> 0" "unat k \<le> max_order_id b" "order_map b ! unat k = INVALID_INDEX"
    and px: "min_price b \<le> px" "px \<le> max_price b" and qty: "qty \<noteq> 0"
    and r: "rest_order E k px qty side b = Some (r, b')"
  shows "logged E b (rest_log (cfg_of b) k px qty side (book_abs b)) b'"
proof (cases F)
  case Nil
  then have c: "core E b q []" using book_relE(1) [OF br] by simp
  then have "allocate E (order_pool b) = Some (INVALID_INDEX, order_pool b)" using mp.alloc_none by (simp add: core_def)
  then have "b' = HFT_JOURNAL_REASON E EvPoolExhausted k px qty (side_u8 side) 0 b"
    using r by (simp add: rest_order_def HFT_JOURNAL_eq)
  moreover have "rest_log (cfg_of b) k px qty side (book_abs b) = [log_event EvPoolExhausted k px qty side]"
    using abs_size [OF c] c by (simp add: rest_log_def cfg_of_def core_def)
  ultimately show ?thesis by (simp add: logged_event)
next
  case (Cons x F')
  have c: "core E b q (x # F')" using br Cons by (simp add: book_rel_def)
  define i where "i = unat (px - min_price b)"
  have up: "unat px = unat (min_price b) + i" using px by (simp add: i_def unat_sub word_le_nat_alt)
  have ir: "i < range_of b" using px up book_relE(3) [OF br] by (auto simp: geometry_def range_of_def word_le_nat_alt)
  let ?e = "level_is_empty (levels side b ! i)"
  obtain b2 where b2: "rest_order E k px qty side b = do {
       b \<leftarrow> (case side of Buy \<Rightarrow> announce_bid E ?e px i b2 | Sell \<Rightarrow> announce_ask E ?e px i b2);
       Some (Accepted, HFT_JOURNAL E OrderRested k px qty (side_u8 side) b) }"
     "\<forall>u. top_of u b2 = top_of u b" "journal b2 = journal b"
    using rest_linked [OF c ir up qty k] by blast
  have h: "has_bids b2 = has_bids b" "best_bid b2 = best_bid b" "has_asks b2 = has_asks b" "best_ask b2 = best_ask b"
    using b2(2) [rule_format, of Buy] b2(2) [rule_format, of Sell] by simp_all
  obtain b3 where b3: "(case side of Buy \<Rightarrow> announce_bid E ?e px i b2 | Sell \<Rightarrow> announce_ask E ?e px i b2) = Some b3"
    "b' = HFT_JOURNAL E OrderRested k px qty (side_u8 side) b3"
    using r b2(1) by (auto simp: bind_eq_Some_conv)
  have "logged E b2 (case side of Buy \<Rightarrow> if \<not> has_bids b2 \<or> px > best_bid b2 then [best_event Buy px] else []
      | Sell \<Rightarrow> if \<not> has_asks b2 \<or> px < best_ask b2 then [best_event Sell px] else []) b3"
    using b3(1) announce_bid_logged announce_ask_logged by (cases side) auto
  then have "logged E b2 (case resting side (book_abs b) of [] \<Rightarrow> [best_event side px]
      | r # _ \<Rightarrow> if no_worse side (rprice r) px then [] else [best_event side px]) b3"
    unfolding h best_improves [OF br] .
  from logged_trans [OF this logged_event [of E b3 OrderRested k px qty side]]
  show ?thesis using abs_size [OF c] c b2(3)
    by (simp add: rest_log_def cfg_of_def core_def logged_def b3(2) HFT_JOURNAL_eq)
qed

section \<open>Cancelling\<close>

lemma level_remove_journal: "level_remove s x i b = Some (l, b') \<Longrightarrow> journal b' = journal b"
  by (cases s) (auto simp: level_remove_def bind_eq_Some_conv)

lemma retire_journal:
  "retire_bid E px i b = Some b' \<Longrightarrow> journal b' = journal b" "retire_ask E px i b = Some b' \<Longrightarrow> journal b' = journal b"
  by (auto simp: retire_bid_def retire_ask_def update_best_bid_after_remove_def update_best_ask_after_remove_def
      Let_def bind_eq_Some_conv dest!: scan_journal split: if_splits)

lemma unlink_journal:
  assumes "unlink_order E s x px i b = Some b'"
  shows "journal b' = journal b"
proof -
  obtain l b1 where "level_remove s x i b = Some (l, b1)"
    "b' = b1 \<or> retire_bid E px i b1 = Some b' \<or> retire_ask E px i b1 = Some b'"
    using assms by (cases s) (auto simp: unlink_order_def bind_eq_Some_conv split: if_splits)
  then show ?thesis using level_remove_journal retire_journal by metis
qed

lemma find_id:
  "distinct (map rid rs) \<Longrightarrow> r \<in> set rs \<Longrightarrow> find (\<lambda>x. rid x = rid r) rs = Some r"
  "k \<notin> rid ` set rs \<Longrightarrow> find (\<lambda>x. rid x = k) rs = None"
  by (induction rs) (auto simp: image_iff)

lemma cancel_log_hit:
  assumes "distinct (book_ids B)" "r \<in> set (resting s B)" "rid r = k" "k \<noteq> 0" "unat k \<le> cfg_max_id cfg"
  shows "cancel_log cfg k B = [log_event OrderSubmitted k 0 0 Buy, log_event OrderCancelled k (rprice r) 0 s]"
proof -
  have d: "distinct (map rid (spec_bids B))" "distinct (map rid (spec_asks B))" "rid ` set (spec_bids B) \<inter> rid ` set (spec_asks B) = {}"
    using assms(1) by (auto simp: book_ids_def)
  show ?thesis
  proof (cases s)
    case Buy
    then show ?thesis using find_id(1) [OF d(1), of r] assms by (simp add: cancel_log_def)
  next
    case Sell
    then have "k \<notin> rid ` set (spec_bids B)" using d(3) assms(2,3) by auto
    then show ?thesis using find_id(2) [of k "spec_bids B"] find_id(1) [OF d(2), of r] assms Sell by (simp add: cancel_log_def)
  qed
qed

lemma cancel_log_miss: "k \<notin> set (book_ids B) \<Longrightarrow> k \<noteq> 0 \<Longrightarrow> unat k \<le> cfg_max_id cfg \<Longrightarrow>
    cancel_log cfg k B = [log_event OrderSubmitted k 0 0 Buy, reject_event k 0 0 Buy CancelFailed]"
  using find_id(2) [of k "spec_bids B"] find_id(2) [of k "spec_asks B"] by (simp add: cancel_log_def book_ids_def image_Un)

text \<open>What \<open>cancel_order_impl\<close> logs, by the slot the order map gives.\<close>

lemma cancel_steps:
  assumes c: "cancel_order_impl E k b = Some (r, b')" and k: "k \<noteq> 0" "unat k \<le> max_order_id b"
    and s: "order_map b ! unat k \<noteq> INVALID_INDEX \<Longrightarrow> o_side (slot (slab b) (order_map b ! unat k)) = side_u8 s"
  shows "logged E b (log_event OrderSubmitted k 0 0 Buy #
    (if order_map b ! unat k = INVALID_INDEX then [reject_event k 0 0 Buy CancelFailed]
     else [log_event OrderCancelled k (o_price (slot (slab b) (order_map b ! unat k))) 0 s])) b'"
proof -
  define b0 where "b0 = HFT_JOURNAL E OrderSubmitted k 0 0 (side_u8 Buy) b"
  have l0: "logged E b [log_event OrderSubmitted k 0 0 Buy] b0"
    using logged_event [of E b OrderSubmitted k 0 0 Buy] by (simp add: b0_def HFT_JOURNAL_eq)
  have b0: "max_order_id b0 = max_order_id b" "order_map b0 = order_map b" "slab b0 = slab b"
    by (simp_all add: b0_def HFT_JOURNAL_eq)
  let ?x = "order_map b ! unat k"
  note unf = c [unfolded cancel_order_impl_def b0_def [symmetric], simplified Let_def]
  show ?thesis
  proof (cases "?x = INVALID_INDEX")
    case True
    then have "b' = HFT_JOURNAL_REASON E OrderRejected k 0 0 (side_u8 Buy) (reason_u8 CancelFailed) b0"
      using unf k by (auto simp: b0 bind_eq_Some_conv vec_get_Some_iff)
    then show ?thesis using logged_trans [OF l0 logged_reject [of E b0 k 0 0 Buy CancelFailed]] True by simp
  next
    case False
    let ?o = "slot (slab b) ?x"
    let ?i = "unat (o_price ?o - min_price b0)"
    obtain b1 om p where u: "(if side_u8 s = side_u8 Buy then do {
          (l, b) \<leftarrow> level_remove Buy ?x ?i b0;
          if level_is_empty l then retire_bid E (o_price ?o) ?i b else Some b
        } else do {
          (l, b) \<leftarrow> level_remove Sell ?x ?i b0;
          if level_is_empty l then retire_ask E (o_price ?o) ?i b else Some b
        }) = Some b1"
      "b' = HFT_JOURNAL E OrderCancelled k (o_price ?o) 0 (side_u8 s) (b1\<lparr>order_map := om, order_pool := p, active_count := active_count b1 - 1\<rparr>)"
      using unf k False s [OF False]
      by (auto simp: b0 bind_eq_Some_conv vec_get_Some_iff slot_def [symmetric] split del: if_split cong: if_cong)
    then have "unlink_order E s ?x (o_price ?o) ?i b0 = Some b1" by (cases s) (simp_all add: unlink_order_def)
    then have "journal b1 = journal b0" by (rule unlink_journal)
    then have "logged E b0 [log_event OrderCancelled k (o_price ?o) 0 s] b'"
      by (simp add: u(2) logged_def HFT_JOURNAL_eq HFT_JOURNAL_REASON_def log_record_def log_event_def)
    from logged_trans [OF l0 this] show ?thesis using False by simp
  qed
qed

lemma cancel_logged:
  assumes br: "book_rel E b q F" and d: "distinct (book_ids (book_abs b))" and c: "cancel_order_impl E k b = Some (r, b')"
  shows "logged E b (cancel_log (cfg_of b) k (book_abs b)) b'"
proof (cases "k = 0 \<or> unat k > max_order_id b")
  case True
  have "logged E b [log_event OrderSubmitted k 0 0 Buy, reject_event k 0 0 Buy OutOfBoundsOrderId] b'"
    using c True logged_trans [OF logged_event [of E b OrderSubmitted k 0 0 Buy] logged_reject [of E _ k 0 0 Buy OutOfBoundsOrderId]]
    by (auto simp: cancel_order_impl_def Let_def HFT_JOURNAL_eq)
  then show ?thesis using True by (simp add: cancel_log_def cfg_of_def)
next
  case False
  then have k: "k \<noteq> 0" "unat k \<le> max_order_id b" by auto
  note co = book_relE(1) [OF br]
  let ?x = "order_map b ! unat k"
  show ?thesis
  proof (cases "?x = INVALID_INDEX")
    case True
    then have "k \<notin> set (book_ids (book_abs b))" using mapped_iff [OF co, of k] k by auto
    with cancel_steps [OF c k, of Buy] True cancel_log_miss [of k "book_abs b" "cfg_of b"] k
    show ?thesis by (simp add: cfg_of_def)
  next
    case False
    have "unat k < length (order_map b)" using k book_relE(3) [OF br] by (simp add: geometry_def)
    then have x: "?x \<in> set (live q)" "o_id (slot (slab b) ?x) = k"
      using co False by (auto simp: core_def map_rel_def unat_inj_iff)
    obtain s i ys zs where p: "i < range_of b" "q s ! i = ys @ ?x # zs" "o_side (slot (slab b) ?x) = side_u8 s"
      using live_place [OF co x(1)] by blast
    have "?x \<in> set (concat (q s))" using nth_in_concat [of i "q s" ?x] core_slots(4) [OF co p(1), of s] p by simp
    then have "rest_of (slab b) ?x \<in> set (resting s (book_abs b))"
      unfolding book_abs_resting [OF co] by (simp add: abs_side_def side_seq_set del: side_seq.simps)
    from cancel_log_hit [OF d this _ k(1), of "cfg_of b"] cancel_steps [OF c k p(3)] x(2) False k(2)
    show ?thesis by (simp add: cfg_of_def rest_of_def)
  qed
qed

section \<open>Order entry\<close>

lemma add_reject_logged:
  assumes br: "book_rel E b q F" and ty: "type \<noteq> Cancel" and r: "spec_check (cfg_of b) k type px qty side (book_abs b) = Some r"
    and a: "add_order_body ignore_book E k type px qty side b = Some (res, b')"
  shows "logged E b [reject_event k (if r = MarketOnEmptyBook then 0 else px) qty side r] b'"
proof -
  have "add_order_body ignore_book E k type px qty side b = Some (mk_result r 0 [],
      HFT_JOURNAL_REASON E OrderRejected k (if r = MarketOnEmptyBook then 0 else px) qty (side_u8 side) (reason_u8 r) b)"
    using r ty add_order_guards(1) [OF br, of side] add_order_guards(2) [OF br, of k] mapped_iff [OF book_relE(1) [OF br], of k]
    unfolding add_order_body_def spec_check_def
    by (auto simp: cfg_of_def simp del: side_u8.simps reason_u8.simps split: if_splits)
  then show ?thesis using a by (simp add: logged_reject)
qed

lemma submit_steps:
  assumes br: "book_rel E b q F" and ty: "type \<noteq> Cancel" and r: "spec_check (cfg_of b) k type px qty side (book_abs b) = None"
    and a: "add_order_body ignore_book E k type px qty side b = Some (res, b')"
  obtains q' b1 ts where
    "match_order_direct ignore_book E side k (limit_of type side px) qty (HFT_JOURNAL E OrderSubmitted k px qty (side_u8 side) b) = Some (q', b1, ts)"
    "if q' = 0 \<or> type = Market then b' = b1 else \<exists>r. rest_order E k px q' side b1 = Some (r, b')"
proof -
  have nc: "qty \<noteq> 0" "k \<noteq> 0" "unat k \<le> max_order_id b" "order_map b ! unat k = INVALID_INDEX"
      "\<not> (type = Limit \<and> (px < min_price b \<or> max_price b < px))"
      "\<not> (type = Market \<and> (if side = Buy then \<not> has_asks b else \<not> has_bids b))"
    using r mapped_iff [OF book_relE(1) [OF br], of k] unfolding add_order_guards(1) [OF br]
    by (auto simp: spec_check_def cfg_of_def split: if_splits)
  have "do {
      (remaining_qty, b, ts) \<leftarrow> match_order_direct ignore_book E side k (limit_of type side px) qty (HFT_JOURNAL E OrderSubmitted k px qty (side_u8 side) b);
      if remaining_qty > 0 then
        if type = Market then Some (mk_result Accepted (qty - remaining_qty) ts, b)
        else do {
          (r, b) \<leftarrow> rest_order E k (limit_of type side px) remaining_qty side b;
          Some (mk_result r (qty - remaining_qty) ts, b)
        }
      else Some (mk_result Accepted (qty - remaining_qty) ts, b) } = Some (res, b')"
    using a ty add_order_guards(2) [OF br nc(3)] nc unfolding add_order_body_def Let_def limit_of_def
    by (simp only: if_False simp_thms not_le [symmetric] Option.bind.bind_lunit)
  then obtain q' b1 ts where m: "match_order_direct ignore_book E side k (limit_of type side px) qty (HFT_JOURNAL E OrderSubmitted k px qty (side_u8 side) b) = Some (q', b1, ts)"
    and t: "(if q' > 0 then
        if type = Market then Some (mk_result Accepted (qty - q') ts, b1)
        else do {
          (r, b) \<leftarrow> rest_order E k (limit_of type side px) q' side b1;
          Some (mk_result r (qty - q') ts, b)
        }
      else Some (mk_result Accepted (qty - q') ts, b1)) = Some (res, b')"
    by (auto simp: bind_eq_Some_conv split del: if_split)
  have "if q' = 0 \<or> type = Market then b' = b1 else \<exists>r. rest_order E k px q' side b1 = Some (r, b')"
    using t by (auto simp: bind_eq_Some_conv word_gt_0 limit_of_def split: if_splits)
  with m that show thesis by blast
qed

lemma add_body_logged:
  assumes br: "book_rel E b q F" and d: "distinct (book_ids (book_abs b))"
    and a: "add_order_body ignore_book E k type px qty side b = Some (res, b')"
  shows "logged E b (add_log (cfg_of b) k type px qty side (book_abs b)) b'"
proof (cases "type = Cancel")
  case True
  then show ?thesis using a cancel_logged [OF br d, of k] by (auto simp: add_order_body_def add_log_def bind_eq_Some_conv)
next
  case ty: False
  show ?thesis
  proof (cases "spec_check (cfg_of b) k type px qty side (book_abs b)")
    case (Some r)
    then show ?thesis using add_reject_logged [OF br ty Some a] ty by (simp add: add_log_def)
  next
    case None
    let ?b0 = "HFT_JOURNAL E OrderSubmitted k px qty (side_u8 side) b" and ?px = "limit_of type side px"
    obtain q' b1 ts where m: "match_order_direct ignore_book E side k ?px qty ?b0 = Some (q', b1, ts)"
      and rr: "if q' = 0 \<or> type = Market then b' = b1 else \<exists>r. rest_order E k px q' side b1 = Some (r, b')"
      by (rule submit_steps [OF br ty None a])
    have b0: "book_rel E ?b0 q F" "book_abs ?b0 = book_abs b" "cfg_of ?b0 = cfg_of b" "static ?b0 = static b"
      using journal_book_rel [OF br] by (simp_all add: HFT_JOURNAL_eq)
    obtain q1 F1 where m1: "book_rel E b1 q1 F1" "static b1 = static b" "spec_match k ?px qty side (book_abs b) = (ts, q', book_abs b1)"
      using match_order_direct_rel [OF b0(1), of side k ?px qty] m b0(2,4) by auto
    have "logged E b [log_event OrderSubmitted k px qty side] ?b0"
      using logged_event by (simp add: HFT_JOURNAL_eq)
    from logged_trans [OF this match_logged [OF b0(1) m]]
    have l1: "logged E b (log_event OrderSubmitted k px qty side #
        match_log (cfg_of b) side ?px k qty (resting (opposite side) (book_abs b))) b1" by (simp add: b0)
    show ?thesis
    proof (cases "q' = 0 \<or> type = Market")
      case True
      then show ?thesis using l1 rr None ty m1(3) by (simp add: add_log_def)
    next
      case False
      then obtain r where r: "rest_order E k px q' side b1 = Some (r, b')" using rr by auto
      have L: "type = Limit" using ty False by (cases type) auto
      have cfg: "cfg_of b1 = cfg_of b" by (rule static_cfg [OF m1(2)])
      have chk: "k \<noteq> 0" "unat k \<le> max_order_id b1" "k \<notin> set (book_ids (book_abs b))" "min_price b1 \<le> px" "px \<le> max_price b1"
        using None L cfg by (auto simp: spec_check_def cfg_of_def not_less split: if_splits)
      have "k \<notin> set (book_ids (book_abs b1))" using spec_match_ids [OF m1(3)] chk(3) by blast
      then have "order_map b1 ! unat k = INVALID_INDEX" using mapped_iff [OF book_relE(1) [OF m1(1)], of k] chk by blast
      from rest_logged [OF m1(1) chk(1,2) this chk(4,5) _ r] False
      have "logged E b1 (rest_log (cfg_of b) k px q' side (book_abs b1)) b'" by (simp add: cfg)
      from logged_trans [OF l1 this] show ?thesis using None ty m1(3) False by (simp add: add_log_def)
    qed
  qed
qed

section \<open>Calls and sessions\<close>

fun step_log :: "Config \<Rightarrow> Request \<Rightarrow> SpecBook \<Rightarrow> LogEvent list" where
  "step_log cfg (Add i ty px q s) B = add_log cfg i ty px q s B"
| "step_log cfg (CancelId i) B = cancel_log cfg i B"

fun run_log :: "Config \<Rightarrow> Request list \<Rightarrow> SpecBook \<Rightarrow> LogEvent list" where
  "run_log cfg [] B = []"
| "run_log cfg (x # xs) B = step_log cfg x B @ run_log cfg xs (snd (spec_step cfg x B))"

text \<open>The latch of the entry point is not part of what is logged.\<close>

lemma logged_latch: "logged E (b\<lparr>in_public_entry := v\<rparr>) evs b' = logged E b evs b'"
  "logged E b evs (b'\<lparr>in_public_entry := v\<rparr>) = logged E b evs b'"
  by (simp_all add: logged_def)

lemma step_logged:
  assumes ei: "engine_inv E b" and st: "engine_step E x b = Some (r, b')"
  shows "logged E b (step_log (cfg_of b) x (book_abs b)) b'"
proof -
  obtain q F where br: "book_rel E b q F" and d: "distinct (book_ids (book_abs b))" and me: "may_enter E b"
    using ei by (auto simp: engine_inv_def book_inv_def spec_inv_def)
  let ?b = "if hft_debug_tools E then b\<lparr>in_public_entry := True\<rparr> else b"
  have gate: "debug_entry_gate E name b = Some True" if "hft_debug_tools E" for name
    using me that by (simp add: may_enter_def debug_entry_gate_def)
  have b: "book_rel E ?b q F" "book_abs ?b = book_abs b" "cfg_of ?b = cfg_of b" "\<And>evs c. logged E ?b evs c = logged E b evs c"
    using br by (simp_all add: logged_latch)
  show ?thesis
  proof (cases x)
    case (Add i ty px q s)
    obtain res b1 where 1: "add_order_body ignore_book E i ty px q s ?b = Some (res, b1)" "b' = (if hft_debug_tools E then b1\<lparr>in_public_entry := False\<rparr> else b1)"
      using st gate by (auto simp: Add add_order_def add_order_with_def bind_eq_Some_conv split: if_splits)
    then show ?thesis using add_body_logged [OF b(1) _ 1(1)] d b(2-4) by (auto simp: Add logged_latch)
  next
    case (CancelId i)
    obtain res b1 where 1: "cancel_order_impl E i ?b = Some (res, b1)" "b' = (if hft_debug_tools E then b1\<lparr>in_public_entry := False\<rparr> else b1)"
      using st gate by (auto simp: CancelId cancel_order_def bind_eq_Some_conv split: if_splits)
    then show ?thesis using cancel_logged [OF b(1) _ 1(1)] d b(2-4) by (auto simp: CancelId logged_latch)
  qed
qed

lemma run_logged:
  assumes "engine_inv E b" "run (engine_step E) xs b = Some (rs, b')"
  shows "logged E b (run_log (cfg_of b) xs (book_abs b)) b'"
  using assms
proof (induction xs arbitrary: b rs)
  case (Cons x xs)
  obtain r b1 rs' where 1: "engine_step E x b = Some (r, b1)" "run (engine_step E) xs b1 = Some (rs', b')"
    using Cons.prems(2) by (auto simp: bind_eq_Some_conv)
  have 2: "engine_inv E b1" "spec_step (cfg_of b) x (book_abs b) = (r, book_abs b1)" "static b1 = static b"
    using engine_step_refines [OF Cons.prems(1), of x] 1(1) by auto
  from logged_trans [OF step_logged [OF Cons.prems(1) 1(1)] Cons.IH [OF 2(1) 1(2)]] show ?case
    by (simp add: 2(2) static_cfg [OF 2(3)])
qed (auto simp: logged_same)

lemma new_book_journal:
  "OrderBook_new E max_id max_active minp maxp = Some b \<Longrightarrow> journal b = Journal_new kJournalCapacity"
  by (auto simp: OrderBook_new_def Let_def split: if_splits)

lemma run_dump:
  assumes "OrderBook_new E max_id max_active minp maxp = Some b" "hft_debug_tools E"
    and "length (run_log (cfg_of b) xs spec_empty) < 2 ^ 64" and r: "run (engine_step E) xs b = Some (rs, b')"
  shows "journal_dump (journal b') n = (let es = log_entries E 0 (run_log (cfg_of b) xs spec_empty)
      in drop (length es - min n kJournalCapacity) es)"
proof -
  have ei: "engine_inv E b" by (rule new_engine_inv [OF assms(1)])
  let ?evs = "run_log (cfg_of b) xs spec_empty" and ?j = "Journal_new kJournalCapacity"
  have "logged E b ?evs b'" using run_logged [OF ei r] OrderBook_new_abs(1) [OF assms(1)] by simp
  then have j: "journal b' = journal_log E ?evs ?j" by (simp add: logged_def assms(2) new_book_journal [OF assms(1)])
  have "journal_rel ?j []" by (rule Journal_new_ok(2)) (simp add: kJournalCapacity_def)
  then have "journal_rel (journal_log E ?evs ?j) (log_entries E 0 ?evs)"
    using journal_log_rel [of ?j "[]" ?evs E] assms(3) by (simp add: Journal_new_def Let_def)
  moreover have "length (entries ?j) = kJournalCapacity"
  proof -
    have "bit_floor (2 ^ k) = 2 ^ k" for k by (induction k) (simp_all add: bit_floor.simps)
    from this [of 14] show ?thesis by (simp add: Journal_new_def Let_def kJournalCapacity_def)
  qed
  ultimately show ?thesis
    using journal_dump_rel [of "journal b'" "log_entries E 0 ?evs" n] assms(3) by (simp add: j Let_def)
qed

text \<open>
  C6: the journal of an instrumented book is a true and complete log. After any session on a new
  book, \<open>dump\<close> with a limit of \<open>n\<close> lines shows the last events the specification gives for the
  session's requests (as many as asked for and as the ring holds, 16384), in order, each with
  its order id, price, quantity, side, reject reason and timestamp, and nothing else.
\<close>

theorem journal_is_log:
  assumes "OrderBook_new E max_id max_active minp maxp = Some b" "hft_debug_tools E"
    and "length (run_log (cfg_of b) xs spec_empty) < 2 ^ 64"
  shows "\<exists>rs b'. run (engine_step E) xs b = Some (rs, b') \<and>
    journal_dump (journal b') n = (let es = log_entries E 0 (run_log (cfg_of b) xs spec_empty)
      in drop (length es - min n kJournalCapacity) es)"
  using eng.run_refines [OF new_engine_inv [OF assms(1)]] run_dump [OF assms] by blast

theorem journal_is_log_witness:
  "\<exists>rs b'. run (engine_step E_audit) [Add 1 Limit 50 5 Sell, Add 2 Limit 60 3 Buy] (sample_book E_audit) = Some (rs, b') \<and>
    map (\<lambda>e. (journal_event_name (e_event e), e_id e, e_timestamp e)) (journal_dump (journal b') 3) =
      [(''REST'', 1, 3), (''SUBMIT'', 2, 4), (''TRADE'', 2, 5)]"
proof -
  let ?xs = "[Add 1 Limit 50 5 Sell, Add 2 Limit 60 3 Buy]"
  have l: "run_log (cfg_of (sample_book E_audit)) ?xs spec_empty =
      [log_event OrderSubmitted 1 50 5 Sell, log_event BestAskChanged 0 50 0 Sell, log_event OrderRested 1 50 5 Sell,
       log_event OrderSubmitted 2 60 3 Buy, log_event TradeExecuted 2 50 3 Buy]"
    by (simp add: sample_cfg add_log_def rest_log_def spec_eval best_event_def trade_event_def)
  have dbg: "hft_debug_tools E_audit" by simp
  have len: "length (run_log (cfg_of (sample_book E_audit)) ?xs spec_empty) < 2 ^ 64" unfolding l by simp
  have t: "debug_timestamp E_audit k = of_nat (Suc k)" for k by (simp add: debug_timestamp_def E_audit_def)
  obtain rs b' where r: "run (engine_step E_audit) ?xs (sample_book E_audit) = Some (rs, b')"
    and d: "journal_dump (journal b') 3 = (let es = log_entries E_audit 0 (run_log (cfg_of (sample_book E_audit)) ?xs spec_empty)
      in drop (length es - min 3 kJournalCapacity) es)"
    using journal_is_log [OF sample_new dbg len, of 3] by blast
  have "map (\<lambda>e. (journal_event_name (e_event e), e_id e, e_timestamp e)) (journal_dump (journal b') 3) =
      [(''REST'', 1, 3), (''SUBMIT'', 2, 4), (''TRADE'', 2, 5)]"
    unfolding d l by (simp add: log_event_def Let_def kJournalCapacity_def journal_event_name_def t)
  with r show ?thesis by (intro exI conjI)
qed

text \<open>What a byte of an entry can be: an enumerator of its type, and no reason but for a rejection.\<close>

definition entry_typed :: "JournalEntry \<Rightarrow> bool" where
  "entry_typed e \<longleftrightarrow> (\<exists>ev r s. e_event e = event_u8 ev \<and> e_reason e = reason_u8 r \<and> e_side e = side_u8 s) \<and> e_pad e = 0 \<and>
     (e_reason e \<noteq> 0 \<longrightarrow> e_event e = event_u8 OrderRejected)"

definition event_typed :: "LogEvent \<Rightarrow> bool" where
  "event_typed e \<longleftrightarrow> (l_reason e \<noteq> Accepted \<longrightarrow> l_event e = OrderRejected)"

lemma typed_events [simp]: "event_typed (log_event ev i px q s)" "event_typed (reject_event i px q s r)"
  "event_typed (trade_event s t x q)" "event_typed (filled_event s x)" "event_typed (best_event s px)"
  by (simp_all add: event_typed_def log_event_def reject_event_def trade_event_def filled_event_def best_event_def)

lemma typed_match: "list_all event_typed (match_log cfg s px t q rs)"
  by (induction rs arbitrary: q) (auto simp: best_moved_def split: list.splits)

lemma typed_step: "list_all event_typed (step_log cfg x B)"
  by (cases x) (auto simp: add_log_def cancel_log_def rest_log_def typed_match split: option.splits list.splits prod.splits)

lemma log_record_typed:
  assumes "list_all entry_typed (entries j)" "event_typed e"
  shows "list_all entry_typed (entries (log_record E e j))"
proof -
  have "entry_typed (recorded E (l_event e) i px q (side_u8 (l_side e)) (reason_u8 (l_reason e)) n)" for i px q n
    unfolding entry_typed_def
  proof (intro conjI)
    show "\<exists>ev r s. e_event (recorded E (l_event e) i px q (side_u8 (l_side e)) (reason_u8 (l_reason e)) n) = event_u8 ev \<and>
        e_reason (recorded E (l_event e) i px q (side_u8 (l_side e)) (reason_u8 (l_reason e)) n) = reason_u8 r \<and>
        e_side (recorded E (l_event e) i px q (side_u8 (l_side e)) (reason_u8 (l_reason e)) n) = side_u8 s"
      by (intro exI [of _ "l_event e"] exI [of _ "l_reason e"] exI [of _ "l_side e"]) simp
  qed (use assms(2) in \<open>cases "l_reason e = Accepted"; simp add: event_typed_def\<close>)+
  then show ?thesis using assms(1) set_update_subset_insert by (fastforce simp: log_record_def journal_record_def list_all_iff)
qed

lemma journal_log_typed:
  "list_all entry_typed (entries j) \<Longrightarrow> list_all event_typed evs \<Longrightarrow> list_all entry_typed (entries (journal_log E evs j))"
  by (induction evs arbitrary: j) (auto intro: log_record_typed)

lemma event_name_known: "journal_event_name (event_u8 ev) \<noteq> ''?''"
  by (cases ev) (simp_all add: journal_event_name_def)

lemma reachable_typed: "reachable D b \<Longrightarrow> list_all entry_typed (entries (journal b))"
proof (induction rule: reachable.induct)
  case (built E max_id max_active minp maxp b)
  have "entry_typed JournalEntry_zero"
    unfolding entry_typed_def JournalEntry_zero_def
    by (auto intro!: exI [of _ OrderSubmitted] exI [of _ Accepted] exI [of _ Buy])
  then show ?case using new_book_journal [OF built(1)] by (simp add: Journal_new_def Let_def list_all_iff)
next
  case (called b E x r b')
  show ?case
  proof (cases "may_enter E b")
    case True
    then have "logged E b (step_log (cfg_of b) x (book_abs b)) b'"
      using step_logged [OF reachable_engine called(3)] called(1,2) by blast
    then show ?thesis using called.IH typed_step by (auto simp: logged_def intro: journal_log_typed)
  next
    case False
    then show ?thesis using refused_unchanged [OF _ _ called(3)] called.IH by (auto simp: may_enter_def)
  qed
qed

lemma reachable_journal_ok:
  assumes "reachable D b"
  shows "journal_ok (journal b)"
proof -
  obtain E where D: "D = hft_debug_tools E" using that [of "if D then E_audit else E_release"] by (cases D) simp_all
  then show ?thesis using reachable_inv(1) [OF assms, of E] by (auto simp: book_inv_def book_rel_def core_def)
qed

text \<open>
  C22: the bytes of the journal are well typed. In every reachable book each entry of the ring,
  written or not, has the bytes of a \<open>JournalEvent\<close>, a \<open>RejectReason\<close> and a \<open>Side\<close>, a reason only
  when it records a rejection, a zero pad byte, and an event \<open>dump\<close> has a name for.
\<close>

theorem journal_well_typed:
  assumes "reachable D b" "e \<in> set (entries (journal b))"
  shows "entry_typed e \<and> journal_event_name (e_event e) \<noteq> ''?''"
proof -
  have "entry_typed e" using reachable_typed [OF assms(1)] assms(2) by (simp add: list_all_iff)
  moreover obtain ev where "e_event e = event_u8 ev" using calculation by (auto simp: entry_typed_def simp del: event_u8.simps)
  ultimately show ?thesis using event_name_known by metis
qed

theorem journal_well_typed_witness:
  "JournalEntry_zero \<in> set (entries (journal (sample_book E_audit))) \<and> entry_typed JournalEntry_zero"
proof -
  have "bit_floor kJournalCapacity \<noteq> 0" using bit_floor_pow2 [of kJournalCapacity] by (auto simp: kJournalCapacity_def)
  then have "JournalEntry_zero \<in> set (entries (journal (sample_book E_audit)))"
    using new_book_journal [OF sample_new, of E_audit] by (simp add: Journal_new_def Let_def kJournalCapacity_def)
  with journal_well_typed [OF sample_reachable(1) this] show ?thesis by simp
qed

section \<open>The text of the journal\<close>

text \<open>
  C21: the text of \<open>dump\<close> loses nothing. For every reachable book and every line limit, reading
  the printed lines back gives exactly the entries the ring holds, with every field of each.
\<close>

theorem dump_roundtrip:
  assumes "reachable D b"
  shows "read_dump (dump_text (journal b) n) = Some (journal_dump (journal b) n)"
proof (rule read_dump_ok)
  have "journal_at (journal b) k \<in> set (entries (journal b))" for k
    unfolding journal_at_def by (rule nth_mem, rule ring_index_less [OF reachable_journal_ok [OF assms]])
  then have "line_ok (journal_at (journal b) k)" for k
    using reachable_typed [OF assms] by (fastforce simp: list_all_iff entry_typed_def line_ok_def simp del: event_u8.simps)
  then show "list_all line_ok (journal_dump (journal b) n)" by (simp add: journal_dump_def Let_def list_all_iff)
qed

theorem dump_roundtrip_witness:
  "\<exists>b. reachable True b \<and> map e_id (journal_dump (journal b) 5) = [7, 7] \<and>
     read_dump (dump_text (journal b) 5) = Some (journal_dump (journal b) 5)"
proof -
  let ?b = "sample_book E_audit"
  have l: "run_log (cfg_of ?b) [CancelId 7] spec_empty = [log_event OrderSubmitted 7 0 0 Buy, reject_event 7 0 0 Buy CancelFailed]"
    by (simp add: sample_cfg cancel_log_def spec_eval)
  obtain r b' where st: "engine_step E_audit (CancelId 7) ?b = Some (r, b')"
    using engine_step_refines [OF new_engine_inv [OF sample_new], of E_audit "CancelId 7"] by blast
  then have rn: "run (engine_step E_audit) [CancelId 7] ?b = Some ([r], b')" by simp
  have "map e_id (journal_dump (journal b') 5) = [7, 7]"
    unfolding run_dump [OF sample_new _ _ rn, of 5, unfolded l, simplified]
    by (simp add: reject_event_def log_event_def kJournalCapacity_def Let_def)
  moreover have "reachable (hft_debug_tools E_audit) b'" by (rule reachable.called [OF sample_reachable(1) refl st])
  moreover have "hft_debug_tools E_audit" by simp
  ultimately show ?thesis using dump_roundtrip [of True b' 5] by auto
qed

section \<open>Best prices that move without an event\<close>

text \<open>
  \<open>BestAskChanged\<close> is documented as the transition of the best ask. A taker that drains the best
  level when the next tick is populated moves the best price and logs no such event; neither
  does a cancellation.
\<close>

lemma best_move_not_logged:
  "step_log \<lparr>cfg_max_id = 100, cfg_capacity = 8, cfg_min = 1, cfg_max = 1000\<rparr> (Add 3 Limit 50 5 Buy)
     \<lparr>spec_bids = [], spec_asks = [\<lparr>rid = 1, rprice = 50, rqty = 5\<rparr>, \<lparr>rid = 2, rprice = 51, rqty = 5\<rparr>]\<rparr> =
   [log_event OrderSubmitted 3 50 5 Buy, log_event TradeExecuted 3 50 5 Buy, log_event MakerFilled 1 50 0 Sell]"
  by (simp add: add_log_def spec_eval best_moved_def next_tick_def trade_event_def filled_event_def)

lemma cancel_logs_no_best:
  assumes "e \<in> set (cancel_log cfg i B)"
  shows "l_event e \<noteq> BestBidChanged \<and> l_event e \<noteq> BestAskChanged"
  using assms by (auto simp: cancel_log_def log_event_def reject_event_def split: if_splits option.splits)

end
