(* ===== verification/Book_Move.thy ===== *)
theory Book_Move
  imports Lifecycle Engine_Samples
begin

text \<open>
  Moving a book. The move constructors of \<open>OrderBook\<close>, \<open>MemoryPool\<close> and \<open>Journal\<close> are the defaulted,
  memberwise ones: a vector hands its elements over and is left empty (which the standard
  guarantees of a constructed vector), a number or a flag is copied and keeps its value in the
  source.
\<close>

section \<open>Memberwise moves\<close>

definition Journal_move :: "Journal \<Rightarrow> Journal \<times> Journal" where
  "Journal_move j = (j, j\<lparr>entries := []\<rparr>)"

definition MemoryPool_move :: "MemoryPool \<Rightarrow> MemoryPool \<times> MemoryPool" where
  "MemoryPool_move p = (p, p\<lparr>pool := [], allocated := [], slot_state := [], slot_generation := []\<rparr>)"

text \<open>The new book and what is left of the old one.\<close>

definition OrderBook_move :: "OrderBook \<Rightarrow> OrderBook \<times> OrderBook" where
  "OrderBook_move b =
     (let (p1, p0) = MemoryPool_move (order_pool b);
          (j1, j0) = Journal_move (journal b)
      in (b\<lparr>order_pool := p1, journal := j1\<rparr>,
          b\<lparr>bids_bitset := [], asks_bitset := [], bids_summary := [], asks_summary := [], bids_levels := [], asks_levels := [],
            order_map := [], order_pool := p0, journal := j0\<rparr>))"

section \<open>The new book and the old\<close>

lemma move_new: "OrderBook_move b = (b1, b0) \<Longrightarrow> b1 = b"
  by (auto simp: OrderBook_move_def MemoryPool_move_def Journal_move_def)

lemma move_old:
  assumes "OrderBook_move b = (b1, b0)"
  shows "order_map b0 = []" "max_order_id b0 = max_order_id b" "active_count b0 = active_count b"
    "has_bids b0 = has_bids b" "has_asks b0 = has_asks b" "live_count (order_pool b0) = live_count (order_pool b)"
  using assms by (auto simp: OrderBook_move_def MemoryPool_move_def Journal_move_def)

text \<open>
  What a move leaves. The new book is the old one in every respect, so every session
  continues on it unchanged, and a reachable book stays reachable. The old object still claims the orders
  it no longer has: in the release build a call on it is refused when its quantity or its id is out of
  bounds and has undefined behaviour in every other case, for it indexes an empty map; in the
  instrumented builds its destructor reports the orders as leaked, exactly when the new book
  holds any.
\<close>

theorem moved_book:
  assumes "OrderBook_move b = (b1, b0)"
  shows "run (engine_step E) xs b1 = run (engine_step E) xs b \<and> (reachable D b \<longrightarrow> reachable D b1) \<and>
    active_order_count b0 = active_order_count b \<and>
    (\<not> hft_debug_tools E \<longrightarrow>
      cancel_order E i b0 = (if i = 0 \<or> unat i > max_order_id b then Some (OutOfBoundsOrderId, b0) else None) \<and>
      (ty \<noteq> Cancel \<longrightarrow> add_order E i ty px q s b0 =
        (if q = 0 then Some (mk_result InvalidQuantity 0 [], b0)
         else if i = 0 \<or> unat i > max_order_id b then Some (mk_result OutOfBoundsOrderId 0 [], b0) else None))) \<and>
    (hft_debug_tools E \<and> reachable True b \<longrightarrow>
      (leak_reported E True (order_pool b0) \<longleftrightarrow> book_size (book_abs b1) \<noteq> 0))"
proof -
  note n = move_new [OF assms] and o = move_old [OF assms]
  have c: "cancel_order E i b0 = (if i = 0 \<or> unat i > max_order_id b then Some (OutOfBoundsOrderId, b0) else None)"
    if "\<not> hft_debug_tools E"
    using that o by (simp add: cancel_order_def cancel_order_impl_def vec_get_def Let_def HFT_JOURNAL_def HFT_JOURNAL_REASON_def)
  have a: "add_order E i ty px q s b0 = (if q = 0 then Some (mk_result InvalidQuantity 0 [], b0)
         else if i = 0 \<or> unat i > max_order_id b then Some (mk_result OutOfBoundsOrderId 0 [], b0) else None)"
    if "\<not> hft_debug_tools E" "ty \<noteq> Cancel"
    using that o by (simp add: add_order_def add_order_with_def add_order_body_def vec_get_def HFT_JOURNAL_def HFT_JOURNAL_REASON_def)
  have l: "leak_reported E True (order_pool b0) \<longleftrightarrow> book_size (book_abs b) \<noteq> 0" if "hft_debug_tools E" "reachable True b"
    using leak_report_iff [of E b] that o(6) reachable_inv(1) [OF that(2), of E] by (simp add: leak_reported_def)
  show ?thesis using n o c a l by (auto simp: active_order_count_def)
qed

theorem moved_book_witness:
  "\<exists>b1 b0. OrderBook_move (sample_book E_release) = (b1, b0) \<and> reachable False b1 \<and> cancel_order E_release 101 b0 = Some (OutOfBoundsOrderId, b0) \<and>
     cancel_order E_release 7 b0 = None \<and> add_order E_release 7 Limit 50 3 Buy b0 = None"
proof -
  obtain b1 b0 where m: "OrderBook_move (sample_book E_release) = (b1, b0)" by fastforce
  have x: "max_order_id (sample_book E_release) = 100" using sample_cfg [of E_release] by (simp add: cfg_of_def)
  have r: "reachable False (sample_book E_release)" using sample_reachable(1) [of E_release] by simp
  have "reachable False b1" using moved_book [OF m, where D = False] r by blast
  moreover have "cancel_order E_release 101 b0 = Some (OutOfBoundsOrderId, b0)"
    using moved_book [OF m, where E = E_release and i = 101] x by simp
  moreover have "cancel_order E_release 7 b0 = None" "add_order E_release 7 Limit 50 3 Buy b0 = None"
    using moved_book [OF m, where E = E_release and i = 7 and ty = Limit and px = 50 and q = 3 and s = Buy] x by simp_all
  ultimately show ?thesis using m by blast
qed

end
