(* ===== verification/Spec2Isabelle.thy ===== *)
theory Spec2Isabelle
  imports Book_Properties Component_Properties Diagnostics Unit_Tests Market_Simulation Latency_Main Book_Log Book_Move
begin

text \<open>
  Verification of the HFT matching engine: a C++20 limit order book in \<open>src/src/\<close>, its reference
  book in \<open>src/tests/StdOrderBook.h\<close> and its tools in \<open>src/tools/\<close>.

  \<^bold>\<open>The program.\<close> \<open>OrderBook\<close> (\<open>OrderBook.h\<close>, \<open>OrderBook.cpp\<close>) keeps the resting orders of one
  instrument. Orders live in a slot pool (\<open>MemoryPool.h\<close>) addressed by 32-bit indices. Each
  price tick of each side has an intrusive doubly linked FIFO queue with cached aggregates
  (\<open>PriceLevel.h\<close>); a two-level bitset per side marks the populated ticks; an array maps order ids
  to slots; the best price of each side is cached. \<open>add_order\<close> validates, matches against the
  opposite side in price-time priority and rests or drops the remainder; \<open>cancel_order\<close> unlinks.
  In Debug and Audit builds an entry gate refuses foreign threads and re-entrant calls, the
  pool stamps and poisons its slots, a ring journal (\<open>Journal.h\<close>) records events and
  \<open>validate_book\<close> audits the structure. \<open>main.cpp\<close> negotiates memory locking with the operating
  system and runs five workloads; \<open>fuzz_driver.cpp\<close> compares engine and reference book on
  scripts decoded from bytes; \<open>rdtsc_bench.cpp\<close> times six scenarios; \<open>mlock_gvisor_sim.c\<close> is a
  preload library that imitates a sandbox whose locked allocations fail. Under \<open>src/tests/\<close> a
  randomized differential test and a market simulation run both books, and scripted tests say what
  the engine must answer.

  \<^bold>\<open>Theories and the code they model.\<close>
  \<^item> \<open>HFT_Prelude\<close>: machine integers, checked vector access, lemmas on lists and words.
  \<^item> \<open>Binary64\<close>, \<open>Text_Format\<close>: \<open>double\<close> arithmetic as rationals rounded to 53 places, ties to even,
    and the \<open>printf\<close> conversions in use; monotonicity, exactness on integers, error bounds.
  \<^item> \<open>Order_Types\<close>: \<open>Order.h\<close>, the result codes and trades of \<open>OrderBook.h\<close>, the build flavor and
    the process environment (\<open>Env\<close>: \<open>NDEBUG\<close>, \<open>HFT_AUDIT_MODE\<close>, fault handlers, calling thread,
    cycle counter).
  \<^item> \<open>Memory_Pool\<close>, \<open>Price_Level\<close>, \<open>Price_Bitset\<close>, \<open>Journal\<close>: one component each, its record, one
    definition per operation, its representation invariant and the laws of its operations. Their
    interfaces are the locales \<open>lifo_pool\<close>, \<open>fifo_level\<close> and \<open>tick_set\<close>; the bitset operations are
    inlined at several places of \<open>OrderBook.h\<close>.
  \<^item> \<open>Order_Layout\<close>: the 24 bytes of an order slot, and that the pool's \<open>memcpy\<close>, \<open>memset\<close> and byte
    comparisons on them are the field updates of \<open>Memory_Pool\<close>.
  \<^item> \<open>Order_Book\<close>: the state and every operation of class \<open>OrderBook\<close>, split where the source has
    loops and branches: \<open>fill_level\<close> (\<open>consume_level\<close>, \<open>partial_fill\<close>), \<open>advance_best_ask\<close> and
    \<open>advance_best_bid\<close>, \<open>match_buy_loop\<close> and \<open>match_sell_loop\<close> (\<open>match_order_direct\<close>),
    \<open>cancel_order_impl\<close>, \<open>rest_order\<close>, \<open>add_order_body\<close>, and the gated entry points \<open>add_order\<close> and
    \<open>cancel_order\<close>. The trade callback is an argument of the matching functions (\<open>Callback\<close>): it gets
    the book as it is when the source calls it. \<open>add_order_with\<close> is the call with any callback,
    \<open>add_order\<close> the one with the callback that only takes the trades.
  \<^item> \<open>Order_Callbacks\<close>: looking at the book from a callback changes nothing, and what a callback sees
    of the entry latch.
  \<^item> \<open>Book_Spec\<close>: the abstract contract, two priority-ordered lists of resting orders with \<open>spec_add\<close>
    and \<open>spec_cancel\<close>, and its own laws (conservation, priority, never crossed).
  \<^item> \<open>Log_Spec\<close>: the log the specification gives for a request, event by event.
  \<^item> \<open>Book_Inv\<close>, \<open>Level_Fill\<close>, \<open>Book_Match\<close>, \<open>Book_Refine\<close>: the representation relation between
    the engine's arrays and the specification, and the simulation. The two matching loops share
    the locale \<open>match_side\<close>, interpreted for each side.
  \<^item> \<open>Engine_Runs\<close>, \<open>Engine_Samples\<close>: sessions of requests, the locale \<open>matching_engine\<close> (what it
    takes to implement the specification) with the engine as an instance in each flavor, the
    inductive set of reachable books, and sample books for the witnesses.
  \<^item> \<open>Book_Access\<close>: what the accessors and the matching loops' bounds say of the abstract book.
  \<^item> \<open>Journal_Text\<close>, \<open>Book_Log\<close>: the text of \<open>Journal::dump\<close> and a reader of it; the proof that the
    journal of an instrumented book is the specification's log (locale \<open>logged_side\<close>, which
    extends \<open>match_side\<close>, for both matching loops).
  \<^item> \<open>Book_Audit\<close>: \<open>validate_book\<close>, what a passing audit guarantees, and that reachable books pass.
  \<^item> \<open>Diagnostics\<close>: what the audit, the constructor's validation and the pool's leak report write to \<open>stderr\<close>.
  \<^item> \<open>Std_Order_Book\<close>, \<open>Std_Refine\<close>: the reference book on ordered lists of nodes, and its
    refinement of the same specification; a second instance of \<open>matching_engine\<close>.
  \<^item> \<open>Fuzz_Driver\<close>: agreement of the two books, and \<open>fuzz_driver.cpp\<close>.
  \<^item> \<open>Differential_Test\<close>, \<open>Market_Simulation\<close>: \<open>test_differential_fuzz.cpp\<close> with every assertion it makes, and
    \<open>real_world_sim.cpp\<close> with its event stream and the totals of both replays.
  \<^item> \<open>Unit_Tests\<close>: the scripted tests of \<open>test_orderbook_correctness.cpp\<close> and \<open>test_ob.cpp\<close> as data, run on
    the engine.
  \<^item> \<open>Memory_Locking\<close>: \<open>prepare_memory_locking\<close> over a record of system calls, the locale \<open>lock_host\<close>
    for what a host promises, and the simulator as an instance on top of any host.
  \<^item> \<open>Session_Laws\<close>, \<open>Demo_Program\<close>, \<open>Latency_Bench\<close>: laws of the specification on workloads, the
    program of \<open>main.cpp\<close> with everything it prints, and the workloads of \<open>rdtsc_bench.cpp\<close>.
  \<^item> \<open>Latency_Report\<close>, \<open>Latency_Main\<close>: the cycle counter and its fallback, the calibration, the
    percentile report, and the program of \<open>rdtsc_bench.cpp\<close> with everything it prints. The
    hardware counter and the clocks are parameters (\<open>Clocks\<close>), the two places where the compiler
    chooses an order of evaluation are arguments.
  \<^item> \<open>Lifecycle\<close>, \<open>Book_Move\<close>: the page pre-touch of the constructors, the handler registries, the leak
    report, and what the move of a book leaves behind.
  \<^item> \<open>Book_Properties\<close>, \<open>Component_Properties\<close>: the theorems on the book and on its parts.

  \<^bold>\<open>What the theorems show.\<close> From every reachable book both calls return and behave as the
  specification says, for sessions of any length and every flavor (\<open>add_order_correct\<close>,
  \<open>cancel_order_correct\<close>, \<open>session_correct\<close>, \<open>flavors_agree\<close>); the reference book does too, so the
  two agree (\<open>std_engine_agree\<close>): the fuzz driver cannot trap (\<open>fuzz_driver_never_traps\<close>), no assertion of
  the differential test can fail (\<open>differential_test_passes\<close>), and the market simulation counts the same
  trades on both (\<open>simulation_agrees\<close>). The engine passes the repository's scripted tests
  (\<open>unit_tests_pass\<close>), which also tests the model itself against what its authors expect. The
  structure is sound in every reachable state (\<open>reachable_book_inv\<close>), passes its own audit
  (\<open>reachable_passes_audit\<close>), the audit means what it says (\<open>audit_sound\<close>) and says what it finds
  (\<open>audit_diagnostics\<close>); the constructor's diagnostics are distinct and complete
  (\<open>constructor_diagnostics\<close>). From these follow
  the trading guarantees (uncrossed book, conservation, limits, price-time priority, round
  trips), the error behaviour (no effect when refused, exact pool exhaustion), the gate, which
  refuses foreign threads and whatever a trade callback asks of the book it finds (\<open>gate_blocks\<close>), the
  accessors, and the bound on the matching loops (\<open>matching_terminates\<close>). Pool, level, bitset
  and journal have their own contracts. The journal is a true and complete log of the session
  (\<open>journal_is_log\<close>), well typed (\<open>journal_well_typed\<close>), and its text loses nothing
  (\<open>dump_roundtrip\<close>); the byte operations on slots are the field updates (\<open>slot_bytes_refine\<close>). The lock negotiation heals under the simulator, the
  demo workloads do what they announce down to the counts of the mixed one (\<open>demo_workloads\<close>), the
  outcomes of the latency scenarios are exact, relative to the generator's draws in churn and mixed
  (\<open>latency_scenarios\<close>, \<open>insert_scenario_overruns\<close>), and the page-touch loop covers exactly the aligned case. The
  latency program runs to its end (\<open>bench_main_returns\<close>), measures without disturbing the session
  (\<open>timing_transparent\<close>), calibrates to a relative error of \<open>2^-50\<close> (\<open>calibration_accurate\<close>),
  reports ordered percentiles (\<open>report_ordered\<close>), and its output on the synthetic counter is
  computed in full (\<open>synthetic_output\<close>).

  \<^bold>\<open>Conventions.\<close> A result \<open>None\<close> is a call that does not return normally: an abort, an access
  outside a vector, or a loop out of fuel. Totality is proved, not assumed: the theorems state
  \<open>Some\<close>. Fuel is one unit per slot for walks over a level's queue, one per tick and one to stop
  for the matching loops, \<open>capacity + 1\<close> for the audit's walks and the pool's free-list walks;
  each suffices because the walks never meet a slot twice. The calibration's polling loop, which has no
  bound in the source, is a partial function; it returns when the clock reaches 50 ms. The
  reader of the journal's text has one unit per character, and every line takes one at least. Sizes and array indices (\<open>size_t\<close>)
  are natural numbers, every other integer keeps its width and wraps. Trades are the values
  handed to the callback, in order. A callback is a function of the trade and of the book it finds:
  in the instrumented builds a call it makes on that book is refused and leaves it as it is, so
  looking is all it can do; in the release build a callback that calls back into the book breaks the
  documented contract and is outside the model.

  \<^bold>\<open>Not modelled.\<close> The lines the two fault paths print before they call their handler (the handler's
  argument is the text), subnormal and infinite \<open>double\<close> values (no quantity printed reaches them),
  prefetches and compiler hints of \<open>Macros.h\<close>, failing memory allocation, and concurrency beyond
  the thread check of the gate. The fallback timestamp counter is kept per journal instead of
  per process. Calls of an instrumented build on a moved-from book, which write a journal without
  storage, are outside the model, and so is move assignment, which leaves its source
  unspecified. The times and memory figures of the market simulation are the host's. Of the other
  test drivers under \<open>src/tests/\<close>, one random test checks an expectation that depends on its
  seed, and the rest sample contracts proved here for the pool, the levels, the journal, the gate
  (its two re-entrancy tests are instances of \<open>gate_blocks\<close>) and the reference book.
\<close>

end
